(* ===== verification/Prelude.thy ===== *)
theory Prelude
  imports Complex_Main "HOL-Library.Word" "HOL-Library.Multiset"
begin

text \<open>
  Shared vocabulary of the development: the ways a C++ process can stop (\<open>crash\<close>), C's
  truncating remainder and 32-bit narrowing, the bounded \<open>for\<close> loop with an early return
  that every scheduler uses, and the generic lemmas on them. The collection \<open>for_simps\<close>
  unfolds loops on closed terms, \<open>c_arith\<close> carries the arithmetic of \<open>c_rem\<close>.
\<close>

named_theorems for_simps
named_theorems c_arith

section \<open>Definitions\<close>

subsection \<open>How a C++ thread can stop abnormally\<close>

datatype crash =
    AssertFailed      \<comment> \<open>a failed \<open>assert\<close>, the process aborts\<close>
  | DivByZero         \<comment> \<open>integer \<open>%\<close> by zero, SIGFPE\<close>
  | OutOfRange        \<comment> \<open>\<open>std::vector::at\<close> or an index outside a container\<close>
  | NoMoreRows        \<comment> \<open>\<open>TableIterator::next\<close> on an empty table\<close>
  | InvalidColumn     \<comment> \<open>\<open>Row::getInt64\<close> on a column that is missing or no integer\<close>
  | Aborted           \<comment> \<open>an explicit \<open>abort()\<close>\<close>
  | InvalidArgument   \<comment> \<open>\<open>std::stoi\<close> without a number\<close>
  | Uncaught          \<comment> \<open>an exception of a library that nobody catches\<close>
  | Undefined         \<comment> \<open>behaviour that C leaves undefined (a null function pointer, a used up \<open>va_list\<close>)\<close>

text \<open>A result that may be a crash: \<open>Inl\<close> is the crash.\<close>

type_synonym 'a result = "crash + 'a"

subsection \<open>C integers\<close>

text \<open>\<open>a % b\<close> of C truncates towards zero: the sign is the sign of \<open>a\<close>.\<close>

definition c_rem :: "int \<Rightarrow> int \<Rightarrow> int" where
  "c_rem a b = sgn a * (\<bar>a\<bar> mod \<bar>b\<bar>)"

text \<open>C++ division truncates towards zero.\<close>

definition c_div :: "int \<Rightarrow> int \<Rightarrow> int" where
  "c_div a b = sgn a * sgn b * (\<bar>a\<bar> div \<bar>b\<bar>)"

text \<open>Conversion to \<open>int32_t\<close>, as the implementations of C++ on two's complement do it.\<close>

definition narrow32 :: "int \<Rightarrow> int" where
  "narrow32 x = (x + 2 ^ 31) mod 2 ^ 32 - 2 ^ 31"

subsection \<open>The for loop with an early return\<close>

text \<open>
  \<open>for_loop n i body s\<close> runs \<open>body\<close> for the \<open>n\<close> counter values \<open>i\<close>, \<open>i + 1\<close>, ...; the
  body returns \<open>Some r\<close> where the C++ body executes \<open>return r\<close> (or crashes), and
  \<open>None\<close> where it falls through to the next iteration. \<open>for_range lo hi\<close> is
  \<open>for (int i = lo; i < hi; ++i)\<close>.
\<close>

fun for_loop :: "nat \<Rightarrow> int \<Rightarrow> (int \<Rightarrow> 's \<Rightarrow> 'r option \<times> 's) \<Rightarrow> 's \<Rightarrow> 'r option \<times> 's" where
  "for_loop 0 i body s = (None, s)"
| "for_loop (Suc n) i body s =
     (case body i s of
        (Some r, s') \<Rightarrow> (Some r, s')
      | (None, s') \<Rightarrow> for_loop n (i + 1) body s')"

definition for_range :: "int \<Rightarrow> int \<Rightarrow> (int \<Rightarrow> 's \<Rightarrow> 'r option \<times> 's) \<Rightarrow> 's \<Rightarrow> 'r option \<times> 's" where
  "for_range lo hi body s = for_loop (nat (hi - lo)) lo body s"

text \<open>A client that calls an operation \<open>k\<close> times and stops at the first crash.\<close>

fun run_times :: "('s \<Rightarrow> bool result \<times> 's) \<Rightarrow> nat \<Rightarrow> 's \<Rightarrow> bool result \<times> 's" where
  "run_times f 0 s = (Inr True, s)"
| "run_times f (Suc k) s =
     (case f s of
        (Inl e, s') \<Rightarrow> (Inl e, s')
      | (Inr b, s') \<Rightarrow> run_times f k s')"

text \<open>How a loop ends: \<open>P\<close> of the state when it ran through, \<open>Q\<close> at an early return.\<close>

definition ends :: "('s \<Rightarrow> bool) \<Rightarrow> ('r \<Rightarrow> 's \<Rightarrow> bool) \<Rightarrow> 'r option \<times> 's \<Rightarrow> bool" where
  "ends P Q x = (case fst x of None \<Rightarrow> P (snd x) | Some r \<Rightarrow> Q r (snd x))"

section \<open>Lemmas\<close>

subsection \<open>The remainder and the narrowing\<close>

lemma c_rem_nonneg [c_arith]: "0 \<le> a \<Longrightarrow> 0 < b \<Longrightarrow> c_rem a b = a mod b"
  by (cases "a = 0") (auto simp: c_rem_def)

lemma c_rem_bounds [c_arith]: "0 \<le> a \<Longrightarrow> 0 < b \<Longrightarrow> 0 \<le> c_rem a b \<and> c_rem a b < b"
  by (simp add: c_rem_nonneg)

lemma c_rem_ge_0 [simp]: "0 \<le> a \<Longrightarrow> 0 \<le> c_rem a b"
  by (cases "b = 0") (auto simp: c_rem_def sgn_if)

lemma c_rem_small [c_arith]: "0 \<le> a \<Longrightarrow> a < b \<Longrightarrow> c_rem a b = a"
  by (simp add: c_rem_nonneg)

lemma narrow32_id [c_arith]: "- (2 ^ 31) \<le> x \<Longrightarrow> x < 2 ^ 31 \<Longrightarrow> narrow32 x = x"
  by (simp add: narrow32_def)

lemma narrow32_bounds: "- (2 ^ 31) \<le> narrow32 x \<and> narrow32 x < 2 ^ 31"
proof -
  have "0 \<le> (x + 2 ^ 31) mod 2 ^ 32" "(x + 2 ^ 31) mod 2 ^ 32 < (2 :: int) ^ 32"
    by simp_all
  then show ?thesis
    unfolding narrow32_def by simp
qed

subsection \<open>The loop\<close>

lemma for_range_empty [simp, for_simps]: "hi \<le> lo \<Longrightarrow> for_range lo hi body s = (None, s)"
  by (simp add: for_range_def)

lemma for_range_step [for_simps]:
  "lo < hi \<Longrightarrow> for_range lo hi body s =
     (case body lo s of
        (Some r, s') \<Rightarrow> (Some r, s')
      | (None, s') \<Rightarrow> for_range (lo + 1) hi body s')"
proof -
  assume "lo < hi"
  then have "nat (hi - lo) = Suc (nat (hi - (lo + 1)))" by simp
  then show ?thesis by (simp add: for_range_def split: prod.split option.split)
qed

text \<open>
  The Hoare rule of the loop: \<open>I j\<close> is the invariant before the iteration with counter value
  \<open>j\<close>, \<open>Q r\<close> what holds at an early return of \<open>r\<close>.
\<close>

lemma ends_simps [simp]:
  "ends P Q (None, s) = P s"
  "ends P Q (Some r, s) = Q r s"
  by (simp_all add: ends_def)

lemma ends_mono:
  "ends P Q x \<Longrightarrow> (\<And>s. P s \<Longrightarrow> P' s) \<Longrightarrow> (\<And>r s. Q r s \<Longrightarrow> Q' r s) \<Longrightarrow> ends P' Q' x"
  by (cases x; cases "fst x") auto

lemma ends_const [simp]: "ends P (\<lambda>_. P) x = P (snd x)"
  by (cases x; cases "fst x") auto

lemma for_loop_rule:
  assumes "I i s"
    and "\<And>j s. i \<le> j \<Longrightarrow> j < i + int n \<Longrightarrow> I j s \<Longrightarrow> ends (I (j + 1)) Q (body j s)"
  shows "ends (I (i + int n)) Q (for_loop n i body s)"
  using assms
proof (induction n arbitrary: i s)
  case 0
  then show ?case by simp
next
  case (Suc n)
  obtain o' s' where b: "body i s = (o', s')" by fastforce
  have first: "ends (I (i + 1)) Q (body i s)" using Suc.prems by simp
  show ?case
  proof (cases o')
    case (Some r)
    with b first show ?thesis by simp
  next
    case None
    with b first have "I (i + 1) s'" by simp
    then have "ends (I (i + 1 + int n)) Q (for_loop n (i + 1) body s')"
      using Suc.prems(2) by (intro Suc.IH) simp_all
    moreover have "i + 1 + int n = i + int (Suc n)" by simp
    ultimately show ?thesis using b None by (simp only: for_loop.simps prod.case option.case)
  qed
qed

lemma for_range_rule:
  assumes "lo \<le> hi" and "I lo s"
    and "\<And>j s. lo \<le> j \<Longrightarrow> j < hi \<Longrightarrow> I j s \<Longrightarrow> ends (I (j + 1)) Q (body j s)"
  shows "ends (I hi) Q (for_range lo hi body s)"
proof -
  have eq: "lo + int (nat (hi - lo)) = hi" using assms(1) by simp
  have "ends (I (lo + int (nat (hi - lo)))) Q (for_loop (nat (hi - lo)) lo body s)"
    using assms by (intro for_loop_rule) simp_all
  then show ?thesis by (simp only: eq for_range_def)
qed

text \<open>A property of the state that every iteration keeps holds at the end, however it ends.\<close>

lemma for_range_keeps:
  assumes "P s" and "\<And>j s. P s \<Longrightarrow> P (snd (body j s))"
  shows "P (snd (for_range lo hi body s))"
proof (cases "lo \<le> hi")
  case True
  then have "ends P (\<lambda>_. P) (for_range lo hi body s)"
    using assms by (intro for_range_rule [where I = "\<lambda>_. P"]) simp_all
  then show ?thesis by simp
next
  case False
  then show ?thesis using assms(1) by simp
qed

lemma update_differs: "k < length xs \<Longrightarrow> x \<noteq> xs ! k \<Longrightarrow> xs[k := x] \<noteq> xs"
  by (metis nth_list_update_eq)

text \<open>An operation that uses up one of \<open>m\<close> units and crashes when there is none left.\<close>

lemma run_times_count:
  assumes "\<And>s m j. I j m s \<Longrightarrow> 0 < m \<Longrightarrow> j < bound \<Longrightarrow> \<exists>s'. f s = (Inr True, s') \<and> I (Suc j) (m - 1) s'"
    and "\<And>s m j. I j m s \<Longrightarrow> m \<le> 0 \<Longrightarrow> j < bound \<Longrightarrow> fst (f s) = Inl e"
    and "I j m s" "0 \<le> m" "j + k \<le> bound"
  shows "fst (run_times f k s) = (if int k \<le> m then Inr True else Inl e)"
  using assms(3-5)
proof (induction k arbitrary: j m s)
  case (Suc k)
  show ?case
  proof (cases "0 < m")
    case True
    with assms(1) [OF Suc.prems(1)] Suc.prems(3)
    obtain s' where "f s = (Inr True, s')" "I (Suc j) (m - 1) s'" by auto
    with Suc.IH [of "Suc j" "m - 1" s'] True Suc.prems(3) show ?thesis by auto
  next
    case False
    with assms(2) [OF Suc.prems(1)] Suc.prems(2,3) have "fst (f s) = Inl e" "\<not> int (Suc k) \<le> m" by auto
    then show ?thesis by (cases "f s") simp
  qed
qed simp

subsection \<open>Lists of distinct keys\<close>

lemma distinct_map_key_eq:
  "distinct (map f xs) \<Longrightarrow> x \<in> set xs \<Longrightarrow> y \<in> set xs \<Longrightarrow> f x = f y \<Longrightarrow> x = y"
  by (auto simp: distinct_map dest: inj_onD)

lemma distinct_singleton: "distinct xs \<Longrightarrow> set xs = {q} \<Longrightarrow> xs = [q]"
  by (cases xs; cases "tl xs") auto

text \<open>A list that is not empty has an element with the largest value.\<close>

lemma filter_max_nonempty:
  fixes f :: "'a \<Rightarrow> 'b :: linorder"
  assumes "xs \<noteq> []"
  shows "filter (\<lambda>w. \<forall>v \<in> set xs. f v \<le> f w) xs \<noteq> []"
proof -
  have "finite (f ` set xs)" "f ` set xs \<noteq> {}" using assms by simp_all
  then have "Max (f ` set xs) \<in> f ` set xs" by (rule Max_in)
  then obtain w where "w \<in> set xs" "f w = Max (f ` set xs)" by auto
  then have "w \<in> set (filter (\<lambda>w. \<forall>v \<in> set xs. f v \<le> f w) xs)" by simp
  then show ?thesis by (metis empty_iff list.set(1))
qed

text \<open>Updating the one row with a given key changes a sum by what that row changes.\<close>

lemma sum_list_update_key:
  fixes g :: "'a \<Rightarrow> int"
  assumes "distinct (map f xs)" and "x \<in> set xs"
  shows "sum_list (map (\<lambda>r. if f r = f x then g' r else g r) xs) = sum_list (map g xs) - g x + g' x"
  using assms
proof (induction xs)
  case Nil
  then show ?case by simp
next
  case (Cons y ys)
  show ?case
  proof (cases "f y = f x")
    case True
    with Cons.prems have yx: "y = x" by (auto simp: image_iff dest: sym)
    moreover have "\<forall>r\<in>set ys. f r \<noteq> f x" using Cons.prems(1) yx by (metis distinct.simps(2)
      image_eqI list.simps(9) set_map)
    then have "map (\<lambda>r. if f r = f x then g' r else g r) ys = map g ys" by simp
    ultimately show ?thesis by (simp del: map_eq_conv)
  next
    case False
    with Cons.prems have "x \<in> set ys" by auto
    with Cons False show ?thesis by simp
  qed
qed

end
