(* ===== verification/Volt_Tables.thy ===== *)
theory Volt_Tables
  imports Prelude
begin

text \<open>
  The database the schedulers and workers share: the tables of \<open>sql/create_*.sql\<close> as lists of
  rows (a table is a bag: no theorem depends on the order) and every stored procedure of
  \<open>sql/*.java\<close> as a function on them. A procedure is one serializable transaction, so it is a
  function from tables to tables; \<open>None\<close> is an aborted transaction (VoltDB rolls it back).

  SQL leaves the order of a result without \<open>ORDER BY\<close> open. The choice is the parameter \<open>ch\<close>:
  \<open>ch i n\<close> is the row that statement \<open>i\<close> of the procedure returns first among \<open>n\<close> candidates
  (taken modulo \<open>n\<close>, so that every function is an admissible choice).
\<close>

section \<open>Definitions\<close>

subsection \<open>Tables\<close>

record worker =
  w_WorkerID :: int
  w_Capacity :: int
  w_DataShards :: int
  w_PKey :: int
  w_Url :: string

record task_row =
  t_TaskID :: int
  t_WorkerID :: int
  t_State :: int
  t_PKey :: int

record message =
  m_ReceiverID :: int
  m_SenderID :: int
  m_MessageID :: int
  m_Data :: string

record tables =
  Worker :: "worker list"
  Task :: "task_row list"
  DataLocation :: "(int \<times> int) list"          \<comment> \<open>DataShard, PKey\<close>
  Message :: "message list"
  Broadcast :: "int list"
  TaskAssign :: "(int \<times> string \<times> int) list"   \<comment> \<open>the export stream: TaskID, Url, PKey\<close>

definition empty_tables :: tables where
  "empty_tables = \<lparr>Worker = [], Task = [], DataLocation = [], Message = [], Broadcast = [],
     TaskAssign = []\<rparr>"

text \<open>Task states and the status codes of the procedures.\<close>

abbreviation (input) "PENDING \<equiv> (1 :: int)"
abbreviation (input) "RUNNING \<equiv> (2 :: int)"
abbreviation (input) "COMPLETE \<equiv> (3 :: int)"
abbreviation (input) "SUCCESS \<equiv> (0 :: int)"
abbreviation (input) "NOTASK \<equiv> (- 1 :: int)"
abbreviation (input) "NOWORKER \<equiv> (- 2 :: int)"

subsection \<open>SQL statements\<close>

text \<open>\<open>LIMIT k\<close>: any \<open>k\<close> rows in any order, drawn one after the other.\<close>

fun sql_limit :: "(nat \<Rightarrow> nat) \<Rightarrow> nat \<Rightarrow> 'a list \<Rightarrow> 'a list" where
  "sql_limit c 0 xs = []"
| "sql_limit c (Suc k) xs =
     (if xs = [] then []
      else let i = c (length xs) mod length xs
           in xs ! i # sql_limit c k (take i xs @ drop (Suc i) xs))"

definition sql_update :: "('a \<Rightarrow> bool) \<Rightarrow> ('a \<Rightarrow> 'a) \<Rightarrow> 'a list \<Rightarrow> 'a list" where
  "sql_update p f xs = map (\<lambda>r. if p r then f r else r) xs"

definition free_workers :: "int \<Rightarrow> tables \<Rightarrow> worker list" where
  "free_workers pkey t = filter (\<lambda>w. w_PKey w = pkey \<and> w_Capacity w > 0) (Worker t)"

definition set_capacity :: "int \<Rightarrow> int \<Rightarrow> int \<Rightarrow> tables \<Rightarrow> tables" where
  "set_capacity c pkey wid t =
     t\<lparr>Worker := sql_update (\<lambda>w. w_PKey w = pkey \<and> w_WorkerID w = wid)
                   (\<lambda>w. w\<lparr>w_Capacity := c\<rparr>) (Worker t)\<rparr>"

text \<open>
  \<open>INSERT INTO Task\<close>: the index \<open>taskIDIndex\<close> is \<open>ASSUMEUNIQUE\<close>, which VoltDB enforces within
  each of its partitions; \<open>h\<close> maps a partition column value to the VoltDB partition.
\<close>

definition insert_task_row :: "(int \<Rightarrow> nat) \<Rightarrow> task_row \<Rightarrow> tables \<Rightarrow> tables option" where
  "insert_task_row h r t =
     (if \<exists>q \<in> set (Task t). t_TaskID q = t_TaskID r \<and> h (t_PKey q) = h (t_PKey r) then None
      else Some (t\<lparr>Task := Task t @ [r]\<rparr>))"

text \<open>A value must fit an \<open>INTEGER\<close> column; otherwise the statement aborts the transaction.\<close>

definition fits_integer :: "int \<Rightarrow> bool" where
  "fits_integer x \<longleftrightarrow> - (2 ^ 31) < x \<and> x < 2 ^ 31"

subsection \<open>Stored procedures\<close>

definition TruncateWorkerTable :: "tables \<Rightarrow> int \<times> tables" where
  "TruncateWorkerTable t = (0, t\<lparr>Worker := [], DataLocation := []\<rparr>)"

definition TruncateTaskTable :: "tables \<Rightarrow> int \<times> tables" where
  "TruncateTaskTable t = (0, t\<lparr>Task := []\<rparr>)"

definition InsertWorker :: "int \<Rightarrow> int \<Rightarrow> int \<Rightarrow> string \<Rightarrow> tables \<Rightarrow> int \<times> tables" where
  "InsertWorker workerID capacity pkey url t =
     (0, t\<lparr>Worker := Worker t @
       [\<lparr>w_WorkerID = workerID, w_Capacity = capacity, w_DataShards = 0, w_PKey = pkey, w_Url = url\<rparr>]\<rparr>)"

definition InsertSparkWorker ::
    "int \<Rightarrow> int \<Rightarrow> int \<Rightarrow> int \<Rightarrow> string \<Rightarrow> tables \<Rightarrow> int \<times> tables" where
  "InsertSparkWorker workerID capacity workerData pkey url t =
     (0, t\<lparr>Worker := Worker t @
            [\<lparr>w_WorkerID = workerID, w_Capacity = capacity, w_DataShards = workerData,
              w_PKey = pkey, w_Url = url\<rparr>],
           DataLocation := DataLocation t @ [(workerData, pkey)]\<rparr>)"

definition InsertTask ::
    "(int \<Rightarrow> nat) \<Rightarrow> int \<Rightarrow> int \<Rightarrow> int \<Rightarrow> int \<Rightarrow> tables \<Rightarrow> (int \<times> tables) option" where
  "InsertTask h taskID workerID state pkey t =
     map_option (Pair 0) (insert_task_row h
       \<lparr>t_TaskID = taskID, t_WorkerID = workerID, t_State = state, t_PKey = pkey\<rparr> t)"

definition SelectWorker :: "(nat \<Rightarrow> nat \<Rightarrow> nat) \<Rightarrow> int \<Rightarrow> tables \<Rightarrow> int \<times> tables" where
  "SelectWorker ch pkey t =
     (case sql_limit (ch 0) 1 (free_workers pkey t) of
        [] \<Rightarrow> (-1, t)
      | w # _ \<Rightarrow> (w_WorkerID w, set_capacity (w_Capacity w - 1) pkey (w_WorkerID w) t))"

text \<open>\<open>ORDER BY Capacity DESC LIMIT 1\<close>: any row among those with the largest capacity.\<close>

definition most_capacity :: "worker list \<Rightarrow> worker list" where
  "most_capacity ws = filter (\<lambda>w. \<forall>v \<in> set ws. w_Capacity v \<le> w_Capacity w) ws"

definition SelectOrderedWorker ::
    "(nat \<Rightarrow> nat \<Rightarrow> nat) \<Rightarrow> (int \<Rightarrow> nat) \<Rightarrow> int \<Rightarrow> int \<Rightarrow> tables \<Rightarrow> (int \<times> tables) option" where
  "SelectOrderedWorker ch h pkey taskID t =
     (case sql_limit (ch 0) 1 (most_capacity (free_workers pkey t)) of
        [] \<Rightarrow> Some (-1, t)
      | w # _ \<Rightarrow>
          (case insert_task_row h
                  \<lparr>t_TaskID = taskID, t_WorkerID = w_WorkerID w, t_State = PENDING, t_PKey = pkey\<rparr> t of
             None \<Rightarrow> None
           | Some t' \<Rightarrow>
               Some (w_WorkerID w, set_capacity (w_Capacity w - 1) pkey (w_WorkerID w) t')))"

definition SelectSinglePartitionedTaskWorker ::
    "(nat \<Rightarrow> nat \<Rightarrow> nat) \<Rightarrow> (int \<Rightarrow> nat) \<Rightarrow> int \<Rightarrow> int \<Rightarrow> tables \<Rightarrow> (int \<times> tables) option" where
  "SelectSinglePartitionedTaskWorker ch h pkey taskID t =
     (case sql_limit (ch 0) 1 (free_workers pkey t) of
        [] \<Rightarrow> Some (NOWORKER, t)
      | w # _ \<Rightarrow>
          (case insert_task_row h
                  \<lparr>t_TaskID = taskID, t_WorkerID = w_WorkerID w, t_State = 1, t_PKey = pkey\<rparr> t of
             None \<Rightarrow> None
           | Some t' \<Rightarrow> Some (SUCCESS, set_capacity (w_Capacity w - 1) pkey (w_WorkerID w) t')))"

definition PushTask ::
    "(nat \<Rightarrow> nat \<Rightarrow> nat) \<Rightarrow> (int \<Rightarrow> nat) \<Rightarrow> int \<Rightarrow> int \<Rightarrow> tables \<Rightarrow> (int \<times> tables) option" where
  "PushTask ch h pkey taskID t =
     (case sql_limit (ch 0) 1 (free_workers pkey t) of
        [] \<Rightarrow> Some (NOWORKER, t)
      | w # _ \<Rightarrow>
          (case insert_task_row h
                  \<lparr>t_TaskID = taskID, t_WorkerID = w_WorkerID w, t_State = RUNNING, t_PKey = pkey\<rparr> t of
             None \<Rightarrow> None
           | Some t' \<Rightarrow>
               (let t'' = set_capacity (w_Capacity w - 1) pkey (w_WorkerID w) t'
                in Some (SUCCESS,
                     t''\<lparr>TaskAssign := TaskAssign t'' @ [(taskID, w_Url w, pkey)]\<rparr>))))"

definition SelectPartitionedTaskWorker ::
    "(nat \<Rightarrow> nat \<Rightarrow> nat) \<Rightarrow> int \<Rightarrow> tables \<Rightarrow> int \<times> tables" where
  "SelectPartitionedTaskWorker ch pkey t =
     (case sql_limit (ch 0) 1 (filter (\<lambda>q. t_PKey q = pkey) (Task t)) of
        [] \<Rightarrow> (NOTASK, t)
      | q # _ \<Rightarrow>
          (case sql_limit (ch 1) 1 (free_workers pkey t) of
             [] \<Rightarrow> (NOWORKER, t)
           | w # _ \<Rightarrow>
               (let t' = set_capacity (w_Capacity w - 1) pkey (w_WorkerID w) t
                in (0, t'\<lparr>Task := sql_update (\<lambda>r. t_PKey r = pkey \<and> t_TaskID r = t_TaskID q)
                                    (\<lambda>r. r\<lparr>t_WorkerID := w_WorkerID w\<rparr>) (Task t')\<rparr>))))"

definition SelectTaskWorker :: "(nat \<Rightarrow> nat \<Rightarrow> nat) \<Rightarrow> tables \<Rightarrow> int \<times> tables" where
  "SelectTaskWorker ch t =
     (case sql_limit (ch 0) 1 (Task t) of
        [] \<Rightarrow> (NOTASK, t)
      | q # _ \<Rightarrow>
          (case sql_limit (ch 1) 1 (filter (\<lambda>w. w_Capacity w > 0) (Worker t)) of
             [] \<Rightarrow> (NOWORKER, t)
           | w # _ \<Rightarrow>
               (SUCCESS,
                t\<lparr>Worker := sql_update (\<lambda>v. w_WorkerID v = w_WorkerID w)
                              (\<lambda>v. v\<lparr>w_Capacity := w_Capacity w - 1\<rparr>) (Worker t),
                  Task := sql_update (\<lambda>r. t_TaskID r = t_TaskID q)
                            (\<lambda>r. r\<lparr>t_WorkerID := w_WorkerID w\<rparr>) (Task t)\<rparr>)))"

text \<open>\<open>GROUP BY WorkerID ... ORDER BY cnt DESC LIMIT 1\<close> over tasks with an assigned worker.\<close>

definition busiest :: "(nat \<Rightarrow> nat) \<Rightarrow> task_row list \<Rightarrow> int list" where
  "busiest c rs =
     (let ids = map t_WorkerID (filter (\<lambda>r. 0 \<le> t_WorkerID r) rs);
          cnt = (\<lambda>w. length (filter (\<lambda>v. v = w) ids));
          groups = remdups ids
      in sql_limit c 1 (filter (\<lambda>w. \<forall>v \<in> set groups. cnt v \<le> cnt w) groups))"

definition ScanPartitionedTaskWorker ::
    "(nat \<Rightarrow> nat \<Rightarrow> nat) \<Rightarrow> int \<Rightarrow> tables \<Rightarrow> int \<times> tables" where
  "ScanPartitionedTaskWorker ch pkey t =
     (case busiest (ch 0) (filter (\<lambda>r. t_PKey r = pkey) (Task t)) of
        [] \<Rightarrow> (NOWORKER, t)
      | w # _ \<Rightarrow> (w, t))"

definition ScanTaskWorker :: "(nat \<Rightarrow> nat \<Rightarrow> nat) \<Rightarrow> tables \<Rightarrow> int \<times> tables" where
  "ScanTaskWorker ch t =
     (case busiest (ch 0) (Task t) of
        [] \<Rightarrow> (NOWORKER, t)
      | w # _ \<Rightarrow> (w, t))"

definition SelectSparkWorker :: "(nat \<Rightarrow> nat \<Rightarrow> nat) \<Rightarrow> int \<Rightarrow> int \<Rightarrow> tables \<Rightarrow> int \<times> tables" where
  "SelectSparkWorker ch pkey targetData t =
     (case sql_limit (ch 0) 1
             (filter (\<lambda>w. w_DataShards w = targetData) (free_workers pkey t)) of
        [] \<Rightarrow> (-1, t)
      | w # _ \<Rightarrow> (w_WorkerID w, set_capacity (w_Capacity w - 1) pkey (w_WorkerID w) t))"

definition SelectDataShardPartition :: "(nat \<Rightarrow> nat \<Rightarrow> nat) \<Rightarrow> int \<Rightarrow> tables \<Rightarrow> int list" where
  "SelectDataShardPartition ch dataShard t =
     (let ps = remdups (map snd (filter (\<lambda>d. fst d = dataShard) (DataLocation t)))
      in sql_limit (ch 0) (length ps) ps)"

definition FinishWorkerTask ::
    "(nat \<Rightarrow> nat \<Rightarrow> nat) \<Rightarrow> int \<Rightarrow> int \<Rightarrow> int \<Rightarrow> tables \<Rightarrow> (int \<times> tables) option" where
  "FinishWorkerTask ch workerID taskID pkey t =
     (case sql_limit (ch 0) 1
             (filter (\<lambda>w. w_PKey w = pkey \<and> w_WorkerID w = workerID) (Worker t)) of
        [] \<Rightarrow> Some (-1, t)
      | w # _ \<Rightarrow>
          (if \<not> fits_integer (w_Capacity w + 1) then None
           else let t' = set_capacity (w_Capacity w + 1) pkey workerID t
                in if taskID \<noteq> -1
                   then Some (0, t'\<lparr>Task := sql_update
                                     (\<lambda>r. t_PKey r = pkey \<and> t_TaskID r = taskID)
                                     (\<lambda>r. r\<lparr>t_State := 3\<rparr>) (Task t')\<rparr>)
                   else Some (0, t')))"

definition WorkerSelectTask ::
    "(nat \<Rightarrow> nat \<Rightarrow> nat) \<Rightarrow> int \<Rightarrow> int \<Rightarrow> int \<Rightarrow> tables \<Rightarrow> int list \<times> tables" where
  "WorkerSelectTask ch pkey workerId topk t =
     (let ids = map t_TaskID (sql_limit (ch 0) (nat topk)
                  (filter (\<lambda>r. t_PKey r = pkey \<and> t_WorkerID r = workerId \<and> t_State r = 1) (Task t)))
      in if length ids < 1 then (ids, t)
         else (ids, t\<lparr>Task := fold (\<lambda>taskId. sql_update
                       (\<lambda>r. t_PKey r = pkey \<and> t_TaskID r = taskId \<and> t_WorkerID r = workerId)
                       (\<lambda>r. r\<lparr>t_State := 2\<rparr>)) ids (Task t)\<rparr>))"

definition WorkerUpdateTask ::
    "int \<Rightarrow> int \<Rightarrow> int \<Rightarrow> int \<Rightarrow> tables \<Rightarrow> (int \<times> tables) option" where
  "WorkerUpdateTask pkey workerId taskId taskState t =
     (let t' = t\<lparr>Task := sql_update
                   (\<lambda>r. t_PKey r = pkey \<and> t_TaskID r = taskId \<and> t_WorkerID r = workerId)
                   (\<lambda>r. r\<lparr>t_State := taskState\<rparr>) (Task t)\<rparr>
      in if taskState = COMPLETE
         then if \<exists>w \<in> set (Worker t'). w_PKey w = pkey \<and> w_WorkerID w = workerId \<and>
                    \<not> fits_integer (w_Capacity w + 1)
              then None
              else Some (SUCCESS, t'\<lparr>Worker := sql_update
                             (\<lambda>w. w_PKey w = pkey \<and> w_WorkerID w = workerId)
                             (\<lambda>w. w\<lparr>w_Capacity := w_Capacity w + 1\<rparr>) (Worker t')\<rparr>)
         else Some (SUCCESS, t'))"

text \<open>The column \<open>Data\<close> is a \<open>VARCHAR(1048576)\<close>.\<close>

definition SendMessage :: "int \<Rightarrow> int \<Rightarrow> int \<Rightarrow> string \<Rightarrow> tables \<Rightarrow> (int \<times> tables) option" where
  "SendMessage receiverID senderID messageID data t =
     (if int (length data) \<le> 1048576
      then Some (SUCCESS, t\<lparr>Message := Message t @
        [\<lparr>m_ReceiverID = receiverID, m_SenderID = senderID, m_MessageID = messageID, m_Data = data\<rparr>]\<rparr>)
      else None)"

definition ReceiveMessage :: "(nat \<Rightarrow> nat \<Rightarrow> nat) \<Rightarrow> int \<Rightarrow> tables \<Rightarrow> message list \<times> tables" where
  "ReceiveMessage ch receiverID t =
     (let ms = filter (\<lambda>m. m_ReceiverID m = receiverID) (Message t);
          r = sql_limit (ch 0) (length ms) ms
      in if length r < 1 then (r, t)
         else (r, t\<lparr>Message := filter (\<lambda>m. m_ReceiverID m \<noteq> receiverID) (Message t)\<rparr>))"

definition BroadcastMessage :: "int \<Rightarrow> tables \<Rightarrow> int \<times> tables" where
  "BroadcastMessage msg t = (SUCCESS, t\<lparr>Broadcast := Broadcast t @ [msg]\<rparr>)"

subsection \<open>Abstract view and invariants\<close>

text \<open>
  What the schedulers promise is about the number of free slots of each worker: the map
  \<open>cap_of\<close>. \<open>layout\<close> is everything else of the \<open>Worker\<close> table, which no scheduling or finishing
  transaction changes. \<open>outstanding w\<close> counts the tasks of a worker that are not complete.
\<close>

definition cap_of :: "tables \<Rightarrow> int \<rightharpoonup> int" where
  "cap_of t = map_of (map (\<lambda>w. (w_WorkerID w, w_Capacity w)) (Worker t))"

definition layout :: "tables \<Rightarrow> (int \<times> int \<times> int \<times> string) list" where
  "layout t = map (\<lambda>w. (w_WorkerID w, w_DataShards w, w_PKey w, w_Url w)) (Worker t)"

definition total_capacity :: "tables \<Rightarrow> int" where
  "total_capacity t = sum_list (map w_Capacity (Worker t))"

definition outstanding :: "int \<Rightarrow> tables \<Rightarrow> int" where
  "outstanding wid t = int (length (filter (\<lambda>r. t_WorkerID r = wid \<and> t_State r \<noteq> COMPLETE) (Task t)))"

text \<open>
  The invariant of the \<open>Worker\<close> table for \<open>P\<close> worker partitions: one row for each worker, no
  negative capacity, every worker in the partition \<open>workerID % P\<close>, and identifiers that are
  not negative (\<open>-1\<close> is the result for "no worker") and fit the \<open>INTEGER\<close> column.
\<close>

definition wf_workers :: "int \<Rightarrow> tables \<Rightarrow> bool" where
  "wf_workers P t \<longleftrightarrow> distinct (map w_WorkerID (Worker t)) \<and>
     (\<forall>w \<in> set (Worker t). 0 \<le> w_Capacity w \<and> w_PKey w = c_rem (w_WorkerID w) P \<and>
        0 \<le> w_WorkerID w \<and> w_WorkerID w < 2 ^ 31)"

text \<open>The abstract scheduling step: one free slot of one worker of the partition is taken.\<close>

definition takes_slot :: "int \<Rightarrow> int \<Rightarrow> tables \<Rightarrow> tables \<Rightarrow> bool" where
  "takes_slot pkey wid t t' \<longleftrightarrow>
     (\<exists>c. cap_of t wid = Some c \<and> 0 < c \<and> cap_of t' = (cap_of t)(wid \<mapsto> c - 1)) \<and>
     wid \<in> w_WorkerID ` set (free_workers pkey t) \<and> layout t' = layout t"

section \<open>Lemmas\<close>

subsection \<open>SQL statements\<close>

lemma sql_limit_one:
  "sql_limit c (Suc 0) xs = (if xs = [] then [] else [xs ! (c (length xs) mod length xs)])"
  by (simp add: Let_def)

lemma sql_limit_Nil [simp]: "sql_limit c k [] = []"
  by (cases k) simp_all

declare sql_limit.simps(2) [simp del]

lemma sql_limit_one_cases:
  obtains "xs = []" "sql_limit c (Suc 0) xs = []"
  | x where "x \<in> set xs" "sql_limit c (Suc 0) xs = [x]"
proof (cases "xs = []")
  case True
  then show ?thesis using that(1) by simp
next
  case False
  then have "c (length xs) mod length xs < length xs" by simp
  then have "xs ! (c (length xs) mod length xs) \<in> set xs" by (rule nth_mem)
  then show ?thesis by (rule that(2)) (simp add: sql_limit_one False)
qed

lemma sql_limit_one_ex: "xs \<noteq> [] \<Longrightarrow> \<exists>x \<in> set xs. sql_limit c (Suc 0) xs = [x]"
  by (rule sql_limit_one_cases [of xs c]) auto

lemma mset_take_drop_nth:
  assumes "i < length xs"
  shows "mset xs = add_mset (xs ! i) (mset (take i xs @ drop (Suc i) xs))"
proof -
  have "mset xs = mset (take i xs @ xs ! i # drop (Suc i) xs)"
    using assms by (simp only: id_take_nth_drop [symmetric])
  then show ?thesis by simp
qed

lemma mset_sql_limit: "mset (sql_limit c k xs) \<subseteq># mset xs"
proof (induction c k xs rule: sql_limit.induct)
  case (1 c xs)
  then show ?case by simp
next
  case (2 c k xs)
  show ?case
  proof (cases "xs = []")
    case True
    then show ?thesis by simp
  next
    case False
    define i where "i = c (length xs) mod length xs"
    have i: "i < length xs" using False by (simp add: i_def)
    have "mset (sql_limit c k (take i xs @ drop (Suc i) xs)) \<subseteq># mset (take i xs @ drop (Suc i) xs)"
      using 2 False i_def by blast
    then show ?thesis
      using False i by (simp add: sql_limit.simps Let_def i_def [symmetric] mset_take_drop_nth del: mset_append)
  qed
qed

lemma set_sql_limit: "set (sql_limit c k xs) \<subseteq> set xs"
  using mset_sql_limit [of c k xs] by (metis set_mset_mono set_mset_mset)

lemma distinct_sql_limit:
  assumes "distinct xs"
  shows "distinct (sql_limit c k xs)"
  unfolding distinct_count_atmost_1
proof
  fix x
  have "Multiset.count (mset (sql_limit c k xs)) x \<le> Multiset.count (mset xs) x"
    by (rule mset_subset_eq_count [OF mset_sql_limit])
  also have "\<dots> \<le> 1" using assms by (simp add: distinct_count_atmost_1)
  finally show "Multiset.count (mset (sql_limit c k xs)) x = (if x \<in> set (sql_limit c k xs) then 1 else 0)"
    by (auto simp: le_Suc_eq not_in_iff [symmetric])
qed

lemma length_sql_limit [simp]: "length (sql_limit c k xs) = min k (length xs)"
proof (induction c k xs rule: sql_limit.induct)
  case (1 c xs)
  then show ?case by simp
next
  case (2 c k xs)
  show ?case
  proof (cases "xs = []")
    case False
    define i where "i = c (length xs) mod length xs"
    have i: "i < length xs" using False by (simp add: i_def)
    then have "length (take i xs @ drop (Suc i) xs) = length xs - 1" by simp
    then have "length (sql_limit c k (take i xs @ drop (Suc i) xs)) = min k (length xs - 1)"
      using 2 [OF False i_def] by simp
    then show ?thesis using False i by (simp add: sql_limit.simps Let_def i_def [symmetric] min_def) arith
  qed simp
qed

lemma mset_sql_limit_all: "length xs \<le> k \<Longrightarrow> mset (sql_limit c k xs) = mset xs"
  by (rule mset_subset_eq_exists_conv [THEN iffD1, THEN exE, OF mset_sql_limit [of c k xs]])
    (metis add_cancel_left_right length_sql_limit min.absorb2 size_eq_0_iff_empty size_mset
      size_union)

lemma sql_update_map:
  "(\<And>r. g (f r) = g r) \<Longrightarrow> map g (sql_update p f xs) = map g xs"
  by (simp add: sql_update_def)

lemma length_sql_update [simp]: "length (sql_update p f xs) = length xs"
  by (simp add: sql_update_def)

lemma set_sql_update: "set (sql_update p f xs) = (\<lambda>r. if p r then f r else r) ` set xs"
  by (simp add: sql_update_def)

lemma free_workers_sub: "w \<in> set (free_workers pkey t) \<longleftrightarrow>
    w \<in> set (Worker t) \<and> w_PKey w = pkey \<and> 0 < w_Capacity w"
  by (auto simp: free_workers_def)

lemma most_capacity_Nil [simp]: "most_capacity ws = [] \<longleftrightarrow> ws = []"
  using filter_max_nonempty [of ws w_Capacity] by (auto simp: most_capacity_def)

lemma set_most_capacity: "w \<in> set (most_capacity ws) \<Longrightarrow> w \<in> set ws"
  by (simp add: most_capacity_def)

subsection \<open>Changing one capacity\<close>

lemma set_capacity_fields [simp]:
  "Task (set_capacity c p i t) = Task t"
  "TaskAssign (set_capacity c p i t) = TaskAssign t"
  "DataLocation (set_capacity c p i t) = DataLocation t"
  by (simp_all add: set_capacity_def)

lemma layout_set_capacity [simp]: "layout (set_capacity c p i t) = layout t"
  by (simp add: layout_def set_capacity_def sql_update_def)

lemma layout_ids: "layout t' = layout t \<Longrightarrow> map w_WorkerID (Worker t') = map w_WorkerID (Worker t)"
  unfolding layout_def by (drule arg_cong [where f = "map fst"]) (simp add: comp_def)

lemma layout_pkeys:
  "layout t' = layout t \<Longrightarrow> map (\<lambda>w. (w_WorkerID w, w_PKey w)) (Worker t') =
     map (\<lambda>w. (w_WorkerID w, w_PKey w)) (Worker t)"
  unfolding layout_def
  by (drule arg_cong [where f = "map (\<lambda>(i, d, p, u). (i, p))"]) (simp add: comp_def)

lemma cap_of_Some_iff:
  assumes "distinct (map w_WorkerID (Worker t))"
  shows "cap_of t i = Some c \<longleftrightarrow> (\<exists>w \<in> set (Worker t). w_WorkerID w = i \<and> w_Capacity w = c)"
proof -
  have "distinct (map fst (map (\<lambda>w. (w_WorkerID w, w_Capacity w)) (Worker t)))"
    using assms by (simp add: comp_def)
  then have "cap_of t i = Some c \<longleftrightarrow> (i, c) \<in> set (map (\<lambda>w. (w_WorkerID w, w_Capacity w)) (Worker t))"
    by (simp add: cap_of_def del: set_map)
  then show ?thesis by auto
qed

lemma cap_of_worker:
  "distinct (map w_WorkerID (Worker t)) \<Longrightarrow> w \<in> set (Worker t) \<Longrightarrow>
     cap_of t (w_WorkerID w) = Some (w_Capacity w)"
  by (auto simp: cap_of_Some_iff)

lemma cap_of_set_capacity:
  assumes "distinct (map w_WorkerID (Worker t))" and "w \<in> set (Worker t)"
  shows "cap_of (set_capacity c (w_PKey w) (w_WorkerID w) t) = (cap_of t)(w_WorkerID w \<mapsto> c)"
proof
  fix i
  let ?t' = "set_capacity c (w_PKey w) (w_WorkerID w) t"
  have d': "distinct (map w_WorkerID (Worker ?t'))"
    using assms(1) by (simp add: layout_ids [of ?t' t])
  have eq: "v = w" if "v \<in> set (Worker t)" "w_WorkerID v = w_WorkerID w" for v
    using assms that by (metis distinct_map_key_eq)
  have rows: "set (Worker ?t') =
      (\<lambda>v. if v = w then v\<lparr>w_Capacity := c\<rparr> else v) ` set (Worker t)"
    by (auto simp: set_capacity_def set_sql_update image_iff split: if_splits dest: eq)
  show "cap_of ?t' i = ((cap_of t)(w_WorkerID w \<mapsto> c)) i"
  proof (cases "i = w_WorkerID w")
    case True
    have "\<exists>v\<in>set (Worker ?t'). w_WorkerID v = i \<and> w_Capacity v = c"
      using assms(2) True by (auto simp: rows)
    then show ?thesis using True by (simp add: cap_of_Some_iff [OF d', symmetric])
  next
    case False
    then have "cap_of ?t' i = Some d \<longleftrightarrow> cap_of t i = Some d" for d
      by (auto simp: cap_of_Some_iff [OF d'] cap_of_Some_iff [OF assms(1)] rows split: if_splits)
    then have "cap_of ?t' i = cap_of t i" by (metis not_Some_eq)
    then show ?thesis using False by simp
  qed
qed

lemma total_capacity_set_capacity:
  assumes "distinct (map w_WorkerID (Worker t))" and "w \<in> set (Worker t)"
  shows "total_capacity (set_capacity c (w_PKey w) (w_WorkerID w) t)
    = total_capacity t - w_Capacity w + c"
proof -
  have same: "w_PKey v = w_PKey w \<and> w_WorkerID v = w_WorkerID w \<longleftrightarrow> w_WorkerID v = w_WorkerID w"
    if "v \<in> set (Worker t)" for v
    using assms that by (metis distinct_map_key_eq)
  have "map w_Capacity (Worker (set_capacity c (w_PKey w) (w_WorkerID w) t)) =
      map (\<lambda>v. if w_WorkerID v = w_WorkerID w then c else w_Capacity v) (Worker t)"
    using same by (auto simp: set_capacity_def sql_update_def)
  then show ?thesis
    using sum_list_update_key [OF assms, where g = w_Capacity and g' = "\<lambda>_. c"]
    by (simp add: total_capacity_def del: map_eq_conv)
qed

lemma wf_workers_set_capacity:
  assumes "wf_workers P t" and "0 \<le> c"
  shows "wf_workers P (set_capacity c p i t)"
proof -
  have "map w_WorkerID (Worker (set_capacity c p i t)) = map w_WorkerID (Worker t)"
    by (rule layout_ids) simp
  with assms show ?thesis
    by (auto simp: wf_workers_def set_capacity_def set_sql_update)
qed

lemma wf_workers_cong:
  "Worker t' = Worker t \<Longrightarrow> wf_workers P t' = wf_workers P t"
  by (simp add: wf_workers_def)

lemma cap_of_cong: "Worker t' = Worker t \<Longrightarrow> cap_of t' = cap_of t"
  by (simp add: cap_of_def)

lemma layout_cong: "Worker t' = Worker t \<Longrightarrow> layout t' = layout t"
  by (simp add: layout_def)

lemma total_capacity_cong: "Worker t' = Worker t \<Longrightarrow> total_capacity t' = total_capacity t"
  by (simp add: total_capacity_def)

lemma wf_workers_distinct: "wf_workers P t \<Longrightarrow> distinct (map w_WorkerID (Worker t))"
  by (simp add: wf_workers_def)

lemma insert_task_row_SomeD:
  "insert_task_row h r t = Some t' \<Longrightarrow> t' = t\<lparr>Task := Task t @ [r]\<rparr>"
  by (auto simp: insert_task_row_def split: if_splits)

lemma Worker_set_capacity_cong:
  "Worker t' = Worker t \<Longrightarrow> Worker (set_capacity c p i t') = Worker (set_capacity c p i t)"
  by (simp add: set_capacity_def)

end
