(* ===== verification/Slots.thy ===== *)
theory Slots
  imports Volt_Tables
begin

text \<open>
  The contract shared by the stored procedures that hand a slot of a worker to a task
  (\<open>SelectWorker\<close>, \<open>SelectOrderedWorker\<close>, \<open>SelectSinglePartitionedTaskWorker\<close>, \<open>PushTask\<close>): the
  locale \<open>slot_procedure\<close>, its extension \<open>task_slot_procedure\<close> for those that record the task,
  the consequences every client relies on, and the interpretation for each procedure.
\<close>

section \<open>Definitions\<close>

text \<open>The slots of a worker: the free ones and those taken by tasks that are not complete.\<close>

definition slots :: "int \<Rightarrow> tables \<Rightarrow> int" where
  "slots i t = (case cap_of t i of None \<Rightarrow> 0 | Some c \<Rightarrow> c) + outstanding i t"

section \<open>The contract\<close>

text \<open>
  \<open>run\<close> is the procedure at one partition \<open>pkey\<close>; \<open>miss\<close> is its result when the partition has no
  free worker, \<open>code w\<close> its result when it chose worker \<open>w\<close>, \<open>rows w\<close> the task rows it inserts.
\<close>

locale slot_procedure =
  fixes run :: "tables \<Rightarrow> (int \<times> tables) option"
    and pkey :: int
    and miss :: int
    and code :: "worker \<Rightarrow> int"
    and rows :: "worker \<Rightarrow> task_row list"
  assumes run_miss: "free_workers pkey t = [] \<Longrightarrow> run t = Some (miss, t)"
    and run_hit: "free_workers pkey t \<noteq> [] \<Longrightarrow> run t = None \<or>
      (\<exists>w t'. w \<in> set (free_workers pkey t) \<and> run t = Some (code w, t') \<and>
         Worker t' = Worker (set_capacity (w_Capacity w - 1) pkey (w_WorkerID w) t) \<and>
         Task t' = Task t @ rows w)"
begin

lemma run_SomeE:
  assumes "run t = Some (r, t')"
  obtains "free_workers pkey t = []" "r = miss" "t' = t"
  | w where "w \<in> set (free_workers pkey t)" "r = code w"
      "Worker t' = Worker (set_capacity (w_Capacity w - 1) pkey (w_WorkerID w) t)"
      "Task t' = Task t @ rows w"
  using assms run_miss [of t] run_hit [of t] by (cases "free_workers pkey t = []") auto

lemma run_takes_slot:
  assumes "distinct (map w_WorkerID (Worker t))" and "run t = Some (r, t')"
  shows "(free_workers pkey t = [] \<and> r = miss \<and> t' = t) \<or>
    (\<exists>w \<in> set (free_workers pkey t). r = code w \<and> takes_slot pkey (w_WorkerID w) t t')"
  using assms(2)
proof (cases rule: run_SomeE)
  case 1
  then show ?thesis by simp
next
  case (2 w)
  then have w: "w \<in> set (Worker t)" "w_PKey w = pkey" "0 < w_Capacity w"
    by (simp_all add: free_workers_sub)
  have "cap_of t' = (cap_of t)(w_WorkerID w \<mapsto> w_Capacity w - 1)"
    using cap_of_cong [OF 2(3)] cap_of_set_capacity [OF assms(1) w(1)] w(2) by simp
  moreover have "layout t' = layout t"
    using layout_cong [OF 2(3)] by simp
  ultimately have "takes_slot pkey (w_WorkerID w) t t'"
    using 2(1) w cap_of_worker [OF assms(1) w(1)] by (auto simp: takes_slot_def)
  with 2 show ?thesis by blast
qed

lemma run_wf: "wf_workers P t \<Longrightarrow> run t = Some (r, t') \<Longrightarrow> wf_workers P t'"
  by (erule run_SomeE [where t = t])
    (auto simp: free_workers_sub wf_workers_set_capacity cong: wf_workers_cong
      dest: wf_workers_cong [where P = P])

lemma run_total_capacity:
  assumes "distinct (map w_WorkerID (Worker t))" and "run t = Some (r, t')"
  shows "total_capacity t' = total_capacity t - (if free_workers pkey t = [] then 0 else 1)"
  using assms(2)
proof (cases rule: run_SomeE)
  case 1
  then show ?thesis by simp
next
  case (2 w)
  then have w: "w \<in> set (Worker t)" "w_PKey w = pkey" by (simp_all add: free_workers_sub)
  then have "total_capacity t' = total_capacity t - 1"
    using total_capacity_cong [OF 2(3)] total_capacity_set_capacity [OF assms(1) w(1)] by simp
  then show ?thesis using 2(1) by auto
qed

end

locale task_slot_procedure = slot_procedure +
  fixes taskID :: int and st :: int
  assumes rows_eq: "rows w =
      [\<lparr>t_TaskID = taskID, t_WorkerID = w_WorkerID w, t_State = st, t_PKey = pkey\<rparr>]"
    and st_open: "st \<noteq> COMPLETE"
begin

text \<open>Taking a slot for a task keeps the number of slots of every worker.\<close>

lemma run_slots:
  assumes "distinct (map w_WorkerID (Worker t))" and "run t = Some (r, t')"
  shows "slots i t' = slots i t"
  using assms(2)
proof (cases rule: run_SomeE)
  case 1
  then show ?thesis by simp
next
  case (2 w)
  then have w: "w \<in> set (Worker t)" "w_PKey w = pkey" by (simp_all add: free_workers_sub)
  have cap: "cap_of t' = (cap_of t)(w_WorkerID w \<mapsto> w_Capacity w - 1)"
    using cap_of_cong [OF 2(3)] cap_of_set_capacity [OF assms(1) w(1)] w(2) by simp
  have out: "outstanding i t' = outstanding i t + (if i = w_WorkerID w then 1 else 0)"
    using st_open by (simp add: outstanding_def 2(4) rows_eq)
  show ?thesis
    using cap out cap_of_worker [OF assms(1) w(1)] by (simp add: slots_def)
qed

text \<open>The task is recorded once, with a worker that had a free slot.\<close>

lemma run_records_task:
  assumes "run t = Some (r, t')" and "free_workers pkey t \<noteq> []"
  shows "\<exists>w \<in> set (free_workers pkey t). Task t' = Task t @
      [\<lparr>t_TaskID = taskID, t_WorkerID = w_WorkerID w, t_State = st, t_PKey = pkey\<rparr>]"
  using assms(1)
proof (cases rule: run_SomeE)
  case 1
  then show ?thesis using assms(2) by simp
next
  case (2 w)
  then show ?thesis by (auto simp: rows_eq)
qed

end

section \<open>The procedures meet the contract\<close>

lemma insert_set_capacity:
  assumes "insert_task_row h r t = Some t'"
  shows "Worker (set_capacity c p i t') = Worker (set_capacity c p i t)"
    and "Task t' = Task t @ [r]"
  using insert_task_row_SomeD [OF assms] by (simp_all add: set_capacity_def)

interpretation sel: slot_procedure
  "\<lambda>t. Some (SelectWorker ch pkey t)" pkey "-1" w_WorkerID "\<lambda>_. []"
  for ch pkey
proof unfold_locales
  fix t
  show "free_workers pkey t = [] \<Longrightarrow> Some (SelectWorker ch pkey t) = Some (-1, t)"
    by (simp add: SelectWorker_def)
  show "free_workers pkey t \<noteq> [] \<Longrightarrow> Some (SelectWorker ch pkey t) = None \<or>
    (\<exists>w t'. w \<in> set (free_workers pkey t) \<and> Some (SelectWorker ch pkey t) = Some (w_WorkerID w, t') \<and>
       Worker t' = Worker (set_capacity (w_Capacity w - 1) pkey (w_WorkerID w) t) \<and>
       Task t' = Task t @ [])"
    by (rule sql_limit_one_cases [of "free_workers pkey t" "ch 0"])
      (auto simp: SelectWorker_def)
qed

interpretation ord: task_slot_procedure
  "SelectOrderedWorker ch h pkey taskID" pkey "-1" w_WorkerID
  "\<lambda>w. [\<lparr>t_TaskID = taskID, t_WorkerID = w_WorkerID w, t_State = PENDING, t_PKey = pkey\<rparr>]"
  taskID PENDING
  for ch h pkey taskID
proof unfold_locales
  fix t
  show "free_workers pkey t = [] \<Longrightarrow> SelectOrderedWorker ch h pkey taskID t = Some (-1, t)"
    by (simp add: SelectOrderedWorker_def most_capacity_def)
  show "free_workers pkey t \<noteq> [] \<Longrightarrow> SelectOrderedWorker ch h pkey taskID t = None \<or>
    (\<exists>w t'. w \<in> set (free_workers pkey t) \<and>
       SelectOrderedWorker ch h pkey taskID t = Some (w_WorkerID w, t') \<and>
       Worker t' = Worker (set_capacity (w_Capacity w - 1) pkey (w_WorkerID w) t) \<and>
       Task t' = Task t @
         [\<lparr>t_TaskID = taskID, t_WorkerID = w_WorkerID w, t_State = PENDING, t_PKey = pkey\<rparr>])"
    by (rule sql_limit_one_cases [of "most_capacity (free_workers pkey t)" "ch 0"])
      (auto simp: SelectOrderedWorker_def insert_set_capacity dest: set_most_capacity
        split: option.splits)
qed simp_all

interpretation single: task_slot_procedure
  "SelectSinglePartitionedTaskWorker ch h pkey taskID" pkey NOWORKER "\<lambda>_. SUCCESS"
  "\<lambda>w. [\<lparr>t_TaskID = taskID, t_WorkerID = w_WorkerID w, t_State = PENDING, t_PKey = pkey\<rparr>]"
  taskID PENDING
  for ch h pkey taskID
proof unfold_locales
  fix t
  show "free_workers pkey t = [] \<Longrightarrow>
      SelectSinglePartitionedTaskWorker ch h pkey taskID t = Some (NOWORKER, t)"
    by (simp add: SelectSinglePartitionedTaskWorker_def)
  show "free_workers pkey t \<noteq> [] \<Longrightarrow>
    SelectSinglePartitionedTaskWorker ch h pkey taskID t = None \<or>
    (\<exists>w t'. w \<in> set (free_workers pkey t) \<and>
       SelectSinglePartitionedTaskWorker ch h pkey taskID t = Some (SUCCESS, t') \<and>
       Worker t' = Worker (set_capacity (w_Capacity w - 1) pkey (w_WorkerID w) t) \<and>
       Task t' = Task t @
         [\<lparr>t_TaskID = taskID, t_WorkerID = w_WorkerID w, t_State = PENDING, t_PKey = pkey\<rparr>])"
    by (rule sql_limit_one_cases [of "free_workers pkey t" "ch 0"])
      (auto simp: SelectSinglePartitionedTaskWorker_def insert_set_capacity split: option.splits)
qed simp_all

interpretation push: task_slot_procedure
  "PushTask ch h pkey taskID" pkey NOWORKER "\<lambda>_. SUCCESS"
  "\<lambda>w. [\<lparr>t_TaskID = taskID, t_WorkerID = w_WorkerID w, t_State = RUNNING, t_PKey = pkey\<rparr>]"
  taskID RUNNING
  for ch h pkey taskID
proof unfold_locales
  fix t
  show "free_workers pkey t = [] \<Longrightarrow> PushTask ch h pkey taskID t = Some (NOWORKER, t)"
    by (simp add: PushTask_def)
  show "free_workers pkey t \<noteq> [] \<Longrightarrow> PushTask ch h pkey taskID t = None \<or>
    (\<exists>w t'. w \<in> set (free_workers pkey t) \<and> PushTask ch h pkey taskID t = Some (SUCCESS, t') \<and>
       Worker t' = Worker (set_capacity (w_Capacity w - 1) pkey (w_WorkerID w) t) \<and>
       Task t' = Task t @
         [\<lparr>t_TaskID = taskID, t_WorkerID = w_WorkerID w, t_State = RUNNING, t_PKey = pkey\<rparr>])"
    by (rule sql_limit_one_cases [of "free_workers pkey t" "ch 0"])
      (auto simp: PushTask_def Let_def insert_set_capacity split: option.splits)
qed simp_all

end
