(* ===== verification/Volt_Client.thy ===== *)
theory Volt_Client
  imports Slots
begin

text \<open>
  The VoltDB client as the C++ code uses it (\<open>client_->invoke\<close>, \<open>r.failure()\<close>, reading the first
  row of the first result table), \<open>rand()\<close>, and the code of \<open>VoltdbSchedulerUtil\<close>, \<open>Task.h\<close> and
  \<open>WorkerManager::createVoltdbClient\<close>.

  VoltDB, the network and \<open>rand()\<close> are not code of the repository. They are the record \<open>env\<close>, a
  parameter of every definition: what other clients do to the tables before the \<open>k\<close>-th invocation
  of this one (also the effect of an earlier invocation whose response was lost), whether the
  \<open>k\<close>-th invocation fails, which rows an unordered query returns first, the partition function of VoltDB, the values of \<open>rand()\<close>, and the rounding
  of \<open>float\<close> arithmetic. An invocation of a procedure with other parameters than its \<open>run\<close> method
  declares is rejected by the server, which the client sees as a failure.
\<close>

section \<open>Definitions\<close>

subsection \<open>Values, responses, environment, state\<close>

datatype wire = WInt int | WStr string

datatype response = Failure | Results "wire list list"

record env =
  others :: "nat \<Rightarrow> tables \<Rightarrow> tables"
  outage :: "nat \<Rightarrow> bool"
  pick_row :: "nat \<Rightarrow> nat \<Rightarrow> nat \<Rightarrow> nat"
  hashinator :: "int \<Rightarrow> nat"
  rnd :: "nat \<Rightarrow> nat"
  flt :: "real \<Rightarrow> real"

record world =
  tables_of :: tables
  calls :: nat                  \<comment> \<open>invocations so far\<close>
  draws :: nat                  \<comment> \<open>calls of \<open>rand()\<close> so far\<close>
  pending :: "response list"    \<comment> \<open>responses of asynchronous invocations, not yet processed\<close>

subsection \<open>Invoking a procedure by name\<close>

definition long_result :: "int \<times> tables \<Rightarrow> wire list list \<times> tables" where
  "long_result x = ([[WInt (fst x)]], snd x)"

definition run_procedure ::
    "env \<Rightarrow> nat \<Rightarrow> string \<Rightarrow> wire list \<Rightarrow> tables \<Rightarrow> (wire list list \<times> tables) option" where
  "run_procedure env k name ps t =
    (let ch = pick_row env k; h = hashinator env in
     if name = ''TruncateWorkerTable'' then
       (case ps of [] \<Rightarrow> Some (long_result (TruncateWorkerTable t)) | _ \<Rightarrow> None)
     else if name = ''TruncateTaskTable'' then
       (case ps of [] \<Rightarrow> Some (long_result (TruncateTaskTable t)) | _ \<Rightarrow> None)
     else if name = ''InsertWorker'' then
       (case ps of [WInt w, WInt c, WInt p, WStr u] \<Rightarrow> Some (long_result (InsertWorker w c p u t))
        | _ \<Rightarrow> None)
     else if name = ''InsertSparkWorker'' then
       (case ps of [WInt w, WInt c, WInt d, WInt p, WStr u] \<Rightarrow>
          Some (long_result (InsertSparkWorker w c d p u t)) | _ \<Rightarrow> None)
     else if name = ''InsertTask'' then
       (case ps of [WInt i, WInt w, WInt s, WInt p] \<Rightarrow>
          map_option long_result (InsertTask h i w s p t) | _ \<Rightarrow> None)
     else if name = ''SelectWorker'' then
       (case ps of [WInt p] \<Rightarrow> Some (long_result (SelectWorker ch p t)) | _ \<Rightarrow> None)
     else if name = ''SelectOrderedWorker'' then
       (case ps of [WInt p, WInt i] \<Rightarrow> map_option long_result (SelectOrderedWorker ch h p i t)
        | _ \<Rightarrow> None)
     else if name = ''SelectSinglePartitionedTaskWorker'' then
       (case ps of [WInt p, WInt i] \<Rightarrow>
          map_option long_result (SelectSinglePartitionedTaskWorker ch h p i t) | _ \<Rightarrow> None)
     else if name = ''PushTask'' then
       (case ps of [WInt p, WInt i] \<Rightarrow> map_option long_result (PushTask ch h p i t) | _ \<Rightarrow> None)
     else if name = ''SelectPartitionedTaskWorker'' then
       (case ps of [WInt p] \<Rightarrow> Some (long_result (SelectPartitionedTaskWorker ch p t)) | _ \<Rightarrow> None)
     else if name = ''SelectTaskWorker'' then
       (case ps of [] \<Rightarrow> Some (long_result (SelectTaskWorker ch t)) | _ \<Rightarrow> None)
     else if name = ''ScanPartitionedTaskWorker'' then
       (case ps of [WInt p] \<Rightarrow> Some (long_result (ScanPartitionedTaskWorker ch p t)) | _ \<Rightarrow> None)
     else if name = ''ScanTaskWorker'' then
       (case ps of [] \<Rightarrow> Some (long_result (ScanTaskWorker ch t)) | _ \<Rightarrow> None)
     else if name = ''SelectSparkWorker'' then
       (case ps of [WInt p, WInt d] \<Rightarrow> Some (long_result (SelectSparkWorker ch p d t)) | _ \<Rightarrow> None)
     else if name = ''SelectDataShardPartition'' then
       (case ps of [WInt d] \<Rightarrow>
          Some (map (\<lambda>p. [WInt p]) (SelectDataShardPartition ch d t), t) | _ \<Rightarrow> None)
     else if name = ''FinishWorkerTask'' then
       (case ps of [WInt w, WInt i, WInt p] \<Rightarrow>
          map_option long_result (FinishWorkerTask ch w i p t) | _ \<Rightarrow> None)
     else if name = ''WorkerSelectTask'' then
       (case ps of [WInt p, WInt w, WInt k] \<Rightarrow>
          (case WorkerSelectTask ch p w k t of (ids, t') \<Rightarrow> Some (map (\<lambda>i. [WInt i]) ids, t'))
        | _ \<Rightarrow> None)
     else if name = ''WorkerUpdateTask'' then
       (case ps of [WInt p, WInt w, WInt i, WInt s] \<Rightarrow>
          map_option long_result (WorkerUpdateTask p w i s t) | _ \<Rightarrow> None)
     else if name = ''SendMessage'' then
       (case ps of [WInt r, WInt s, WInt m, WStr d] \<Rightarrow> map_option long_result (SendMessage r s m d t)
        | _ \<Rightarrow> None)
     else if name = ''ReceiveMessage'' then
       (case ps of [WInt r] \<Rightarrow>
          (case ReceiveMessage ch r t of (ms, t') \<Rightarrow>
             Some (map (\<lambda>m. [WInt (m_SenderID m), WInt (m_MessageID m), WStr (m_Data m)]) ms, t'))
        | _ \<Rightarrow> None)
     else if name = ''BroadcastMessage'' then
       (case ps of [WInt m] \<Rightarrow> Some (long_result (BroadcastMessage m t)) | _ \<Rightarrow> None)
     else None)"

text \<open>The tables the next invocation finds, and the state when it has not changed them.\<close>

definition seen :: "env \<Rightarrow> world \<Rightarrow> tables" where
  "seen env w = others env (calls w) (tables_of w)"

definition tick :: "env \<Rightarrow> world \<Rightarrow> world" where
  "tick env w = w\<lparr>tables_of := seen env w, calls := Suc (calls w)\<rparr>"

definition invoke :: "env \<Rightarrow> string \<Rightarrow> wire list \<Rightarrow> world \<Rightarrow> response \<times> world" where
  "invoke env name ps w =
     (if outage env (calls w) then (Failure, tick env w)
      else case run_procedure env (calls w) name ps (seen env w) of
             None \<Rightarrow> (Failure, tick env w)
           | Some (rows, t) \<Rightarrow> (Results rows, (tick env w)\<lparr>tables_of := t\<rparr>))"

text \<open>
  The asynchronous call: the client returns at once, the response waits for the event loop.
\<close>

definition invoke_async :: "env \<Rightarrow> string \<Rightarrow> wire list \<Rightarrow> world \<Rightarrow> world" where
  "invoke_async env name ps w =
     (case invoke env name ps w of (r, w') \<Rightarrow> w'\<lparr>pending := pending w' @ [r]\<rparr>)"

text \<open>\<open>results[0].iterator().next()\<close> and then \<open>row.getInt64(0)\<close>.\<close>

definition first_int64 :: "wire list list \<Rightarrow> int result" where
  "first_int64 rows =
     (case rows of
        [] \<Rightarrow> Inl NoMoreRows
      | row # _ \<Rightarrow> (case row of WInt v # _ \<Rightarrow> Inr v | _ \<Rightarrow> Inl InvalidColumn))"

text \<open>
  The three shapes of a call: the response is only logged, the status is returned, or the first
  number of the response is read (\<open>None\<close> is a failed response).
\<close>

definition invoke_void :: "env \<Rightarrow> string \<Rightarrow> wire list \<Rightarrow> world \<Rightarrow> world" where
  "invoke_void env name ps w = snd (invoke env name ps w)"

definition invoke_status :: "env \<Rightarrow> string \<Rightarrow> wire list \<Rightarrow> world \<Rightarrow> bool \<times> world" where
  "invoke_status env name ps w =
     (case invoke env name ps w of
        (Failure, w') \<Rightarrow> (False, w')
      | (Results rows, w') \<Rightarrow> (True, w'))"

definition invoke_int64 ::
    "env \<Rightarrow> string \<Rightarrow> wire list \<Rightarrow> world \<Rightarrow> int result option \<times> world" where
  "invoke_int64 env name ps w =
     (case invoke env name ps w of
        (Failure, w') \<Rightarrow> (None, w')
      | (Results rows, w') \<Rightarrow> (Some (first_int64 rows), w'))"

text \<open>
  \<open>for (int i = 0; i < n; ++i) { ret = f(i); if (!ret) { return false; } } return true;\<close>
\<close>

definition all_succeed ::
    "int \<Rightarrow> (int \<Rightarrow> world \<Rightarrow> bool result \<times> world) \<Rightarrow> world \<Rightarrow> bool result \<times> world" where
  "all_succeed n f w =
     (case for_range 0 n (\<lambda>i w. case f i w of
                              (Inr True, w') \<Rightarrow> (None, w')
                            | (r, w') \<Rightarrow> (Some r, w')) w of
        (Some r, w') \<Rightarrow> (r, w')
      | (None, w') \<Rightarrow> (Inr True, w'))"

text \<open>\<open>rand()\<close> and \<open>rand() % m\<close>.\<close>

definition c_rand :: "env \<Rightarrow> world \<Rightarrow> int \<times> world" where
  "c_rand env w = (int (rnd env (draws w)), w\<lparr>draws := Suc (draws w)\<rparr>)"

definition rand_mod :: "env \<Rightarrow> int \<Rightarrow> world \<Rightarrow> int result \<times> world" where
  "rand_mod env m w =
     (case c_rand env w of (r, w') \<Rightarrow> (if m = 0 then Inl DivByZero else Inr (c_rem r m), w'))"

text \<open>\<open>static_cast<float>(rand()) / static_cast<float>(RAND_MAX)\<close>.\<close>

definition coin :: "env \<Rightarrow> world \<Rightarrow> real \<times> world" where
  "coin env w =
     (case c_rand env w of
        (r, w') \<Rightarrow> (flt env (flt env (real_of_int r) / flt env 2147483647), w'))"

text \<open>
  \<open>static std::atomic<uint32_t> taskindex\<close> and \<open>int taskId = taskindex.fetch_add(1)\<close>: the task
  identifier and the new counter.
\<close>

definition fetch_add :: "32 word \<Rightarrow> int \<times> 32 word" where
  "fetch_add taskindex = (sint taskindex, taskindex + 1)"

subsection \<open>Task.h\<close>

record Task_struct =
  targetData :: int
  execTime :: int

text \<open>The message has \<open>int64\<close> fields; the structure has \<open>int\<close> fields.\<close>

record SubmitTaskRequest =
  targetdata :: int
  exectime :: int

definition taskToProtobuf :: "Task_struct \<Rightarrow> SubmitTaskRequest" where
  "taskToProtobuf task = \<lparr>targetdata = targetData task, exectime = execTime task\<rparr>"

definition protobufToTask :: "SubmitTaskRequest \<Rightarrow> Task_struct" where
  "protobufToTask request =
     \<lparr>targetData = narrow32 (targetdata request), execTime = narrow32 (exectime request)\<rparr>"

subsection \<open>VoltdbSchedulerUtil\<close>

text \<open>
  \<open>std::getline(stream, line, delim)\<close>: \<open>None\<close> at the end of the stream, otherwise the text up to
  the delimiter (which is removed) and the rest.
\<close>

fun getline :: "char \<Rightarrow> string \<Rightarrow> (string \<times> string) option" where
  "getline d [] = None"
| "getline d (c # cs) =
     (if c = d then Some ([], cs)
      else case getline d cs of
             None \<Rightarrow> Some ([c], [])
           | Some (l, r) \<Rightarrow> Some (c # l, r))"

lemma getline_shorter: "getline d s = Some (l, r) \<Longrightarrow> length r < length s"
  by (induction s arbitrary: l r) (fastforce split: if_splits option.splits)+

function getlines :: "char \<Rightarrow> string \<Rightarrow> string list" where
  "getlines d s = (case getline d s of None \<Rightarrow> [] | Some (l, r) \<Rightarrow> l # getlines d r)"
  by pat_completeness auto
termination
  by (relation "measure (\<lambda>(d, s). length s)") (auto dest: getline_shorter)

text \<open>
  The constructor connects to every host of the comma separated list in turn; a connection that
  fails (\<open>createConnection\<close> throws, \<open>accepts host\<close> is false) ends it with that exception. The
  result is the list of hosts connected and whether the constructor returned.
\<close>

fun connect_hosts :: "(string \<Rightarrow> bool) \<Rightarrow> string list \<Rightarrow> string list \<times> bool" where
  "connect_hosts accepts [] = ([], True)"
| "connect_hosts accepts (host # rest) =
     (if accepts host then (case connect_hosts accepts rest of (cs, ok) \<Rightarrow> (host # cs, ok))
      else ([], False))"

definition VoltdbSchedulerUtil_init :: "(string \<Rightarrow> bool) \<Rightarrow> string \<Rightarrow> string list \<times> bool" where
  "VoltdbSchedulerUtil_init accepts dbAddr = connect_hosts accepts (getlines CHR '','' dbAddr)"

text \<open>The default of \<open>asyncSchedule\<close> in the base class aborts.\<close>

definition VoltdbSchedulerUtil_asyncSchedule :: "world \<Rightarrow> bool result \<times> world" where
  "VoltdbSchedulerUtil_asyncSchedule w = (Inl Aborted, w)"

definition asyncSendMessage :: "env \<Rightarrow> int \<Rightarrow> int \<Rightarrow> world \<Rightarrow> bool \<times> world" where
  "asyncSendMessage env part0 num_partitions w =
     (True, snd (for_range part0 (part0 + num_partitions)
        (\<lambda>i w. (None :: unit option, invoke_async env ''SendMessage'' [WInt i] w)) w))"

definition asyncBroadcastMessage :: "env \<Rightarrow> world \<Rightarrow> bool \<times> world" where
  "asyncBroadcastMessage env w = (True, invoke_async env ''BroadcastMessage'' [WInt 0] w)"

subsection \<open>WorkerManager::createVoltdbClient\<close>

text \<open>
  A worker connects to one host of the list, drawn at random: the host, or the crash of
  \<open>rand() % hostlist.size()\<close> on an empty list; \<open>None\<close> when \<open>createConnection\<close> throws.
\<close>

definition WorkerManager_createVoltdbClient ::
    "env \<Rightarrow> (string \<Rightarrow> bool) \<Rightarrow> string \<Rightarrow> world \<Rightarrow> string option result \<times> world" where
  "WorkerManager_createVoltdbClient env accepts dbAddr w =
     (let hostlist = getlines CHR '','' dbAddr
      in case rand_mod env (int (length hostlist)) w of
           (Inl e, w') \<Rightarrow> (Inl e, w')
         | (Inr randIndex, w') \<Rightarrow>
             (let host = hostlist ! nat randIndex
              in (Inr (if accepts host then Some host else None), w')))"

text \<open>The environment without failed invocations.\<close>

definition reliable :: "env \<Rightarrow> bool" where
  "reliable env \<longleftrightarrow> (\<forall>k. \<not> outage env k)"

text \<open>The environment in which no other client changes the tables.\<close>

definition alone :: "env \<Rightarrow> bool" where
  "alone env \<longleftrightarrow> (\<forall>k t. others env k t = t)"

text \<open>A concrete environment with both properties, and the state at program start.\<close>

definition quiet_env :: env where
  "quiet_env = \<lparr>others = (\<lambda>_ t. t), outage = (\<lambda>_. False), pick_row = (\<lambda>_ _ _. 0),
     hashinator = nat, rnd = (\<lambda>_. 0), flt = (\<lambda>x. x)\<rparr>"

definition world_with :: "tables \<Rightarrow> world" where
  "world_with t = \<lparr>tables_of = t, calls = 0, draws = 0, pending = []\<rparr>"

section \<open>Lemmas\<close>

named_theorems invoke_simps

text \<open>A scheduler connects to the hosts before the first that refuses.\<close>

lemma connect_hosts_eq [simp]:
  "connect_hosts accepts hosts = (takeWhile accepts hosts, \<forall>h \<in> set hosts. accepts h)"
  by (induction hosts) auto

subsection \<open>What each invocation does\<close>

lemma invoke_TruncateWorkerTable [invoke_simps]:
  "invoke env ''TruncateWorkerTable'' [] w =
     (if outage env (calls w) then (Failure, tick env w)
      else case TruncateWorkerTable (seen env w) of
             (r, t) \<Rightarrow> (Results [[WInt r]], (tick env w)\<lparr>tables_of := t\<rparr>))"
  by (simp add: invoke_def run_procedure_def long_result_def split: prod.split)

lemma invoke_TruncateTaskTable [invoke_simps]:
  "invoke env ''TruncateTaskTable'' [] w =
     (if outage env (calls w) then (Failure, tick env w)
      else case TruncateTaskTable (seen env w) of
             (r, t) \<Rightarrow> (Results [[WInt r]], (tick env w)\<lparr>tables_of := t\<rparr>))"
  by (simp add: invoke_def run_procedure_def long_result_def split: prod.split)

lemma invoke_InsertWorker [invoke_simps]:
  "invoke env ''InsertWorker'' [WInt i, WInt c, WInt p, WStr u] w =
     (if outage env (calls w) then (Failure, tick env w)
      else case InsertWorker i c p u (seen env w) of
             (r, t) \<Rightarrow> (Results [[WInt r]], (tick env w)\<lparr>tables_of := t\<rparr>))"
  by (simp add: invoke_def run_procedure_def long_result_def split: prod.split)

lemma invoke_InsertSparkWorker [invoke_simps]:
  "invoke env ''InsertSparkWorker'' [WInt i, WInt c, WInt d, WInt p, WStr u] w =
     (if outage env (calls w) then (Failure, tick env w)
      else case InsertSparkWorker i c d p u (seen env w) of
             (r, t) \<Rightarrow> (Results [[WInt r]], (tick env w)\<lparr>tables_of := t\<rparr>))"
  by (simp add: invoke_def run_procedure_def long_result_def split: prod.split)

lemma invoke_SelectWorker [invoke_simps]:
  "invoke env ''SelectWorker'' [WInt p] w =
     (if outage env (calls w) then (Failure, tick env w)
      else case SelectWorker (pick_row env (calls w)) p (seen env w) of
             (r, t) \<Rightarrow> (Results [[WInt r]], (tick env w)\<lparr>tables_of := t\<rparr>))"
  by (simp add: invoke_def run_procedure_def long_result_def split: prod.split)

lemma invoke_SelectPartitionedTaskWorker [invoke_simps]:
  "invoke env ''SelectPartitionedTaskWorker'' [WInt p] w =
     (if outage env (calls w) then (Failure, tick env w)
      else case SelectPartitionedTaskWorker (pick_row env (calls w)) p (seen env w) of
             (r, t) \<Rightarrow> (Results [[WInt r]], (tick env w)\<lparr>tables_of := t\<rparr>))"
  by (simp add: invoke_def run_procedure_def long_result_def split: prod.split)

lemma invoke_SelectTaskWorker [invoke_simps]:
  "invoke env ''SelectTaskWorker'' [] w =
     (if outage env (calls w) then (Failure, tick env w)
      else case SelectTaskWorker (pick_row env (calls w)) (seen env w) of
             (r, t) \<Rightarrow> (Results [[WInt r]], (tick env w)\<lparr>tables_of := t\<rparr>))"
  by (simp add: invoke_def run_procedure_def long_result_def split: prod.split)

lemma invoke_ScanPartitionedTaskWorker [invoke_simps]:
  "invoke env ''ScanPartitionedTaskWorker'' [WInt p] w =
     (if outage env (calls w) then (Failure, tick env w)
      else case ScanPartitionedTaskWorker (pick_row env (calls w)) p (seen env w) of
             (r, t) \<Rightarrow> (Results [[WInt r]], (tick env w)\<lparr>tables_of := t\<rparr>))"
  by (simp add: invoke_def run_procedure_def long_result_def split: prod.split)

lemma invoke_ScanTaskWorker [invoke_simps]:
  "invoke env ''ScanTaskWorker'' [] w =
     (if outage env (calls w) then (Failure, tick env w)
      else case ScanTaskWorker (pick_row env (calls w)) (seen env w) of
             (r, t) \<Rightarrow> (Results [[WInt r]], (tick env w)\<lparr>tables_of := t\<rparr>))"
  by (simp add: invoke_def run_procedure_def long_result_def split: prod.split)

lemma invoke_SelectSparkWorker [invoke_simps]:
  "invoke env ''SelectSparkWorker'' [WInt p, WInt d] w =
     (if outage env (calls w) then (Failure, tick env w)
      else case SelectSparkWorker (pick_row env (calls w)) p d (seen env w) of
             (r, t) \<Rightarrow> (Results [[WInt r]], (tick env w)\<lparr>tables_of := t\<rparr>))"
  by (simp add: invoke_def run_procedure_def long_result_def split: prod.split)

lemma invoke_InsertTask [invoke_simps]:
  "invoke env ''InsertTask'' [WInt i, WInt v, WInt s, WInt p] w =
     (if outage env (calls w) then (Failure, tick env w)
      else case InsertTask (hashinator env) i v s p (seen env w) of
             None \<Rightarrow> (Failure, tick env w)
           | Some (r, t) \<Rightarrow> (Results [[WInt r]], (tick env w)\<lparr>tables_of := t\<rparr>))"
  by (simp add: invoke_def run_procedure_def long_result_def
      split: prod.split option.split)

lemma invoke_SelectOrderedWorker [invoke_simps]:
  "invoke env ''SelectOrderedWorker'' [WInt p, WInt i] w =
     (if outage env (calls w) then (Failure, tick env w)
      else case SelectOrderedWorker (pick_row env (calls w)) (hashinator env) p i (seen env w) of
             None \<Rightarrow> (Failure, tick env w)
           | Some (r, t) \<Rightarrow> (Results [[WInt r]], (tick env w)\<lparr>tables_of := t\<rparr>))"
  by (simp add: invoke_def run_procedure_def long_result_def
      split: prod.split option.split)

lemma invoke_SelectSinglePartitionedTaskWorker [invoke_simps]:
  "invoke env ''SelectSinglePartitionedTaskWorker'' [WInt p, WInt i] w =
     (if outage env (calls w) then (Failure, tick env w)
      else case SelectSinglePartitionedTaskWorker (pick_row env (calls w)) (hashinator env) p i (seen env w) of
             None \<Rightarrow> (Failure, tick env w)
           | Some (r, t) \<Rightarrow> (Results [[WInt r]], (tick env w)\<lparr>tables_of := t\<rparr>))"
  by (simp add: invoke_def run_procedure_def long_result_def
      split: prod.split option.split)

lemma invoke_PushTask [invoke_simps]:
  "invoke env ''PushTask'' [WInt p, WInt i] w =
     (if outage env (calls w) then (Failure, tick env w)
      else case PushTask (pick_row env (calls w)) (hashinator env) p i (seen env w) of
             None \<Rightarrow> (Failure, tick env w)
           | Some (r, t) \<Rightarrow> (Results [[WInt r]], (tick env w)\<lparr>tables_of := t\<rparr>))"
  by (simp add: invoke_def run_procedure_def long_result_def
      split: prod.split option.split)

lemma invoke_FinishWorkerTask [invoke_simps]:
  "invoke env ''FinishWorkerTask'' [WInt v, WInt i, WInt p] w =
     (if outage env (calls w) then (Failure, tick env w)
      else case FinishWorkerTask (pick_row env (calls w)) v i p (seen env w) of
             None \<Rightarrow> (Failure, tick env w)
           | Some (r, t) \<Rightarrow> (Results [[WInt r]], (tick env w)\<lparr>tables_of := t\<rparr>))"
  by (simp add: invoke_def run_procedure_def long_result_def
      split: prod.split option.split)

lemma invoke_WorkerUpdateTask [invoke_simps]:
  "invoke env ''WorkerUpdateTask'' [WInt p, WInt v, WInt i, WInt s] w =
     (if outage env (calls w) then (Failure, tick env w)
      else case WorkerUpdateTask p v i s (seen env w) of
             None \<Rightarrow> (Failure, tick env w)
           | Some (r, t) \<Rightarrow> (Results [[WInt r]], (tick env w)\<lparr>tables_of := t\<rparr>))"
  by (simp add: invoke_def run_procedure_def long_result_def
      split: prod.split option.split)

text \<open>An invocation with the wrong number of parameters never changes the tables.\<close>

lemma invoke_FinishWorkerTask_two:
  "invoke env ''FinishWorkerTask'' [a, b] w = (Failure, tick env w)"
  by (cases a) (simp_all add: invoke_def run_procedure_def Let_def split: wire.split)

lemma invoke_SendMessage_one:
  "invoke env ''SendMessage'' [a] w = (Failure, tick env w)"
  by (cases a) (simp_all add: invoke_def run_procedure_def Let_def split: wire.split)

lemma first_int64_long [simp]: "first_int64 [[WInt r]] = Inr r"
  by (simp add: first_int64_def)

lemma tick_fields [simp]:
  "tables_of (tick env w) = seen env w"
  "calls (tick env w) = Suc (calls w)"
  "draws (tick env w) = draws w"
  "pending (tick env w) = pending w"
  by (simp_all add: tick_def)

lemma invoke_frame [simp]:
  "draws (snd (invoke env name ps w)) = draws w"
  "pending (snd (invoke env name ps w)) = pending w"
  "calls (snd (invoke env name ps w)) = Suc (calls w)"
  by (auto simp: invoke_def split: option.splits prod.splits)

text \<open>
  What every transaction and every other client keeps, an invocation keeps, however it ends.
\<close>

lemma invoke_keeps:
  assumes "I (tables_of w)"
    and "\<And>k t. I t \<Longrightarrow> I (others env k t)"
    and "\<And>k t rows t'. I t \<Longrightarrow> run_procedure env k name ps t = Some (rows, t') \<Longrightarrow> I t'"
  shows "I (tables_of (snd (invoke env name ps w)))"
proof -
  have seen: "I (seen env w)" unfolding seen_def by (rule assms(2)) (rule assms(1))
  show ?thesis
    using seen assms(3) by (auto simp: invoke_def split: option.splits prod.splits)
qed

lemma alone_seen [simp]: "alone env \<Longrightarrow> seen env w = tables_of w"
  by (simp add: alone_def seen_def)

lemma reliable_outage [simp]: "reliable env \<Longrightarrow> \<not> outage env k"
  by (simp add: reliable_def)

lemma quiet_env_props [simp]: "reliable quiet_env" "alone quiet_env"
  by (simp_all add: quiet_env_def reliable_def alone_def)

lemma quiet_env_fields [simp]:
  "others quiet_env k t = t" "\<not> outage quiet_env k" "pick_row quiet_env = (\<lambda>_ _ _. 0)"
  "hashinator quiet_env = nat" "rnd quiet_env = (\<lambda>_. 0)" "flt quiet_env = (\<lambda>x. x)"
  by (simp_all add: quiet_env_def)

lemma world_with_fields [simp]:
  "tables_of (world_with t) = t" "calls (world_with t) = 0" "draws (world_with t) = 0"
  "pending (world_with t) = []"
  by (simp_all add: world_with_def)

subsection \<open>Random draws\<close>

lemma rand_mod_tables [simp]: "tables_of (snd (rand_mod env m w)) = tables_of w"
  by (simp add: rand_mod_def c_rand_def)

lemma rand_mod_pos:
  "0 < m \<Longrightarrow> rand_mod env m w =
     (Inr (int (rnd env (draws w)) mod m), w\<lparr>draws := Suc (draws w)\<rparr>)"
  by (simp add: rand_mod_def c_rand_def c_rem_nonneg)

lemma rand_mod_zero: "rand_mod env 0 w = (Inl DivByZero, w\<lparr>draws := Suc (draws w)\<rparr>)"
  by (simp add: rand_mod_def c_rand_def)

subsection \<open>Task counter\<close>

lemma fetch_add_fresh:
  assumes "m < 2 ^ 32"
  shows "sint (ix + of_nat m :: 32 word) \<notin> (\<lambda>j. sint (ix + of_nat j)) ` {..<m}"
proof
  assume "sint (ix + of_nat m) \<in> (\<lambda>j. sint (ix + of_nat j)) ` {..<m}"
  then obtain j where j: "j < m" "sint (ix + of_nat m) = sint (ix + of_nat j)" by auto
  then have "ix + of_nat m = ix + (of_nat j :: 32 word)" by (intro signed_word_eqI)
  then have "(of_nat m :: 32 word) = of_nat j" by simp
  then have "unat (of_nat m :: 32 word) = unat (of_nat j :: 32 word)" by (rule arg_cong)
  with j(1) assms show False by (simp add: unat_of_nat)
qed

subsection \<open>Hosts\<close>

declare getlines.simps [simp del]

lemma getline_append:
  "d \<notin> set l \<Longrightarrow> getline d (l @ d # r) = Some (l, r)"
  by (induction l) auto

lemma getline_last:
  "d \<notin> set l \<Longrightarrow> l \<noteq> [] \<Longrightarrow> getline d l = Some (l, [])"
proof (induction l)
  case (Cons c cs)
  then show ?case by (cases cs) auto
qed simp

lemma getline_no_delim: "getline d s = Some (l, r) \<Longrightarrow> d \<notin> set l"
proof (induction s arbitrary: l)
  case (Cons c cs)
  then show ?case by (cases "getline d cs") (auto split: if_splits prod.splits)
qed simp

lemma getlines_no_delim: "l \<in> set (getlines d s) \<Longrightarrow> d \<notin> set l"
proof (induction d s rule: getlines.induct)
  case (1 d s)
  show ?case
  proof (cases "getline d s")
    case None
    with 1(2) show ?thesis by (simp add: getlines.simps [of d s])
  next
    case (Some a)
    obtain l' r where a: "a = (l', r)" by fastforce
    from 1(2) Some a have "l = l' \<or> l \<in> set (getlines d r)"
      by (simp add: getlines.simps [of d s])
    then show ?thesis
    proof
      assume "l = l'"
      with getline_no_delim [of d s] Some a show ?thesis by simp
    next
      assume "l \<in> set (getlines d r)"
      with 1(1) Some a show ?thesis by simp
    qed
  qed
qed

lemma getlines_Nil [simp]: "getlines d [] = []"
  by (simp add: getlines.simps [of d "[]"])

end
