(* ===== verification/Probing.thy ===== *)
theory Probing
  imports Prelude
begin

text \<open>
  The two orders in which the schedulers visit partitions, the arithmetic of these orders, and
  the interface \<open>probe_search\<close> between a search loop and the transaction it runs at each
  partition. \<open>PartitionedFIFOScheduler\<close> and \<open>PartitionedLocalFIFOScheduler\<close> step linearly; the
  task schedulers add the loop counter to the partition key each round, so their key moves by
  triangular numbers. The linear order visits every partition; the triangular order does if and
  only if the number of partitions is a power of two.
\<close>

section \<open>Definitions\<close>

text \<open>
  \<open>for (count = 0; count < active; count++) { p = (count + offset) % active; ... }\<close>
\<close>

definition linear_probe :: "(int \<Rightarrow> 's \<Rightarrow> 'r option \<times> 's) \<Rightarrow> int \<Rightarrow> int \<Rightarrow> 's \<Rightarrow> 'r option \<times> 's" where
  "linear_probe attempt active offset s =
     for_range 0 active (\<lambda>cnt. attempt (c_rem (cnt + offset) active)) s"

text \<open>
  \<open>for (count = 1; count <= active; ++count) { ...; pkey = (pkey + count) % active; }\<close>
  The partition key is part of the loop state.
\<close>

definition triangular_step ::
    "(int \<Rightarrow> 's \<Rightarrow> 'r option \<times> 's) \<Rightarrow> int \<Rightarrow> int \<Rightarrow> int \<times> 's \<Rightarrow> 'r option \<times> (int \<times> 's)" where
  "triangular_step attempt active cnt x =
     (case x of (pkey, s) \<Rightarrow>
        (case attempt pkey s of
           (Some r, s') \<Rightarrow> (Some r, (pkey, s'))
         | (None, s') \<Rightarrow> (None, (c_rem (pkey + cnt) active, s'))))"

definition triangular_probe ::
    "(int \<Rightarrow> 's \<Rightarrow> 'r option \<times> 's) \<Rightarrow> int \<Rightarrow> int \<Rightarrow> 's \<Rightarrow> 'r option \<times> (int \<times> 's)" where
  "triangular_probe attempt active pkey s =
     for_range 1 (active + 1) (triangular_step attempt active) (pkey, s)"

text \<open>Several rounds, each starting at the key where the last one ended.\<close>

definition triangular_rounds ::
    "(int \<Rightarrow> 's \<Rightarrow> 'r option \<times> 's) \<Rightarrow> int \<Rightarrow> int \<Rightarrow> int \<Rightarrow> 's \<Rightarrow> 'r option \<times> (int \<times> 's)" where
  "triangular_rounds attempt rounds active pkey s =
     for_range 0 rounds (\<lambda>t (pkey, s). triangular_probe attempt active pkey s) (pkey, s)"

text \<open>The triangular numbers and the keys that one round of the triangular order visits.\<close>

definition tri :: "int \<Rightarrow> int" where
  "tri c = c * (c + 1) div 2"

definition tri_visits :: "int \<Rightarrow> int \<Rightarrow> int set" where
  "tri_visits a p = (\<lambda>c. (p + tri c) mod a) ` {0..<a}"

definition power_of_two :: "int \<Rightarrow> bool" where
  "power_of_two a \<longleftrightarrow> (\<exists>k. a = 2 ^ k)"

section \<open>Arithmetic of the visiting orders\<close>

lemma power_of_two_pos: "power_of_two a \<Longrightarrow> 0 < a"
  by (auto simp: power_of_two_def)

lemma not_power_of_two_odd:
  assumes "odd a" "1 < a"
  shows "\<not> power_of_two a"
proof
  assume "power_of_two a"
  then obtain k where k: "a = 2 ^ k" by (auto simp: power_of_two_def)
  with assms(1) have "k = 0" by (cases k) simp_all
  with k assms(2) show False by simp
qed

subsection \<open>Linear\<close>

lemma linear_covers:
  fixes a p off :: int
  assumes "0 < a" "0 \<le> p" "p < a" "0 \<le> off"
  shows "\<exists>c. 0 \<le> c \<and> c < a \<and> (c + off) mod a = p"
proof -
  have "((p - off) mod a + off) mod a = p"
    using assms by (simp add: mod_simps)
  then show ?thesis using assms(1) by (intro exI [of _ "(p - off) mod a"]) simp
qed

subsection \<open>Triangular numbers\<close>

lemma tri_double: "2 * tri c = c * (c + 1)"
proof -
  have "even (c * (c + 1))" by simp
  then show ?thesis unfolding tri_def by simp
qed

lemma tri_0 [simp]: "tri 0 = 0"
  by (simp add: tri_def)

lemma tri_step: "tri (c + 1) = tri c + (c + 1)"
proof -
  have "2 * tri (c + 1) = 2 * (tri c + (c + 1))"
    by (simp only: tri_double distrib_left) algebra
  then show ?thesis by simp
qed

lemma tri_diff: "2 * (tri i - tri j) = (i - j) * (i + j + 1)"
  by (simp only: right_diff_distrib tri_double) algebra

text \<open>The key after \<open>c\<close> misses of a round.\<close>

lemma tri_next: "((p + tri c) mod a + (c + 1)) mod a = (p + tri (c + 1)) mod a" for a p c :: int
  by (simp only: tri_step mod_simps add.assoc)

lemma power_two_dvd_one_factor:
  fixes x y :: int
  assumes "2 ^ n dvd x * y" and "odd x \<or> odd y"
  shows "2 ^ n dvd x \<or> 2 ^ n dvd y"
  using assms coprime_dvd_mult_left_iff [of "2 ^ n" y x] coprime_dvd_mult_right_iff [of "2 ^ n" x y]
  by (metis coprime_left_2_iff_odd coprime_power_left_iff)

lemma tri_inj_power_two:
  assumes "0 \<le> i" "i < 2 ^ k" "0 \<le> j" "j < 2 ^ k" and "(tri i - tri j) mod 2 ^ k = 0"
  shows "i = j"
proof -
  have "2 * 2 ^ k dvd 2 * (tri i - tri j)"
    using assms(5) by (simp only: dvd_mult_cancel_left mod_0_imp_dvd) (simp add: mod_0_imp_dvd)
  then have "2 ^ Suc k dvd (i - j) * (i + j + 1)" by (simp only: tri_diff power_Suc)
  moreover have "odd (i - j) \<or> odd (i + j + 1)" by presburger
  ultimately consider "2 ^ Suc k dvd i - j" | "2 ^ Suc k dvd i + j + 1"
    using power_two_dvd_one_factor by blast
  then show ?thesis
  proof cases
    case 1
    then have "i - j = 0 \<or> 2 ^ Suc k \<le> \<bar>i - j\<bar>" using dvd_imp_le_int [of "i - j" "2 ^ Suc k"] by auto
    moreover have "\<bar>i - j\<bar> < 2 ^ Suc k" using assms by (simp add: abs_if)
    ultimately show ?thesis by linarith
  next
    case 2
    then have "2 ^ Suc k \<le> i + j + 1" using assms by (intro zdvd_imp_le) simp_all
    with assms show ?thesis by simp
  qed
qed

lemma tri_visits_sub: "0 < a \<Longrightarrow> tri_visits a p \<subseteq> {0..<a}"
  by (auto simp: tri_visits_def)

lemma tri_visits_one: "tri_visits 1 p = {0}"
proof -
  have "{0..<1 :: int} = {0}" by auto
  then show ?thesis by (simp add: tri_visits_def)
qed

lemma tri_visits_power_two:
  assumes "power_of_two a"
  shows "tri_visits a p = {0..<a}"
proof -
  obtain k where a: "a = 2 ^ k" using assms by (auto simp: power_of_two_def)
  have "inj_on (\<lambda>c. (p + tri c) mod a) {0..<a}"
  proof (rule inj_onI)
    fix i j assume ij: "i \<in> {0..<a}" "j \<in> {0..<a}" "(p + tri i) mod a = (p + tri j) mod a"
    then have "a dvd (p + tri i) - (p + tri j)" by (simp add: mod_eq_dvd_iff)
    then have eq: "(tri i - tri j) mod 2 ^ k = 0" using a by (simp only: add_diff_cancel_left dvd_imp_mod_0)
    have "0 \<le> i" "i < 2 ^ k" "0 \<le> j" "j < 2 ^ k" using ij(1,2) unfolding a by auto
    from this eq show "i = j" by (rule tri_inj_power_two)
  qed
  then have "card (tri_visits a p) = card {0..<a}"
    unfolding tri_visits_def by (rule card_image)
  then show ?thesis
    using a by (intro card_subset_eq tri_visits_sub) simp_all
qed

subsection \<open>Missed partitions\<close>

lemma tri_mod_odd_period:
  fixes m c :: int
  assumes "odd m"
  shows "(tri (c + m)) mod m = tri c mod m"
proof -
  obtain q where q: "m + 1 = 2 * q" using assms by (metis evenE even_plus_one_iff)
  have "2 * tri (c + m) = 2 * (tri c + m * (c + q))"
    using q by (simp only: tri_double distrib_left) algebra
  then have "tri (c + m) = tri c + m * (c + q)" by simp
  then show ?thesis by simp
qed

lemma tri_mod_odd_reduce:
  fixes m c :: int
  assumes "odd m" "0 < m"
  shows "tri c mod m = tri (c mod m) mod m"
proof -
  have "tri (r + int n * m) mod m = tri r mod m" for r n
  proof (induction n)
    case (Suc n)
    have "tri (r + int (Suc n) * m) = tri ((r + int n * m) + m)" by (simp add: algebra_simps)
    with Suc tri_mod_odd_period [OF assms(1), of "r + int n * m"] show ?case by simp
  qed simp
  note up = this
  show ?thesis
  proof (cases "0 \<le> c div m")
    case True
    then have "c = c mod m + int (nat (c div m)) * m" by simp
    then show ?thesis using up [of "c mod m" "nat (c div m)"] by simp
  next
    case False
    then have "int (nat (- (c div m))) = - (c div m)" by simp
    then have "c mod m = c + int (nat (- (c div m))) * m"
      by (simp only: minus_div_mult_eq_mod [symmetric] mult_minus_left add_uminus_conv_diff)
    then show ?thesis using up [of c "nat (- (c div m))"] by simp
  qed
qed

lemma tri_image_odd_small:
  fixes m p :: int
  assumes "odd m" "1 < m"
  shows "(\<lambda>c. (p + tri c) mod m) ` {0..<m} \<noteq> {0..<m}"
proof
  assume full: "(\<lambda>c. (p + tri c) mod m) ` {0..<m} = {0..<m}"
  then have "inj_on (\<lambda>c. (p + tri c) mod m) {0..<m}"
    by (intro eq_card_imp_inj_on) simp_all
  moreover have "(p + tri (m - 1)) mod m = (p + tri 0) mod m"
  proof -
    have "even (m - 1)" using assms(1) by simp
    then obtain q where q: "m - 1 = 2 * q" by (rule evenE)
    have "2 * tri (m - 1) = 2 * (q * m)" using q by (simp only: tri_double) algebra
    then show ?thesis by simp
  qed
  ultimately have "m - 1 = 0" using assms(2) by (elim inj_onD) simp_all
  with assms(2) show False by simp
qed

lemma odd_factor:
  fixes a :: int
  assumes "0 < a" "\<not> power_of_two a"
  shows "\<exists>m. odd m \<and> 1 < m \<and> m dvd a"
proof -
  have "\<exists>k m. a = 2 ^ k * m \<and> odd m"
    using assms(1)
  proof (induction "nat a" arbitrary: a rule: less_induct)
    case less
    show ?case
    proof (cases "odd a")
      case True
      then show ?thesis by (metis mult_1 power_0)
    next
      case False
      then obtain b where b: "a = 2 * b" by blast
      with less.prems have "nat b < nat a" "0 < b" by auto
      from less.hyps [OF this] obtain k m where "b = 2 ^ k * m" "odd m" by blast
      with b show ?thesis by (intro exI [of _ "Suc k"] exI [of _ m]) simp
    qed
  qed
  then obtain k m where km: "a = 2 ^ k * m" "odd m" by blast
  with assms(1) have "0 < m" by (simp add: zero_less_mult_iff)
  moreover have "m \<noteq> 1" using assms(2) km by (auto simp: power_of_two_def)
  ultimately show ?thesis using km by (intro exI [of _ m]) auto
qed

lemma tri_visits_not_power_two:
  assumes "0 < a" "\<not> power_of_two a"
  shows "tri_visits a p \<noteq> {0..<a}"
proof
  assume full: "tri_visits a p = {0..<a}"
  obtain m where m: "odd m" "1 < m" "m dvd a" using odd_factor [OF assms] by blast
  have "{0..<m} \<subseteq> (\<lambda>c. (p + tri c) mod m) ` {0..<m}"
  proof
    fix r assume r: "r \<in> {0..<m}"
    with m assms(1) have "r \<in> {0..<a}" using zdvd_imp_le [OF m(3) assms(1)] by simp
    then have "r \<in> tri_visits a p" by (simp only: full)
    then obtain c where "r = (p + tri c) mod a" unfolding tri_visits_def by blast
    then have "(p + tri c) mod m = r mod m" using m(3) by (simp add: mod_mod_cancel)
    also have "r mod m = r" using r by simp
    finally have "(p + tri (c mod m)) mod m = r"
      using tri_mod_odd_reduce [OF m(1), of c] m(2) by (metis less_trans mod_add_right_eq zero_less_one)
    then show "r \<in> (\<lambda>c. (p + tri c) mod m) ` {0..<m}"
      using m(2) by (intro image_eqI [of _ _ "c mod m"]) simp_all
  qed
  moreover have "(\<lambda>c. (p + tri c) mod m) ` {0..<m} \<subseteq> {0..<m}" using m(2) by auto
  ultimately show False using tri_image_odd_small [OF m(1,2), of p] by blast
qed

text \<open>One round covers all partitions exactly when their number is a power of two.\<close>

lemma tri_visits_covers_iff: "0 < a \<Longrightarrow> tri_visits a p = {0..<a} \<longleftrightarrow> power_of_two a"
  using tri_visits_power_two tri_visits_not_power_two by blast

text \<open>
  Otherwise a partition stays unvisited however many rounds follow, each starting where the
  last one ended: the set \<open>Q\<close> of starting keys is closed under rounds and misses \<open>q\<close>.
\<close>

lemma tri_never_visited:
  fixes a p0 :: int
  assumes "0 < a" "\<not> power_of_two a" "0 \<le> p0" "p0 < a"
  shows "\<exists>q Q. 0 \<le> q \<and> q < a \<and> p0 \<in> Q \<and>
    (\<forall>p \<in> Q. 0 \<le> p \<and> p < a \<and> q \<notin> tri_visits a p \<and> (p + tri a) mod a \<in> Q)"
proof -
  obtain m where m: "odd m" "1 < m" "m dvd a" using odd_factor [OF assms(1,2)] by blast
  have m0: "0 < m" using m(2) by simp
  have "m dvd 2 * tri a" using m(3) by (simp add: tri_double)
  then have tria: "m dvd tri a" using m(1) by (simp add: coprime_dvd_mult_right_iff)
  have "(\<lambda>c. (p0 + tri c) mod m) ` {0..<m} \<subseteq> {0..<m}" using m0 by auto
  then obtain q where q: "q \<in> {0..<m}" "q \<notin> (\<lambda>c. (p0 + tri c) mod m) ` {0..<m}"
    using tri_image_odd_small [OF m(1,2), of p0] by blast
  have miss: "(p0 + tri c) mod m \<noteq> q" for c
  proof -
    have "(p0 + tri c) mod m = (p0 + tri (c mod m)) mod m"
      using tri_mod_odd_reduce [OF m(1) m0, of c] by (metis mod_add_right_eq)
    then show ?thesis using q(2) m0 by auto
  qed
  let ?Q = "{p. 0 \<le> p \<and> p < a \<and> p mod m = p0 mod m}"
  have "q \<notin> tri_visits a p" if p: "p \<in> ?Q" for p
  proof
    assume "q \<in> tri_visits a p"
    then obtain c where "q = (p + tri c) mod a" by (auto simp: tri_visits_def)
    then have "q mod m = (p + tri c) mod m" using m(3) by (simp add: mod_mod_cancel)
    also have "\<dots> = (p0 + tri c) mod m" using p by (metis (mono_tags, lifting) mem_Collect_eq mod_add_left_eq)
    finally show False using miss [of c] q(1) by simp
  qed
  moreover have "(p + tri a) mod a \<in> ?Q" if "p \<in> ?Q" for p
  proof -
    have "(p + tri a) mod a mod m = (p + tri a) mod m" using m(3) by (simp add: mod_mod_cancel)
    also have "\<dots> = p mod m" using tria by (metis add.right_neutral dvd_imp_mod_0 mod_add_right_eq)
    finally show ?thesis using that assms(1) by simp
  qed
  moreover have "q < a" using q(1) zdvd_imp_le [OF m(3) assms(1)] by simp
  ultimately show ?thesis
    using q(1) assms(3,4) by (intro exI [of _ q] exI [of _ ?Q]) auto
qed

section \<open>Searching for a partition\<close>

text \<open>
  What a search relies on: \<open>attempt p\<close> is the transaction at partition \<open>p\<close>, \<open>view\<close> the shared
  data, \<open>ok\<close> the states in which the transaction behaves as promised, \<open>avail p\<close> that the
  partition has what is searched for, \<open>good\<close> what a success establishes.
\<close>

locale probe_search =
  fixes attempt :: "int \<Rightarrow> 's \<Rightarrow> 'r option \<times> 's"
    and view :: "'s \<Rightarrow> 'v"
    and ok :: "'s \<Rightarrow> bool"
    and avail :: "int \<Rightarrow> 'v \<Rightarrow> bool"
    and good :: "int \<Rightarrow> 'r \<Rightarrow> 'v \<Rightarrow> 's \<Rightarrow> bool"
  assumes attempt_miss: "ok s \<Longrightarrow> \<not> avail p (view s) \<Longrightarrow>
      \<exists>s'. attempt p s = (None, s') \<and> view s' = view s \<and> ok s'"
    and attempt_hit: "ok s \<Longrightarrow> avail p (view s) \<Longrightarrow>
      \<exists>r s'. attempt p s = (Some r, s') \<and> good p r (view s) s'"
begin

lemma attempt_ends:
  assumes "ok s"
  shows "ends (\<lambda>s'. \<not> avail p (view s) \<and> view s' = view s \<and> ok s')
     (\<lambda>r s'. avail p (view s) \<and> good p r (view s) s') (attempt p s)"
  using attempt_miss [OF assms] attempt_hit [OF assms] by (cases "avail p (view s)") fastforce+

lemma linear_search:
  assumes "ok s" "0 < a" "0 \<le> off"
  shows "ends (\<lambda>s'. (\<forall>p. 0 \<le> p \<and> p < a \<longrightarrow> \<not> avail p (view s)) \<and> view s' = view s \<and> ok s')
     (\<lambda>r s'. \<exists>p. 0 \<le> p \<and> p < a \<and> avail p (view s) \<and> good p r (view s) s')
     (linear_probe attempt a off s)"
proof -
  let ?I = "\<lambda>j s'. (\<forall>c. 0 \<le> c \<and> c < j \<longrightarrow> \<not> avail ((c + off) mod a) (view s)) \<and> view s' = view s \<and> ok s'"
  let ?Q = "\<lambda>r s'. \<exists>p. 0 \<le> p \<and> p < a \<and> avail p (view s) \<and> good p r (view s) s'"
  have "ends (?I a) ?Q (linear_probe attempt a off s)"
    unfolding linear_probe_def
  proof (rule for_range_rule [where I = ?I])
    fix j s' assume j: "0 \<le> j" "j < a" and I: "?I j s'"
    let ?p = "(j + off) mod a"
    have p: "c_rem (j + off) a = ?p" using j assms by (simp add: c_rem_nonneg)
    have "ends (\<lambda>s''. \<not> avail ?p (view s') \<and> view s'' = view s' \<and> ok s'')
      (\<lambda>r s''. avail ?p (view s') \<and> good ?p r (view s') s'') (attempt ?p s')"
      using I by (intro attempt_ends) simp
    then show "ends (?I (j + 1)) ?Q (attempt (c_rem (j + off) a) s')"
      unfolding p
    proof (rule ends_mono)
      fix s'' assume "\<not> avail ?p (view s') \<and> view s'' = view s' \<and> ok s''"
      then show "?I (j + 1) s''" using I by (auto simp: order_le_less zless_add1_eq)
    next
      fix r s'' assume "avail ?p (view s') \<and> good ?p r (view s') s''"
      then show "?Q r s''" using I assms(2) by (intro exI [of _ ?p]) simp
    qed
  qed (use assms in auto)
  then show ?thesis
  proof (rule ends_mono)
    fix s' assume I: "?I a s'"
    have "\<not> avail p (view s)" if "0 \<le> p" "p < a" for p
      using linear_covers [OF assms(2) that assms(3)] I by blast
    then show "(\<forall>p. 0 \<le> p \<and> p < a \<longrightarrow> \<not> avail p (view s)) \<and> view s' = view s \<and> ok s'" using I by simp
  qed
qed

lemma triangular_search:
  assumes "ok s" "0 < a" "0 \<le> p0" "p0 < a"
  shows "ends (\<lambda>(p', s'). (\<forall>p \<in> tri_visits a p0. \<not> avail p (view s)) \<and>
        p' = (p0 + tri a) mod a \<and> view s' = view s \<and> ok s')
     (\<lambda>r (p', s'). p' \<in> tri_visits a p0 \<and> avail p' (view s) \<and> good p' r (view s) s')
     (triangular_probe attempt a p0 s)"
proof -
  let ?I = "\<lambda>j (p, s'). (\<forall>c. 0 \<le> c \<and> c < j - 1 \<longrightarrow> \<not> avail ((p0 + tri c) mod a) (view s)) \<and>
    p = (p0 + tri (j - 1)) mod a \<and> view s' = view s \<and> ok s'"
  let ?Q = "\<lambda>r (p, s'). p \<in> tri_visits a p0 \<and> avail p (view s) \<and> good p r (view s) s'"
  have "ends (?I (a + 1)) ?Q (triangular_probe attempt a p0 s)"
    unfolding triangular_probe_def
  proof (rule for_range_rule [where I = ?I])
    fix j x assume j: "1 \<le> j" "j < a + 1" and Ix: "?I j x"
    obtain p s' where x: "x = (p, s')" by fastforce
    with Ix have I: "\<forall>c. 0 \<le> c \<and> c < j - 1 \<longrightarrow> \<not> avail ((p0 + tri c) mod a) (view s)"
      "p = (p0 + tri (j - 1)) mod a" "view s' = view s" "ok s'" by simp_all
    have pj: "0 \<le> p" "p < a" using I(2) assms(2) by simp_all
    have vis: "p \<in> tri_visits a p0" using I(2) j by (auto simp: tri_visits_def)
    have nxt: "c_rem (p + j) a = (p0 + tri j) mod a"
      using pj j assms(2) tri_next [of p0 "j - 1" a] I(2) by (simp add: c_rem_nonneg)
    show "ends (?I (j + 1)) ?Q (triangular_step attempt a j x)"
    proof (cases "avail p (view s)")
      case True
      then obtain r s'' where "attempt p s' = (Some r, s'')" "good p r (view s) s''"
        using attempt_hit [OF I(4), of p] I(3) by auto
      then show ?thesis using vis True x by (simp add: triangular_step_def)
    next
      case False
      then obtain s'' where s'': "attempt p s' = (None, s'')" "view s'' = view s'" "ok s''"
        using attempt_miss [OF I(4), of p] I(3) by auto
      have "\<forall>c. 0 \<le> c \<and> c < j \<longrightarrow> \<not> avail ((p0 + tri c) mod a) (view s)"
        using I(1,2) False by (metis int_one_le_iff_zero_less linorder_neqE_linordered_idom
          zle_diff1_eq order_less_le_trans less_le_not_le)
      then show ?thesis using s'' x I(3) nxt by (simp add: triangular_step_def)
    qed
  qed (use assms in auto)
  then show ?thesis
    by (rule ends_mono) (auto simp: tri_visits_def)
qed

text \<open>With a power of two, one round is a complete search, so the rounds are.\<close>

lemma rounds_search:
  assumes "ok s" "power_of_two a" "0 \<le> p0" "p0 < a" "0 < rounds"
  shows "ends (\<lambda>(p', s'). (\<forall>p. 0 \<le> p \<and> p < a \<longrightarrow> \<not> avail p (view s)) \<and> view s' = view s \<and> ok s')
     (\<lambda>r (p', s'). 0 \<le> p' \<and> p' < a \<and> avail p' (view s) \<and> good p' r (view s) s')
     (triangular_rounds attempt rounds a p0 s)"
proof -
  have a: "0 < a" using assms(3,4) by simp
  let ?N = "\<forall>p. 0 \<le> p \<and> p < a \<longrightarrow> \<not> avail p (view s)"
  let ?I = "\<lambda>(j :: int) (p', s'). 0 \<le> p' \<and> p' < a \<and> view s' = view s \<and> ok s' \<and> (0 < j \<longrightarrow> ?N)"
  let ?Q = "\<lambda>r (p', s'). 0 \<le> p' \<and> p' < a \<and> avail p' (view s) \<and> good p' r (view s) s'"
  have "ends (?I rounds) ?Q (triangular_rounds attempt rounds a p0 s)"
    unfolding triangular_rounds_def
  proof (rule for_range_rule [where I = ?I])
    fix j x assume "?I j x"
    then obtain p s' where x: "x = (p, s')" "0 \<le> p" "p < a" "view s' = view s" "ok s'" by auto
    have vis: "tri_visits a p = {0..<a}" by (rule tri_visits_power_two [OF assms(2)])
    show "ends (?I (j + 1)) ?Q (case x of (pkey, s) \<Rightarrow> triangular_probe attempt a pkey s)"
      unfolding x prod.case
      by (rule ends_mono [OF triangular_search [OF x(5) a x(2,3)]])
        (use x(4) a in \<open>auto simp: vis\<close>)
  qed (use assms in auto)
  then show ?thesis by (rule ends_mono) (use assms(5) in auto)
qed

text \<open>A partition that no round visits is not found.\<close>

lemma rounds_miss:
  assumes "ok s" "0 < a" "p0 \<in> Q"
    and Q: "\<forall>p \<in> Q. 0 \<le> p \<and> p < a \<and> q \<notin> tri_visits a p \<and> (p + tri a) mod a \<in> Q"
    and only: "\<And>p. avail p (view s) \<Longrightarrow> p = q"
  shows "\<exists>p' s'. triangular_rounds attempt rounds a p0 s = (None, (p', s')) \<and> view s' = view s \<and> ok s'"
proof (cases "0 \<le> rounds")
  case True
  let ?I = "\<lambda>(j :: int) (p', s'). p' \<in> Q \<and> view s' = view s \<and> ok s'"
  have "ends (?I rounds) (\<lambda>_ _. False) (triangular_rounds attempt rounds a p0 s)"
    unfolding triangular_rounds_def
  proof (rule for_range_rule [where I = ?I])
    fix j x assume "?I j x"
    then obtain p s' where x: "x = (p, s')" "p \<in> Q" "view s' = view s" "ok s'" by auto
    then have p: "0 \<le> p" "p < a" "q \<notin> tri_visits a p" "(p + tri a) mod a \<in> Q" using Q by auto
    show "ends (?I (j + 1)) (\<lambda>_ _. False) (case x of (pkey, s) \<Rightarrow> triangular_probe attempt a pkey s)"
      unfolding x(1) prod.case
      by (rule ends_mono [OF triangular_search [OF x(4) assms(2) p(1,2)]])
        (use x(3) p(3,4) only in auto)
  qed (use assms True in auto)
  then show ?thesis
    by (cases "triangular_rounds attempt rounds a p0 s"; cases "fst (triangular_rounds attempt rounds a p0 s)")
      auto
qed (use assms in \<open>simp add: triangular_rounds_def\<close>)

end

section \<open>What every attempt keeps, a search keeps\<close>

lemma triangular_probe_keeps:
  assumes "P s" and at: "\<And>p s. P s \<Longrightarrow> P (snd (attempt p s))"
  shows "P (snd (snd (triangular_probe attempt a p s)))"
  unfolding triangular_probe_def
proof (rule for_range_keeps [where P = "\<lambda>x. P (snd x)"])
  fix j and x :: "int \<times> 'a"
  assume x: "P (snd x)"
  obtain q u where "x = (q, u)" by fastforce
  with at [OF x, of q] show "P (snd (snd (triangular_step attempt a j x)))"
    by (auto simp: triangular_step_def split: prod.split option.split)
qed (use assms(1) in simp)

lemma triangular_rounds_keeps:
  assumes "P s" and at: "\<And>p s. P s \<Longrightarrow> P (snd (attempt p s))"
  shows "P (snd (snd (triangular_rounds attempt n a p s)))"
  unfolding triangular_rounds_def
proof (rule for_range_keeps [where P = "\<lambda>x. P (snd x)"])
  fix j and x :: "int \<times> 'a"
  assume "P (snd x)"
  then show "P (snd (snd (case x of (p, s) \<Rightarrow> triangular_probe attempt a p s)))"
    by (cases x) (simp add: triangular_probe_keeps [where P = P, OF _ at])
qed (use assms(1) in simp)

end
