(* ===== verification/Registration.thy ===== *)
theory Registration
  imports Volt_Client Probing
begin

text \<open>
  What the schedulers share without sharing code: the rows that \<open>setup\<close> registers for \<open>n\<close>
  workers in \<open>P\<close> partitions, the invariant \<open>registered\<close> of the tables from then on, the rules for
  the insertion loops, and the rely condition \<open>others_keep\<close> on other clients.
\<close>

section \<open>Definitions\<close>

text \<open>The rows of the \<open>Worker\<close> table after a successful \<open>setup\<close>.\<close>

definition worker_rows :: "int \<Rightarrow> int \<Rightarrow> int \<Rightarrow> worker list" where
  "worker_rows P cap n =
     map (\<lambda>i. \<lparr>w_WorkerID = i, w_Capacity = cap, w_DataShards = 0, w_PKey = c_rem i P, w_Url = []\<rparr>)
       [0..n - 1]"

definition registered :: "int \<Rightarrow> int \<Rightarrow> tables \<Rightarrow> bool" where
  "registered P n t \<longleftrightarrow> wf_workers P t \<and> (\<forall>w \<in> set (Worker t). w_WorkerID w < n)"

definition some_capacity :: "tables \<Rightarrow> bool" where
  "some_capacity t \<longleftrightarrow> (\<exists>w \<in> set (Worker t). 0 < w_Capacity w)"

definition fresh_task :: "int \<Rightarrow> tables \<Rightarrow> bool" where
  "fresh_task i t \<longleftrightarrow> i \<notin> t_TaskID ` set (Task t)"

text \<open>The other clients keep a property of the tables.\<close>

definition others_keep :: "env \<Rightarrow> (tables \<Rightarrow> bool) \<Rightarrow> bool" where
  "others_keep env I \<longleftrightarrow> (\<forall>k t. I t \<longrightarrow> I (others env k t))"

text \<open>The shape of a search that starts at a random partition and ends with \<open>-1\<close>.\<close>

definition select_linear ::
    "env \<Rightarrow> (int \<Rightarrow> world \<Rightarrow> int result option \<times> world) \<Rightarrow> int \<Rightarrow> world \<Rightarrow> int result \<times> world" where
  "select_linear env attempt a w =
     (case rand_mod env a w of
        (Inl e, w1) \<Rightarrow> (Inl e, w1)
      | (Inr offset, w1) \<Rightarrow>
          (case linear_probe attempt a offset w1 of
             (Some r, w2) \<Rightarrow> (r, w2)
           | (None, w2) \<Rightarrow> (Inr (-1), w2)))"

section \<open>Lemmas\<close>

subsection \<open>Loops over the workers\<close>

lemma all_succeed_rule:
  assumes "0 \<le> n" "I 0 w"
    and step: "\<And>i w. 0 \<le> i \<Longrightarrow> i < n \<Longrightarrow> I i w \<Longrightarrow> \<exists>w'. f i w = (Inr True, w') \<and> I (i + 1) w'"
  shows "\<exists>w'. all_succeed n f w = (Inr True, w') \<and> I n w'"
proof -
  let ?b = "\<lambda>i w. case f i w of (Inr True, w') \<Rightarrow> (None, w') | (r, w') \<Rightarrow> (Some r, w')"
  have "ends (I n) (\<lambda>_ _. False) (for_range 0 n ?b w)"
  proof (rule for_range_rule [where I = I])
    fix j w assume "0 \<le> j" "j < n" "I j w"
    from step [OF this] show "ends (I (j + 1)) (\<lambda>_ _. False) (?b j w)" by auto
  qed (use assms in simp_all)
  then show ?thesis
    by (cases "for_range 0 n ?b w"; cases "fst (for_range 0 n ?b w)") (auto simp: all_succeed_def)
qed

lemma all_succeed_keeps:
  assumes "P w" and "\<And>i w. P w \<Longrightarrow> P (snd (f i w))"
  shows "P (snd (all_succeed n f w))"
proof -
  let ?b = "\<lambda>i w. case f i w of (Inr True, w') \<Rightarrow> (None, w') | (r, w') \<Rightarrow> (Some r, w')"
  have "P (snd (for_range 0 n ?b w))"
  proof (rule for_range_keeps)
    fix j w assume "P w"
    then have "P (snd (f j w))" by (rule assms(2))
    then show "P (snd (?b j w))" by (auto split: prod.split sum.split bool.split)
  qed (rule assms(1))
  then show ?thesis
    by (cases "for_range 0 n ?b w") (auto simp: all_succeed_def split: option.split)
qed

lemma worker_rows_0 [simp]: "worker_rows P cap 0 = []"
  by (simp add: worker_rows_def)

lemma worker_rows_Suc:
  "0 \<le> i \<Longrightarrow> worker_rows P cap (i + 1) = worker_rows P cap i @
     [\<lparr>w_WorkerID = i, w_Capacity = cap, w_DataShards = 0, w_PKey = c_rem i P, w_Url = []\<rparr>]"
  using upto_rec2 [of 0 i] by (simp add: worker_rows_def)

lemma worker_rows_ids: "map w_WorkerID (worker_rows P cap n) = [0..n - 1]"
  by (simp add: worker_rows_def comp_def)

lemma worker_rows_registered:
  "0 \<le> cap \<Longrightarrow> n \<le> 2 ^ 31 \<Longrightarrow> Worker t = worker_rows P cap n \<Longrightarrow> registered P n t"
  by (auto simp: registered_def wf_workers_def worker_rows_ids) (auto simp: worker_rows_def)

lemma worker_rows_registered_upd [simp]:
  "0 \<le> cap \<Longrightarrow> n \<le> 2 ^ 31 \<Longrightarrow> registered P n (t\<lparr>Worker := worker_rows P cap n\<rparr>)"
  by (rule worker_rows_registered) simp_all

lemma worker_rows_total: "0 \<le> n \<Longrightarrow> Worker t = worker_rows P cap n \<Longrightarrow> total_capacity t = n * cap"
  by (simp add: total_capacity_def worker_rows_def comp_def sum_list_triv)

subsection \<open>The invariant\<close>

lemma registered_pkey:
  assumes "registered P n t" "w \<in> set (Worker t)" "0 < P"
  shows "0 \<le> w_PKey w \<and> w_PKey w < min P n"
proof -
  have w: "0 \<le> w_WorkerID w" "w_WorkerID w < n" "w_PKey w = c_rem (w_WorkerID w) P"
    using assms(1,2) by (simp_all add: registered_def wf_workers_def)
  moreover have "w_WorkerID w mod P \<le> w_WorkerID w" using w(1) by (rule zmod_le_nonneg_dividend)
  moreover have "0 \<le> w_WorkerID w mod P" "w_WorkerID w mod P < P" using assms(3) by simp_all
  ultimately show ?thesis using assms(3) unfolding min_less_iff_conj by (simp add: c_rem_nonneg)
qed

lemma registered_some_capacity:
  assumes "registered P n t" "0 < P"
  shows "some_capacity t \<longleftrightarrow> (\<exists>p. 0 \<le> p \<and> p < min P n \<and> free_workers p t \<noteq> [])"
proof
  assume "some_capacity t"
  then obtain w where w: "w \<in> set (Worker t)" "0 < w_Capacity w" by (auto simp: some_capacity_def)
  then have "w \<in> set (free_workers (w_PKey w) t)" by (simp add: free_workers_sub)
  then have "free_workers (w_PKey w) t \<noteq> []" by auto
  with registered_pkey [OF assms(1) w(1) assms(2)]
  show "\<exists>p. 0 \<le> p \<and> p < min P n \<and> free_workers p t \<noteq> []" by blast
next
  assume "\<exists>p. 0 \<le> p \<and> p < min P n \<and> free_workers p t \<noteq> []"
  then obtain p w where "w \<in> set (free_workers p t)" by (metis list.set_intros(1) neq_Nil_conv)
  then show "some_capacity t" by (auto simp: some_capacity_def free_workers_sub)
qed

lemma wf_some_capacity:
  assumes "wf_workers P t" "0 < P"
  shows "some_capacity t \<longleftrightarrow> (\<exists>p. 0 \<le> p \<and> p < P \<and> free_workers p t \<noteq> [])"
proof
  assume "some_capacity t"
  then obtain w where w: "w \<in> set (Worker t)" "0 < w_Capacity w" by (auto simp: some_capacity_def)
  then have "w \<in> set (free_workers (w_PKey w) t)" by (simp add: free_workers_sub)
  moreover have "0 \<le> w_PKey w" "w_PKey w < P"
    using assms w(1) by (auto simp: wf_workers_def c_rem_nonneg)
  ultimately show "\<exists>p. 0 \<le> p \<and> p < P \<and> free_workers p t \<noteq> []" by force
qed (auto simp: some_capacity_def free_workers_def filter_empty_conv)

lemma registered_cong: "Worker t' = Worker t \<Longrightarrow> registered P n t' = registered P n t"
  by (simp add: registered_def wf_workers_def)

lemma registered_distinct: "registered P n t \<Longrightarrow> distinct (map w_WorkerID (Worker t))"
  by (simp add: registered_def wf_workers_def)

lemma registered_layout:
  assumes "registered P n t" "wf_workers P t'" "layout t' = layout t"
  shows "registered P n t'"
proof -
  have "w_WorkerID ` set (Worker t') = w_WorkerID ` set (Worker t)"
    using layout_ids [OF assms(3)] by (metis set_map)
  then have "\<forall>i \<in> w_WorkerID ` set (Worker t'). i < n" using assms(1) by (simp add: registered_def)
  then show ?thesis using assms(2) by (simp add: registered_def)
qed

lemma registered_takes_slot_id:
  assumes "registered P n t" "takes_slot p i t t'"
  shows "0 \<le> i \<and> i < 2 ^ 31 \<and> i < n"
  using assms by (auto simp: registered_def wf_workers_def takes_slot_def free_workers_sub)

lemma fresh_task_insert:
  "fresh_task (t_TaskID r) t \<Longrightarrow> insert_task_row h r t = Some (t\<lparr>Task := Task t @ [r]\<rparr>)"
  by (simp add: fresh_task_def insert_task_row_def image_iff) metis

lemma others_keep_seen: "others_keep env I \<Longrightarrow> I (tables_of w) \<Longrightarrow> I (seen env w)"
  by (simp add: others_keep_def seen_def)

lemma alone_others_keep [simp]: "alone env \<Longrightarrow> others_keep env I"
  by (simp add: alone_def others_keep_def)

lemma rand_mod_range:
  assumes "0 < m"
  obtains r where "0 \<le> r" "r < m" "rand_mod env m w = (Inr r, w\<lparr>draws := Suc (draws w)\<rparr>)"
  using assms by (metis Euclidean_Rings.pos_mod_bound Euclidean_Rings.pos_mod_sign rand_mod_pos)

lemma takes_slot_total:
  assumes "wf_workers P t" "wf_workers P t'" "takes_slot p i t t'"
  shows "total_capacity t' = total_capacity t - 1"
proof -
  note d = wf_workers_distinct [OF assms(1)] wf_workers_distinct [OF assms(2)]
  obtain c where c: "cap_of t i = Some c" "cap_of t' = (cap_of t)(i \<mapsto> c - 1)"
    using assms(3) by (auto simp: takes_slot_def)
  have ids: "map w_WorkerID (Worker t') = map w_WorkerID (Worker t)"
    using assms(3) by (intro layout_ids) (simp add: takes_slot_def)
  have tot: "total_capacity u = (\<Sum>j \<leftarrow> map w_WorkerID (Worker u). the (cap_of u j))"
    if "distinct (map w_WorkerID (Worker u))" for u
    using that by (auto simp: total_capacity_def comp_def cap_of_worker intro!: arg_cong [where f = sum_list])
  have i: "i \<in> set (map w_WorkerID (Worker t))"
    using c(1) d(1) by (auto simp: cap_of_Some_iff)
  have "total_capacity t' = (\<Sum>j \<leftarrow> map w_WorkerID (Worker t).
      if id j = id i then c - 1 else the (cap_of t j))"
    unfolding tot [OF d(2)] ids c(2) by (intro arg_cong [where f = sum_list] map_cong) auto
  also have "\<dots> = total_capacity t - the (cap_of t i) + (c - 1)"
    unfolding tot [OF d(1)]
    using sum_list_update_key [of id "map w_WorkerID (Worker t)" i "\<lambda>_. c - 1" "\<lambda>j. the (cap_of t j)"] d(1) i
    by (simp del: map_map)
  finally show ?thesis using c(1) by simp
qed

lemma some_capacity_total:
  assumes "wf_workers P t"
  shows "some_capacity t \<longleftrightarrow> 0 < total_capacity t"
proof
  assume "some_capacity t"
  then obtain w where w: "w \<in> set (Worker t)" "0 < w_Capacity w" by (auto simp: some_capacity_def)
  have "w_Capacity w \<le> sum_list (map w_Capacity (Worker t))"
    using w(1) assms by (intro member_le_sum_list) (auto simp: wf_workers_def)
  then show "0 < total_capacity t" using w(2) by (simp add: total_capacity_def)
next
  assume pos: "0 < total_capacity t"
  show "some_capacity t"
  proof (rule ccontr)
    assume "\<not> some_capacity t"
    then have "\<forall>w \<in> set (Worker t). w_Capacity w \<le> 0" by (auto simp: some_capacity_def)
    then have "total_capacity t \<le> 0" unfolding total_capacity_def by (intro sum_list_nonpos) auto
    with pos show False by simp
  qed
qed

section \<open>Searching from a random partition\<close>

text \<open>A search over the tables; drawing a random number does not spoil it.\<close>

locale table_search = probe_search attempt tables_of ok avail good
  for attempt :: "int \<Rightarrow> world \<Rightarrow> 'r option \<times> world" and ok avail good +
  assumes ok_draws: "ok w \<Longrightarrow> ok (w\<lparr>draws := d\<rparr>)"

locale linear_table_search = table_search attempt ok avail good
  for attempt :: "int \<Rightarrow> world \<Rightarrow> int result option \<times> world" and ok avail good
begin

lemma select_linear_spec:
  assumes "ok w" "0 < a"
  shows "(\<exists>w'. select_linear env attempt a w = (Inr (-1), w') \<and> tables_of w' = tables_of w \<and> ok w' \<and>
       (\<forall>p. 0 \<le> p \<and> p < a \<longrightarrow> \<not> avail p (tables_of w)))
   \<or> (\<exists>p r w'. select_linear env attempt a w = (r, w') \<and> 0 \<le> p \<and> p < a \<and>
       avail p (tables_of w) \<and> good p r (tables_of w) w')"
proof -
  obtain off where off: "0 \<le> off" "rand_mod env a w = (Inr off, w\<lparr>draws := Suc (draws w)\<rparr>)"
    using rand_mod_range [OF assms(2)] by metis
  let ?w1 = "w\<lparr>draws := Suc (draws w)\<rparr>"
  from linear_search [OF ok_draws [OF assms(1)] assms(2) off(1), of "Suc (draws w)"]
  show ?thesis
    using off(2)
    by (cases "linear_probe attempt a off ?w1"; cases "fst (linear_probe attempt a off ?w1)")
      (auto simp: select_linear_def)
qed

end

text \<open>What every attempt keeps, the search keeps.\<close>

lemma select_linear_keeps:
  assumes "I (tables_of w)" and at: "\<And>p w. I (tables_of w) \<Longrightarrow> I (tables_of (snd (attempt p w)))"
  shows "I (tables_of (snd (select_linear env attempt a w)))"
proof -
  have "I (tables_of (snd (linear_probe attempt a off w)))"
    if "I (tables_of w)" for off w
    unfolding linear_probe_def using that by (rule for_range_keeps) (rule at)
  moreover obtain x w1 where "rand_mod env a w = (x, w1)" "tables_of w1 = tables_of w"
    using rand_mod_tables [of env a w] by (metis prod.collapse)
  ultimately show ?thesis
    using assms(1)
    by (cases x) (auto simp: select_linear_def split: prod.split option.split, (metis snd_conv)+)
qed

end
