(* ===== verification/FIFO_Scheduler.thy ===== *)
theory FIFO_Scheduler
  imports Registration
begin

text \<open>
  \<open>PartitionedFIFOScheduler\<close>: workers are hashed over partitions, a scheduling act probes the
  partitions linearly from a random one and takes a slot of any worker that has one.
  \<open>schedule\<close> crashes when \<open>assert(workerId >= 0)\<close> fails.
\<close>

section \<open>Definitions\<close>

record PartitionedFIFOScheduler =
  workerCapacity :: int
  workerPartitions :: int
  numWorkers :: int

definition FIFO_truncateWorkerTable :: "env \<Rightarrow> world \<Rightarrow> world" where
  "FIFO_truncateWorkerTable env w = invoke_void env ''TruncateWorkerTable'' [] w"

definition FIFO_insertWorker ::
    "env \<Rightarrow> PartitionedFIFOScheduler \<Rightarrow> int \<Rightarrow> int \<Rightarrow> world \<Rightarrow> bool result \<times> world" where
  "FIFO_insertWorker env c workerID capacity w =
     (if workerPartitions c = 0 then (Inl DivByZero, w)
      else case invoke_status env ''InsertWorker''
                  [WInt workerID, WInt capacity, WInt (c_rem workerID (workerPartitions c)), WStr []] w of
             (ok, w') \<Rightarrow> (Inr ok, w'))"

text \<open>One iteration of \<open>selectWorker\<close>: \<open>Some\<close> is a return (or a crash), \<open>None\<close> the next iteration.\<close>

definition FIFO_selectWorker_at :: "env \<Rightarrow> int \<Rightarrow> world \<Rightarrow> int result option \<times> world" where
  "FIFO_selectWorker_at env partitionNum w =
     (case invoke_int64 env ''SelectWorker'' [WInt partitionNum] w of
        (None, w') \<Rightarrow> (Some (Inr (-1)), w')
      | (Some (Inl e), w') \<Rightarrow> (Some (Inl e), w')
      | (Some (Inr v), w') \<Rightarrow>
          (let selectedWorker = narrow32 v
           in if selectedWorker \<noteq> -1 then (Some (Inr selectedWorker), w') else (None, w')))"

definition FIFO_selectWorker ::
    "env \<Rightarrow> PartitionedFIFOScheduler \<Rightarrow> world \<Rightarrow> int result \<times> world" where
  "FIFO_selectWorker env c w =
     (let activePartitions = min (workerPartitions c) (numWorkers c)
      in case rand_mod env activePartitions w of
           (Inl e, w1) \<Rightarrow> (Inl e, w1)
         | (Inr offset, w1) \<Rightarrow>
             (case linear_probe (FIFO_selectWorker_at env) activePartitions offset w1 of
                (Some r, w2) \<Rightarrow> (r, w2)
              | (None, w2) \<Rightarrow> (Inr (-1), w2)))"

text \<open>\<open>assignTaskToWorker\<close> only prints.\<close>

definition FIFO_assignTaskToWorker :: "int \<Rightarrow> int \<Rightarrow> world \<Rightarrow> bool \<times> world" where
  "FIFO_assignTaskToWorker taskId workerId w = (True, w)"

text \<open>\<open>finishTask\<close> passes two parameters, the worker and its partition.\<close>

definition FIFO_finishTask ::
    "env \<Rightarrow> PartitionedFIFOScheduler \<Rightarrow> int \<Rightarrow> int \<Rightarrow> world \<Rightarrow> bool result \<times> world" where
  "FIFO_finishTask env c taskId workerId w =
     (if workerPartitions c = 0 then (Inl DivByZero, w)
      else case invoke_status env ''FinishWorkerTask''
                  [WInt workerId, WInt (c_rem workerId (workerPartitions c))] w of
             (ok, w') \<Rightarrow> (Inr ok, w'))"

definition FIFO_setup :: "env \<Rightarrow> PartitionedFIFOScheduler \<Rightarrow> world \<Rightarrow> bool result \<times> world" where
  "FIFO_setup env c w =
     all_succeed (numWorkers c) (\<lambda>i. FIFO_insertWorker env c i (workerCapacity c))
       (FIFO_truncateWorkerTable env w)"

definition FIFO_teardown :: "env \<Rightarrow> world \<Rightarrow> bool \<times> world" where
  "FIFO_teardown env w = (True, FIFO_truncateWorkerTable env w)"

definition FIFO_schedule ::
    "env \<Rightarrow> PartitionedFIFOScheduler \<Rightarrow> Task_struct \<Rightarrow> world \<Rightarrow> bool result \<times> world" where
  "FIFO_schedule env c task w =
     (case FIFO_selectWorker env c w of
        (Inl e, w') \<Rightarrow> (Inl e, w')
      | (Inr workerId, w') \<Rightarrow> (if workerId \<ge> 0 then Inr True else Inl AssertFailed, w'))"

definition FIFO_asyncSchedule ::
    "env \<Rightarrow> PartitionedFIFOScheduler \<Rightarrow> world \<Rightarrow> bool result \<times> world" where
  "FIFO_asyncSchedule env c w =
     (let activePartitions = min (workerPartitions c) (numWorkers c)
      in case rand_mod env activePartitions w of
           (Inl e, w1) \<Rightarrow> (Inl e, w1)
         | (Inr partitionNum, w1) \<Rightarrow>
             (Inr True, invoke_async env ''SelectWorker'' [WInt partitionNum] w1))"

section \<open>Lemmas\<close>

subsection \<open>One partition\<close>

lemma SelectWorker_takes_slot:
  assumes "registered P n t" and "SelectWorker ch p t = (r, t')"
  shows "if free_workers p t = [] then r = -1 \<and> t' = t else 0 \<le> r \<and> takes_slot p r t t'"
  using sel.run_takes_slot [OF registered_distinct [OF assms(1)], of ch p r t'] assms
    registered_takes_slot_id [OF assms(1)] by (auto split: if_splits)

lemma SelectWorker_registered:
  assumes "registered P n t" and "SelectWorker ch p t = (r, t')"
  shows "registered P n t'"
proof -
  have "wf_workers P t'" using assms sel.run_wf [of P t ch p r t'] by (simp add: registered_def)
  moreover have "layout t' = layout t"
    using SelectWorker_takes_slot [OF assms] by (auto simp: takes_slot_def split: if_splits)
  ultimately show ?thesis using assms(1) registered_layout by blast
qed

text \<open>The transaction at one partition, for a search in a quiet environment.\<close>

interpretation fifo: linear_table_search
  "FIFO_selectWorker_at env"
  "\<lambda>w. reliable env \<and> alone env \<and> registered P n (tables_of w)"
  "\<lambda>p t. free_workers p t \<noteq> []"
  "\<lambda>p r t w'. \<exists>i. r = Inr i \<and> 0 \<le> i \<and> takes_slot p i t (tables_of w') \<and> registered P n (tables_of w')"
  for env P n
proof unfold_locales
  fix w :: world and p
  assume ok: "reliable env \<and> alone env \<and> registered P n (tables_of w)"
  obtain r t' where run: "SelectWorker (pick_row env (calls w)) p (tables_of w) = (r, t')" by fastforce
  note slot = SelectWorker_takes_slot [OF conjunct2 [OF conjunct2 [OF ok]] run]
    and reg = SelectWorker_registered [OF conjunct2 [OF conjunct2 [OF ok]] run]
  {
    assume "\<not> free_workers p (tables_of w) \<noteq> []"
    then show "\<exists>w'. FIFO_selectWorker_at env p w = (None, w') \<and> tables_of w' = tables_of w \<and>
        (reliable env \<and> alone env \<and> registered P n (tables_of w'))"
      using slot ok run
      by (simp add: FIFO_selectWorker_at_def invoke_int64_def invoke_SelectWorker narrow32_def)
  next
    assume "free_workers p (tables_of w) \<noteq> []"
    with slot have r: "0 \<le> r" "takes_slot p r (tables_of w) t'" by simp_all
    then have "narrow32 r = r" using registered_takes_slot_id ok by (intro narrow32_id) fastforce+
    then show "\<exists>r w'. FIFO_selectWorker_at env p w = (Some r, w') \<and>
        (\<exists>i. r = Inr i \<and> 0 \<le> i \<and> takes_slot p i (tables_of w) (tables_of w') \<and>
          registered P n (tables_of w'))"
      using r ok run reg
      by (simp add: FIFO_selectWorker_at_def invoke_int64_def invoke_SelectWorker)
  }
qed simp

subsection \<open>Operations\<close>

lemma FIFO_truncate_tables:
  assumes "reliable env" "alone env"
  shows "tables_of (FIFO_truncateWorkerTable env w) = (tables_of w)\<lparr>Worker := [], DataLocation := []\<rparr>"
  using assms by (simp add: FIFO_truncateWorkerTable_def invoke_void_def invoke_TruncateWorkerTable
      TruncateWorkerTable_def)

lemma FIFO_insertWorker_quiet:
  assumes "reliable env" "alone env" "workerPartitions c \<noteq> 0"
  shows "FIFO_insertWorker env c i cap w = (Inr True, (tick env w)\<lparr>tables_of :=
    (tables_of w)\<lparr>Worker := Worker (tables_of w) @ [\<lparr>w_WorkerID = i, w_Capacity = cap, w_DataShards = 0,
       w_PKey = c_rem i (workerPartitions c), w_Url = []\<rparr>]\<rparr>\<rparr>)"
  using assms by (simp add: FIFO_insertWorker_def invoke_status_def invoke_InsertWorker InsertWorker_def)

lemma FIFO_setup_tables:
  assumes "reliable env" "alone env" "0 < workerPartitions c" "0 \<le> workerCapacity c"
    and "0 \<le> numWorkers c" "numWorkers c \<le> 2 ^ 31"
  shows "\<exists>w'. FIFO_setup env c w = (Inr True, w') \<and>
      tables_of w' = (tables_of w)\<lparr>DataLocation := [],
        Worker := worker_rows (workerPartitions c) (workerCapacity c) (numWorkers c)\<rparr> \<and>
      registered (workerPartitions c) (numWorkers c) (tables_of w') \<and>
      total_capacity (tables_of w') = numWorkers c * workerCapacity c"
proof -
  let ?rows = "worker_rows (workerPartitions c) (workerCapacity c)"
  let ?I = "\<lambda>i (w' :: world). tables_of w' = (tables_of w)\<lparr>DataLocation := [], Worker := ?rows i\<rparr>"
  have "\<exists>w'. FIFO_setup env c w = (Inr True, w') \<and> ?I (numWorkers c) w'"
    unfolding FIFO_setup_def
  proof (rule all_succeed_rule [where I = ?I])
    fix i and w1 :: world assume "0 \<le> i" "?I i w1"
    then show "\<exists>w'. FIFO_insertWorker env c i (workerCapacity c) w1 = (Inr True, w') \<and> ?I (i + 1) w'"
      using assms by (simp add: FIFO_insertWorker_quiet worker_rows_Suc)
  qed (use assms in \<open>simp_all add: FIFO_truncate_tables\<close>)
  then show ?thesis using assms worker_rows_registered worker_rows_total by force
qed

text \<open>
  In a quiet environment \<open>setup\<close> succeeds, leaves exactly the rows of workers
  \<open>0 .. numWorkers - 1\<close> in the \<open>Worker\<close> table, each in partition \<open>i % workerPartitions\<close> with the
  configured capacity, and establishes the invariant that scheduling relies on.
\<close>

theorem FIFO_setup_registers:
  assumes "reliable env" "alone env" "0 < workerPartitions c" "0 \<le> workerCapacity c"
    and "0 \<le> numWorkers c" "numWorkers c \<le> 2 ^ 31"
  shows "\<exists>w'. FIFO_setup env c w = (Inr True, w') \<and>
      tables_of w' = (tables_of w)\<lparr>DataLocation := [],
        Worker := worker_rows (workerPartitions c) (workerCapacity c) (numWorkers c)\<rparr> \<and>
      registered (workerPartitions c) (numWorkers c) (tables_of w') \<and>
      total_capacity (tables_of w') = numWorkers c * workerCapacity c"
  using assms by (rule FIFO_setup_tables)

theorem FIFO_setup_registers_witness:
  "\<exists>w'. FIFO_setup quiet_env \<lparr>workerCapacity = 2, workerPartitions = 3, numWorkers = 5\<rparr>
       (world_with empty_tables) = (Inr True, w') \<and>
      tables_of w' = (tables_of (world_with empty_tables))\<lparr>DataLocation := [], Worker := worker_rows 3 2 5\<rparr> \<and>
      registered 3 5 (tables_of w') \<and> total_capacity (tables_of w') = 10"
  using FIFO_setup_registers [of quiet_env "\<lparr>workerCapacity = 2, workerPartitions = 3, numWorkers = 5\<rparr>"
      "world_with empty_tables"] by simp

lemma FIFO_selectWorker_eq:
  "FIFO_selectWorker env c =
     select_linear env (FIFO_selectWorker_at env) (min (workerPartitions c) (numWorkers c))"
  by (simp add: fun_eq_iff FIFO_selectWorker_def select_linear_def Let_def)

lemma FIFO_selectWorker_cases:
  assumes "reliable env" "alone env" "registered (workerPartitions c) (numWorkers c) (tables_of w)"
    and "0 < workerPartitions c" "0 < numWorkers c"
  shows "\<exists>r w'. FIFO_selectWorker env c w = (Inr r, w') \<and>
     registered (workerPartitions c) (numWorkers c) (tables_of w') \<and>
     (if some_capacity (tables_of w)
      then 0 \<le> r \<and> (\<exists>p. takes_slot p r (tables_of w) (tables_of w'))
      else r = -1 \<and> tables_of w' = tables_of w)"
proof -
  let ?P = "workerPartitions c" and ?n = "numWorkers c" and ?a = "min (workerPartitions c) (numWorkers c)"
  have "0 < ?a" using assms(4,5) by simp
  from fifo.select_linear_spec [of env ?P ?n w ?a, OF _ this] assms(1-3)
  show ?thesis
    using registered_some_capacity [OF assms(3,4)]
    unfolding FIFO_selectWorker_eq by fastforce
qed

text \<open>
  C3. \<open>selectWorker\<close> is complete and takes exactly one slot: in a quiet environment over
  registered workers it never crashes; when any worker of any partition has capacity it returns
  such a worker and that worker's capacity is one lower, nothing else of the \<open>Worker\<close> table
  changes; when no worker has capacity it returns \<open>-1\<close> and changes nothing.
\<close>

theorem FIFO_selectWorker_spec:
  assumes "reliable env" "alone env" "registered (workerPartitions c) (numWorkers c) (tables_of w)"
    and "0 < workerPartitions c" "0 < numWorkers c"
  shows "\<exists>r w'. FIFO_selectWorker env c w = (Inr r, w') \<and>
     (if some_capacity (tables_of w)
      then 0 \<le> r \<and> (\<exists>p. takes_slot p r (tables_of w) (tables_of w'))
      else r = -1 \<and> tables_of w' = tables_of w)"
  using FIFO_selectWorker_cases [OF assms] by blast

theorem FIFO_selectWorker_spec_witness:
  "\<exists>r w'. FIFO_selectWorker quiet_env \<lparr>workerCapacity = 1, workerPartitions = 2, numWorkers = 3\<rparr>
       (world_with (empty_tables\<lparr>Worker := worker_rows 2 1 3\<rparr>)) = (Inr r, w') \<and>
     0 \<le> r \<and> (\<exists>p. takes_slot p r (empty_tables\<lparr>Worker := worker_rows 2 1 3\<rparr>) (tables_of w'))"
proof -
  let ?t = "empty_tables\<lparr>Worker := worker_rows 2 1 3\<rparr>"
  have "registered 2 3 ?t" by (rule worker_rows_registered) simp_all
  moreover have "some_capacity ?t" by (simp add: some_capacity_def worker_rows_def upto.simps)
  ultimately show ?thesis
    using FIFO_selectWorker_spec [of quiet_env
        "\<lparr>workerCapacity = 1, workerPartitions = 2, numWorkers = 3\<rparr>" "world_with ?t"] by simp
qed

lemma FIFO_schedule_cases:
  assumes "reliable env" "alone env" "registered (workerPartitions c) (numWorkers c) (tables_of w)"
    and "0 < workerPartitions c" "0 < numWorkers c"
  shows "\<exists>w'. registered (workerPartitions c) (numWorkers c) (tables_of w') \<and>
     (if 0 < total_capacity (tables_of w)
      then FIFO_schedule env c task w = (Inr True, w') \<and>
        total_capacity (tables_of w') = total_capacity (tables_of w) - 1
      else FIFO_schedule env c task w = (Inl AssertFailed, w') \<and> tables_of w' = tables_of w)"
proof -
  have wf: "wf_workers (workerPartitions c) (tables_of w)" using assms(3) by (simp add: registered_def)
  obtain r w' where sel: "FIFO_selectWorker env c w = (Inr r, w')"
    "registered (workerPartitions c) (numWorkers c) (tables_of w')"
    "if some_capacity (tables_of w)
      then 0 \<le> r \<and> (\<exists>p. takes_slot p r (tables_of w) (tables_of w'))
      else r = -1 \<and> tables_of w' = tables_of w"
    using FIFO_selectWorker_cases [OF assms] by blast
  then have "wf_workers (workerPartitions c) (tables_of w')" by (simp add: registered_def)
  with sel takes_slot_total [OF wf] some_capacity_total [OF wf] show ?thesis
    by (intro exI [of _ w']) (auto simp: FIFO_schedule_def split: if_splits)
qed

lemma FIFO_schedule_times_cases:
  assumes "reliable env" "alone env" "0 < workerPartitions c" "0 < numWorkers c"
    and "registered (workerPartitions c) (numWorkers c) (tables_of w)"
    and "0 \<le> total_capacity (tables_of w)"
  shows "fst (run_times (FIFO_schedule env c task) k w) =
    (if int k \<le> total_capacity (tables_of w) then Inr True else Inl AssertFailed)"
proof (rule run_times_count [where bound = k and j = 0 and I = "\<lambda>_ m w.
      registered (workerPartitions c) (numWorkers c) (tables_of w) \<and> total_capacity (tables_of w) = m"])
  fix u :: world and m
  assume I: "registered (workerPartitions c) (numWorkers c) (tables_of u) \<and> total_capacity (tables_of u) = m"
  then have reg: "registered (workerPartitions c) (numWorkers c) (tables_of u)" by simp
  from FIFO_schedule_cases [OF assms(1,2) reg assms(3,4), of task] I
  show "0 < m \<Longrightarrow> \<exists>w'. FIFO_schedule env c task u = (Inr True, w') \<and>
      registered (workerPartitions c) (numWorkers c) (tables_of w') \<and> total_capacity (tables_of w') = m - 1"
    and "m \<le> 0 \<Longrightarrow> fst (FIFO_schedule env c task u) = Inl AssertFailed"
    by auto
qed (use assms in simp_all)

text \<open>
  C4. The scheduler serves exactly the registered capacity: after \<open>setup\<close> of \<open>n\<close> workers with
  capacity \<open>c\<close>, scheduling \<open>k\<close> tasks in sequence returns for every \<open>k \<le> n * c\<close>, and for every
  larger \<open>k\<close> ends in the failed assertion of \<open>schedule\<close>.
\<close>

theorem FIFO_schedules_all_capacity:
  assumes "reliable env" "alone env" "0 < workerPartitions c" "0 \<le> workerCapacity c"
    and "0 < numWorkers c" "numWorkers c \<le> 2 ^ 31"
  shows "fst (run_times (FIFO_schedule env c task) k (snd (FIFO_setup env c w))) =
    (if int k \<le> numWorkers c * workerCapacity c then Inr True else Inl AssertFailed)"
proof -
  from FIFO_setup_tables [OF assms(1-4) _ assms(6)] assms(5)
  obtain w' where w': "FIFO_setup env c w = (Inr True, w')"
    "registered (workerPartitions c) (numWorkers c) (tables_of w')"
    "total_capacity (tables_of w') = numWorkers c * workerCapacity c" by fastforce
  with assms show ?thesis by (simp add: FIFO_schedule_times_cases)
qed

theorem FIFO_schedules_all_capacity_witness:
  "fst (run_times (FIFO_schedule quiet_env \<lparr>workerCapacity = 2, workerPartitions = 3, numWorkers = 4\<rparr>
     \<lparr>targetData = 0, execTime = 0\<rparr>) 8 (snd (FIFO_setup quiet_env
     \<lparr>workerCapacity = 2, workerPartitions = 3, numWorkers = 4\<rparr> (world_with empty_tables)))) = Inr True"
  using FIFO_schedules_all_capacity [of quiet_env
      "\<lparr>workerCapacity = 2, workerPartitions = 3, numWorkers = 4\<rparr>"] by simp

text \<open>
  C5. \<open>finishTask\<close> never gives a slot back: whatever the environment, its call of
  \<open>FinishWorkerTask\<close> with two parameters is rejected, it returns false, and the tables are those
  the other clients left.
\<close>

theorem FIFO_finishTask_rejected:
  assumes "workerPartitions c \<noteq> 0"
  shows "FIFO_finishTask env c taskId workerId w = (Inr False, tick env w)"
  using assms by (simp add: FIFO_finishTask_def invoke_status_def invoke_FinishWorkerTask_two)

theorem FIFO_finishTask_rejected_witness:
  "FIFO_finishTask quiet_env \<lparr>workerCapacity = 1, workerPartitions = 2, numWorkers = 3\<rparr> 7 0
     (world_with empty_tables) = (Inr False, tick quiet_env (world_with empty_tables))"
  using FIFO_finishTask_rejected [of "\<lparr>workerCapacity = 1, workerPartitions = 2, numWorkers = 3\<rparr>"] by simp

subsection \<open>Interference\<close>

lemma FIFO_selectWorker_keeps:
  assumes "I (tables_of w)" "others_keep env I"
    and trans: "\<And>ch p t r t'. I t \<Longrightarrow> SelectWorker ch p t = (r, t') \<Longrightarrow> I t'"
  shows "I (tables_of (snd (FIFO_selectWorker env c w)))"
proof -
  have at: "I (tables_of (snd (FIFO_selectWorker_at env p w)))" if "I (tables_of w)" for p w
    using others_keep_seen [OF assms(2) that] trans
    by (auto simp: FIFO_selectWorker_at_def invoke_int64_def invoke_SelectWorker Let_def
        split: prod.split)
  show ?thesis unfolding FIFO_selectWorker_eq
    using assms(1) by (rule select_linear_keeps) (rule at)
qed

lemma FIFO_schedule_keeps:
  assumes "I (tables_of w)" "others_keep env I"
    and "\<And>ch p t r t'. I t \<Longrightarrow> SelectWorker ch p t = (r, t') \<Longrightarrow> I t'"
  shows "I (tables_of (snd (FIFO_schedule env c task w)))"
  using FIFO_selectWorker_keeps [OF assms, where c = c]
  by (auto simp: FIFO_schedule_def split: prod.split sum.split)

text \<open>
  \<open>schedule\<close> keeps the worker invariant whatever the other clients do between its
  transactions as long as they keep it, and whichever of its invocations fail: capacities never
  become negative and no worker changes its partition.
\<close>

theorem FIFO_schedule_invariant:
  assumes "registered P n (tables_of w)" "others_keep env (registered P n)"
  shows "registered P n (tables_of (snd (FIFO_schedule env c task w)))"
  using assms by (rule FIFO_schedule_keeps) (rule SelectWorker_registered)

theorem FIFO_schedule_invariant_witness:
  "registered 2 3 (tables_of (snd (FIFO_schedule (quiet_env\<lparr>outage := (\<lambda>k. k = 1)\<rparr>)
     \<lparr>workerCapacity = 1, workerPartitions = 2, numWorkers = 3\<rparr> \<lparr>targetData = 0, execTime = 0\<rparr>
     (world_with (empty_tables\<lparr>Worker := worker_rows 2 1 3\<rparr>)))))"
  by (rule FIFO_schedule_invariant) (simp_all add: others_keep_def)

end
