(* ===== verification/LocalFIFO_Scheduler.thy ===== *)
theory LocalFIFO_Scheduler
  imports Registration
begin

text \<open>
  \<open>PartitionedLocalFIFOScheduler\<close>: as \<open>PartitionedFIFOScheduler\<close>, but a scheduling act takes a slot
  of the worker with the largest capacity in the partition and records the task in the same
  transaction. Task identifiers come from the atomic counter \<open>taskindex\<close>, a 32-bit unsigned
  number that wraps around and is read as an \<open>int\<close>.
\<close>

section \<open>Definitions\<close>

record PartitionedLocalFIFOScheduler =
  workerCapacity :: int
  workerPartitions :: int
  numWorkers :: int

definition LocalFIFO_truncateWorkerTable :: "env \<Rightarrow> world \<Rightarrow> world" where
  "LocalFIFO_truncateWorkerTable env w = invoke_void env ''TruncateWorkerTable'' [] w"

definition LocalFIFO_truncateTaskTable :: "env \<Rightarrow> world \<Rightarrow> world" where
  "LocalFIFO_truncateTaskTable env w = invoke_void env ''TruncateTaskTable'' [] w"

definition LocalFIFO_insertWorker ::
    "env \<Rightarrow> PartitionedLocalFIFOScheduler \<Rightarrow> int \<Rightarrow> int \<Rightarrow> world \<Rightarrow> bool result \<times> world" where
  "LocalFIFO_insertWorker env c workerID capacity w =
     (if workerPartitions c = 0 then (Inl DivByZero, w)
      else case invoke_status env ''InsertWorker''
                  [WInt workerID, WInt capacity, WInt (c_rem workerID (workerPartitions c)), WStr []] w of
             (ok, w') \<Rightarrow> (Inr ok, w'))"

definition LocalFIFO_selectWorker_at :: "env \<Rightarrow> int \<Rightarrow> int \<Rightarrow> world \<Rightarrow> int result option \<times> world" where
  "LocalFIFO_selectWorker_at env taskID partitionNum w =
     (case invoke_int64 env ''SelectOrderedWorker'' [WInt partitionNum, WInt taskID] w of
        (None, w') \<Rightarrow> (Some (Inr (-1)), w')
      | (Some (Inl e), w') \<Rightarrow> (Some (Inl e), w')
      | (Some (Inr v), w') \<Rightarrow>
          (let selectedWorker = narrow32 v
           in if selectedWorker \<noteq> -1 then (Some (Inr selectedWorker), w') else (None, w')))"

definition LocalFIFO_selectWorker ::
    "env \<Rightarrow> PartitionedLocalFIFOScheduler \<Rightarrow> int \<Rightarrow> world \<Rightarrow> int result \<times> world" where
  "LocalFIFO_selectWorker env c taskID w =
     (let activePartitions = min (workerPartitions c) (numWorkers c)
      in case rand_mod env activePartitions w of
           (Inl e, w1) \<Rightarrow> (Inl e, w1)
         | (Inr offset, w1) \<Rightarrow>
             (case linear_probe (LocalFIFO_selectWorker_at env taskID) activePartitions offset w1 of
                (Some r, w2) \<Rightarrow> (r, w2)
              | (None, w2) \<Rightarrow> (Inr (-1), w2)))"

definition LocalFIFO_assignTaskToWorker :: "int \<Rightarrow> int \<Rightarrow> world \<Rightarrow> bool \<times> world" where
  "LocalFIFO_assignTaskToWorker taskId workerId w = (True, w)"

definition LocalFIFO_finishTask ::
    "env \<Rightarrow> PartitionedLocalFIFOScheduler \<Rightarrow> int \<Rightarrow> int \<Rightarrow> world \<Rightarrow> bool result \<times> world" where
  "LocalFIFO_finishTask env c taskId workerId w =
     (if workerPartitions c = 0 then (Inl DivByZero, w)
      else case invoke_status env ''FinishWorkerTask''
                  [WInt workerId, WInt (c_rem workerId (workerPartitions c))] w of
             (ok, w') \<Rightarrow> (Inr ok, w'))"

definition LocalFIFO_setup ::
    "env \<Rightarrow> PartitionedLocalFIFOScheduler \<Rightarrow> world \<Rightarrow> bool result \<times> world" where
  "LocalFIFO_setup env c w =
     all_succeed (numWorkers c) (\<lambda>i. LocalFIFO_insertWorker env c i (workerCapacity c))
       (LocalFIFO_truncateTaskTable env (LocalFIFO_truncateWorkerTable env w))"

definition LocalFIFO_teardown :: "env \<Rightarrow> world \<Rightarrow> bool \<times> world" where
  "LocalFIFO_teardown env w =
     (True, LocalFIFO_truncateTaskTable env (LocalFIFO_truncateWorkerTable env w))"

definition LocalFIFO_schedule ::
    "env \<Rightarrow> PartitionedLocalFIFOScheduler \<Rightarrow> Task_struct \<Rightarrow> 32 word \<times> world \<Rightarrow>
     bool result \<times> (32 word \<times> world)" where
  "LocalFIFO_schedule env c task s =
     (case s of (taskindex, w) \<Rightarrow>
      case fetch_add taskindex of (taskId, taskindex') \<Rightarrow>
      (case LocalFIFO_selectWorker env c taskId w of
         (Inl e, w') \<Rightarrow> (Inl e, (taskindex', w'))
       | (Inr workerId, w') \<Rightarrow>
           (if workerId \<ge> 0 then Inr True else Inl AssertFailed, (taskindex', w'))))"

definition LocalFIFO_asyncSchedule ::
    "env \<Rightarrow> PartitionedLocalFIFOScheduler \<Rightarrow> 32 word \<times> world \<Rightarrow> bool result \<times> (32 word \<times> world)" where
  "LocalFIFO_asyncSchedule env c s =
     (case s of (taskindex, w) \<Rightarrow>
      case fetch_add taskindex of (taskID, taskindex') \<Rightarrow>
      (let activePartitions = min (workerPartitions c) (numWorkers c)
       in case rand_mod env activePartitions w of
            (Inl e, w1) \<Rightarrow> (Inl e, (taskindex', w1))
          | (Inr partitionNum, w1) \<Rightarrow>
              (Inr True, (taskindex',
                 invoke_async env ''SelectOrderedWorker'' [WInt partitionNum, WInt taskID] w1))))"

text \<open>What a successful search establishes.\<close>

definition local_hit :: "int \<Rightarrow> int \<Rightarrow> int \<Rightarrow> int \<Rightarrow> int result \<Rightarrow> tables \<Rightarrow> tables \<Rightarrow> bool" where
  "local_hit P n taskID p r t t' \<longleftrightarrow>
     (\<exists>i. r = Inr i \<and> 0 \<le> i \<and> takes_slot p i t t' \<and> registered P n t' \<and>
        (\<forall>v \<in> set (free_workers p t). \<exists>c. cap_of t i = Some c \<and> w_Capacity v \<le> c) \<and>
        Task t' = Task t @ [\<lparr>t_TaskID = taskID, t_WorkerID = i, t_State = PENDING, t_PKey = p\<rparr>])"

text \<open>The tables after \<open>m\<close> tasks from counter value \<open>ix\<close>, with \<open>rest\<close> slots left.\<close>

definition local_state :: "int \<Rightarrow> int \<Rightarrow> 32 word \<Rightarrow> nat \<Rightarrow> int \<Rightarrow> 32 word \<times> world \<Rightarrow> bool" where
  "local_state P n ix m rest s \<longleftrightarrow>
     fst s = ix + of_nat m \<and> registered P n (tables_of (snd s)) \<and>
     total_capacity (tables_of (snd s)) = rest \<and>
     t_TaskID ` set (Task (tables_of (snd s))) = (\<lambda>j. sint (ix + of_nat j)) ` {..<m}"

section \<open>Lemmas\<close>

subsection \<open>One partition\<close>

lemma local_hitE:
  assumes "local_hit P n taskID p r t t'"
  obtains i where "r = Inr i" "0 \<le> i" "takes_slot p i t t'" "registered P n t'"
    "Task t' = Task t @ [\<lparr>t_TaskID = taskID, t_WorkerID = i, t_State = PENDING, t_PKey = p\<rparr>]"
  using assms by (auto simp: local_hit_def)

lemma SelectOrderedWorker_keeps_registered:
  assumes "registered P n t" and "SelectOrderedWorker ch h p taskID t = Some (r, t')"
  shows "registered P n t'"
proof -
  have "wf_workers P t'" using assms ord.run_wf [of P t ch h p taskID r t'] by (simp add: registered_def)
  moreover have "layout t' = layout t"
    using ord.run_takes_slot [OF registered_distinct [OF assms(1)] assms(2)]
    by (auto simp: takes_slot_def)
  ultimately show ?thesis using assms(1) registered_layout by blast
qed

lemma SelectOrderedWorker_hit:
  assumes "registered P n t" "fresh_task taskID t" "free_workers p t \<noteq> []"
  shows "\<exists>r t'. SelectOrderedWorker ch h p taskID t = Some (r, t') \<and> 0 \<le> r \<and> r < 2 ^ 31 \<and>
     local_hit P n taskID p (Inr r) t t'"
proof -
  note d = registered_distinct [OF assms(1)]
  obtain w where w: "w \<in> set (most_capacity (free_workers p t))"
    "sql_limit (ch 0) (Suc 0) (most_capacity (free_workers p t)) = [w]"
    using sql_limit_one_cases [of "most_capacity (free_workers p t)" "ch 0"] assms(3) by auto
  obtain t' where t': "SelectOrderedWorker ch h p taskID t = Some (w_WorkerID w, t')"
    "Task t' = Task t @ [\<lparr>t_TaskID = taskID, t_WorkerID = w_WorkerID w, t_State = PENDING, t_PKey = p\<rparr>]"
    using w(2) assms(2) by (simp add: SelectOrderedWorker_def fresh_task_insert)
  have slot: "takes_slot p (w_WorkerID w) t t'"
    using ord.run_takes_slot [OF d t'(1)] assms(3) by auto
  have "w \<in> set (free_workers p t)" using w(1) by (rule set_most_capacity)
  then have "cap_of t (w_WorkerID w) = Some (w_Capacity w)"
    by (intro cap_of_worker [OF d]) (simp add: free_workers_sub)
  moreover have "\<forall>v \<in> set (free_workers p t). w_Capacity v \<le> w_Capacity w"
    using w(1) by (simp add: most_capacity_def)
  ultimately show ?thesis
    using t' slot registered_takes_slot_id [OF assms(1) slot]
      SelectOrderedWorker_keeps_registered [OF assms(1) t'(1)]
    by (auto simp: local_hit_def)
qed

interpretation lfifo: linear_table_search
  "LocalFIFO_selectWorker_at env taskID"
  "\<lambda>w. reliable env \<and> alone env \<and> registered P n (tables_of w) \<and> fresh_task taskID (tables_of w)"
  "\<lambda>p t. free_workers p t \<noteq> []"
  "\<lambda>p r t w'. local_hit P n taskID p r t (tables_of w')"
  for env taskID P n
proof unfold_locales
  fix w :: world and p
  assume ok: "reliable env \<and> alone env \<and> registered P n (tables_of w) \<and> fresh_task taskID (tables_of w)"
  {
    assume "\<not> free_workers p (tables_of w) \<noteq> []"
    then show "\<exists>w'. LocalFIFO_selectWorker_at env taskID p w = (None, w') \<and> tables_of w' = tables_of w \<and>
        (reliable env \<and> alone env \<and> registered P n (tables_of w') \<and> fresh_task taskID (tables_of w'))"
      using ok ord.run_miss [of p "tables_of w"]
      by (simp add: LocalFIFO_selectWorker_at_def invoke_int64_def invoke_SelectOrderedWorker narrow32_def)
  next
    assume "free_workers p (tables_of w) \<noteq> []"
    with ok SelectOrderedWorker_hit [of P n "tables_of w" taskID p "pick_row env (calls w)" "hashinator env"]
    obtain r t' where r: "SelectOrderedWorker (pick_row env (calls w)) (hashinator env) p taskID (tables_of w)
        = Some (r, t')" "0 \<le> r" "r < 2 ^ 31" "local_hit P n taskID p (Inr r) (tables_of w) t'" by blast
    then have "narrow32 r = r" by (intro narrow32_id) simp_all
    then show "\<exists>r w'. LocalFIFO_selectWorker_at env taskID p w = (Some r, w') \<and>
        local_hit P n taskID p r (tables_of w) (tables_of w')"
      using r ok
      by (simp add: LocalFIFO_selectWorker_at_def invoke_int64_def invoke_SelectOrderedWorker)
  }
qed simp

subsection \<open>Operations\<close>

lemma LocalFIFO_selectWorker_eq:
  "LocalFIFO_selectWorker env c taskID =
     select_linear env (LocalFIFO_selectWorker_at env taskID) (min (workerPartitions c) (numWorkers c))"
  by (simp add: fun_eq_iff LocalFIFO_selectWorker_def select_linear_def Let_def)

lemma LocalFIFO_selectWorker_cases:
  assumes "reliable env" "alone env" "registered (workerPartitions c) (numWorkers c) (tables_of w)"
    and "fresh_task taskID (tables_of w)" "0 < workerPartitions c" "0 < numWorkers c"
  shows "\<exists>r w'. LocalFIFO_selectWorker env c taskID w = (r, w') \<and>
     (if some_capacity (tables_of w)
      then \<exists>p. local_hit (workerPartitions c) (numWorkers c) taskID p r (tables_of w) (tables_of w')
      else r = Inr (-1) \<and> tables_of w' = tables_of w)"
proof -
  let ?P = "workerPartitions c" and ?n = "numWorkers c" and ?a = "min (workerPartitions c) (numWorkers c)"
  have "0 < ?a" using assms(5,6) by simp
  from lfifo.select_linear_spec [of env ?P ?n w taskID ?a, OF _ this] assms(1-4)
  show ?thesis
    using registered_some_capacity [OF assms(3,5)]
    unfolding LocalFIFO_selectWorker_eq by fastforce
qed

text \<open>
  C6. \<open>selectWorker\<close> places a new task on a best worker: in a quiet environment over registered
  workers, when some worker has capacity, it returns a worker that has the largest capacity of
  its partition, that worker's capacity is one lower, the task is recorded once, as pending on
  that worker, and nothing else changes; when no worker has capacity it returns \<open>-1\<close> and changes
  nothing.
\<close>

theorem LocalFIFO_selectWorker_spec:
  assumes "reliable env" "alone env" "registered (workerPartitions c) (numWorkers c) (tables_of w)"
    and "fresh_task taskID (tables_of w)" "0 < workerPartitions c" "0 < numWorkers c"
  shows "\<exists>r w'. LocalFIFO_selectWorker env c taskID w = (Inr r, w') \<and>
     (if some_capacity (tables_of w)
      then \<exists>p. takes_slot p r (tables_of w) (tables_of w') \<and>
        (\<forall>v \<in> set (free_workers p (tables_of w)).
           \<exists>k. cap_of (tables_of w) r = Some k \<and> w_Capacity v \<le> k) \<and>
        Task (tables_of w') = Task (tables_of w) @
          [\<lparr>t_TaskID = taskID, t_WorkerID = r, t_State = PENDING, t_PKey = p\<rparr>]
      else r = -1 \<and> tables_of w' = tables_of w)"
  using LocalFIFO_selectWorker_cases [OF assms] unfolding local_hit_def
  by (cases "some_capacity (tables_of w)") auto

theorem LocalFIFO_selectWorker_spec_witness:
  "\<exists>r w' p. LocalFIFO_selectWorker quiet_env \<lparr>workerCapacity = 4, workerPartitions = 2, numWorkers = 3\<rparr> 9
       (world_with (empty_tables\<lparr>Worker := worker_rows 2 4 3\<rparr>)) = (Inr r, w') \<and>
     takes_slot p r (empty_tables\<lparr>Worker := worker_rows 2 4 3\<rparr>) (tables_of w') \<and>
     Task (tables_of w') = [\<lparr>t_TaskID = 9, t_WorkerID = r, t_State = PENDING, t_PKey = p\<rparr>]"
proof -
  let ?t = "empty_tables\<lparr>Worker := worker_rows 2 4 3\<rparr>"
  have "some_capacity ?t" by (simp add: some_capacity_def worker_rows_def upto.simps)
  moreover have "fresh_task 9 ?t" "Task ?t = []" by (simp_all add: fresh_task_def empty_tables_def)
  ultimately show ?thesis
    using LocalFIFO_selectWorker_spec [of quiet_env
        "\<lparr>workerCapacity = 4, workerPartitions = 2, numWorkers = 3\<rparr>" "world_with ?t" 9] by auto
qed

lemma LocalFIFO_truncate_tables:
  assumes "reliable env" "alone env"
  shows "tables_of (LocalFIFO_truncateWorkerTable env w) = (tables_of w)\<lparr>Worker := [], DataLocation := []\<rparr>"
    and "tables_of (LocalFIFO_truncateTaskTable env w) = (tables_of w)\<lparr>Task := []\<rparr>"
  using assms by (simp_all add: LocalFIFO_truncateWorkerTable_def LocalFIFO_truncateTaskTable_def
      invoke_void_def invoke_TruncateWorkerTable invoke_TruncateTaskTable TruncateWorkerTable_def
      TruncateTaskTable_def)

lemma LocalFIFO_setup_tables:
  assumes "reliable env" "alone env" "0 < workerPartitions c" "0 \<le> workerCapacity c"
    and "0 \<le> numWorkers c" "numWorkers c \<le> 2 ^ 31"
  shows "\<exists>w'. LocalFIFO_setup env c w = (Inr True, w') \<and>
      tables_of w' = (tables_of w)\<lparr>Task := [], DataLocation := [],
        Worker := worker_rows (workerPartitions c) (workerCapacity c) (numWorkers c)\<rparr>"
  unfolding LocalFIFO_setup_def
proof (rule all_succeed_rule [where I = "\<lambda>i w'. tables_of w' = (tables_of w)\<lparr>Task := [], DataLocation := [],
        Worker := worker_rows (workerPartitions c) (workerCapacity c) i\<rparr>"])
  fix i and w1 :: world
  assume "0 \<le> i" "tables_of w1 = (tables_of w)\<lparr>Task := [], DataLocation := [],
        Worker := worker_rows (workerPartitions c) (workerCapacity c) i\<rparr>"
  then show "\<exists>w'. LocalFIFO_insertWorker env c i (workerCapacity c) w1 = (Inr True, w') \<and>
      tables_of w' = (tables_of w)\<lparr>Task := [], DataLocation := [],
        Worker := worker_rows (workerPartitions c) (workerCapacity c) (i + 1)\<rparr>"
    using assms by (simp add: LocalFIFO_insertWorker_def invoke_status_def invoke_InsertWorker
        InsertWorker_def worker_rows_Suc)
qed (use assms in \<open>simp_all add: LocalFIFO_truncate_tables\<close>)

subsection \<open>A sequence of schedules\<close>

lemma LocalFIFO_schedule_step:
  assumes "reliable env" "alone env" "0 < workerPartitions c" "0 < numWorkers c" "m < 2 ^ 32"
    and st: "local_state (workerPartitions c) (numWorkers c) ix m rest s"
  shows "if 0 < rest
    then \<exists>s'. LocalFIFO_schedule env c task s = (Inr True, s') \<and>
      local_state (workerPartitions c) (numWorkers c) ix (Suc m) (rest - 1) s'
    else \<exists>s'. LocalFIFO_schedule env c task s = (Inl AssertFailed, s')"
proof -
  obtain w where s: "s = (ix + of_nat m, w)" using st by (cases s) (simp add: local_state_def)
  let ?id = "sint (ix + of_nat m)"
  have reg: "registered (workerPartitions c) (numWorkers c) (tables_of w)"
    and tot: "total_capacity (tables_of w) = rest"
    and ids: "t_TaskID ` set (Task (tables_of w)) = (\<lambda>j. sint (ix + of_nat j)) ` {..<m}"
    using st s by (simp_all add: local_state_def)
  have wf: "wf_workers (workerPartitions c) (tables_of w)" using reg by (simp add: registered_def)
  have fresh: "fresh_task ?id (tables_of w)"
    using fetch_add_fresh [OF assms(5)] by (simp add: fresh_task_def ids)
  obtain r w' where sel: "LocalFIFO_selectWorker env c ?id w = (r, w')"
    "if some_capacity (tables_of w)
      then \<exists>p. local_hit (workerPartitions c) (numWorkers c) ?id p r (tables_of w) (tables_of w')
      else r = Inr (-1) \<and> tables_of w' = tables_of w"
    using LocalFIFO_selectWorker_cases [OF assms(1,2) reg fresh assms(3,4)] by blast
  show ?thesis
  proof (cases "0 < rest")
    case True
    then obtain p where hit: "local_hit (workerPartitions c) (numWorkers c) ?id p r (tables_of w) (tables_of w')"
      using sel(2) some_capacity_total [OF wf] tot by auto
    then have "total_capacity (tables_of w') = rest - 1"
      using takes_slot_total [OF wf] tot by (auto simp: local_hit_def registered_def)
    moreover have "t_TaskID ` set (Task (tables_of w')) = (\<lambda>j. sint (ix + of_nat j)) ` {..<Suc m}"
      using hit ids by (elim local_hitE) (simp add: lessThan_Suc)
    ultimately show ?thesis
      using True hit sel(1) s
      by (auto simp: LocalFIFO_schedule_def fetch_add_def local_state_def local_hit_def add.assoc)
  next
    case False
    then show ?thesis
      using sel some_capacity_total [OF wf] tot s by (simp add: LocalFIFO_schedule_def fetch_add_def)
  qed
qed

lemma LocalFIFO_schedule_times_cases:
  assumes "reliable env" "alone env" "0 < workerPartitions c" "0 < numWorkers c"
    and "local_state (workerPartitions c) (numWorkers c) ix 0 rest s" "0 \<le> rest" "k \<le> 2 ^ 32"
  shows "fst (run_times (LocalFIFO_schedule env c task) k s) =
    (if int k \<le> rest then Inr True else Inl AssertFailed)"
proof (rule run_times_count [where bound = "2 ^ 32" and j = 0 and
      I = "local_state (workerPartitions c) (numWorkers c) ix"])
  fix s m rest
  assume "local_state (workerPartitions c) (numWorkers c) ix m rest s" "m < 2 ^ 32"
  from LocalFIFO_schedule_step [OF assms(1-4) this(2,1), of task]
  show "0 < rest \<Longrightarrow> \<exists>s'. LocalFIFO_schedule env c task s = (Inr True, s') \<and>
      local_state (workerPartitions c) (numWorkers c) ix (Suc m) (rest - 1) s'"
    and "rest \<le> 0 \<Longrightarrow> fst (LocalFIFO_schedule env c task s) = Inl AssertFailed"
    by auto
qed (use assms in simp_all)



subsection \<open>Interference\<close>

lemma LocalFIFO_schedule_keeps:
  assumes "I (tables_of (snd s))" "others_keep env I"
    and trans: "\<And>ch h p i t r t'. I t \<Longrightarrow> SelectOrderedWorker ch h p i t = Some (r, t') \<Longrightarrow> I t'"
  shows "I (tables_of (snd (snd (LocalFIFO_schedule env c task s))))"
proof -
  obtain ix w where s: "s = (ix, w)" by fastforce
  have at: "I (tables_of (snd (LocalFIFO_selectWorker_at env i p w)))" if "I (tables_of w)" for i p w
    using others_keep_seen [OF assms(2) that] trans
    by (auto simp: LocalFIFO_selectWorker_at_def invoke_int64_def invoke_SelectOrderedWorker Let_def
        split: prod.split option.split)
  have w: "I (tables_of w)" using assms(1) s by simp
  have "I (tables_of (snd (LocalFIFO_selectWorker env c i w)))" for i
    unfolding LocalFIFO_selectWorker_eq using w by (rule select_linear_keeps) (rule at)
  from this [of "sint ix"] show ?thesis
    by (auto simp: s LocalFIFO_schedule_def fetch_add_def split: prod.split sum.split)
qed

text \<open>
  Slots are conserved: whatever happens between the transactions of \<open>schedule\<close> and whichever
  of its invocations fail, as long as the other clients keep the worker table well formed and
  conserve slots, for every worker the free capacity plus the number of its tasks that are not
  complete stays the same.
\<close>

lemma LocalFIFO_schedule_conserves_slots:
  assumes "wf_workers P (tables_of (snd s)) \<and> (\<forall>i. slots i (tables_of (snd s)) = S i)"
    and "others_keep env (\<lambda>t. wf_workers P t \<and> (\<forall>i. slots i t = S i))"
  shows "wf_workers P (tables_of (snd (snd (LocalFIFO_schedule env c task s)))) \<and>
    (\<forall>i. slots i (tables_of (snd (snd (LocalFIFO_schedule env c task s)))) = S i)"
  by (rule LocalFIFO_schedule_keeps [where I = "\<lambda>t. wf_workers P t \<and> (\<forall>i. slots i t = S i)", OF assms])
    (auto dest: ord.run_wf ord.run_slots [OF wf_workers_distinct])


text \<open>
  \<open>finishTask\<close> of this scheduler never gives a slot back either: its call of
  \<open>FinishWorkerTask\<close> has two parameters instead of three.
\<close>

theorem LocalFIFO_finishTask_rejected:
  assumes "workerPartitions c \<noteq> 0"
  shows "LocalFIFO_finishTask env c taskId workerId w = (Inr False, tick env w)"
  using assms by (simp add: LocalFIFO_finishTask_def invoke_status_def invoke_FinishWorkerTask_two)

theorem LocalFIFO_finishTask_rejected_witness:
  "LocalFIFO_finishTask quiet_env \<lparr>workerCapacity = 1, workerPartitions = 2, numWorkers = 3\<rparr> 7 0
     (world_with empty_tables) = (Inr False, tick quiet_env (world_with empty_tables))"
  using LocalFIFO_finishTask_rejected [of "\<lparr>workerCapacity = 1, workerPartitions = 2, numWorkers = 3\<rparr>"] by simp

end
