(* ===== verification/SingleFIFOTask_Scheduler.thy ===== *)
theory SingleFIFOTask_Scheduler
  imports Registration
begin

text \<open>
  \<open>SinglePartitionedFIFOTaskScheduler\<close>: a scheduling act takes a slot and records the task in one
  partition. It steps through the partitions by triangular numbers and repeats the round up to
  \<open>MAXTRY\<close> times, sleeping in between (the sleep has no effect on the state of this thread; what
  other clients do meanwhile is the parameter \<open>others\<close> of the environment).
\<close>

section \<open>Definitions\<close>

record SinglePartitionedFIFOTaskScheduler =
  partitions :: int
  numTasks :: int
  workerCapacity :: int
  numWorkers :: int
  probMultiTx :: real

definition MAXTRY :: int where
  "MAXTRY = 1000"

definition Single_truncateWorkerTable :: "env \<Rightarrow> world \<Rightarrow> world" where
  "Single_truncateWorkerTable env w = invoke_void env ''TruncateWorkerTable'' [] w"

definition Single_truncateTaskTable :: "env \<Rightarrow> world \<Rightarrow> world" where
  "Single_truncateTaskTable env w = invoke_void env ''TruncateTaskTable'' [] w"

definition Single_insertWorker ::
    "env \<Rightarrow> SinglePartitionedFIFOTaskScheduler \<Rightarrow> int \<Rightarrow> int \<Rightarrow> world \<Rightarrow> bool result \<times> world" where
  "Single_insertWorker env c workerID capacity w =
     (if partitions c = 0 then (Inl DivByZero, w)
      else case invoke_status env ''InsertWorker''
                  [WInt workerID, WInt capacity, WInt (c_rem workerID (partitions c)), WStr []] w of
             (ok, w') \<Rightarrow> (Inr ok, w'))"

text \<open>The body of the inner loop up to the step to the next key.\<close>

definition Single_selectTaskWorker_at :: "env \<Rightarrow> int \<Rightarrow> int \<Rightarrow> world \<Rightarrow> bool result option \<times> world" where
  "Single_selectTaskWorker_at env taskID pkey w =
     (case invoke_int64 env ''SelectSinglePartitionedTaskWorker'' [WInt pkey, WInt taskID] w of
        (None, w') \<Rightarrow> (Some (Inr False), w')
      | (Some (Inl e), w') \<Rightarrow> (Some (Inl e), w')
      | (Some (Inr v), w') \<Rightarrow> (if narrow32 v = SUCCESS then (Some (Inr True), w') else (None, w')))"

definition Single_selectTaskWorker ::
    "env \<Rightarrow> SinglePartitionedFIFOTaskScheduler \<Rightarrow> int \<Rightarrow> world \<Rightarrow> bool result \<times> world" where
  "Single_selectTaskWorker env c taskID w =
     (let activePartitions = min (partitions c) (numWorkers c)
      in case rand_mod env activePartitions w of
           (Inl e, w1) \<Rightarrow> (Inl e, w1)
         | (Inr pkey, w1) \<Rightarrow>
             (case triangular_rounds (Single_selectTaskWorker_at env taskID) MAXTRY activePartitions pkey w1 of
                (Some r, (_, w2)) \<Rightarrow> (r, w2)
              | (None, (_, w2)) \<Rightarrow> (Inr False, w2)))"

definition Single_setup ::
    "env \<Rightarrow> SinglePartitionedFIFOTaskScheduler \<Rightarrow> world \<Rightarrow> bool result \<times> world" where
  "Single_setup env c w =
     all_succeed (numWorkers c) (\<lambda>i. Single_insertWorker env c i (workerCapacity c))
       (Single_truncateTaskTable env (Single_truncateWorkerTable env w))"

definition Single_teardown :: "env \<Rightarrow> world \<Rightarrow> bool \<times> world" where
  "Single_teardown env w = (True, Single_truncateTaskTable env (Single_truncateWorkerTable env w))"

definition Single_schedule ::
    "env \<Rightarrow> SinglePartitionedFIFOTaskScheduler \<Rightarrow> Task_struct \<Rightarrow> 32 word \<times> world \<Rightarrow>
     bool result \<times> (32 word \<times> world)" where
  "Single_schedule env c task s =
     (case s of (taskindex, w) \<Rightarrow>
      case fetch_add taskindex of (taskId, taskindex') \<Rightarrow>
      (case Single_selectTaskWorker env c taskId w of
         (Inl e, w') \<Rightarrow> (Inl e, (taskindex', w'))
       | (Inr status, w') \<Rightarrow> (if status then Inr True else Inl AssertFailed, (taskindex', w'))))"

definition Single_asyncSchedule ::
    "env \<Rightarrow> SinglePartitionedFIFOTaskScheduler \<Rightarrow> 32 word \<times> world \<Rightarrow> bool result \<times> (32 word \<times> world)" where
  "Single_asyncSchedule env c s =
     (case s of (taskindex, w) \<Rightarrow>
      case fetch_add taskindex of (taskID, taskindex') \<Rightarrow>
      (let activePartitions = min (partitions c) (numWorkers c)
       in case rand_mod env activePartitions w of
            (Inl e, w1) \<Rightarrow> (Inl e, (taskindex', w1))
          | (Inr partitionNum, w1) \<Rightarrow>
              (Inr True, (taskindex', invoke_async env ''SelectSinglePartitionedTaskWorker''
                 [WInt partitionNum, WInt taskID] w1))))"

text \<open>What a successful search establishes.\<close>

definition single_hit :: "int \<Rightarrow> int \<Rightarrow> int \<Rightarrow> int \<Rightarrow> bool result \<Rightarrow> tables \<Rightarrow> tables \<Rightarrow> bool" where
  "single_hit P n taskID p r t t' \<longleftrightarrow>
     r = Inr True \<and> registered P n t' \<and>
     (\<exists>i. takes_slot p i t t' \<and>
        Task t' = Task t @ [\<lparr>t_TaskID = taskID, t_WorkerID = i, t_State = PENDING, t_PKey = p\<rparr>])"

section \<open>Lemmas\<close>

lemma Single_keeps_registered:
  assumes "registered P n t" and "SelectSinglePartitionedTaskWorker ch h p taskID t = Some (r, t')"
  shows "registered P n t'"
proof -
  have "wf_workers P t'" using assms single.run_wf [of P t ch h p taskID r t'] by (simp add: registered_def)
  moreover have "layout t' = layout t"
    using single.run_takes_slot [OF registered_distinct [OF assms(1)] assms(2)]
    by (auto simp: takes_slot_def)
  ultimately show ?thesis using assms(1) registered_layout by blast
qed

lemma Single_hit:
  assumes "registered P n t" "fresh_task taskID t" "free_workers p t \<noteq> []"
  shows "\<exists>t'. SelectSinglePartitionedTaskWorker ch h p taskID t = Some (SUCCESS, t') \<and>
     single_hit P n taskID p (Inr True) t t'"
proof -
  note d = registered_distinct [OF assms(1)]
  obtain w where w: "w \<in> set (free_workers p t)" "sql_limit (ch 0) (Suc 0) (free_workers p t) = [w]"
    using sql_limit_one_cases [of "free_workers p t" "ch 0"] assms(3) by auto
  let ?r = "\<lparr>t_TaskID = taskID, t_WorkerID = w_WorkerID w, t_State = PENDING, t_PKey = p\<rparr>"
  let ?t = "set_capacity (w_Capacity w - 1) p (w_WorkerID w) (t\<lparr>Task := Task t @ [?r]\<rparr>)"
  have t': "SelectSinglePartitionedTaskWorker ch h p taskID t = Some (SUCCESS, ?t)"
    using w(2) assms(2) by (simp add: SelectSinglePartitionedTaskWorker_def fresh_task_insert)
  have ww: "w \<in> set (Worker t)" "w_PKey w = p" "0 < w_Capacity w" using w(1) by (simp_all add: free_workers_sub)
  have "cap_of ?t = cap_of (set_capacity (w_Capacity w - 1) p (w_WorkerID w) t)"
    by (rule cap_of_cong) (simp add: set_capacity_def)
  then have "takes_slot p (w_WorkerID w) t ?t"
    using w(1) ww cap_of_worker [OF d ww(1)] cap_of_set_capacity [OF d ww(1)]
      layout_cong [of "t\<lparr>Task := Task t @ [?r]\<rparr>" t] by (auto simp: takes_slot_def)
  then show ?thesis
    using t' Single_keeps_registered [OF assms(1) t'] by (auto simp: single_hit_def)
qed

interpretation sfifo: table_search
  "Single_selectTaskWorker_at env taskID"
  "\<lambda>w. reliable env \<and> alone env \<and> registered P n (tables_of w) \<and> fresh_task taskID (tables_of w)"
  "\<lambda>p t. free_workers p t \<noteq> []"
  "\<lambda>p r t w'. single_hit P n taskID p r t (tables_of w')"
  for env taskID P n
proof unfold_locales
  fix w :: world and p
  assume ok: "reliable env \<and> alone env \<and> registered P n (tables_of w) \<and> fresh_task taskID (tables_of w)"
  {
    assume "\<not> free_workers p (tables_of w) \<noteq> []"
    then show "\<exists>w'. Single_selectTaskWorker_at env taskID p w = (None, w') \<and> tables_of w' = tables_of w \<and>
        (reliable env \<and> alone env \<and> registered P n (tables_of w') \<and> fresh_task taskID (tables_of w'))"
      using ok single.run_miss [of p "tables_of w"]
      by (simp add: Single_selectTaskWorker_at_def invoke_int64_def
          invoke_SelectSinglePartitionedTaskWorker narrow32_def)
  next
    assume "free_workers p (tables_of w) \<noteq> []"
    with ok Single_hit [of P n "tables_of w" taskID p "pick_row env (calls w)" "hashinator env"]
    show "\<exists>r w'. Single_selectTaskWorker_at env taskID p w = (Some r, w') \<and>
        single_hit P n taskID p r (tables_of w) (tables_of w')"
      by (fastforce simp: Single_selectTaskWorker_at_def invoke_int64_def
          invoke_SelectSinglePartitionedTaskWorker narrow32_def)
  }
qed simp

subsection \<open>Completeness of the search\<close>

text \<open>
  C8. When the number of active partitions is a power of two, \<open>selectTaskWorker\<close> is complete: in a
  quiet environment over registered workers and for a new task, it returns true if and only if
  some worker has capacity; then exactly one slot is taken and the task is recorded once, as
  pending on that worker, otherwise nothing changes.
\<close>

theorem Single_selectTaskWorker_spec:
  assumes "reliable env" "alone env" "registered (partitions c) (numWorkers c) (tables_of w)"
    and "fresh_task taskID (tables_of w)" "0 < partitions c"
    and "power_of_two (min (partitions c) (numWorkers c))"
  shows "\<exists>w'. if some_capacity (tables_of w)
     then Single_selectTaskWorker env c taskID w = (Inr True, w') \<and>
       (\<exists>p i. takes_slot p i (tables_of w) (tables_of w') \<and>
          Task (tables_of w') = Task (tables_of w) @
            [\<lparr>t_TaskID = taskID, t_WorkerID = i, t_State = PENDING, t_PKey = p\<rparr>])
     else Single_selectTaskWorker env c taskID w = (Inr False, w') \<and> tables_of w' = tables_of w"
proof -
  let ?P = "partitions c" and ?n = "numWorkers c" and ?a = "min (partitions c) (numWorkers c)"
  let ?w1 = "w\<lparr>draws := Suc (draws w)\<rparr>"
  have a: "0 < ?a" by (rule power_of_two_pos [OF assms(6)])
  obtain p0 where p0: "0 \<le> p0" "p0 < ?a" "rand_mod env ?a w = (Inr p0, ?w1)"
    by (rule rand_mod_range [OF a])
  have ok: "reliable env \<and> alone env \<and> registered ?P ?n (tables_of ?w1) \<and> fresh_task taskID (tables_of ?w1)"
    using assms(1-4) by simp
  have "0 < MAXTRY" by (simp add: MAXTRY_def)
  from sfifo.rounds_search [OF ok assms(6) p0(1,2) this]
  show ?thesis
    using registered_some_capacity [OF assms(3,5)] p0(3)
    by (cases "triangular_rounds (Single_selectTaskWorker_at env taskID) MAXTRY ?a p0 ?w1";
        cases "fst (triangular_rounds (Single_selectTaskWorker_at env taskID) MAXTRY ?a p0 ?w1)")
      (fastforce simp: Single_selectTaskWorker_def single_hit_def)+
qed

theorem Single_selectTaskWorker_spec_witness:
  "\<exists>w' p i. Single_selectTaskWorker quiet_env
       \<lparr>partitions = 4, numTasks = 0, workerCapacity = 1, numWorkers = 8, probMultiTx = 0\<rparr> 9
       (world_with (empty_tables\<lparr>Worker := worker_rows 4 1 8\<rparr>)) = (Inr True, w') \<and>
     takes_slot p i (empty_tables\<lparr>Worker := worker_rows 4 1 8\<rparr>) (tables_of w')"
proof -
  let ?t = "empty_tables\<lparr>Worker := worker_rows 4 1 8\<rparr>"
  have "some_capacity ?t" by (simp add: some_capacity_def worker_rows_def upto.simps)
  moreover have "fresh_task 9 ?t" by (simp add: fresh_task_def empty_tables_def)
  moreover have "power_of_two 4" unfolding power_of_two_def by (rule exI [of _ 2]) simp
  ultimately show ?thesis
    using Single_selectTaskWorker_spec [of quiet_env
        "\<lparr>partitions = 4, numTasks = 0, workerCapacity = 1, numWorkers = 8, probMultiTx = 0\<rparr>"
        "world_with ?t" 9] by auto
qed

text \<open>
  C9. When the number of active partitions is not a power of two, the triangular steps never
  reach some partition \<open>q\<close>, in none of the \<open>MAXTRY\<close> rounds: if only workers of \<open>q\<close> have capacity,
  \<open>schedule\<close> ends in its failed assertion although there is capacity.
\<close>

theorem Single_schedule_misses_partition:
  assumes "reliable env" "alone env" "0 < partitions c" "0 < numWorkers c"
    and "\<not> power_of_two (min (partitions c) (numWorkers c))"
  shows "\<exists>q. 0 \<le> q \<and> q < min (partitions c) (numWorkers c) \<and>
    (\<forall>t. registered (partitions c) (numWorkers c) t \<and> fresh_task (sint ix) t \<and>
         (\<forall>p. free_workers p t \<noteq> [] \<longrightarrow> p = q) \<longrightarrow>
         fst (Single_schedule env c task (ix, w\<lparr>tables_of := t\<rparr>)) = Inl AssertFailed)"
proof -
  let ?P = "partitions c" and ?n = "numWorkers c" and ?a = "min (partitions c) (numWorkers c)"
  have a: "0 < ?a" using assms(3,4) by simp
  define p0 where "p0 = int (rnd env (draws w)) mod ?a"
  have p0: "0 \<le> p0" "p0 < ?a" unfolding p0_def by (rule pos_mod_sign [OF a], rule pos_mod_bound [OF a])
  have rand: "rand_mod env ?a (w\<lparr>tables_of := t\<rparr>) =
      (Inr p0, w\<lparr>tables_of := t, draws := Suc (draws w)\<rparr>)" for t
    using rand_mod_pos [OF a, of env "w\<lparr>tables_of := t\<rparr>"] by (simp add: p0_def)
  obtain q Q where q: "0 \<le> q" "q < ?a" "p0 \<in> Q"
    "\<forall>p \<in> Q. 0 \<le> p \<and> p < ?a \<and> q \<notin> tri_visits ?a p \<and> (p + tri ?a) mod ?a \<in> Q"
    using tri_never_visited [OF a assms(5) p0] by blast
  have "fst (Single_schedule env c task (ix, w\<lparr>tables_of := t\<rparr>)) = Inl AssertFailed"
    if t: "registered ?P ?n t" "fresh_task (sint ix) t" "\<forall>p. free_workers p t \<noteq> [] \<longrightarrow> p = q" for t
  proof -
    let ?w1 = "w\<lparr>tables_of := t, draws := Suc (draws w)\<rparr>"
    have ok: "reliable env \<and> alone env \<and> registered ?P ?n (tables_of ?w1) \<and> fresh_task (sint ix) (tables_of ?w1)"
      using assms(1,2) t by simp
    have "\<exists>p' w'. triangular_rounds (Single_selectTaskWorker_at env (sint ix)) MAXTRY ?a p0 ?w1 = (None, (p', w'))"
      using sfifo.rounds_miss [OF ok a q(3,4), of MAXTRY] t(3) by auto
    then show ?thesis
      by (auto simp: Single_schedule_def fetch_add_def Single_selectTaskWorker_def rand)
  qed
  then show ?thesis using q(1,2) by blast
qed

theorem Single_schedule_misses_partition_witness:
  "\<exists>q. 0 \<le> q \<and> q < 3 \<and>
    (\<forall>t. registered 3 3 t \<and> fresh_task (sint (0 :: 32 word)) t \<and> (\<forall>p. free_workers p t \<noteq> [] \<longrightarrow> p = q) \<longrightarrow>
      fst (Single_schedule quiet_env
        \<lparr>partitions = 3, numTasks = 0, workerCapacity = 1, numWorkers = 3, probMultiTx = 0\<rparr>
        \<lparr>targetData = 0, execTime = 0\<rparr> (0, (world_with empty_tables)\<lparr>tables_of := t\<rparr>)) = Inl AssertFailed)"
proof -
  have "\<not> power_of_two 3" by (rule not_power_of_two_odd) simp_all
  then show ?thesis
    using Single_schedule_misses_partition [of quiet_env
      "\<lparr>partitions = 3, numTasks = 0, workerCapacity = 1, numWorkers = 3, probMultiTx = 0\<rparr>" 0
      "\<lparr>targetData = 0, execTime = 0\<rparr>" "world_with empty_tables"] by simp
qed

text \<open>
  The premise is satisfiable: with three workers of which only the last has a slot, every search
  that starts at partition 0 fails.
\<close>

lemma Single_three_partitions:
  "fst (Single_schedule quiet_env
     \<lparr>partitions = 3, numTasks = 0, workerCapacity = 1, numWorkers = 3, probMultiTx = 0\<rparr>
     \<lparr>targetData = 0, execTime = 0\<rparr> (0, world_with (empty_tables\<lparr>Worker :=
        [\<lparr>w_WorkerID = 0, w_Capacity = 0, w_DataShards = 0, w_PKey = 0, w_Url = []\<rparr>,
         \<lparr>w_WorkerID = 1, w_Capacity = 0, w_DataShards = 0, w_PKey = 1, w_Url = []\<rparr>,
         \<lparr>w_WorkerID = 2, w_Capacity = 1, w_DataShards = 0, w_PKey = 2, w_Url = []\<rparr>]\<rparr>))) = Inl AssertFailed"
proof -
  let ?t = "empty_tables\<lparr>Worker :=
        [\<lparr>w_WorkerID = 0, w_Capacity = 0, w_DataShards = 0, w_PKey = 0, w_Url = []\<rparr>,
         \<lparr>w_WorkerID = 1, w_Capacity = 0, w_DataShards = 0, w_PKey = 1, w_Url = []\<rparr>,
         \<lparr>w_WorkerID = 2, w_Capacity = 1, w_DataShards = 0, w_PKey = 2, w_Url = []\<rparr>]\<rparr>"
  let ?c = "\<lparr>partitions = 3, numTasks = 0, workerCapacity = 1, numWorkers = 3, probMultiTx = 0\<rparr>"
  have "{0..<3 :: int} = {0, 1, 2}" by auto
  then have vis: "tri_visits 3 0 = {0, 1}" by (simp add: tri_visits_def tri_def) blast
  have reg: "registered 3 3 ?t" by (simp add: registered_def wf_workers_def c_rem_nonneg)
  have fresh: "fresh_task 0 ?t" by (simp add: fresh_task_def empty_tables_def)
  have ok: "reliable quiet_env \<and> alone quiet_env \<and> registered 3 3 (tables_of ((world_with ?t)\<lparr>draws := Suc 0\<rparr>)) \<and>
      fresh_task 0 (tables_of ((world_with ?t)\<lparr>draws := Suc 0\<rparr>))" using reg fresh by simp
  have only: "p = 2" if "free_workers p (tables_of ((world_with ?t)\<lparr>draws := Suc 0\<rparr>)) \<noteq> []" for p
    using that by (simp add: free_workers_def split: if_splits)
  have Q: "\<forall>p \<in> {0}. 0 \<le> p \<and> p < 3 \<and> 2 \<notin> tri_visits 3 p \<and> (p + tri 3) mod 3 \<in> {0}"
    by (simp add: vis tri_def)
  have "\<exists>p' w'. triangular_rounds (Single_selectTaskWorker_at quiet_env 0) MAXTRY 3 0
      ((world_with ?t)\<lparr>draws := Suc 0\<rparr>) = (None, (p', w'))"
    using sfifo.rounds_miss [OF ok _ _ Q only, of 0 MAXTRY] by auto
  then show ?thesis
    by (auto simp: Single_schedule_def fetch_add_def Single_selectTaskWorker_def rand_mod_pos)
qed

subsection \<open>Interference\<close>

lemma Single_selectTaskWorker_keeps:
  assumes "I (tables_of w)" "others_keep env I"
    and trans: "\<And>ch h p i t r t'. I t \<Longrightarrow> SelectSinglePartitionedTaskWorker ch h p i t = Some (r, t') \<Longrightarrow> I t'"
  shows "I (tables_of (snd (Single_selectTaskWorker env c i w)))"
proof -
  let ?a = "min (partitions c) (numWorkers c)"
  have at: "I (tables_of (snd (Single_selectTaskWorker_at env i p w)))" if "I (tables_of w)" for i p w
    using others_keep_seen [OF assms(2) that] trans
    by (auto simp: Single_selectTaskWorker_at_def invoke_int64_def
        invoke_SelectSinglePartitionedTaskWorker split: prod.split option.split)
  have "I (tables_of (snd (snd (triangular_rounds (Single_selectTaskWorker_at env i) MAXTRY ?a p w))))"
    if "I (tables_of w)" for i p w
    using triangular_rounds_keeps [where P = "\<lambda>w. I (tables_of w)", OF that at] .
  moreover obtain x w1 where "rand_mod env ?a w = (x, w1)" "tables_of w1 = tables_of w"
    using rand_mod_tables [of env ?a w] by (metis prod.collapse)
  ultimately show ?thesis
    using assms(1)
    by (cases x) (auto simp: Single_selectTaskWorker_def split: prod.split option.split, (metis snd_conv)+)
qed

text \<open>
  Slots are conserved by \<open>schedule\<close> under every interference that conserves them and every
  pattern of failures, for every number of partitions.
\<close>

lemma Single_schedule_conserves_slots:
  assumes "wf_workers P (tables_of (snd s)) \<and> (\<forall>i. slots i (tables_of (snd s)) = S i)"
    and "others_keep env (\<lambda>t. wf_workers P t \<and> (\<forall>i. slots i t = S i))"
  shows "wf_workers P (tables_of (snd (snd (Single_schedule env c task s)))) \<and>
    (\<forall>i. slots i (tables_of (snd (snd (Single_schedule env c task s)))) = S i)"
proof -
  obtain ix w where s: "s = (ix, w)" by fastforce
  let ?I = "\<lambda>t. wf_workers P t \<and> (\<forall>i. slots i t = S i)"
  have "?I (tables_of (snd (Single_selectTaskWorker env c (sint ix) w)))"
    by (rule Single_selectTaskWorker_keeps [where I = ?I, OF _ assms(2)])
      (use assms(1) s in \<open>auto dest: single.run_wf single.run_slots [OF wf_workers_distinct]\<close>)
  then show ?thesis
    by (auto simp: s Single_schedule_def fetch_add_def split: prod.split sum.split)
qed


end
