(* ===== verification/PushFIFO_Scheduler.thy ===== *)
theory PushFIFO_Scheduler
  imports Registration
begin

text \<open>
  \<open>PushFIFOScheduler\<close>: workers register themselves; a scheduling act takes a slot in one partition,
  records the task as running and appends it to the export stream that pushes it to the worker's
  address. One round of triangular steps over the configured number of partitions.
\<close>

section \<open>Definitions\<close>

record PushFIFOScheduler =
  partitions :: int
  numTasks :: int
  probMultiTx :: real

definition Push_truncateTaskTable :: "env \<Rightarrow> world \<Rightarrow> world" where
  "Push_truncateTaskTable env w = invoke_void env ''TruncateTaskTable'' [] w"

definition Push_selectTaskWorker_at :: "env \<Rightarrow> int \<Rightarrow> int \<Rightarrow> world \<Rightarrow> bool result option \<times> world" where
  "Push_selectTaskWorker_at env taskID pkey w =
     (case invoke_int64 env ''PushTask'' [WInt pkey, WInt taskID] w of
        (None, w') \<Rightarrow> (Some (Inr False), w')
      | (Some (Inl e), w') \<Rightarrow> (Some (Inl e), w')
      | (Some (Inr v), w') \<Rightarrow> (if narrow32 v = SUCCESS then (Some (Inr True), w') else (None, w')))"

definition Push_selectTaskWorker ::
    "env \<Rightarrow> PushFIFOScheduler \<Rightarrow> int \<Rightarrow> world \<Rightarrow> bool result \<times> world" where
  "Push_selectTaskWorker env c taskID w =
     (case rand_mod env (partitions c) w of
        (Inl e, w1) \<Rightarrow> (Inl e, w1)
      | (Inr pkey, w1) \<Rightarrow>
          (case triangular_probe (Push_selectTaskWorker_at env taskID) (partitions c) pkey w1 of
             (Some r, (_, w2)) \<Rightarrow> (r, w2)
           | (None, (_, w2)) \<Rightarrow> (Inr False, w2)))"

definition Push_setup :: "env \<Rightarrow> world \<Rightarrow> bool \<times> world" where
  "Push_setup env w = (True, Push_truncateTaskTable env w)"

definition Push_teardown :: "env \<Rightarrow> world \<Rightarrow> bool \<times> world" where
  "Push_teardown env w = (True, Push_truncateTaskTable env w)"

definition Push_schedule ::
    "env \<Rightarrow> PushFIFOScheduler \<Rightarrow> Task_struct \<Rightarrow> 32 word \<times> world \<Rightarrow> bool result \<times> (32 word \<times> world)" where
  "Push_schedule env c task s =
     (case s of (taskindex, w) \<Rightarrow>
      case fetch_add taskindex of (taskId, taskindex') \<Rightarrow>
      (case Push_selectTaskWorker env c taskId w of
         (Inl e, w') \<Rightarrow> (Inl e, (taskindex', w'))
       | (Inr status, w') \<Rightarrow> (if status then Inr True else Inl AssertFailed, (taskindex', w'))))"

text \<open>What a successful search establishes.\<close>

definition push_hit :: "int \<Rightarrow> int \<Rightarrow> bool result \<Rightarrow> tables \<Rightarrow> tables \<Rightarrow> bool" where
  "push_hit taskID p r t t' \<longleftrightarrow>
     r = Inr True \<and>
     (\<exists>v \<in> set (free_workers p t). takes_slot p (w_WorkerID v) t t' \<and>
        Task t' = Task t @ [\<lparr>t_TaskID = taskID, t_WorkerID = w_WorkerID v, t_State = RUNNING, t_PKey = p\<rparr>] \<and>
        TaskAssign t' = TaskAssign t @ [(taskID, w_Url v, p)])"

section \<open>Lemmas\<close>

lemma PushTask_hit:
  assumes "wf_workers P t" "fresh_task taskID t" "free_workers p t \<noteq> []"
  shows "\<exists>t'. PushTask ch h p taskID t = Some (SUCCESS, t') \<and> push_hit taskID p (Inr True) t t'"
proof -
  note d = wf_workers_distinct [OF assms(1)]
  obtain w where w: "w \<in> set (free_workers p t)" "sql_limit (ch 0) (Suc 0) (free_workers p t) = [w]"
    using sql_limit_one_cases [of "free_workers p t" "ch 0"] assms(3) by auto
  let ?r = "\<lparr>t_TaskID = taskID, t_WorkerID = w_WorkerID w, t_State = RUNNING, t_PKey = p\<rparr>"
  let ?u = "set_capacity (w_Capacity w - 1) p (w_WorkerID w) (t\<lparr>Task := Task t @ [?r]\<rparr>)"
  let ?t = "?u\<lparr>TaskAssign := TaskAssign t @ [(taskID, w_Url w, p)]\<rparr>"
  have t': "PushTask ch h p taskID t = Some (SUCCESS, ?t)"
    using w(2) assms(2) by (simp add: PushTask_def fresh_task_insert Let_def)
  have ww: "w \<in> set (Worker t)" "w_PKey w = p" "0 < w_Capacity w" using w(1) by (simp_all add: free_workers_sub)
  have W: "Worker ?t = Worker (set_capacity (w_Capacity w - 1) p (w_WorkerID w) t)"
    by (simp add: set_capacity_def)
  have "takes_slot p (w_WorkerID w) t ?t"
    using w(1) ww cap_of_worker [OF d ww(1)] cap_of_set_capacity [OF d ww(1)]
      layout_cong [OF W] cap_of_cong [OF W] by (auto simp: takes_slot_def)
  then show ?thesis
    using t' w(1) by (auto simp: push_hit_def)
qed

interpretation pfifo: table_search
  "Push_selectTaskWorker_at env taskID"
  "\<lambda>w. reliable env \<and> alone env \<and> wf_workers P (tables_of w) \<and> fresh_task taskID (tables_of w)"
  "\<lambda>p t. free_workers p t \<noteq> []"
  "\<lambda>p r t w'. push_hit taskID p r t (tables_of w')"
  for env taskID P
proof unfold_locales
  fix w :: world and p
  assume ok: "reliable env \<and> alone env \<and> wf_workers P (tables_of w) \<and> fresh_task taskID (tables_of w)"
  {
    assume "\<not> free_workers p (tables_of w) \<noteq> []"
    then show "\<exists>w'. Push_selectTaskWorker_at env taskID p w = (None, w') \<and> tables_of w' = tables_of w \<and>
        (reliable env \<and> alone env \<and> wf_workers P (tables_of w') \<and> fresh_task taskID (tables_of w'))"
      using ok push.run_miss [of p "tables_of w"]
      by (simp add: Push_selectTaskWorker_at_def invoke_int64_def invoke_PushTask narrow32_def)
  next
    assume "free_workers p (tables_of w) \<noteq> []"
    with ok PushTask_hit [of P "tables_of w" taskID p "pick_row env (calls w)" "hashinator env"]
    show "\<exists>r w'. Push_selectTaskWorker_at env taskID p w = (Some r, w') \<and>
        push_hit taskID p r (tables_of w) (tables_of w')"
      by (fastforce simp: Push_selectTaskWorker_at_def invoke_int64_def invoke_PushTask narrow32_def)
  }
qed simp

lemma Push_selectTaskWorker_cases:
  assumes "reliable env" "alone env" "wf_workers (partitions c) (tables_of w)"
    and "fresh_task taskID (tables_of w)" "0 < partitions c"
    and "p0 = int (rnd env (draws w)) mod partitions c"
  shows "\<exists>w'. if \<exists>p \<in> tri_visits (partitions c) p0. free_workers p (tables_of w) \<noteq> []
     then Push_selectTaskWorker env c taskID w = (Inr True, w') \<and>
       (\<exists>p. push_hit taskID p (Inr True) (tables_of w) (tables_of w'))
     else Push_selectTaskWorker env c taskID w = (Inr False, w') \<and> tables_of w' = tables_of w"
proof -
  let ?P = "partitions c"
  let ?w1 = "w\<lparr>draws := Suc (draws w)\<rparr>"
  have p0: "0 \<le> p0" "p0 < ?P" using assms(5,6) by simp_all
  have ok: "reliable env \<and> alone env \<and> wf_workers ?P (tables_of ?w1) \<and> fresh_task taskID (tables_of ?w1)"
    using assms(1-4) by simp
  then show ?thesis
    using pfifo.triangular_search [OF ok assms(5) p0] rand_mod_pos [OF assms(5), of env w]
    by (cases "triangular_probe (Push_selectTaskWorker_at env taskID) ?P p0 ?w1";
        cases "fst (triangular_probe (Push_selectTaskWorker_at env taskID) ?P p0 ?w1)")
      (fastforce simp: Push_selectTaskWorker_def push_hit_def assms(6))+
qed

lemma Push_selectTaskWorker_hit:
  assumes "reliable env" "alone env" "wf_workers (partitions c) (tables_of w)"
    and "fresh_task taskID (tables_of w)" "0 < partitions c"
    and "Push_selectTaskWorker env c taskID w = (Inr True, w')"
  shows "\<exists>p. push_hit taskID p (Inr True) (tables_of w) (tables_of w')"
  using Push_selectTaskWorker_cases [OF assms(1-5) refl] assms(6) by (auto split: if_splits)

text \<open>
  C10. \<open>selectTaskWorker\<close> of the push scheduler, for any positive number of partitions and a new task in
  a quiet environment: it returns true if and only if one of the partitions on its triangular
  path has a free worker; then it takes one slot of such a worker, records the task as running
  and exports the task with the address of that worker; otherwise it changes nothing. With a
  power of two partitions the path is all of them.
\<close>

theorem Push_selectTaskWorker_spec:
  assumes "reliable env" "alone env" "wf_workers (partitions c) (tables_of w)"
    and "fresh_task taskID (tables_of w)" "0 < partitions c"
    and "p0 = int (rnd env (draws w)) mod partitions c"
  shows "\<exists>w'. (if \<exists>p \<in> tri_visits (partitions c) p0. free_workers p (tables_of w) \<noteq> []
     then Push_selectTaskWorker env c taskID w = (Inr True, w') \<and>
       (\<exists>p v. v \<in> set (free_workers p (tables_of w)) \<and>
          takes_slot p (w_WorkerID v) (tables_of w) (tables_of w') \<and>
          Task (tables_of w') = Task (tables_of w) @
            [\<lparr>t_TaskID = taskID, t_WorkerID = w_WorkerID v, t_State = RUNNING, t_PKey = p\<rparr>] \<and>
          TaskAssign (tables_of w') = TaskAssign (tables_of w) @ [(taskID, w_Url v, p)])
     else Push_selectTaskWorker env c taskID w = (Inr False, w') \<and> tables_of w' = tables_of w)
   \<and> (power_of_two (partitions c) \<longrightarrow>
       ((\<exists>p \<in> tri_visits (partitions c) p0. free_workers p (tables_of w) \<noteq> []) \<longleftrightarrow>
        some_capacity (tables_of w)))"
proof -
  have "(\<exists>p \<in> tri_visits (partitions c) p0. free_workers p (tables_of w) \<noteq> []) \<longleftrightarrow> some_capacity (tables_of w)"
    if "power_of_two (partitions c)"
    using tri_visits_power_two [OF that, of p0] wf_some_capacity [OF assms(3,5)] assms(5,6) by auto
  moreover obtain w' where "if \<exists>p \<in> tri_visits (partitions c) p0. free_workers p (tables_of w) \<noteq> []
     then Push_selectTaskWorker env c taskID w = (Inr True, w') \<and>
       (\<exists>p. push_hit taskID p (Inr True) (tables_of w) (tables_of w'))
     else Push_selectTaskWorker env c taskID w = (Inr False, w') \<and> tables_of w' = tables_of w"
    using Push_selectTaskWorker_cases [OF assms] by blast
  ultimately show ?thesis unfolding push_hit_def by (intro exI [of _ w']) (auto split: if_splits)
qed

theorem Push_selectTaskWorker_spec_witness:
  "\<exists>w'. Push_selectTaskWorker quiet_env \<lparr>partitions = 1, numTasks = 0, probMultiTx = 0\<rparr> 9
       (world_with (empty_tables\<lparr>Worker := worker_rows 1 1 1\<rparr>)) = (Inr True, w') \<and>
     TaskAssign (tables_of w') = [(9, [], 0)]"
proof -
  let ?t = "empty_tables\<lparr>Worker := worker_rows 1 1 1\<rparr>"
  have rows: "worker_rows 1 1 1 =
      [\<lparr>w_WorkerID = 0, w_Capacity = 1, w_DataShards = 0, w_PKey = 0, w_Url = []\<rparr>]"
    by (simp add: worker_rows_def c_rem_nonneg)
  have free: "free_workers p ?t = (if p = 0
      then [\<lparr>w_WorkerID = 0, w_Capacity = 1, w_DataShards = 0, w_PKey = 0, w_Url = []\<rparr>] else [])" for p
    by (simp add: free_workers_def rows)
  have "registered 1 1 ?t" by simp
  then have "wf_workers 1 ?t" by (simp add: registered_def)
  moreover have "fresh_task 9 ?t" "TaskAssign ?t = []" by (simp_all add: fresh_task_def empty_tables_def)
  moreover have "\<exists>p \<in> tri_visits 1 0. free_workers p ?t \<noteq> []"
    by (simp add: tri_visits_one free)
  ultimately show ?thesis
    using Push_selectTaskWorker_spec [of quiet_env "\<lparr>partitions = 1, numTasks = 0, probMultiTx = 0\<rparr>"
        "world_with ?t" 9 0]
    by (auto simp: free split: if_splits)
qed

subsection \<open>Interference\<close>

text \<open>
  Slots are conserved by \<open>schedule\<close> under every interference that conserves them and every pattern of
  failures, for every number of partitions.
\<close>

lemma Push_schedule_conserves_slots:
  assumes "wf_workers P (tables_of (snd s)) \<and> (\<forall>i. slots i (tables_of (snd s)) = S i)"
    and "others_keep env (\<lambda>t. wf_workers P t \<and> (\<forall>i. slots i t = S i))"
  shows "wf_workers P (tables_of (snd (snd (Push_schedule env c task s)))) \<and>
    (\<forall>i. slots i (tables_of (snd (snd (Push_schedule env c task s)))) = S i)"
proof -
  obtain ix w where s: "s = (ix, w)" by fastforce
  let ?I = "\<lambda>t. wf_workers P t \<and> (\<forall>i. slots i t = S i)" and ?a = "partitions c"
  have at: "?I (tables_of (snd (Push_selectTaskWorker_at env k p w)))" if "?I (tables_of w)" for k p w
    using others_keep_seen [OF assms(2) that]
    by (auto simp: Push_selectTaskWorker_at_def invoke_int64_def invoke_PushTask
        dest: push.run_wf push.run_slots [OF wf_workers_distinct] split: prod.split option.split)
  have probe: "?I (tables_of (snd (snd (triangular_probe (Push_selectTaskWorker_at env k) ?a p w))))"
    if "?I (tables_of w)" for k p w
    using triangular_probe_keeps [where P = "\<lambda>w. ?I (tables_of w)", OF that at] .
  obtain x w1 where w1: "rand_mod env ?a w = (x, w1)" "tables_of w1 = tables_of w"
    using rand_mod_tables [of env ?a w] by (metis prod.collapse)
  have "?I (tables_of w1)" using assms(1) w1(2) s by simp
  then have "?I (tables_of (snd (Push_selectTaskWorker env c (sint ix) w)))"
    using probe [of w1 "sint ix"] w1(1)
    by (cases x) (auto simp: Push_selectTaskWorker_def split: prod.split option.split, (metis snd_conv)+)
  then show ?thesis
    by (auto simp: s Push_schedule_def fetch_add_def split: prod.split sum.split)
qed

end
