(* ===== verification/FIFOTask_Scheduler.thy ===== *)
theory FIFOTask_Scheduler
  imports Registration
begin

text \<open>
  \<open>PartitionedFIFOTaskScheduler\<close>: workers and tasks are inserted by \<open>setup\<close>; a scheduling act picks
  a task and a worker, with a configured probability in single-partition transactions that step
  through the partitions by triangular numbers, and otherwise (or when that ends without a
  match) in one transaction over all partitions.
\<close>

section \<open>Definitions\<close>

record PartitionedFIFOTaskScheduler =
  partitions :: int
  numTasks :: int
  workerCapacity :: int
  numWorkers :: int
  probMultiTx :: real

definition FIFOTask_truncateWorkerTable :: "env \<Rightarrow> world \<Rightarrow> world" where
  "FIFOTask_truncateWorkerTable env w = invoke_void env ''TruncateWorkerTable'' [] w"

definition FIFOTask_truncateTaskTable :: "env \<Rightarrow> world \<Rightarrow> world" where
  "FIFOTask_truncateTaskTable env w = invoke_void env ''TruncateTaskTable'' [] w"

definition FIFOTask_insertWorker ::
    "env \<Rightarrow> PartitionedFIFOTaskScheduler \<Rightarrow> int \<Rightarrow> int \<Rightarrow> world \<Rightarrow> bool result \<times> world" where
  "FIFOTask_insertWorker env c workerID capacity w =
     (if partitions c = 0 then (Inl DivByZero, w)
      else case invoke_status env ''InsertWorker''
                  [WInt workerID, WInt capacity, WInt (c_rem workerID (partitions c)), WStr []] w of
             (ok, w') \<Rightarrow> (Inr ok, w'))"

definition FIFOTask_insertTask ::
    "env \<Rightarrow> PartitionedFIFOTaskScheduler \<Rightarrow> int \<Rightarrow> world \<Rightarrow> bool result \<times> world" where
  "FIFOTask_insertTask env c taskID w =
     (if partitions c = 0 then (Inl DivByZero, w)
      else case invoke_status env ''InsertTask''
                  [WInt taskID, WInt (-1), WInt 1, WInt (c_rem taskID (partitions c))] w of
             (ok, w') \<Rightarrow> (Inr ok, w'))"

text \<open>
  The body of the loop: \<open>Some (Some r)\<close> returns \<open>r\<close>, \<open>Some None\<close> is the \<open>break\<close> on \<open>NOWORKER\<close>,
  \<open>None\<close> continues with the next key.
\<close>

definition FIFOTask_selectTaskWorker_at ::
    "env \<Rightarrow> int \<Rightarrow> world \<Rightarrow> bool result option option \<times> world" where
  "FIFOTask_selectTaskWorker_at env pkey w =
     (case invoke_int64 env ''SelectPartitionedTaskWorker'' [WInt pkey] w of
        (None, w') \<Rightarrow> (Some (Some (Inr False)), w')
      | (Some (Inl e), w') \<Rightarrow> (Some (Some (Inl e)), w')
      | (Some (Inr v), w') \<Rightarrow>
          (let status = narrow32 v
           in if status = SUCCESS then (Some (Some (Inr True)), w')
              else if status = NOWORKER then (Some None, w')
              else (None, w')))"

text \<open>The transaction over all partitions at the end of \<open>selectTaskWorker\<close>.\<close>

definition FIFOTask_selectTaskWorker_all :: "env \<Rightarrow> world \<Rightarrow> bool result \<times> world" where
  "FIFOTask_selectTaskWorker_all env w =
     (case invoke_int64 env ''SelectTaskWorker'' [] w of
        (None, w') \<Rightarrow> (Inr False, w')
      | (Some (Inl e), w') \<Rightarrow> (Inl e, w')
      | (Some (Inr v), w') \<Rightarrow> (Inr (narrow32 v = SUCCESS), w'))"

definition FIFOTask_selectTaskWorker ::
    "env \<Rightarrow> PartitionedFIFOTaskScheduler \<Rightarrow> world \<Rightarrow> bool result \<times> world" where
  "FIFOTask_selectTaskWorker env c w =
     (let activePartitions = min (partitions c) (max (numWorkers c) (numTasks c))
      in case rand_mod env activePartitions w of
           (Inl e, w1) \<Rightarrow> (Inl e, w1)
         | (Inr pkey, w1) \<Rightarrow>
             (case coin env w1 of (cn, w2) \<Rightarrow>
              if cn > probMultiTx c
              then (case triangular_probe (FIFOTask_selectTaskWorker_at env) activePartitions pkey w2 of
                      (Some (Some r), (_, w3)) \<Rightarrow> (r, w3)
                    | (_, (_, w3)) \<Rightarrow> FIFOTask_selectTaskWorker_all env w3)
              else FIFOTask_selectTaskWorker_all env w2))"

definition FIFOTask_setup ::
    "env \<Rightarrow> PartitionedFIFOTaskScheduler \<Rightarrow> world \<Rightarrow> bool result \<times> world" where
  "FIFOTask_setup env c w =
     (case all_succeed (numWorkers c) (\<lambda>i. FIFOTask_insertWorker env c i (workerCapacity c))
             (FIFOTask_truncateTaskTable env (FIFOTask_truncateWorkerTable env w)) of
        (Inr True, w1) \<Rightarrow> all_succeed (numTasks c) (\<lambda>i. FIFOTask_insertTask env c i) w1
      | (r, w1) \<Rightarrow> (r, w1))"

definition FIFOTask_teardown :: "env \<Rightarrow> world \<Rightarrow> bool \<times> world" where
  "FIFOTask_teardown env w = (True, FIFOTask_truncateTaskTable env (FIFOTask_truncateWorkerTable env w))"

definition FIFOTask_schedule ::
    "env \<Rightarrow> PartitionedFIFOTaskScheduler \<Rightarrow> Task_struct \<Rightarrow> world \<Rightarrow> bool result \<times> world" where
  "FIFOTask_schedule env c task w =
     (case FIFOTask_selectTaskWorker env c w of
        (Inl e, w') \<Rightarrow> (Inl e, w')
      | (Inr status, w') \<Rightarrow> (if status then Inr True else Inl AssertFailed, w'))"

text \<open>
  The effect of a successful act: a slot of a worker is taken and some task row now names that
  worker; no row is added, removed, or changes its state.
\<close>

definition assigns :: "tables \<Rightarrow> tables \<Rightarrow> bool" where
  "assigns t t' \<longleftrightarrow>
     (\<exists>p i. takes_slot p i t t' \<and> (\<exists>r \<in> set (Task t'). t_WorkerID r = i)) \<and>
     map (\<lambda>r. (t_TaskID r, t_State r, t_PKey r)) (Task t') =
     map (\<lambda>r. (t_TaskID r, t_State r, t_PKey r)) (Task t)"

text \<open>The outcome of an act: it succeeds when there is a task and a worker with capacity.\<close>

definition task_outcome :: "tables \<Rightarrow> bool result \<Rightarrow> tables \<Rightarrow> bool" where
  "task_outcome t r t' =
     (if Task t \<noteq> [] \<and> some_capacity t then r = Inr True \<and> assigns t t' else r = Inr False \<and> t' = t)"

text \<open>The rows of the \<open>Task\<close> table after a successful \<open>setup\<close>.\<close>

definition task_rows :: "int \<Rightarrow> int \<Rightarrow> task_row list" where
  "task_rows P n =
     map (\<lambda>i. \<lparr>t_TaskID = i, t_WorkerID = -1, t_State = PENDING, t_PKey = c_rem i P\<rparr>) [0..n - 1]"

section \<open>Lemmas\<close>

subsection \<open>The transactions\<close>

lemma takes_slot_set_capacity:
  assumes "distinct (map w_WorkerID (Worker t))" "v \<in> set (free_workers p t)"
    and "Worker t' = Worker (set_capacity (w_Capacity v - 1) p (w_WorkerID v) t)"
  shows "takes_slot p (w_WorkerID v) t t'"
proof -
  have v: "v \<in> set (Worker t)" "w_PKey v = p" "0 < w_Capacity v" using assms(2) by (simp_all add: free_workers_sub)
  show ?thesis
    using assms(2) v cap_of_worker [OF assms(1) v(1)] cap_of_set_capacity [OF assms(1) v(1)]
      layout_cong [OF assms(3)] cap_of_cong [OF assms(3)] by (auto simp: takes_slot_def)
qed

text \<open>Assigning a worker to a task row in the table.\<close>

lemma assign_rows:
  assumes "q \<in> set rs" "u q"
  shows "\<exists>r \<in> set (sql_update u (\<lambda>r. r\<lparr>t_WorkerID := i\<rparr>) rs). t_WorkerID r = i"
    and "map (\<lambda>r. (t_TaskID r, t_State r, t_PKey r)) (sql_update u (\<lambda>r. r\<lparr>t_WorkerID := i\<rparr>) rs) =
      map (\<lambda>r. (t_TaskID r, t_State r, t_PKey r)) rs"
proof -
  have "q\<lparr>t_WorkerID := i\<rparr> \<in> set (sql_update u (\<lambda>r. r\<lparr>t_WorkerID := i\<rparr>) rs)"
    using assms by (force simp: set_sql_update)
  then show "\<exists>r \<in> set (sql_update u (\<lambda>r. r\<lparr>t_WorkerID := i\<rparr>) rs). t_WorkerID r = i" by force
qed (simp add: sql_update_map)

lemma SelectPartitionedTaskWorker_cases:
  assumes "distinct (map w_WorkerID (Worker t))"
  obtains "filter (\<lambda>q. t_PKey q = p) (Task t) = []" "SelectPartitionedTaskWorker ch p t = (NOTASK, t)"
  | "filter (\<lambda>q. t_PKey q = p) (Task t) \<noteq> []" "free_workers p t = []"
      "SelectPartitionedTaskWorker ch p t = (NOWORKER, t)"
  | t' where "filter (\<lambda>q. t_PKey q = p) (Task t) \<noteq> []" "free_workers p t \<noteq> []"
      "SelectPartitionedTaskWorker ch p t = (SUCCESS, t')" "assigns t t'"
proof -
  consider "filter (\<lambda>q. t_PKey q = p) (Task t) = []"
    | "filter (\<lambda>q. t_PKey q = p) (Task t) \<noteq> []" "free_workers p t = []"
    | "filter (\<lambda>q. t_PKey q = p) (Task t) \<noteq> []" "free_workers p t \<noteq> []" by blast
  then show ?thesis
  proof cases
    case 1
    then show ?thesis by (intro that(1)) (simp_all add: SelectPartitionedTaskWorker_def)
  next
    case 2
    from sql_limit_one_cases [of "filter (\<lambda>q. t_PKey q = p) (Task t)" "ch 0"] 2(1)
    obtain q where "sql_limit (ch 0) (Suc 0) (filter (\<lambda>q. t_PKey q = p) (Task t)) = [q]" by metis
    with 2 show ?thesis by (intro that(2)) (simp_all add: SelectPartitionedTaskWorker_def)
  next
    case 3
    from sql_limit_one_cases [of "filter (\<lambda>q. t_PKey q = p) (Task t)" "ch 0"] 3(1)
    obtain q where q: "q \<in> set (filter (\<lambda>q. t_PKey q = p) (Task t))"
      "sql_limit (ch 0) (Suc 0) (filter (\<lambda>q. t_PKey q = p) (Task t)) = [q]" by metis
    from sql_limit_one_cases [of "free_workers p t" "ch 1"] 3(2)
    obtain v where v: "v \<in> set (free_workers p t)" "sql_limit (ch 1) (Suc 0) (free_workers p t) = [v]" by metis
    let ?u = "set_capacity (w_Capacity v - 1) p (w_WorkerID v) t"
    let ?t = "?u\<lparr>Task := sql_update (\<lambda>r. t_PKey r = p \<and> t_TaskID r = t_TaskID q)
        (\<lambda>r. r\<lparr>t_WorkerID := w_WorkerID v\<rparr>) (Task t)\<rparr>"
    have "SelectPartitionedTaskWorker ch p t = (SUCCESS, ?t)"
      using q(2) v(2) by (simp add: SelectPartitionedTaskWorker_def Let_def)
    moreover have "takes_slot p (w_WorkerID v) t ?t"
      using assms v(1) by (rule takes_slot_set_capacity) simp
    then have "assigns t ?t"
      using assign_rows [of q "Task t" "\<lambda>r. t_PKey r = p \<and> t_TaskID r = t_TaskID q" "w_WorkerID v"] q(1)
      unfolding assigns_def by auto
    ultimately show ?thesis using 3 by (intro that(3))
  qed
qed

lemma SelectTaskWorker_cases:
  assumes "distinct (map w_WorkerID (Worker t))"
  obtains "Task t = []" "SelectTaskWorker ch t = (NOTASK, t)"
  | "\<not> some_capacity t" "SelectTaskWorker ch t = (NOWORKER, t)"
  | t' where "Task t \<noteq> []" "some_capacity t" "SelectTaskWorker ch t = (SUCCESS, t')" "assigns t t'"
proof -
  let ?ws = "filter (\<lambda>w. w_Capacity w > 0) (Worker t)"
  have some: "some_capacity t \<longleftrightarrow> ?ws \<noteq> []" by (auto simp: some_capacity_def filter_empty_conv)
  consider "Task t = []" | "Task t \<noteq> []" "?ws = []" | "Task t \<noteq> []" "?ws \<noteq> []" by blast
  then show ?thesis
  proof cases
    case 1
    then show ?thesis by (intro that(1)) (simp_all add: SelectTaskWorker_def)
  next
    case 2
    from sql_limit_one_cases [of "Task t" "ch 0"] 2(1)
    obtain q where "sql_limit (ch 0) (Suc 0) (Task t) = [q]" by metis
    with 2 some show ?thesis by (intro that(2)) (simp_all add: SelectTaskWorker_def)
  next
    case 3
    from sql_limit_one_cases [of "Task t" "ch 0"] 3(1)
    obtain q where q: "q \<in> set (Task t)" "sql_limit (ch 0) (Suc 0) (Task t) = [q]" by metis
    from sql_limit_one_cases [of ?ws "ch 1"] 3(2)
    obtain v where v: "v \<in> set ?ws" "sql_limit (ch 1) (Suc 0) ?ws = [v]" by metis
    let ?t = "t\<lparr>Worker := sql_update (\<lambda>x. w_WorkerID x = w_WorkerID v)
        (\<lambda>x. x\<lparr>w_Capacity := w_Capacity v - 1\<rparr>) (Worker t),
      Task := sql_update (\<lambda>r. t_TaskID r = t_TaskID q) (\<lambda>r. r\<lparr>t_WorkerID := w_WorkerID v\<rparr>) (Task t)\<rparr>"
    have "SelectTaskWorker ch t = (SUCCESS, ?t)"
      using q(2) v(2) by (simp add: SelectTaskWorker_def)
    moreover have "\<forall>x \<in> set (Worker t). w_WorkerID x = w_WorkerID v \<longrightarrow> x = v"
      using assms v(1) by (auto dest: distinct_map_key_eq)
    then have "Worker ?t = Worker (set_capacity (w_Capacity v - 1) (w_PKey v) (w_WorkerID v) t)"
      by (auto simp: set_capacity_def sql_update_def)
    then have "takes_slot (w_PKey v) (w_WorkerID v) t ?t"
      using assms v(1) by (intro takes_slot_set_capacity) (simp_all add: free_workers_sub)
    then have "assigns t ?t"
      using assign_rows [of q "Task t" "\<lambda>r. t_TaskID r = t_TaskID q" "w_WorkerID v"] q(1)
      unfolding assigns_def by auto
    ultimately show ?thesis using 3 some by (intro that(3)) simp_all
  qed
qed

interpretation ftask: table_search
  "FIFOTask_selectTaskWorker_at env"
  "\<lambda>w. reliable env \<and> alone env \<and> distinct (map w_WorkerID (Worker (tables_of w)))"
  "\<lambda>p t. filter (\<lambda>q. t_PKey q = p) (Task t) \<noteq> []"
  "\<lambda>p r t w'. if free_workers p t = [] then r = None \<and> tables_of w' = t
     else r = Some (Inr True) \<and> assigns t (tables_of w')"
  for env
proof unfold_locales
  fix w :: world and p
  assume ok: "reliable env \<and> alone env \<and> distinct (map w_WorkerID (Worker (tables_of w)))"
  let ?run = "SelectPartitionedTaskWorker (pick_row env (calls w)) p (tables_of w)"
  {
    assume "\<not> filter (\<lambda>q. t_PKey q = p) (Task (tables_of w)) \<noteq> []"
    then have "?run = (NOTASK, tables_of w)"
      by (rule_tac SelectPartitionedTaskWorker_cases [OF conjunct2 [OF conjunct2 [OF ok]], of p]) auto
    then show "\<exists>w'. FIFOTask_selectTaskWorker_at env p w = (None, w') \<and> tables_of w' = tables_of w \<and>
        (reliable env \<and> alone env \<and> distinct (map w_WorkerID (Worker (tables_of w'))))"
      using ok by (simp add: FIFOTask_selectTaskWorker_at_def invoke_int64_def
          invoke_SelectPartitionedTaskWorker narrow32_def)
  next
    assume av: "filter (\<lambda>q. t_PKey q = p) (Task (tables_of w)) \<noteq> []"
    show "\<exists>r w'. FIFOTask_selectTaskWorker_at env p w = (Some r, w') \<and>
        (if free_workers p (tables_of w) = [] then r = None \<and> tables_of w' = tables_of w
         else r = Some (Inr True) \<and> assigns (tables_of w) (tables_of w'))"
      by (rule SelectPartitionedTaskWorker_cases [OF conjunct2 [OF conjunct2 [OF ok]], of p "pick_row env (calls w)"])
        (use av ok in \<open>simp_all add: FIFOTask_selectTaskWorker_at_def invoke_int64_def
          invoke_SelectPartitionedTaskWorker narrow32_def\<close>)
  }
qed simp

subsection \<open>Operations\<close>

lemma FIFOTask_all_cases:
  assumes "reliable env" "alone env" "distinct (map w_WorkerID (Worker (tables_of w)))"
  shows "\<exists>r w'. FIFOTask_selectTaskWorker_all env w = (r, w') \<and>
    task_outcome (tables_of w) r (tables_of w')"
  by (rule SelectTaskWorker_cases [OF assms(3), of "pick_row env (calls w)"])
    (use assms(1,2) in \<open>simp_all add: FIFOTask_selectTaskWorker_all_def invoke_int64_def
      invoke_SelectTaskWorker narrow32_def task_outcome_def\<close>)

lemma FIFOTask_probe_cases:
  assumes "reliable env" "alone env" "distinct (map w_WorkerID (Worker (tables_of w)))"
    and "0 < a" "0 \<le> p0" "p0 < a"
  shows "(\<exists>x p w'. triangular_probe (FIFOTask_selectTaskWorker_at env) a p0 w = (x, (p, w')) \<and>
        (x = None \<or> x = Some None) \<and> tables_of w' = tables_of w)
     \<or> (\<exists>p w'. triangular_probe (FIFOTask_selectTaskWorker_at env) a p0 w = (Some (Some (Inr True)), (p, w')) \<and>
        Task (tables_of w) \<noteq> [] \<and> some_capacity (tables_of w) \<and> assigns (tables_of w) (tables_of w'))"
proof -
  have ok: "reliable env \<and> alone env \<and> distinct (map w_WorkerID (Worker (tables_of w)))"
    using assms(1-3) by simp
  have cap: "free_workers p (tables_of w) \<noteq> [] \<Longrightarrow> some_capacity (tables_of w)" for p
    by (auto simp: some_capacity_def free_workers_def filter_empty_conv)
  have tsk: "filter (\<lambda>q. t_PKey q = p) (Task (tables_of w)) \<noteq> [] \<Longrightarrow> Task (tables_of w) \<noteq> []" for p by auto
  show ?thesis
    using ftask.triangular_search [OF ok assms(4-6)]
    by (cases "triangular_probe (FIFOTask_selectTaskWorker_at env) a p0 w";
        cases "fst (triangular_probe (FIFOTask_selectTaskWorker_at env) a p0 w)")
      (auto split: if_splits dest: cap tsk)
qed

lemma FIFOTask_selectTaskWorker_cases:
  assumes "reliable env" "alone env" "distinct (map w_WorkerID (Worker (tables_of w)))"
    and "0 < partitions c" "0 < max (numWorkers c) (numTasks c)"
  shows "\<exists>r w'. FIFOTask_selectTaskWorker env c w = (r, w') \<and>
    task_outcome (tables_of w) r (tables_of w')"
proof -
  let ?a = "min (partitions c) (max (numWorkers c) (numTasks c))"
  have a: "0 < ?a" using assms(4,5) by simp
  obtain p0 where p0: "0 \<le> p0" "p0 < ?a" "rand_mod env ?a w = (Inr p0, w\<lparr>draws := Suc (draws w)\<rparr>)"
    by (rule rand_mod_range [OF a])
  obtain cn w2 where w2: "coin env (w\<lparr>draws := Suc (draws w)\<rparr>) = (cn, w2)" "tables_of w2 = tables_of w"
    by (simp add: coin_def c_rand_def)
  have d2: "distinct (map w_WorkerID (Worker (tables_of w2)))" using assms(3) w2(2) by simp
  show ?thesis
  proof (cases "cn > probMultiTx c")
    case False
    with FIFOTask_all_cases [OF assms(1,2) d2] p0(3) w2 show ?thesis
      by (simp add: FIFOTask_selectTaskWorker_def)
  next
    case True
    from FIFOTask_probe_cases [OF assms(1,2) d2 a p0(1,2)] show ?thesis
    proof (elim disjE exE conjE)
      fix x p w3
      assume pr: "triangular_probe (FIFOTask_selectTaskWorker_at env) ?a p0 w2 = (x, (p, w3))"
        "tables_of w3 = tables_of w2"
      have d3: "distinct (map w_WorkerID (Worker (tables_of w3)))" using d2 pr(2) by simp
      assume "x = None"
      with FIFOTask_all_cases [OF assms(1,2) d3] True p0(3) w2 pr show ?thesis
        by (simp add: FIFOTask_selectTaskWorker_def)
    next
      fix x p w3
      assume pr: "triangular_probe (FIFOTask_selectTaskWorker_at env) ?a p0 w2 = (x, (p, w3))"
        "tables_of w3 = tables_of w2"
      have d3: "distinct (map w_WorkerID (Worker (tables_of w3)))" using d2 pr(2) by simp
      assume "x = Some None"
      with FIFOTask_all_cases [OF assms(1,2) d3] True p0(3) w2 pr show ?thesis
        by (simp add: FIFOTask_selectTaskWorker_def)
    next
      fix p w3
      assume "triangular_probe (FIFOTask_selectTaskWorker_at env) ?a p0 w2 = (Some (Some (Inr True)), (p, w3))"
        "Task (tables_of w2) \<noteq> []" "some_capacity (tables_of w2)" "assigns (tables_of w2) (tables_of w3)"
      with True p0(3) w2 show ?thesis by (simp add: FIFOTask_selectTaskWorker_def task_outcome_def)
    qed
  qed
qed

text \<open>
  \<open>selectTaskWorker\<close> is complete for every number of partitions and every outcome of the coin:
  in a quiet environment it returns true if and only if there is a task and a worker with
  capacity; then one slot is taken and a task row names that worker, otherwise nothing changes.
  It does not mark the task: no task row changes its state, so the same task can be assigned
  again by the next act.
\<close>

theorem FIFOTask_selectTaskWorker_spec:
  assumes "reliable env" "alone env" "distinct (map w_WorkerID (Worker (tables_of w)))"
    and "0 < partitions c" "0 < max (numWorkers c) (numTasks c)"
  shows "\<exists>w'. if Task (tables_of w) \<noteq> [] \<and> some_capacity (tables_of w)
     then FIFOTask_selectTaskWorker env c w = (Inr True, w') \<and>
       (\<exists>p i. takes_slot p i (tables_of w) (tables_of w') \<and> (\<exists>r \<in> set (Task (tables_of w')). t_WorkerID r = i)) \<and>
       map (\<lambda>r. (t_TaskID r, t_State r, t_PKey r)) (Task (tables_of w')) =
       map (\<lambda>r. (t_TaskID r, t_State r, t_PKey r)) (Task (tables_of w))
     else FIFOTask_selectTaskWorker env c w = (Inr False, w') \<and> tables_of w' = tables_of w"
proof -
  obtain r w' where "FIFOTask_selectTaskWorker env c w = (r, w')" "task_outcome (tables_of w) r (tables_of w')"
    using FIFOTask_selectTaskWorker_cases [OF assms] by blast
  then show ?thesis
    unfolding task_outcome_def assigns_def by (intro exI [of _ w']) (simp split: if_splits)
qed

theorem FIFOTask_selectTaskWorker_spec_witness:
  "\<exists>w'. FIFOTask_selectTaskWorker quiet_env
       \<lparr>partitions = 3, numTasks = 1, workerCapacity = 1, numWorkers = 2, probMultiTx = 0\<rparr>
       (world_with (empty_tables\<lparr>Worker := worker_rows 3 1 2, Task := task_rows 3 1\<rparr>)) = (Inr True, w')"
proof -
  let ?t = "empty_tables\<lparr>Worker := worker_rows 3 1 2, Task := task_rows 3 1\<rparr>"
  have "registered 3 2 ?t" by (rule worker_rows_registered) simp_all
  then have "distinct (map w_WorkerID (Worker ?t))" by (rule registered_distinct)
  moreover have "some_capacity ?t" by (simp add: some_capacity_def worker_rows_def upto.simps)
  moreover have "Task ?t \<noteq> []" by (simp add: task_rows_def)
  ultimately show ?thesis
    using FIFOTask_selectTaskWorker_spec [of quiet_env "world_with ?t"
        "\<lparr>partitions = 3, numTasks = 1, workerCapacity = 1, numWorkers = 2, probMultiTx = 0\<rparr>"]
    by auto
qed

subsection \<open>Setup and a sequence of schedules\<close>

lemma task_rows_0 [simp]: "task_rows P 0 = []"
  by (simp add: task_rows_def)

lemma task_rows_Suc:
  "0 \<le> i \<Longrightarrow> task_rows P (i + 1) = task_rows P i @
     [\<lparr>t_TaskID = i, t_WorkerID = -1, t_State = PENDING, t_PKey = c_rem i P\<rparr>]"
  using upto_rec2 [of 0 i] by (simp add: task_rows_def)

lemma task_rows_fresh: "Task t = task_rows P i \<Longrightarrow> fresh_task i t"
  by (auto simp: fresh_task_def task_rows_def)

lemma FIFOTask_insertTask_quiet:
  assumes "reliable env" "alone env" "0 < partitions c" "fresh_task i (tables_of w)"
  shows "\<exists>w'. FIFOTask_insertTask env c i w = (Inr True, w') \<and> tables_of w' =
    (tables_of w)\<lparr>Task := Task (tables_of w) @
      [\<lparr>t_TaskID = i, t_WorkerID = -1, t_State = PENDING, t_PKey = c_rem i (partitions c)\<rparr>]\<rparr>"
  using assms by (simp add: FIFOTask_insertTask_def invoke_status_def invoke_InsertTask InsertTask_def
      fresh_task_insert)

lemma FIFOTask_setup_tables:
  assumes "reliable env" "alone env" "0 < partitions c" "0 \<le> workerCapacity c"
    and "0 \<le> numWorkers c" "numWorkers c \<le> 2 ^ 31" "0 \<le> numTasks c"
  shows "\<exists>w'. FIFOTask_setup env c w = (Inr True, w') \<and>
      tables_of w' = (tables_of w)\<lparr>DataLocation := [],
        Worker := worker_rows (partitions c) (workerCapacity c) (numWorkers c),
        Task := task_rows (partitions c) (numTasks c)\<rparr>"
proof -
  let ?w0 = "FIFOTask_truncateTaskTable env (FIFOTask_truncateWorkerTable env w)"
  let ?tab = "\<lambda>i j. (tables_of w)\<lparr>DataLocation := [],
        Worker := worker_rows (partitions c) (workerCapacity c) i, Task := task_rows (partitions c) j\<rparr>"
  have "\<exists>w1. all_succeed (numWorkers c) (\<lambda>i. FIFOTask_insertWorker env c i (workerCapacity c)) ?w0 =
      (Inr True, w1) \<and> tables_of w1 = ?tab (numWorkers c) 0"
  proof (rule all_succeed_rule [where I = "\<lambda>i w1. tables_of w1 = ?tab i 0"])
    fix i and w1 :: world assume "0 \<le> i" "tables_of w1 = ?tab i 0"
    then show "\<exists>w'. FIFOTask_insertWorker env c i (workerCapacity c) w1 = (Inr True, w') \<and>
        tables_of w' = ?tab (i + 1) 0"
      using assms(1-3) by (simp add: FIFOTask_insertWorker_def invoke_status_def invoke_InsertWorker
          InsertWorker_def worker_rows_Suc)
  qed (use assms in \<open>simp_all add: FIFOTask_truncateTaskTable_def FIFOTask_truncateWorkerTable_def
      invoke_void_def invoke_simps TruncateWorkerTable_def TruncateTaskTable_def\<close>)
  then obtain w1 where w1: "all_succeed (numWorkers c)
      (\<lambda>i. FIFOTask_insertWorker env c i (workerCapacity c)) ?w0 = (Inr True, w1)"
    "tables_of w1 = ?tab (numWorkers c) 0" by blast
  have "\<exists>w2. all_succeed (numTasks c) (\<lambda>i. FIFOTask_insertTask env c i) w1 = (Inr True, w2) \<and>
      tables_of w2 = ?tab (numWorkers c) (numTasks c)"
  proof (rule all_succeed_rule [where I = "\<lambda>i w2. tables_of w2 = ?tab (numWorkers c) i"])
    fix i and w2 :: world assume i: "0 \<le> i" "tables_of w2 = ?tab (numWorkers c) i"
    then have "fresh_task i (tables_of w2)" by (intro task_rows_fresh) simp
    from FIFOTask_insertTask_quiet [OF assms(1-3) this] i
    show "\<exists>w'. FIFOTask_insertTask env c i w2 = (Inr True, w') \<and> tables_of w' = ?tab (numWorkers c) (i + 1)"
      by (auto simp: task_rows_Suc)
  qed (use assms w1 in simp_all)
  then show ?thesis using w1(1) by (simp add: FIFOTask_setup_def)
qed

lemma assigns_counts:
  assumes "registered P n t" "assigns t t'"
  shows "registered P n t'" "total_capacity t' = total_capacity t - 1" "Task t' = [] \<longleftrightarrow> Task t = []"
proof -
  obtain p i where slot: "takes_slot p i t t'" using assms(2) by (auto simp: assigns_def)
  note d = registered_distinct [OF assms(1)]
  have lay: "layout t' = layout t" using slot by (simp add: takes_slot_def)
  have d': "distinct (map w_WorkerID (Worker t'))" using d layout_ids [OF lay] by simp
  have pk: "map (\<lambda>w. (w_WorkerID w, w_PKey w)) (Worker t') = map (\<lambda>w. (w_WorkerID w, w_PKey w)) (Worker t)"
    by (rule layout_pkeys [OF lay])
  have "wf_workers P t'"
    unfolding wf_workers_def
  proof (intro conjI ballI)
    fix v assume v: "v \<in> set (Worker t')"
    then have "(w_WorkerID v, w_PKey v) \<in> set (map (\<lambda>w. (w_WorkerID w, w_PKey w)) (Worker t))"
      unfolding pk [symmetric] by simp
    then obtain u where u: "u \<in> set (Worker t)" "w_WorkerID u = w_WorkerID v" "w_PKey u = w_PKey v" by auto
    then show "w_PKey v = c_rem (w_WorkerID v) P" "0 \<le> w_WorkerID v" "w_WorkerID v < 2 ^ 31"
      using assms(1) by (auto simp: registered_def wf_workers_def)
    have "cap_of t' (w_WorkerID v) = Some (w_Capacity v)" by (rule cap_of_worker [OF d' v])
    moreover have "cap_of t (w_WorkerID v) = Some (w_Capacity u)" using cap_of_worker [OF d u(1)] u(2) by simp
    moreover have "0 \<le> w_Capacity u" using assms(1) u(1) by (simp add: registered_def wf_workers_def)
    ultimately show "0 \<le> w_Capacity v" using slot by (auto simp: takes_slot_def split: if_splits)
  qed (rule d')
  then show reg: "registered P n t'" using assms(1) lay registered_layout by blast
  show "total_capacity t' = total_capacity t - 1"
    using assms(1) reg slot takes_slot_total by (auto simp: registered_def)
  show "Task t' = [] \<longleftrightarrow> Task t = []" 
    using arg_cong [where f = length, OF conjunct2 [OF assms(2) [unfolded assigns_def]]] by auto
qed

text \<open>
  C11. After \<open>setup\<close> with at least one task, exactly \<open>numWorkers * workerCapacity\<close> sequential
  schedules succeed, whatever the number of tasks: a single task is assigned again and again
  until the capacity of all workers is used up.
\<close>

theorem FIFOTask_schedules_all_capacity:
  assumes "reliable env" "alone env" "0 < partitions c" "0 \<le> workerCapacity c"
    and "0 < numWorkers c" "numWorkers c \<le> 2 ^ 31" "1 \<le> numTasks c"
  shows "fst (run_times (FIFOTask_schedule env c task) k (snd (FIFOTask_setup env c w))) =
    (if int k \<le> numWorkers c * workerCapacity c then Inr True else Inl AssertFailed)"
proof -
  let ?reg = "registered (partitions c) (numWorkers c)"
  from FIFOTask_setup_tables [OF assms(1-4) _ assms(6)] assms(5,7)
  obtain w' where w': "FIFOTask_setup env c w = (Inr True, w')"
    "tables_of w' = (tables_of w)\<lparr>DataLocation := [],
        Worker := worker_rows (partitions c) (workerCapacity c) (numWorkers c),
        Task := task_rows (partitions c) (numTasks c)\<rparr>" by fastforce
  have start: "?reg (tables_of w')" "total_capacity (tables_of w') = numWorkers c * workerCapacity c"
    "Task (tables_of w') \<noteq> []"
    using assms w'(2) by (auto intro: worker_rows_registered simp: worker_rows_total task_rows_def)
  have "fst (run_times (FIFOTask_schedule env c task) k w') =
    (if int k \<le> numWorkers c * workerCapacity c then Inr True else Inl AssertFailed)"
  proof (rule run_times_count [where bound = k and j = 0 and I = "\<lambda>_ m w.
      ?reg (tables_of w) \<and> total_capacity (tables_of w) = m \<and> Task (tables_of w) \<noteq> []"])
    fix u :: world and m
    assume I: "?reg (tables_of u) \<and> total_capacity (tables_of u) = m \<and> Task (tables_of u) \<noteq> []"
    then have reg: "?reg (tables_of u)" by simp
    have some: "some_capacity (tables_of u) \<longleftrightarrow> 0 < m"
      using I some_capacity_total by (auto simp: registered_def)
    have "0 < max (numWorkers c) (numTasks c)" using assms(5) by simp
    from FIFOTask_selectTaskWorker_cases [OF assms(1,2) registered_distinct [OF reg] assms(3) this]
    obtain r u' where u': "FIFOTask_selectTaskWorker env c u = (r, u')"
      "task_outcome (tables_of u) r (tables_of u')" by blast
    show "\<exists>w'. FIFOTask_schedule env c task u = (Inr True, w') \<and> ?reg (tables_of w') \<and>
        total_capacity (tables_of w') = m - 1 \<and> Task (tables_of w') \<noteq> []" if "0 < m"
      using u' I some that assigns_counts [OF reg, of "tables_of u'"] by (simp add: FIFOTask_schedule_def task_outcome_def)
    show "fst (FIFOTask_schedule env c task u) = Inl AssertFailed" if "m \<le> 0"
      using u' some that by (simp add: FIFOTask_schedule_def task_outcome_def)
  qed (use start assms in simp_all)
  then show ?thesis using w'(1) by simp
qed

theorem FIFOTask_schedules_all_capacity_witness:
  "fst (run_times (FIFOTask_schedule quiet_env
     \<lparr>partitions = 3, numTasks = 1, workerCapacity = 5, numWorkers = 2, probMultiTx = 0\<rparr>
     \<lparr>targetData = 0, execTime = 0\<rparr>) 10 (snd (FIFOTask_setup quiet_env
     \<lparr>partitions = 3, numTasks = 1, workerCapacity = 5, numWorkers = 2, probMultiTx = 0\<rparr>
     (world_with empty_tables)))) = Inr True"
  using FIFOTask_schedules_all_capacity [of quiet_env
      "\<lparr>partitions = 3, numTasks = 1, workerCapacity = 5, numWorkers = 2, probMultiTx = 0\<rparr>"] by simp

end
