(* ===== verification/ScanTask_Scheduler.thy ===== *)
theory ScanTask_Scheduler
  imports Registration
begin

text \<open>
  \<open>PartitionedScanTask\<close>: a read-only load. \<open>setup\<close> inserts tasks that are already assigned round
  robin; an act looks for the worker with the most tasks, in one partition after the other or,
  when the coin or the search says so, over all partitions.
\<close>

section \<open>Definitions\<close>

record PartitionedScanTask =
  partitions :: int
  numTasks :: int
  numWorkers :: int
  probMultiTx :: real

definition ScanTask_truncateTaskTable :: "env \<Rightarrow> world \<Rightarrow> world" where
  "ScanTask_truncateTaskTable env w = invoke_void env ''TruncateTaskTable'' [] w"

definition ScanTask_insertTask :: "env \<Rightarrow> PartitionedScanTask \<Rightarrow> int \<Rightarrow> world \<Rightarrow> bool result \<times> world" where
  "ScanTask_insertTask env c taskID w =
     (if numWorkers c = 0 then (Inl DivByZero, w)
      else let workerID = c_rem taskID (numWorkers c)
           in if partitions c = 0 then (Inl DivByZero, w)
              else case invoke_status env ''InsertTask''
                          [WInt taskID, WInt workerID, WInt 1, WInt (c_rem workerID (partitions c))] w of
                     (ok, w') \<Rightarrow> (Inr ok, w'))"

text \<open>The body of the loop; \<open>return false\<close> in a function that returns a worker is worker 0.\<close>

definition ScanTask_selectMostTaskWorker_at :: "env \<Rightarrow> int \<Rightarrow> world \<Rightarrow> int result option \<times> world" where
  "ScanTask_selectMostTaskWorker_at env pkey w =
     (case invoke_int64 env ''ScanPartitionedTaskWorker'' [WInt pkey] w of
        (None, w') \<Rightarrow> (Some (Inr 0), w')
      | (Some (Inl e), w') \<Rightarrow> (Some (Inl e), w')
      | (Some (Inr v), w') \<Rightarrow>
          (let workerId = narrow32 v
           in if workerId \<ge> 0 then (Some (Inr workerId), w') else (None, w')))"

definition ScanTask_selectMostTaskWorker_all :: "env \<Rightarrow> world \<Rightarrow> int result \<times> world" where
  "ScanTask_selectMostTaskWorker_all env w =
     (case invoke_int64 env ''ScanTaskWorker'' [] w of
        (None, w') \<Rightarrow> (Inr 0, w')
      | (Some (Inl e), w') \<Rightarrow> (Inl e, w')
      | (Some (Inr v), w') \<Rightarrow>
          (let workerId = narrow32 v in (Inr (if workerId \<ge> 0 then workerId else NOWORKER), w')))"

definition ScanTask_selectMostTaskWorker ::
    "env \<Rightarrow> PartitionedScanTask \<Rightarrow> world \<Rightarrow> int result \<times> world" where
  "ScanTask_selectMostTaskWorker env c w =
     (let activePartitions = min (partitions c) (min (numTasks c) (numWorkers c))
      in case rand_mod env activePartitions w of
           (Inl e, w1) \<Rightarrow> (Inl e, w1)
         | (Inr pkey, w1) \<Rightarrow>
             (case coin env w1 of (cn, w2) \<Rightarrow>
              if cn > probMultiTx c
              then (case triangular_probe (ScanTask_selectMostTaskWorker_at env) activePartitions pkey w2 of
                      (Some r, (_, w3)) \<Rightarrow> (r, w3)
                    | (None, (_, w3)) \<Rightarrow> ScanTask_selectMostTaskWorker_all env w3)
              else ScanTask_selectMostTaskWorker_all env w2))"

definition ScanTask_setup :: "env \<Rightarrow> PartitionedScanTask \<Rightarrow> world \<Rightarrow> bool result \<times> world" where
  "ScanTask_setup env c w =
     all_succeed (numTasks c) (\<lambda>i. ScanTask_insertTask env c i) (ScanTask_truncateTaskTable env w)"

definition ScanTask_teardown :: "world \<Rightarrow> bool \<times> world" where
  "ScanTask_teardown w = (True, w)"

definition ScanTask_schedule ::
    "env \<Rightarrow> PartitionedScanTask \<Rightarrow> Task_struct \<Rightarrow> world \<Rightarrow> bool result \<times> world" where
  "ScanTask_schedule env c task w =
     (case ScanTask_selectMostTaskWorker env c w of
        (Inl e, w') \<Rightarrow> (Inl e, w')
      | (Inr status, w') \<Rightarrow> (if status \<ge> 0 then Inr True else Inl AssertFailed, w'))"

text \<open>The number of rows of a worker, and the workers with the most rows.\<close>

definition rows_of :: "int \<Rightarrow> task_row list \<Rightarrow> nat" where
  "rows_of i rs = length (filter (\<lambda>r. t_WorkerID r = i) rs)"

definition is_busiest :: "int \<Rightarrow> task_row list \<Rightarrow> bool" where
  "is_busiest i rs \<longleftrightarrow> 0 \<le> i \<and> 0 < rows_of i rs \<and> (\<forall>j. 0 \<le> j \<longrightarrow> rows_of j rs \<le> rows_of i rs)"

section \<open>Lemmas\<close>

lemma busiest_count:
  assumes "0 \<le> i"
  shows "length (filter (\<lambda>v. v = i) (map t_WorkerID (filter (\<lambda>r. 0 \<le> t_WorkerID r) rs))) = rows_of i rs"
  using assms by (auto simp: rows_of_def filter_map comp_def intro!: arg_cong [where f = length] filter_cong)

lemma busiest_cases:
  obtains "\<forall>r \<in> set rs. t_WorkerID r < 0" "busiest c rs = []"
  | i where "busiest c rs = [i]" "is_busiest i rs" "i \<in> t_WorkerID ` set rs"
proof -
  let ?ids = "map t_WorkerID (filter (\<lambda>r. 0 \<le> t_WorkerID r) rs)"
  let ?cnt = "\<lambda>w. length (filter (\<lambda>v. v = w) ?ids)"
  let ?top = "filter (\<lambda>w. \<forall>v \<in> set (remdups ?ids). ?cnt v \<le> ?cnt w) (remdups ?ids)"
  have def: "busiest c rs = sql_limit c (Suc 0) ?top" by (simp add: busiest_def Let_def)
  show ?thesis
  proof (cases "?ids = []")
    case True
    then have "\<forall>r \<in> set rs. t_WorkerID r < 0" by (auto simp: filter_empty_conv)
    moreover have "busiest c rs = []" unfolding def using True by simp
    ultimately show ?thesis by (rule that(1))
  next
    case False
    then have "remdups ?ids \<noteq> []" by (simp only: remdups_eq_nil_iff simp_thms)
    then have "?top \<noteq> []" by (rule filter_max_nonempty)
    then obtain i where i: "i \<in> set ?top" "sql_limit c (Suc 0) ?top = [i]"
      using sql_limit_one_ex by blast
    have i0: "0 \<le> i" "i \<in> t_WorkerID ` set rs" using i(1) by auto
    have le: "rows_of j rs \<le> rows_of i rs" if "0 \<le> j" for j
    proof (cases "j \<in> set ?ids")
      case True
      then show ?thesis using i(1) busiest_count [OF that, of rs] busiest_count [OF i0(1), of rs] by auto
    next
      case False
      then have "filter (\<lambda>r. t_WorkerID r = j) rs = []" using that by (auto simp: filter_empty_conv)
      then show ?thesis by (simp add: rows_of_def)
    qed
    have "0 < rows_of i rs" using i0(2) by (auto simp: rows_of_def filter_empty_conv)
    then have "is_busiest i rs" using i0(1) le by (simp add: is_busiest_def)
    then show ?thesis using i(2) i0(2) def by (intro that(2)) simp_all
  qed
qed

text \<open>Worker identifiers of the task rows fit an \<open>INTEGER\<close>.\<close>

interpretation scan: table_search
  "ScanTask_selectMostTaskWorker_at env"
  "\<lambda>w. reliable env \<and> alone env \<and> (\<forall>r \<in> set (Task (tables_of w)). t_WorkerID r < 2 ^ 31)"
  "\<lambda>p t. \<exists>r \<in> set (Task t). t_PKey r = p \<and> 0 \<le> t_WorkerID r"
  "\<lambda>p r t w'. tables_of w' = t \<and> (\<exists>i. r = Inr i \<and> is_busiest i (filter (\<lambda>r. t_PKey r = p) (Task t)))"
  for env
proof unfold_locales
  fix w :: world and p
  let ?rs = "filter (\<lambda>r. t_PKey r = p) (Task (tables_of w))"
  assume ok: "reliable env \<and> alone env \<and> (\<forall>r \<in> set (Task (tables_of w)). t_WorkerID r < 2 ^ 31)"
  {
    assume no: "\<not> (\<exists>r \<in> set (Task (tables_of w)). t_PKey r = p \<and> 0 \<le> t_WorkerID r)"
    have "busiest (pick_row env (calls w) 0) ?rs = []"
      by (rule busiest_cases [of ?rs "pick_row env (calls w) 0"]) (use no in \<open>auto simp: is_busiest_def\<close>)
    then show "\<exists>w'. ScanTask_selectMostTaskWorker_at env p w = (None, w') \<and> tables_of w' = tables_of w \<and>
        (reliable env \<and> alone env \<and> (\<forall>r \<in> set (Task (tables_of w')). t_WorkerID r < 2 ^ 31))"
      using ok by (simp add: ScanTask_selectMostTaskWorker_at_def invoke_int64_def
          invoke_ScanPartitionedTaskWorker ScanPartitionedTaskWorker_def narrow32_def)
  next
    assume yes: "\<exists>r \<in> set (Task (tables_of w)). t_PKey r = p \<and> 0 \<le> t_WorkerID r"
    obtain i where i: "busiest (pick_row env (calls w) 0) ?rs = [i]" "is_busiest i ?rs" "i \<in> t_WorkerID ` set ?rs"
      by (rule busiest_cases [of ?rs "pick_row env (calls w) 0"]) (use yes in force)+
    then have "narrow32 i = i" "0 \<le> i" using ok by (auto simp: is_busiest_def intro: narrow32_id)
    then show "\<exists>r w'. ScanTask_selectMostTaskWorker_at env p w = (Some r, w') \<and>
        (tables_of w' = tables_of w \<and> (\<exists>i. r = Inr i \<and> is_busiest i ?rs))"
      using ok i by (simp add: ScanTask_selectMostTaskWorker_at_def invoke_int64_def
          invoke_ScanPartitionedTaskWorker ScanPartitionedTaskWorker_def)
  }
qed simp

lemma ScanTask_all_cases:
  assumes "reliable env" "alone env" "\<forall>r \<in> set (Task t). t_WorkerID r < 2 ^ 31" "tables_of w = t"
  shows "\<exists>i w'. ScanTask_selectMostTaskWorker_all env w = (Inr i, w') \<and> tables_of w' = t \<and>
    (if \<exists>r \<in> set (Task t). 0 \<le> t_WorkerID r then is_busiest i (Task t) else i = NOWORKER)"
proof (rule busiest_cases [of "Task t" "pick_row env (calls w) 0"])
  assume "\<forall>r \<in> set (Task t). t_WorkerID r < 0"
    and "busiest (pick_row env (calls w) 0) (Task t) = []"
  then show ?thesis
    using assms(1,2,4) by (force simp: ScanTask_selectMostTaskWorker_all_def invoke_int64_def
        invoke_ScanTaskWorker ScanTaskWorker_def narrow32_def)
next
  fix i
  assume i: "busiest (pick_row env (calls w) 0) (Task t) = [i]"
    "is_busiest i (Task t)" "i \<in> t_WorkerID ` set (Task t)"
  then have "0 \<le> i" "narrow32 i = i" using assms(3) by (auto simp: is_busiest_def intro: narrow32_id)
  with i assms(1,2,4) show ?thesis
    by (force simp: ScanTask_selectMostTaskWorker_all_def invoke_int64_def invoke_ScanTaskWorker
        ScanTaskWorker_def)
qed

text \<open>
  \<open>selectMostTaskWorker\<close> in a quiet environment, for every coin and every number of active
  partitions: it changes nothing; when no task is assigned it returns \<open>NOWORKER\<close>; otherwise it
  returns a worker that has the most tasks, among the tasks of one partition or of all.
\<close>

theorem ScanTask_selectMostTaskWorker_spec:
  assumes "reliable env" "alone env" "\<forall>r \<in> set (Task (tables_of w)). t_WorkerID r < 2 ^ 31"
    and "0 < min (partitions c) (min (numTasks c) (numWorkers c))"
  shows "\<exists>i w'. ScanTask_selectMostTaskWorker env c w = (Inr i, w') \<and> tables_of w' = tables_of w \<and>
    (if \<exists>r \<in> set (Task (tables_of w)). 0 \<le> t_WorkerID r
     then is_busiest i (Task (tables_of w)) \<or>
       (\<exists>p. is_busiest i (filter (\<lambda>r. t_PKey r = p) (Task (tables_of w))))
     else i = NOWORKER)"
proof -
  let ?a = "min (partitions c) (min (numTasks c) (numWorkers c))"
  obtain p0 where p0: "0 \<le> p0" "p0 < ?a" "rand_mod env ?a w = (Inr p0, w\<lparr>draws := Suc (draws w)\<rparr>)"
    by (rule rand_mod_range [OF assms(4)])
  obtain cn w2 where w2: "coin env (w\<lparr>draws := Suc (draws w)\<rparr>) = (cn, w2)" "tables_of w2 = tables_of w"
    by (simp add: coin_def c_rand_def)
  have ok: "reliable env \<and> alone env \<and> (\<forall>r \<in> set (Task (tables_of w2)). t_WorkerID r < 2 ^ 31)"
    using assms(1-3) w2(2) by simp
  show ?thesis
  proof (cases "cn > probMultiTx c")
    case False
    from ScanTask_all_cases [OF assms(1-3) w2(2)]
    obtain i w' where "ScanTask_selectMostTaskWorker_all env w2 = (Inr i, w')" "tables_of w' = tables_of w"
      "if \<exists>r \<in> set (Task (tables_of w)). 0 \<le> t_WorkerID r then is_busiest i (Task (tables_of w))
       else i = NOWORKER" by blast
    with False p0(3) w2 show ?thesis
      by (intro exI [of _ i] exI [of _ w']) (auto simp: ScanTask_selectMostTaskWorker_def)
  next
    case True
    let ?pr = "triangular_probe (ScanTask_selectMostTaskWorker_at env) ?a p0 w2"
    note search = scan.triangular_search [OF ok assms(4) p0(1,2)]
    obtain x p w3 where pr: "?pr = (x, (p, w3))" by (metis prod.collapse)
    show ?thesis
    proof (cases x)
      case None
      with search pr have t3: "tables_of w3 = tables_of w" using w2(2) by simp
      from ScanTask_all_cases [OF assms(1-3) t3]
      obtain i w' where "ScanTask_selectMostTaskWorker_all env w3 = (Inr i, w')" "tables_of w' = tables_of w"
        "if \<exists>r \<in> set (Task (tables_of w)). 0 \<le> t_WorkerID r then is_busiest i (Task (tables_of w))
         else i = NOWORKER" by blast
      with True p0(3) w2 pr None show ?thesis
        by (intro exI [of _ i] exI [of _ w']) (auto simp: ScanTask_selectMostTaskWorker_def)
    next
      case (Some r)
      with search pr w2(2) obtain i where i: "r = Inr i" "tables_of w3 = tables_of w"
        "is_busiest i (filter (\<lambda>r. t_PKey r = p) (Task (tables_of w)))"
        "\<exists>r \<in> set (Task (tables_of w)). t_PKey r = p \<and> 0 \<le> t_WorkerID r" by auto
      then have "\<exists>r \<in> set (Task (tables_of w)). 0 \<le> t_WorkerID r" by blast
      with True p0(3) w2 pr Some i show ?thesis
        by (intro exI [of _ i] exI [of _ w3]) (auto simp: ScanTask_selectMostTaskWorker_def)
    qed
  qed
qed

theorem ScanTask_selectMostTaskWorker_spec_witness:
  "\<exists>i w'. ScanTask_selectMostTaskWorker quiet_env
       \<lparr>partitions = 3, numTasks = 2, numWorkers = 2, probMultiTx = 0\<rparr>
       (world_with (empty_tables\<lparr>Task :=
         [\<lparr>t_TaskID = 0, t_WorkerID = 4, t_State = 1, t_PKey = 1\<rparr>]\<rparr>)) = (Inr i, w') \<and>
     tables_of w' = empty_tables\<lparr>Task := [\<lparr>t_TaskID = 0, t_WorkerID = 4, t_State = 1, t_PKey = 1\<rparr>]\<rparr>"
proof -
  let ?t = "empty_tables\<lparr>Task := [\<lparr>t_TaskID = 0, t_WorkerID = 4, t_State = 1, t_PKey = 1\<rparr>]\<rparr>"
  show ?thesis
    using ScanTask_selectMostTaskWorker_spec [of quiet_env "world_with ?t"
        "\<lparr>partitions = 3, numTasks = 2, numWorkers = 2, probMultiTx = 0\<rparr>"] by auto
qed

text \<open>
  C12. A database failure is reported as success: when every invocation fails,
  \<open>selectMostTaskWorker\<close> returns the converted \<open>false\<close>, that is worker 0, and \<open>schedule\<close> passes its
  assertion and returns true.
\<close>

theorem ScanTask_schedule_hides_failure:
  assumes "\<forall>k. outage env k" "0 < min (partitions c) (min (numTasks c) (numWorkers c))"
  shows "fst (ScanTask_schedule env c task w) = Inr True"
proof -
  let ?a = "min (partitions c) (min (numTasks c) (numWorkers c))"
  obtain p0 where p0: "rand_mod env ?a w = (Inr p0, w\<lparr>draws := Suc (draws w)\<rparr>)"
    by (rule rand_mod_range [OF assms(2)])
  have fail: "invoke_int64 env name ps u = (None, tick env u)" for name ps u
    using assms(1) by (simp add: invoke_int64_def invoke_def)
  have probe: "\<exists>w'. triangular_probe (ScanTask_selectMostTaskWorker_at env) ?a p u = (Some (Inr 0), (p, w'))" for p u
  proof -
    have "1 < ?a + 1" using assms(2) by simp
    then show ?thesis
      by (simp add: triangular_probe_def for_range_step triangular_step_def
          ScanTask_selectMostTaskWorker_at_def fail)
  qed
  obtain cn w2 where "coin env (w\<lparr>draws := Suc (draws w)\<rparr>) = (cn, w2)" by fastforce
  moreover obtain w3 where
    "triangular_probe (ScanTask_selectMostTaskWorker_at env) ?a p0 w2 = (Some (Inr 0), (p0, w3))"
    using probe by blast
  ultimately show ?thesis
    using p0 by (simp add: ScanTask_schedule_def ScanTask_selectMostTaskWorker_def
        ScanTask_selectMostTaskWorker_all_def fail)
qed

theorem ScanTask_schedule_hides_failure_witness:
  "fst (ScanTask_schedule (quiet_env\<lparr>outage := (\<lambda>_. True)\<rparr>)
     \<lparr>partitions = 3, numTasks = 2, numWorkers = 2, probMultiTx = 0\<rparr> \<lparr>targetData = 0, execTime = 0\<rparr>
     (world_with empty_tables)) = Inr True"
  by (rule ScanTask_schedule_hides_failure) simp_all

end
