(* ===== verification/Poll_Worker.thy ===== *)
theory Poll_Worker
  imports Slots
begin

text \<open>
  \<open>MockPollWorker\<close>: a dispatcher thread polls the database for pending tasks of its worker and
  queues them, executor threads take tasks from the queue, execute them and mark them complete,
  and \<open>endServing\<close> stops the dispatcher, drains the queue and stops the executors. Each thread is
  a program counter and a step function over the shared state; sections under \<open>lock_\<close> are one
  step. \<open>poll_step\<close> interleaves them with each other and with the other clients of the database.
\<close>

section \<open>Definitions\<close>

subsection \<open>State\<close>

record poll_config =
  pkey :: int
  workerId :: int
  numExecutors :: nat
  topk :: int

datatype dispatch_pc =
    DInvoke                 \<comment> \<open>about to invoke \<open>WorkerSelectTask\<close>\<close>
  | DPush "int list"        \<comment> \<open>the rows still to be queued\<close>
  | DCount "int list"       \<comment> \<open>a row was queued, \<open>totalTasks_\<close> is next\<close>
  | DCheck                  \<comment> \<open>the loop condition\<close>
  | DStopped

datatype execute_pc =
    EWait                   \<comment> \<open>waiting for a task or the stop signal\<close>
  | EExec int               \<comment> \<open>executing a task\<close>
  | EUpdate int             \<comment> \<open>about to invoke \<open>WorkerUpdateTask\<close>\<close>
  | ECount                  \<comment> \<open>\<open>totalFinishedTasks_\<close> is next\<close>
  | ELoop                   \<comment> \<open>the loop condition\<close>
  | EStopped

datatype control_pc = Serving | JoinDispatch | Drain | SetStop | JoinExecutors | Ended

record poll =
  db :: tables
  taskQueue :: "int list"
  dispatcher :: dispatch_pc
  executors :: "execute_pc list"
  control :: control_pc
  stopDispatch :: bool
  stop :: bool
  totalTasks :: "64 word"
  totalFinishedTasks :: "64 word"
  aborted :: bool

subsection \<open>Threads\<close>

text \<open>\<open>startServing\<close>: the executor threads and the dispatcher thread are running.\<close>

definition poll_startServing :: "poll_config \<Rightarrow> tables \<Rightarrow> 64 word \<Rightarrow> poll" where
  "poll_startServing c t n0 =
     \<lparr>db = t, taskQueue = [], dispatcher = DInvoke, executors = replicate (numExecutors c) EWait,
      control = Serving, stopDispatch = False, stop = False, totalTasks = n0,
      totalFinishedTasks = n0, aborted = False\<rparr>"

text \<open>
  One step of \<open>dispatch\<close>; \<open>ch\<close> is the order in which the database returns rows and \<open>failed\<close>
  whether the invocation fails. \<open>None\<close> means the thread has ended.
\<close>

definition poll_dispatch :: "poll_config \<Rightarrow> (nat \<Rightarrow> nat \<Rightarrow> nat) \<Rightarrow> bool \<Rightarrow> poll \<Rightarrow> poll option" where
  "poll_dispatch c ch failed s =
     (case dispatcher s of
        DInvoke \<Rightarrow>
          (if failed then Some (s\<lparr>dispatcher := DCheck\<rparr>)
           else case WorkerSelectTask ch (pkey c) (workerId c) (topk c) (db s) of
                  (ids, t) \<Rightarrow> Some (s\<lparr>db := t, dispatcher := DPush ids\<rparr>))
      | DPush (taskId # rest) \<Rightarrow>
          Some (s\<lparr>taskQueue := taskQueue s @ [taskId], dispatcher := DCount rest\<rparr>)
      | DCount rest \<Rightarrow> Some (s\<lparr>totalTasks := totalTasks s + 1, dispatcher := DPush rest\<rparr>)
      | DPush [] \<Rightarrow> Some (s\<lparr>dispatcher := DCheck\<rparr>)
      | DCheck \<Rightarrow> Some (s\<lparr>dispatcher := (if stopDispatch s then DStopped else DInvoke)\<rparr>)
      | DStopped \<Rightarrow> None)"

text \<open>
  One step of \<open>execute\<close> in executor \<open>i\<close>. A failed \<open>WorkerUpdateTask\<close> ends the process in \<open>abort()\<close>.
  \<open>None\<close> means the thread is blocked in \<open>cv_.wait\<close> or has ended.
\<close>

definition poll_execute :: "poll_config \<Rightarrow> bool \<Rightarrow> nat \<Rightarrow> poll \<Rightarrow> poll option" where
  "poll_execute c failed i s =
     (case executors s ! i of
        EWait \<Rightarrow>
          (if stop s then Some (s\<lparr>executors := (executors s)[i := ELoop]\<rparr>)
           else case taskQueue s of
                  [] \<Rightarrow> None
                | taskId # rest \<Rightarrow>
                    Some (s\<lparr>taskQueue := rest, executors := (executors s)[i := EExec taskId]\<rparr>))
      | EExec taskId \<Rightarrow> Some (s\<lparr>executors := (executors s)[i := EUpdate taskId]\<rparr>)
      | EUpdate taskId \<Rightarrow>
          (case (if failed then None
                 else WorkerUpdateTask (pkey c) (workerId c) taskId COMPLETE (db s)) of
             None \<Rightarrow> Some (s\<lparr>aborted := True\<rparr>)
           | Some (r, t) \<Rightarrow> Some (s\<lparr>db := t, executors := (executors s)[i := ECount]\<rparr>))
      | ECount \<Rightarrow>
          Some (s\<lparr>totalFinishedTasks := totalFinishedTasks s + 1, executors := (executors s)[i := ELoop]\<rparr>)
      | ELoop \<Rightarrow> Some (s\<lparr>executors := (executors s)[i := (if stop s then EStopped else EWait)]\<rparr>)
      | EStopped \<Rightarrow> None)"

text \<open>One step of \<open>endServing\<close>; \<open>None\<close> means it waits (or has returned).\<close>

definition poll_endServing :: "poll \<Rightarrow> poll option" where
  "poll_endServing s =
     (case control s of
        Serving \<Rightarrow> Some (s\<lparr>stopDispatch := True, control := JoinDispatch\<rparr>)
      | JoinDispatch \<Rightarrow> (if dispatcher s = DStopped then Some (s\<lparr>control := Drain\<rparr>) else None)
      | Drain \<Rightarrow> (if taskQueue s = [] then Some (s\<lparr>control := SetStop\<rparr>) else None)
      | SetStop \<Rightarrow> Some (s\<lparr>stop := True, control := JoinExecutors\<rparr>)
      | JoinExecutors \<Rightarrow>
          (if \<forall>e \<in> set (executors s). e = EStopped then Some (s\<lparr>control := Ended\<rparr>) else None)
      | Ended \<Rightarrow> None)"

subsection \<open>What the worker accounts for\<close>

definition mine :: "poll_config \<Rightarrow> int \<Rightarrow> task_row \<Rightarrow> bool" where
  "mine c st r \<longleftrightarrow> t_PKey r = pkey c \<and> t_WorkerID r = workerId c \<and> t_State r = st"

definition running_ids :: "poll_config \<Rightarrow> tables \<Rightarrow> int multiset" where
  "running_ids c t = image_mset t_TaskID (filter_mset (mine c RUNNING) (mset (Task t)))"

definition unique_tasks :: "poll_config \<Rightarrow> tables \<Rightarrow> bool" where
  "unique_tasks c t \<longleftrightarrow> distinct (map t_TaskID (filter (\<lambda>r. t_PKey r = pkey c) (Task t)))"

fun undispatched :: "dispatch_pc \<Rightarrow> int list" where
  "undispatched (DPush ids) = ids"
| "undispatched (DCount ids) = ids"
| "undispatched _ = []"

fun uncounted :: "dispatch_pc \<Rightarrow> nat" where
  "uncounted (DCount ids) = 1"
| "uncounted _ = 0"

fun executing :: "execute_pc \<Rightarrow> int list" where
  "executing (EExec i) = [i]"
| "executing (EUpdate i) = [i]"
| "executing _ = []"

fun unfinished :: "execute_pc \<Rightarrow> nat" where
  "unfinished (EExec i) = 1"
| "unfinished (EUpdate i) = 1"
| "unfinished ECount = 1"
| "unfinished _ = 0"

text \<open>What other clients may do: they leave this worker's running tasks and unique keys alone.\<close>

definition poll_rely :: "poll_config \<Rightarrow> tables \<Rightarrow> tables \<Rightarrow> bool" where
  "poll_rely c t t' \<longleftrightarrow> running_ids c t' = running_ids c t \<and> (unique_tasks c t \<longrightarrow> unique_tasks c t')"

subsection \<open>Interleaving\<close>

inductive poll_step :: "poll_config \<Rightarrow> poll \<Rightarrow> poll \<Rightarrow> bool" for c where
  dispatch: "\<not> aborted s \<Longrightarrow> poll_dispatch c ch failed s = Some s' \<Longrightarrow> poll_step c s s'"
| execute: "\<not> aborted s \<Longrightarrow> i < length (executors s) \<Longrightarrow> poll_execute c failed i s = Some s' \<Longrightarrow>
    poll_step c s s'"
| endServing: "\<not> aborted s \<Longrightarrow> poll_endServing s = Some s' \<Longrightarrow> poll_step c s s'"
| other: "\<not> aborted s \<Longrightarrow> poll_rely c (db s) t \<Longrightarrow> poll_step c s (s\<lparr>db := t\<rparr>)"

inductive poll_reach :: "poll_config \<Rightarrow> tables \<Rightarrow> 64 word \<Rightarrow> poll \<Rightarrow> bool" for c t n0 where
  start: "poll_reach c t n0 (poll_startServing c t n0)"
| step: "poll_reach c t n0 s \<Longrightarrow> poll_step c s s' \<Longrightarrow> poll_reach c t n0 s'"

text \<open>Executable interleavings: a schedule is a list of thread steps.\<close>

datatype poll_action = Dispatch bool | Execute nat bool | EndServing

fun poll_run :: "poll_config \<Rightarrow> poll_action list \<Rightarrow> poll \<Rightarrow> poll option" where
  "poll_run c [] s = Some s"
| "poll_run c (a # as) s =
     (if aborted s then None
      else case (case a of
                   Dispatch failed \<Rightarrow> poll_dispatch c (\<lambda>_ _. 0) failed s
                 | Execute i failed \<Rightarrow> if i < length (executors s) then poll_execute c failed i s else None
                 | EndServing \<Rightarrow> poll_endServing s) of
             None \<Rightarrow> None
           | Some s' \<Rightarrow> poll_run c as s')"

text \<open>
  The invariant: every running task of the worker is in exactly one place (still to be queued,
  queued, or in an executor); the counters differ by the tasks in flight; and the phases of
  \<open>endServing\<close> mean what they say.
\<close>

definition poll_tasks :: "poll_config \<Rightarrow> poll \<Rightarrow> bool" where
  "poll_tasks c s \<longleftrightarrow> unique_tasks c (db s) \<and>
     running_ids c (db s) = mset (undispatched (dispatcher s)) + mset (taskQueue s) +
       mset (concat (map executing (executors s)))"

definition poll_counters :: "poll \<Rightarrow> bool" where
  "poll_counters s \<longleftrightarrow>
     totalTasks s + of_nat (uncounted (dispatcher s)) =
     totalFinishedTasks s + of_nat (length (taskQueue s) + sum_list (map unfinished (executors s)))"

definition poll_phases :: "poll \<Rightarrow> bool" where
  "poll_phases s \<longleftrightarrow>
     (control s \<in> {Drain, SetStop, JoinExecutors, Ended} \<longrightarrow> dispatcher s = DStopped) \<and>
     (control s \<in> {SetStop, JoinExecutors, Ended} \<longrightarrow> taskQueue s = []) \<and>
     (stop s \<longleftrightarrow> control s \<in> {JoinExecutors, Ended}) \<and>
     (stopDispatch s \<longleftrightarrow> control s \<noteq> Serving) \<and>
     (EStopped \<in> set (executors s) \<longrightarrow> stop s) \<and>
     (control s = Ended \<longrightarrow> (\<forall>e \<in> set (executors s). e = EStopped))"

subsection \<open>An example\<close>

definition demo_config :: poll_config where
  "demo_config = \<lparr>pkey = 0, workerId = 2, numExecutors = 1, topk = 5\<rparr>"

definition demo_tables :: tables where
  "demo_tables = empty_tables\<lparr>
     Worker := [\<lparr>w_WorkerID = 2, w_Capacity = 3, w_DataShards = 0, w_PKey = 0, w_Url = []\<rparr>],
     Task := [\<lparr>t_TaskID = 7, t_WorkerID = 2, t_State = 1, t_PKey = 0\<rparr>]\<rparr>"

text \<open>A complete run: the task is fetched, executed and completed, then the worker shuts down.\<close>

definition demo_run :: "poll_action list" where
  "demo_run = [Dispatch False, Dispatch False, Execute 0 False, Dispatch False, Execute 0 False,
     Execute 0 False, Execute 0 False, EndServing, Dispatch False, Dispatch False, EndServing,
     EndServing, EndServing, Execute 0 False, EndServing]"

section \<open>Lemmas\<close>

subsection \<open>The two transactions\<close>

lemma fold_state_update:
  "fold (\<lambda>i. sql_update (\<lambda>r. t_PKey r = p \<and> t_TaskID r = i \<and> t_WorkerID r = w) (\<lambda>r. r\<lparr>t_State := st\<rparr>)) ids rs =
   sql_update (\<lambda>r. t_PKey r = p \<and> t_TaskID r \<in> set ids \<and> t_WorkerID r = w) (\<lambda>r. r\<lparr>t_State := st\<rparr>) rs"
  by (induction ids arbitrary: rs) (auto simp: sql_update_def)

text \<open>Setting the state of some rows moves them between the states.\<close>

lemma update_state_mset:
  assumes "\<And>r. r \<in> set rs \<Longrightarrow> sel r \<Longrightarrow> K r \<and> t_State r = a" and "a \<noteq> b"
    and K: "\<And>r st. K (r\<lparr>t_State := st\<rparr>) = K r"
  shows "filter_mset (\<lambda>r. K r \<and> t_State r = b) (mset (sql_update sel (\<lambda>r. r\<lparr>t_State := b\<rparr>) rs)) =
      filter_mset (\<lambda>r. K r \<and> t_State r = b) (mset rs) +
      image_mset (\<lambda>r. r\<lparr>t_State := b\<rparr>) (filter_mset sel (mset rs))"
    and "filter_mset (\<lambda>r. K r \<and> t_State r = a) (mset (sql_update sel (\<lambda>r. r\<lparr>t_State := b\<rparr>) rs)) =
      filter_mset (\<lambda>r. K r \<and> t_State r = a) (mset rs) - filter_mset sel (mset rs)"
proof -
  have fst: "filter_mset (\<lambda>r. K r \<and> t_State r = b) (mset (sql_update sel (\<lambda>r. r\<lparr>t_State := b\<rparr>) rs)) =
      filter_mset (\<lambda>r. K r \<and> t_State r = b) (mset rs) +
      image_mset (\<lambda>r. r\<lparr>t_State := b\<rparr>) (filter_mset sel (mset rs))
    \<and> filter_mset (\<lambda>r. K r \<and> t_State r = a) (mset rs) =
      filter_mset (\<lambda>r. K r \<and> t_State r = a) (mset (sql_update sel (\<lambda>r. r\<lparr>t_State := b\<rparr>) rs)) +
      filter_mset sel (mset rs)"
    using assms(1)
  proof (induction rs)
    case (Cons x xs)
    then have IH: "filter_mset (\<lambda>r. K r \<and> t_State r = b) (mset (sql_update sel (\<lambda>r. r\<lparr>t_State := b\<rparr>) xs)) =
      filter_mset (\<lambda>r. K r \<and> t_State r = b) (mset xs) +
      image_mset (\<lambda>r. r\<lparr>t_State := b\<rparr>) (filter_mset sel (mset xs))"
     "filter_mset (\<lambda>r. K r \<and> t_State r = a) (mset xs) =
      filter_mset (\<lambda>r. K r \<and> t_State r = a) (mset (sql_update sel (\<lambda>r. r\<lparr>t_State := b\<rparr>) xs)) +
      filter_mset sel (mset xs)" by auto
    have x: "sel x \<Longrightarrow> K x \<and> t_State x = a" using Cons.prems by simp
    show ?case
      using IH x assms(2) by (cases "sel x") (simp_all add: sql_update_def K)
  qed (simp add: sql_update_def)
  then show "filter_mset (\<lambda>r. K r \<and> t_State r = b) (mset (sql_update sel (\<lambda>r. r\<lparr>t_State := b\<rparr>) rs)) =
      filter_mset (\<lambda>r. K r \<and> t_State r = b) (mset rs) +
      image_mset (\<lambda>r. r\<lparr>t_State := b\<rparr>) (filter_mset sel (mset rs))"
    and "filter_mset (\<lambda>r. K r \<and> t_State r = a) (mset (sql_update sel (\<lambda>r. r\<lparr>t_State := b\<rparr>) rs)) =
      filter_mset (\<lambda>r. K r \<and> t_State r = a) (mset rs) - filter_mset sel (mset rs)" by simp_all
qed

lemma unique_tasks_update:
  "unique_tasks c (t\<lparr>Task := sql_update sel (\<lambda>r. r\<lparr>t_State := st\<rparr>) (Task t)\<rparr>) = unique_tasks c t"
proof -
  have "map t_TaskID (filter (\<lambda>r. t_PKey r = k) (sql_update sel (\<lambda>r. r\<lparr>t_State := st\<rparr>) rs)) =
      map t_TaskID (filter (\<lambda>r. t_PKey r = k) rs)" for k rs
    by (induction rs) (simp_all add: sql_update_def)
  then show ?thesis by (simp add: unique_tasks_def)
qed

lemma unique_tasks_eq:
  assumes "unique_tasks c t" "q \<in> set (Task t)" "r \<in> set (Task t)" "t_PKey q = pkey c" "t_PKey r = pkey c"
    and "t_TaskID q = t_TaskID r"
  shows "q = r"
  using distinct_map_key_eq [of t_TaskID "filter (\<lambda>r. t_PKey r = pkey c) (Task t)" q r] assms
  by (simp add: unique_tasks_def)

lemma mine_eq: "mine c st = (\<lambda>r. (t_PKey r = pkey c \<and> t_WorkerID r = workerId c) \<and> t_State r = st)"
  by (simp add: mine_def fun_eq_iff)

text \<open>The tasks that a dispatcher receives are exactly those that become running.\<close>

lemma WorkerSelectTask_running:
  assumes uniq: "unique_tasks c t"
    and run: "WorkerSelectTask ch (pkey c) (workerId c) k t = (ids, t')"
  shows "running_ids c t' = running_ids c t + mset ids" and "unique_tasks c t'" and "Worker t' = Worker t"
proof -
  let ?pend = "filter (\<lambda>r. t_PKey r = pkey c \<and> t_WorkerID r = workerId c \<and> t_State r = 1) (Task t)"
  let ?rows = "sql_limit (ch 0) (nat k) ?pend"
  let ?sel = "\<lambda>r. t_PKey r = pkey c \<and> t_TaskID r \<in> set ids \<and> t_WorkerID r = workerId c"
  have ids: "ids = map t_TaskID ?rows"
    using run by (auto simp: WorkerSelectTask_def Let_def split: if_splits)
  have t': "t' = t\<lparr>Task := sql_update ?sel (\<lambda>r. r\<lparr>t_State := 2\<rparr>) (Task t)\<rparr>"
  proof (cases "ids = []")
    case True
    then have "sql_update ?sel (\<lambda>r. r\<lparr>t_State := 2\<rparr>) (Task t) = Task t" by (simp add: sql_update_def)
    moreover have "t' = t" using run True by (auto simp: WorkerSelectTask_def Let_def split: if_splits)
    ultimately show ?thesis by simp
  next
    case False
    then show ?thesis using run by (auto simp: WorkerSelectTask_def Let_def fold_state_update split: if_splits)
  qed
  have rows: "set ?rows \<subseteq> set ?pend" by (rule set_sql_limit)
  have pend: "r \<in> set ?rows" if r: "r \<in> set (Task t)" "?sel r" for r
  proof -
    from r(2) ids obtain q where q: "q \<in> set ?rows" "t_TaskID q = t_TaskID r" by auto
    with rows have "q \<in> set (Task t)" "t_PKey q = pkey c" by auto
    with q r uniq have "q = r" by (intro unique_tasks_eq) simp_all
    with q(1) show ?thesis by simp
  qed
  have uniq': "distinct (filter (\<lambda>r. t_PKey r = pkey c) (Task t))"
    using uniq by (simp add: unique_tasks_def distinct_map)
  have "distinct (filter (\<lambda>r. t_WorkerID r = workerId c \<and> t_State r = 1)
      (filter (\<lambda>r. t_PKey r = pkey c) (Task t)))" using uniq' by (rule distinct_filter)
  then have "distinct ?pend" by simp
  then have dist: "distinct ?rows" by (rule distinct_sql_limit)
  have "distinct (filter (\<lambda>r. t_TaskID r \<in> set ids \<and> t_WorkerID r = workerId c)
      (filter (\<lambda>r. t_PKey r = pkey c) (Task t)))" using uniq' by (rule distinct_filter)
  then have "distinct (filter ?sel (Task t))" by simp
  moreover have "set (filter ?sel (Task t)) = set ?rows"
    using rows pend by (auto simp: ids)
  ultimately have "mset (filter ?sel (Task t)) = mset ?rows"
    using set_eq_iff_mset_eq_distinct [OF _ dist] by blast
  then have selms: "filter_mset ?sel (mset (Task t)) = mset ?rows" by (simp only: mset_filter)
  have sel: "?sel r \<Longrightarrow> r \<in> set (Task t) \<Longrightarrow>
      (t_PKey r = pkey c \<and> t_WorkerID r = workerId c) \<and> t_State r = 1" for r
    using pend rows by auto
  have "filter_mset (mine c 2) (mset (sql_update ?sel (\<lambda>r. r\<lparr>t_State := 2\<rparr>) (Task t))) =
      filter_mset (mine c 2) (mset (Task t)) + image_mset (\<lambda>r. r\<lparr>t_State := 2\<rparr>) (filter_mset ?sel (mset (Task t)))"
    unfolding mine_eq by (rule update_state_mset(1) [where a = 1], rule sel) simp_all
  then have "filter_mset (mine c 2) (mset (Task t')) = filter_mset (mine c 2) (mset (Task t)) +
      image_mset (\<lambda>r. r\<lparr>t_State := 2\<rparr>) (mset ?rows)"
    unfolding selms t' by simp
  then show "running_ids c t' = running_ids c t + mset ids"
    by (simp add: running_ids_def ids image_mset.compositionality comp_def)
  show "unique_tasks c t'" using uniq by (simp only: t' unique_tasks_update)
  show "Worker t' = Worker t" by (simp add: t')
qed

text \<open>Completing a running task removes exactly that task from the running ones.\<close>

lemma WorkerUpdateTask_running:
  assumes uniq: "unique_tasks c t" and i: "i \<in># running_ids c t"
    and run: "WorkerUpdateTask (pkey c) (workerId c) i COMPLETE t = Some (r, t')"
  shows "running_ids c t' = running_ids c t - {#i#}" and "unique_tasks c t'"
    and "\<exists>q \<in> set (Task t). mine c RUNNING q \<and> t_TaskID q = i \<and>
      filter (\<lambda>r. t_PKey r = pkey c \<and> t_TaskID r = i \<and> t_WorkerID r = workerId c) (Task t) = [q]"
proof -
  let ?sel = "\<lambda>r. t_PKey r = pkey c \<and> t_TaskID r = i \<and> t_WorkerID r = workerId c"
  have t': "Task t' = sql_update ?sel (\<lambda>r. r\<lparr>t_State := 3\<rparr>) (Task t)"
    using run by (auto simp: WorkerUpdateTask_def Let_def split: if_splits)
  from i obtain q where q: "q \<in> set (Task t)" "mine c RUNNING q" "t_TaskID q = i"
    by (auto simp: running_ids_def)
  have only: "r = q" if "r \<in> set (Task t)" "?sel r" for r
    using that q uniq by (intro unique_tasks_eq) (simp_all add: mine_def)
  have "distinct (filter (\<lambda>r. t_TaskID r = i \<and> t_WorkerID r = workerId c)
      (filter (\<lambda>r. t_PKey r = pkey c) (Task t)))"
    using uniq by (rule_tac distinct_filter) (simp add: unique_tasks_def distinct_map)
  then have "distinct (filter ?sel (Task t))" by simp
  moreover have "set (filter ?sel (Task t)) = {q}" using q by (auto simp: mine_def intro: only)
  ultimately have one: "filter ?sel (Task t) = [q]"
    by (rule distinct_singleton)
  then have selms: "filter_mset ?sel (mset (Task t)) = {#q#}" unfolding mset_filter [symmetric] by simp
  have "filter_mset (mine c 2) (mset (sql_update ?sel (\<lambda>r. r\<lparr>t_State := 3\<rparr>) (Task t))) =
      filter_mset (mine c 2) (mset (Task t)) - filter_mset ?sel (mset (Task t))"
    unfolding mine_eq
  proof (rule update_state_mset(2) [where a = 2])
    fix r assume "r \<in> set (Task t)" "?sel r"
    then show "(t_PKey r = pkey c \<and> t_WorkerID r = workerId c) \<and> t_State r = 2"
      using only [of r] q(2) by (simp add: mine_def)
  qed simp_all
  then have "filter_mset (mine c 2) (mset (Task t')) = filter_mset (mine c 2) (mset (Task t)) - {#q#}"
    unfolding selms t' .
  then show "running_ids c t' = running_ids c t - {#i#}"
    using q by (simp add: running_ids_def image_mset_Diff)
  show "unique_tasks c t'"
    using uniq unique_tasks_update [where c = c and t = t and sel = ?sel and st = 3] by (simp add: unique_tasks_def t')
  show "\<exists>q \<in> set (Task t). mine c RUNNING q \<and> t_TaskID q = i \<and> filter ?sel (Task t) = [q]"
    using q one by blast
qed

subsection \<open>Executors\<close>

lemma concat_update:
  "i < length es \<Longrightarrow> mset (concat (map f (es[i := e]))) + mset (f (es ! i)) = mset (concat (map f es)) + mset (f e)"
proof (induction es arbitrary: i)
  case (Cons x xs)
  show ?case
  proof (cases i)
    case 0
    then show ?thesis by (simp add: ac_simps)
  next
    case (Suc j)
    then show ?thesis using Cons.IH [of j] Cons.prems by (simp add: add.assoc)
  qed
qed simp

lemma sum_update:
  fixes g :: "'a \<Rightarrow> nat"
  shows "i < length es \<Longrightarrow> sum_list (map g (es[i := e])) + g (es ! i) = sum_list (map g es) + g e"
proof (induction es arbitrary: i)
  case (Cons x xs)
  then show ?case by (cases i) (simp_all add: ac_simps)
qed simp

lemma executing_running:
  "poll_tasks c s \<Longrightarrow> i < length (executors s) \<Longrightarrow> k \<in> set (executing (executors s ! i)) \<Longrightarrow>
     k \<in># running_ids c (db s)"
  by (auto simp: poll_tasks_def)

subsection \<open>Invariants\<close>

lemma poll_dispatch_inv:
  assumes tasks: "poll_tasks c s" and cnt: "poll_counters s" and ph: "poll_phases s"
    and run: "poll_dispatch c ch failed s = Some s'"
  shows "poll_tasks c s' \<and> poll_counters s' \<and> poll_phases s'"
proof (intro conjI)
  show "poll_phases s'"
    using ph run by (auto simp: poll_dispatch_def poll_phases_def split: dispatch_pc.splits list.splits
        prod.splits if_splits)
  show "poll_counters s'"
    using cnt run by (auto simp: poll_dispatch_def poll_counters_def ac_simps
        split: dispatch_pc.splits list.splits prod.splits if_splits)
  show "poll_tasks c s'"
  proof (cases "dispatcher s = DInvoke \<and> \<not> failed")
    case True
    obtain ids t where sel: "WorkerSelectTask ch (pkey c) (workerId c) (topk c) (db s) = (ids, t)" by fastforce
    have uniq: "unique_tasks c (db s)" using tasks by (simp add: poll_tasks_def)
    have "s' = s\<lparr>db := t, dispatcher := DPush ids\<rparr>" using run True sel by (simp add: poll_dispatch_def)
    with WorkerSelectTask_running [OF uniq sel] True tasks show ?thesis
      by (simp add: poll_tasks_def ac_simps)
  next
    case False
    with tasks run show ?thesis
      by (auto simp: poll_dispatch_def poll_tasks_def split: dispatch_pc.splits list.splits if_splits)
  qed
qed

text \<open>How one executor's step changes what the executors account for.\<close>

lemma executors_update:
  assumes "i < length es" "es ! i = old"
  shows "mset (concat (map executing (es[i := e]))) + mset (executing old) =
      mset (concat (map executing es)) + mset (executing e)"
    and "sum_list (map unfinished (es[i := e])) + unfinished old = sum_list (map unfinished es) + unfinished e"
  using concat_update [OF assms(1), of executing e] sum_update [OF assms(1), of unfinished e] assms(2)
  by simp_all

lemma executor_stopped_update:
  "EStopped \<in> set (es[i := e]) \<Longrightarrow> EStopped \<in> set es \<or> e = EStopped"
  by (metis insertE set_update_subset_insert subsetD)

lemma poll_phases_exec:
  assumes "poll_phases s" "control s \<noteq> Ended" "executors s' = (executors s)[i := e]"
    and "e = EStopped \<longrightarrow> stop s" "control s' = control s" "dispatcher s' = dispatcher s" "stop s' = stop s"
    and "stopDispatch s' = stopDispatch s" "taskQueue s = [] \<longrightarrow> taskQueue s' = []"
  shows "poll_phases s'"
proof -
  have "EStopped \<in> set (executors s') \<longrightarrow> stop s"
    using assms(1,3,4) executor_stopped_update [of "executors s" i e] by (auto simp: poll_phases_def)
  with assms(1,2,5-9) show ?thesis by (simp add: poll_phases_def)
qed

lemma poll_execute_inv:
  assumes tasks: "poll_tasks c s" and cnt: "poll_counters s" and ph: "poll_phases s"
    and i: "i < length (executors s)" and run: "poll_execute c failed i s = Some s'"
  shows "poll_tasks c s' \<and> poll_counters s' \<and> poll_phases s'"
proof -
  note upd = executors_update [OF i refl]
  have ended: "control s \<noteq> Ended"
  proof
    assume "control s = Ended"
    with ph i have "executors s ! i = EStopped" by (auto simp: poll_phases_def)
    with run show False by (simp add: poll_execute_def)
  qed
  note phases = poll_phases_exec [OF ph ended, where s' = s' and i = i]
  show ?thesis
  proof (cases "executors s ! i")
    case EWait
    show ?thesis
    proof (cases "stop s")
      case True
      with EWait run have s': "s' = s\<lparr>executors := (executors s)[i := ELoop]\<rparr>" by (simp add: poll_execute_def)
      with EWait tasks cnt phases [of ELoop] upd [of ELoop] show ?thesis by (simp add: poll_tasks_def poll_counters_def)
    next
      case False
      with EWait run obtain k rest where q: "taskQueue s = k # rest"
        "s' = s\<lparr>taskQueue := rest, executors := (executors s)[i := EExec k]\<rparr>"
        by (auto simp: poll_execute_def split: list.splits)
      with EWait tasks cnt phases [of "EExec k"] upd [of "EExec k"] show ?thesis by (simp add: poll_tasks_def poll_counters_def)
    qed
  next
    case (EExec k)
    with run have "s' = s\<lparr>executors := (executors s)[i := EUpdate k]\<rparr>" by (simp add: poll_execute_def)
    with EExec tasks cnt phases [of "EUpdate k"] upd [of "EUpdate k"] show ?thesis by (simp add: poll_tasks_def poll_counters_def)
  next
    case (EUpdate k)
    show ?thesis
    proof (cases "if failed then None else WorkerUpdateTask (pkey c) (workerId c) k COMPLETE (db s)")
      case None
      with EUpdate run have "s' = s\<lparr>aborted := True\<rparr>" by (simp add: poll_execute_def)
      with tasks cnt ph show ?thesis by (auto simp: poll_tasks_def poll_counters_def poll_phases_def)
    next
      case (Some x)
      then obtain r t where t: "WorkerUpdateTask (pkey c) (workerId c) k COMPLETE (db s) = Some (r, t)" "x = (r, t)"
        by (cases x) (auto split: if_splits)
      have s': "s' = s\<lparr>db := t, executors := (executors s)[i := ECount]\<rparr>"
        using EUpdate run Some t by (simp add: poll_execute_def)
      have uniq: "unique_tasks c (db s)" using tasks by (simp add: poll_tasks_def)
      have k: "k \<in># running_ids c (db s)" using executing_running [OF tasks i] EUpdate by simp
      note fin = WorkerUpdateTask_running [OF uniq k t(1)]
      have "mset (concat (map executing (executors s))) =
          add_mset k (mset (concat (map executing ((executors s)[i := ECount]))))"
        using upd(1) [of ECount] EUpdate by simp
      then have "poll_tasks c s'" using tasks fin by (simp add: s' poll_tasks_def)
      moreover have "poll_counters s'" using upd(2) [of ECount] EUpdate cnt by (simp add: s' poll_counters_def)
      moreover have "poll_phases s'" by (rule phases [of ECount]) (simp_all add: s')
      ultimately show ?thesis by simp
    qed
  next
    case ECount
    with run have s': "s' = s\<lparr>totalFinishedTasks := totalFinishedTasks s + 1, executors := (executors s)[i := ELoop]\<rparr>"
      by (simp add: poll_execute_def)
    have "sum_list (map unfinished (executors s)) = Suc (sum_list (map unfinished ((executors s)[i := ELoop])))"
      using upd(2) [of ELoop] ECount by simp
    then have "poll_counters s'" using cnt by (simp add: s' poll_counters_def)
    with s' ECount tasks phases [of ELoop] upd(1) [of ELoop] show ?thesis by (simp add: poll_tasks_def)
  next
    case ELoop
    with run have "s' = s\<lparr>executors := (executors s)[i := (if stop s then EStopped else EWait)]\<rparr>"
      by (simp add: poll_execute_def)
    with ELoop tasks cnt phases [of EStopped] phases [of EWait] upd [of EStopped] upd [of EWait] show ?thesis
      by (cases "stop s") (simp_all add: poll_tasks_def poll_counters_def)
  next
    case EStopped
    with run show ?thesis by (simp add: poll_execute_def)
  qed
qed

lemma poll_endServing_inv:
  assumes "poll_tasks c s" "poll_counters s" "poll_phases s" "poll_endServing s = Some s'"
  shows "poll_tasks c s' \<and> poll_counters s' \<and> poll_phases s'"
  using assms by (auto simp: poll_endServing_def poll_tasks_def poll_counters_def poll_phases_def
      split: control_pc.splits if_splits)

lemma poll_start_inv:
  assumes "unique_tasks c t" "running_ids c t = {#}"
  shows "poll_tasks c (poll_startServing c t n0) \<and> poll_counters (poll_startServing c t n0) \<and>
    poll_phases (poll_startServing c t n0)"
proof -
  have none: "concat (map executing (replicate n EWait)) = []"
    "sum_list (map unfinished (replicate n EWait)) = 0" for n by (induction n) simp_all
  show ?thesis
    using assms by (auto simp: poll_startServing_def poll_tasks_def poll_counters_def poll_phases_def none
        simp del: map_replicate)
qed

lemma poll_step_inv:
  assumes "poll_step c s s'" "poll_tasks c s" "poll_counters s" "poll_phases s"
  shows "poll_tasks c s' \<and> poll_counters s' \<and> poll_phases s'"
  using assms
proof (cases rule: poll_step.cases)
  case (other t)
  with assms(2-4) show ?thesis by (auto simp: poll_rely_def poll_tasks_def poll_counters_def poll_phases_def)
qed (use assms in \<open>auto dest: poll_dispatch_inv poll_execute_inv poll_endServing_inv\<close>)

lemma poll_reach_inv:
  assumes "poll_reach c t n0 s" "unique_tasks c t" "running_ids c t = {#}"
  shows "poll_tasks c s \<and> poll_counters s \<and> poll_phases s"
  using assms(1)
proof (induction rule: poll_reach.induct)
  case start
  show ?case by (rule poll_start_inv [OF assms(2,3)])
next
  case (step s s')
  then show ?case using poll_step_inv by blast
qed

lemma executors_length:
  "poll_step c s s' \<Longrightarrow> length (executors s') = length (executors s)"
  by (erule poll_step.cases) (auto simp: poll_dispatch_def poll_execute_def poll_endServing_def
      split: dispatch_pc.splits execute_pc.splits control_pc.splits list.splits option.splits
        prod.splits if_splits)

lemma poll_run_reach:
  "poll_reach c t n0 s \<Longrightarrow> poll_run c as s = Some s' \<Longrightarrow> poll_reach c t n0 s'"
proof (induction as arbitrary: s)
  case (Cons a as)
  from Cons.prems(2) obtain s1 where na: "\<not> aborted s" and s1: "poll_run c as s1 = Some s'"
    and a: "(case a of Dispatch failed \<Rightarrow> poll_dispatch c (\<lambda>_ _. 0) failed s
      | Execute i failed \<Rightarrow> if i < length (executors s) then poll_execute c failed i s else None
      | EndServing \<Rightarrow> poll_endServing s) = Some s1"
    by (auto split: if_splits option.splits)
  have "poll_step c s s1"
    using a na by (cases a) (auto intro: poll_step.intros split: if_splits)
  with Cons.prems(1) have "poll_reach c t n0 s1" by (rule poll_reach.step)
  then show ?case using s1 by (rule Cons.IH)
qed simp

subsection \<open>Properties\<close>

text \<open>
  C1. No task is lost and none is executed twice: in every reachable state of the worker, under any
  interleaving of its threads and of other clients, the tasks that the database shows as running on
  this worker are exactly those still to be queued, in the queue, or in an executor, each once.
\<close>

theorem poll_worker_accounts_for_tasks:
  assumes "poll_reach c t n0 s" "unique_tasks c t" "running_ids c t = {#}"
  shows "running_ids c (db s) = mset (undispatched (dispatcher s)) + mset (taskQueue s) +
       mset (concat (map executing (executors s)))"
  using poll_reach_inv [OF assms] by (simp add: poll_tasks_def)

lemma demo_facts: "unique_tasks demo_config demo_tables" "running_ids demo_config demo_tables = {#}"
  "0 < numExecutors demo_config"
  by (simp_all add: demo_config_def demo_tables_def unique_tasks_def running_ids_def mine_def)

theorem poll_worker_accounts_for_tasks_witness:
  "\<exists>s. poll_run demo_config (take 2 demo_run) (poll_startServing demo_config demo_tables 0) = Some s \<and>
    taskQueue s = [7] \<and> running_ids demo_config (db s) = {#7#}"
proof -
  obtain s where s: "poll_run demo_config (take 2 demo_run) (poll_startServing demo_config demo_tables 0) = Some s"
    "taskQueue s = [7]" "dispatcher s = DCount []" "executors s = [EWait]"
    by (simp add: demo_run_def demo_config_def demo_tables_def poll_startServing_def poll_dispatch_def
        WorkerSelectTask_def sql_limit.simps sql_update_def numeral_2_eq_2 Let_def eval_nat_numeral)
  have "poll_reach demo_config demo_tables 0 s"
    by (rule poll_run_reach [OF poll_reach.start s(1)])
  from poll_worker_accounts_for_tasks [OF this demo_facts(1,2)] s show ?thesis by auto
qed

text \<open>
  C2. A graceful shutdown completes every task it has accepted: when \<open>endServing\<close> has returned, no
  task of this worker is left running, the queue is empty, and as many tasks have been finished
  as were counted as dispatched.
\<close>

theorem poll_endServing_completes_tasks:
  assumes "poll_reach c t n0 s" "unique_tasks c t" "running_ids c t = {#}" "control s = Ended"
  shows "running_ids c (db s) = {#} \<and> taskQueue s = [] \<and> totalFinishedTasks s = totalTasks s"
proof -
  have inv: "poll_tasks c s" "poll_counters s" "poll_phases s"
    using poll_reach_inv [OF assms(1-3)] by simp_all
  then have ph: "dispatcher s = DStopped" "taskQueue s = []" "\<forall>e \<in> set (executors s). e = EStopped"
    using assms(4) by (auto simp: poll_phases_def)
  have none: "concat (map executing (executors s)) = []" "sum_list (map unfinished (executors s)) = 0"
    using ph(3) by (fastforce, auto simp: sum_list_eq_0_iff)
  show ?thesis using inv(1,2) ph(1,2) unfolding poll_tasks_def poll_counters_def none by simp
qed


text \<open>The demonstration run ends, with the task complete and its slot given back.\<close>

lemma demo_run_ends:
  "\<exists>s. poll_run demo_config demo_run (poll_startServing demo_config demo_tables 0) = Some s \<and>
     control s = Ended \<and> totalTasks s = 1 \<and> cap_of (db s) 2 = Some 4"
  by (simp add: demo_run_def demo_config_def demo_tables_def poll_startServing_def poll_dispatch_def
      poll_execute_def poll_endServing_def WorkerSelectTask_def WorkerUpdateTask_def fits_integer_def
      sql_limit.simps sql_update_def Let_def eval_nat_numeral cap_of_def)

theorem poll_endServing_completes_tasks_witness:
  "\<exists>s. poll_run demo_config demo_run (poll_startServing demo_config demo_tables 0) = Some s \<and>
     running_ids demo_config (db s) = {#} \<and> totalFinishedTasks s = totalTasks s \<and> totalTasks s = 1"
proof -
  obtain s where s: "poll_run demo_config demo_run (poll_startServing demo_config demo_tables 0) = Some s"
    "control s = Ended" "totalTasks s = 1" using demo_run_ends by blast
  have "poll_reach demo_config demo_tables 0 s"
    by (rule poll_run_reach [OF poll_reach.start s(1)])
  from poll_endServing_completes_tasks [OF this demo_facts(1,2) s(2)] s show ?thesis by blast
qed


subsection \<open>Slots\<close>

lemma length_filter_update_same:
  assumes "\<And>r. r \<in> set rs \<Longrightarrow> sel r \<Longrightarrow> p (f r) = p r"
  shows "length (filter p (sql_update sel f rs)) = length (filter p rs)"
  using assms by (induction rs) (auto simp: sql_update_def)

lemma length_filter_update_drop:
  assumes "\<And>r. r \<in> set rs \<Longrightarrow> sel r \<Longrightarrow> p r \<and> \<not> p (f r)"
  shows "length (filter p (sql_update sel f rs)) + length (filter sel rs) = length (filter p rs)"
  using assms by (induction rs) (auto simp: sql_update_def)

lemma WorkerSelectTask_slots:
  assumes "unique_tasks c t" "WorkerSelectTask ch (pkey c) (workerId c) k t = (ids, t')"
  shows "slots j t' = slots j t"
proof -
  let ?pend = "filter (\<lambda>r. t_PKey r = pkey c \<and> t_WorkerID r = workerId c \<and> t_State r = 1) (Task t)"
  let ?sel = "\<lambda>r. t_PKey r = pkey c \<and> t_TaskID r \<in> set ids \<and> t_WorkerID r = workerId c"
  have W: "Worker t' = Worker t" by (rule WorkerSelectTask_running(3) [OF assms])
  have "Task t' = sql_update ?sel (\<lambda>r. r\<lparr>t_State := 2\<rparr>) (Task t) \<or> t' = t"
    using assms(2) by (auto simp: WorkerSelectTask_def Let_def fold_state_update split: if_splits)
  moreover have "t_State r = 1" if "r \<in> set (Task t)" "?sel r" for r
  proof -
    from assms(2) have "ids = map t_TaskID (sql_limit (ch 0) (nat k) ?pend)"
      by (auto simp: WorkerSelectTask_def Let_def split: if_splits)
    with that(2) obtain q where q: "q \<in> set (sql_limit (ch 0) (nat k) ?pend)" "t_TaskID q = t_TaskID r" by auto
    with set_sql_limit [of "ch 0" "nat k" ?pend] have "q \<in> set (Task t)" "t_PKey q = pkey c" "t_State q = 1" by auto
    with q that assms(1) have "q = r" by (intro unique_tasks_eq) simp_all
    with \<open>t_State q = 1\<close> show ?thesis by simp
  qed
  ultimately have "outstanding j t' = outstanding j t"
    unfolding outstanding_def by (auto simp: length_filter_update_same)
  then show ?thesis using cap_of_cong [OF W] by (simp add: slots_def)
qed

lemma WorkerUpdateTask_slots:
  assumes "wf_workers P t" "unique_tasks c t" "i \<in># running_ids c t"
    and "v \<in> set (Worker t)" "w_PKey v = pkey c" "w_WorkerID v = workerId c"
    and run: "WorkerUpdateTask (pkey c) (workerId c) i COMPLETE t = Some (r, t')"
  shows "slots j t' = slots j t" and "wf_workers P t'"
proof -
  let ?sel = "\<lambda>r. t_PKey r = pkey c \<and> t_TaskID r = i \<and> t_WorkerID r = workerId c"
  note d = wf_workers_distinct [OF assms(1)]
  have t': "Task t' = sql_update ?sel (\<lambda>r. r\<lparr>t_State := 3\<rparr>) (Task t)"
    "Worker t' = sql_update (\<lambda>w. w_PKey w = pkey c \<and> w_WorkerID w = workerId c)
       (\<lambda>w. w\<lparr>w_Capacity := w_Capacity w + 1\<rparr>) (Worker t)"
    using run by (auto simp: WorkerUpdateTask_def Let_def split: if_splits)
  have "\<forall>x \<in> set (Worker t). w_WorkerID x = workerId c \<longrightarrow> x = v"
    using d assms(4,6) by (auto dest: distinct_map_key_eq)
  then have W: "Worker t' = Worker (set_capacity (w_Capacity v + 1) (w_PKey v) (w_WorkerID v) t)"
    using assms(5,6) by (auto simp: t'(2) set_capacity_def sql_update_def)
  have cap: "cap_of t' = (cap_of t)(workerId c \<mapsto> w_Capacity v + 1)"
    using cap_of_cong [OF W] cap_of_set_capacity [OF d assms(4)] assms(6) by simp
  obtain q where q: "mine c RUNNING q" "filter ?sel (Task t) = [q]"
    using WorkerUpdateTask_running(3) [OF assms(2,3) run] by blast
  have st: "t_State r = 2" if "r \<in> set (Task t)" "?sel r" for r
  proof -
    have "r \<in> set (filter ?sel (Task t))" using that by simp
    then show ?thesis using q by (simp add: mine_def)
  qed
  have "outstanding j t = outstanding j t' + (if j = workerId c then 1 else 0)"
  proof (cases "j = workerId c")
    case True
    have "length (filter (\<lambda>r. t_WorkerID r = workerId c \<and> t_State r \<noteq> 3)
        (sql_update ?sel (\<lambda>r. r\<lparr>t_State := 3\<rparr>) (Task t))) + length (filter ?sel (Task t)) =
      length (filter (\<lambda>r. t_WorkerID r = workerId c \<and> t_State r \<noteq> 3) (Task t))"
      by (rule length_filter_update_drop) (use st in auto)
    then show ?thesis using True q(2) by (simp add: outstanding_def t'(1))
  next
    case False
    then show ?thesis by (auto simp: outstanding_def t'(1) intro!: length_filter_update_same [symmetric])
  qed
  then show "slots j t' = slots j t"
    using cap cap_of_worker [OF d assms(4)] assms(6) by (simp add: slots_def)
  show "wf_workers P t'"
    unfolding wf_workers_cong [OF W]
    using assms(1) by (rule wf_workers_set_capacity) (use assms(1,4) in \<open>auto simp: wf_workers_def\<close>)
qed

text \<open>
  C14. The worker conserves slots: a step of any of its threads, from any reachable state in which
  its own row is in the well-formed \<open>Worker\<close> table, keeps that table well formed and keeps for
  every worker the free capacity plus the number of its tasks that are not complete; completing a
  task gives back exactly one slot.
\<close>

theorem poll_worker_conserves_slots:
  assumes "poll_reach c t n0 s" "unique_tasks c t" "running_ids c t = {#}"
    and "wf_workers P (db s)" "v \<in> set (Worker (db s))" "w_PKey v = pkey c" "w_WorkerID v = workerId c"
    and "(\<exists>ch failed. poll_dispatch c ch failed s = Some s') \<or>
      (\<exists>i < length (executors s). \<exists>failed. poll_execute c failed i s = Some s') \<or> poll_endServing s = Some s'"
  shows "wf_workers P (db s') \<and> slots j (db s') = slots j (db s)"
proof -
  have inv: "poll_tasks c s" using poll_reach_inv [OF assms(1-3)] by simp
  then have uniq: "unique_tasks c (db s)" by (simp add: poll_tasks_def)
  from assms(8) show ?thesis
  proof (elim disjE exE conjE)
    fix ch failed assume run: "poll_dispatch c ch failed s = Some s'"
    show ?thesis
    proof (cases "db s' = db s")
      case True
      then show ?thesis using assms(4) by simp
    next
      case False
      with run obtain ids where ids: "WorkerSelectTask ch (pkey c) (workerId c) (topk c) (db s) = (ids, db s')"
        by (auto simp: poll_dispatch_def split: dispatch_pc.splits list.splits prod.splits if_splits)
      have "wf_workers P (db s')"
        using wf_workers_cong [OF WorkerSelectTask_running(3) [OF uniq ids], of P] assms(4) by simp
      then show ?thesis using WorkerSelectTask_slots [OF uniq ids] by simp
    qed
  next
    fix i failed assume i: "i < length (executors s)" "poll_execute c failed i s = Some s'"
    show ?thesis
    proof (cases "db s' = db s")
      case True
      then show ?thesis using assms(4) by simp
    next
      case False
      with i obtain k r where k: "executors s ! i = EUpdate k"
        "WorkerUpdateTask (pkey c) (workerId c) k COMPLETE (db s) = Some (r, db s')"
        by (auto simp: poll_execute_def split: execute_pc.splits list.splits option.splits if_splits)
      have "k \<in># running_ids c (db s)" using executing_running [OF inv i(1)] k(1) by simp
      from WorkerUpdateTask_slots [OF assms(4) uniq this assms(5-7) k(2)] show ?thesis by simp
    qed
  next
    assume "poll_endServing s = Some s'"
    then have "db s' = db s" by (auto simp: poll_endServing_def split: control_pc.splits if_splits)
    then show ?thesis using assms(4) by simp
  qed
qed

theorem poll_worker_conserves_slots_witness:
  "\<exists>s'. poll_dispatch demo_config (\<lambda>_ _. 0) False (poll_startServing demo_config demo_tables 0) = Some s' \<and>
     db s' \<noteq> demo_tables \<and> slots 2 (db s') = slots 2 demo_tables"
proof -
  let ?s = "poll_startServing demo_config demo_tables 0"
  let ?v = "\<lparr>w_WorkerID = 2, w_Capacity = 3, w_DataShards = 0, w_PKey = 0, w_Url = []\<rparr>"
  obtain s' where s': "poll_dispatch demo_config (\<lambda>_ _. 0) False ?s = Some s'" "db s' \<noteq> demo_tables"
    by (simp add: demo_config_def demo_tables_def poll_startServing_def poll_dispatch_def
        WorkerSelectTask_def sql_limit.simps sql_update_def Let_def eval_nat_numeral empty_tables_def)
  have "wf_workers 1 (db ?s)" "?v \<in> set (Worker (db ?s))" "w_PKey ?v = pkey demo_config"
    "w_WorkerID ?v = workerId demo_config"
    by (simp_all add: poll_startServing_def demo_tables_def demo_config_def wf_workers_def c_rem_nonneg)
  from poll_worker_conserves_slots [OF poll_reach.start demo_facts(1,2) this, of s' 2] s'
  show ?thesis by (auto simp: poll_startServing_def)
qed

end
