(* ===== verification/Text_Util.thy ===== *)
theory Text_Util
  imports Prelude
begin

text \<open>
  The conversions between numbers and text of the C++ standard library that the program uses:
  \<open>std::to_string\<close>, \<open>std::stoi\<close> and \<open>atoi\<close>, over strings as lists of characters.
\<close>

section \<open>Definitions\<close>

definition digit_char :: "nat \<Rightarrow> char" where
  "digit_char d = char_of (48 + d)"

definition digit_value :: "char \<Rightarrow> nat option" where
  "digit_value c = (let k = of_char c in if 48 \<le> k \<and> k \<le> 57 then Some (k - 48) else None)"

fun decimal :: "nat \<Rightarrow> string" where
  "decimal n = (if n < 10 then [digit_char n] else decimal (n div 10) @ [digit_char (n mod 10)])"

definition to_string :: "int \<Rightarrow> string" where
  "to_string x = (if x < 0 then CHR ''-'' # decimal (nat (- x)) else decimal (nat x))"

definition is_space :: "char \<Rightarrow> bool" where
  "is_space c \<longleftrightarrow> c = CHR '' '' \<or> (9 \<le> (of_char c :: nat) \<and> (of_char c :: nat) \<le> 13)"

text \<open>The longest prefix of digits: its value, \<open>None\<close> when it is empty.\<close>

fun digits_acc :: "nat \<Rightarrow> string \<Rightarrow> nat" where
  "digits_acc acc [] = acc"
| "digits_acc acc (c # cs) =
     (case digit_value c of None \<Rightarrow> acc | Some d \<Rightarrow> digits_acc (acc * 10 + d) cs)"

definition digits :: "string \<Rightarrow> nat option" where
  "digits s = (case s of [] \<Rightarrow> None
     | c # cs \<Rightarrow> (case digit_value c of None \<Rightarrow> None | Some d \<Rightarrow> Some (digits_acc d cs)))"

text \<open>\<open>strtol\<close> without the end pointer: white space, a sign, digits.\<close>

definition strtol :: "string \<Rightarrow> int option" where
  "strtol s =
     (case dropWhile is_space s of
        [] \<Rightarrow> None
      | c # cs \<Rightarrow>
          (if c = CHR ''-'' then map_option (\<lambda>n. - int n) (digits cs)
           else if c = CHR ''+'' then map_option int (digits cs)
           else map_option int (digits (c # cs))))"

text \<open>\<open>std::stoi\<close> throws \<open>invalid_argument\<close> without digits and \<open>out_of_range\<close> outside of \<open>int\<close>.\<close>

definition stoi :: "string \<Rightarrow> int result" where
  "stoi s =
     (case strtol s of
        None \<Rightarrow> Inl InvalidArgument
      | Some v \<Rightarrow> (if - (2 ^ 31) \<le> v \<and> v < 2 ^ 31 then Inr v else Inl OutOfRange))"

text \<open>\<open>atoi\<close> returns 0 without digits (outside of \<open>int\<close> its behaviour is not defined).\<close>

definition atoi :: "string \<Rightarrow> int" where
  "atoi s = (case strtol s of None \<Rightarrow> 0 | Some v \<Rightarrow> narrow32 v)"

section \<open>Lemmas\<close>

declare decimal.simps [simp del]

lemma digit_value_char [simp]: "d < 10 \<Longrightarrow> digit_value (digit_char d) = Some d"
  by (simp add: digit_value_def digit_char_def Let_def of_char_of)

lemma digits_acc_append:
  "\<forall>c \<in> set ds. digit_value c \<noteq> None \<Longrightarrow> digits_acc acc (ds @ cs) = digits_acc (digits_acc acc ds) cs"
  by (induction ds arbitrary: acc) (auto split: option.split)

lemma decimal_digits: "c \<in> set (decimal n) \<Longrightarrow> digit_value c \<noteq> None"
proof (induction n rule: decimal.induct)
  case (1 n)
  show ?case
  proof (cases "n < 10")
    case True
    with 1(2) show ?thesis by (simp add: decimal.simps [of n])
  next
    case False
    with 1(2) have "c \<in> set (decimal (n div 10)) \<or> c = digit_char (n mod 10)" by (auto simp: decimal.simps [of n])
    then show ?thesis using 1(1) [OF False] by auto
  qed
qed

lemma digits_acc_decimal: "digits_acc 0 (decimal n) = n"
proof (induction n rule: decimal.induct)
  case (1 n)
  show ?case
  proof (cases "n < 10")
    case True
    then show ?thesis by (simp add: decimal.simps [of n])
  next
    case False
    have "digits_acc 0 (decimal n) = digits_acc (digits_acc 0 (decimal (n div 10))) [digit_char (n mod 10)]"
      using False decimal_digits digits_acc_append by (simp add: decimal.simps [of n])
    also have "\<dots> = n" using 1 [OF False] by simp
    finally show ?thesis .
  qed
qed

lemma decimal_not_Nil [simp]: "decimal n \<noteq> []"
  by (simp add: decimal.simps [of n])

lemma digits_decimal [simp]: "digits (decimal n) = Some n"
proof (cases "decimal n")
  case (Cons c cs)
  then obtain d where d: "digit_value c = Some d" using decimal_digits [of c n] by auto
  have "digits_acc 0 (decimal n) = digits_acc d cs" using Cons d by simp
  then show ?thesis using Cons d digits_acc_decimal [of n] by (simp add: digits_def)
qed simp

lemma digit_not_special:
  assumes "digit_value c \<noteq> None"
  shows "\<not> is_space c" "c \<noteq> CHR ''-''" "c \<noteq> CHR ''+''"
  using assms by (auto simp: digit_value_def is_space_def Let_def split: if_splits)

lemma strtol_to_string: "strtol (to_string x) = Some x"
proof (cases "x < 0")
  case True
  have "\<not> is_space (CHR ''-'')" by (simp add: is_space_def)
  with True show ?thesis by (simp add: strtol_def to_string_def)
next
  case False
  obtain c cs where c: "decimal (nat x) = c # cs" by (cases "decimal (nat x)") auto
  then have "digit_value c \<noteq> None" using decimal_digits [of c "nat x"] by simp
  note digit_not_special [OF this]
  moreover have "digits (c # cs) = Some (nat x)" using c digits_decimal [of "nat x"] by simp
  ultimately show ?thesis using False c by (simp add: strtol_def to_string_def)
qed

text \<open>Reading back what \<open>to_string\<close> wrote.\<close>

lemma stoi_to_string: "- (2 ^ 31) \<le> x \<Longrightarrow> x < 2 ^ 31 \<Longrightarrow> stoi (to_string x) = Inr x"
  by (simp add: stoi_def strtol_to_string)

lemma to_string_inj: "to_string x = to_string y \<Longrightarrow> x = y"
  by (metis option.inject strtol_to_string)

end
