(* ===== verification/Spark_Scheduler.thy ===== *)
theory Spark_Scheduler
  imports Registration Text_Util
begin

text \<open>
  \<open>SparkScheduler\<close> and the workers it creates (\<open>MockGRPCWorker\<close>), each operation on its own;
  the threads are in \<open>Spark_Threads\<close>. \<open>setup\<close> registers one worker for each data shard; \<open>selectWorker\<close>
  asks for the partitions that hold a shard and polls them at random, without a bound, until
  a worker with that shard has a slot. The unbounded loop has fuel: \<open>None\<close> means that it has not
  returned within so many iterations.
\<close>

section \<open>Definitions\<close>

record SparkScheduler =
  workerCapacity :: int
  workerPartitions :: int
  numWorkers :: int

record MockGRPCWorker =
  g_workerId :: int
  g_workerPartitions :: int
  g_capacity :: int
  g_workerData :: "int list"
  g_workerAddr :: string
  g_online :: bool

text \<open>\<open>startServing\<close>: one row for each data shard, then the server is started.\<close>

fun GRPC_insertShards ::
    "env \<Rightarrow> MockGRPCWorker \<Rightarrow> int list \<Rightarrow> world \<Rightarrow> bool result \<times> world" where
  "GRPC_insertShards env g [] w = (Inr True, w)"
| "GRPC_insertShards env g (data # rest) w =
     (if g_workerPartitions g = 0 then (Inl DivByZero, w)
      else case invoke_status env ''InsertSparkWorker''
                  [WInt (g_workerId g), WInt (g_capacity g), WInt data,
                   WInt (c_rem (g_workerId g) (g_workerPartitions g)), WStr []] w of
             (True, w') \<Rightarrow> GRPC_insertShards env g rest w'
           | (False, w') \<Rightarrow> (Inr False, w'))"

definition GRPC_startServing :: "env \<Rightarrow> MockGRPCWorker \<Rightarrow> world \<Rightarrow> bool result \<times> MockGRPCWorker \<times> world" where
  "GRPC_startServing env g w =
     (case GRPC_insertShards env g (g_workerData g) w of
        (Inr True, w') \<Rightarrow>
          (let port = to_string (8000 + g_workerId g)
           in (Inr True, g\<lparr>g_workerAddr := ''localhost:'' @ port, g_online := True\<rparr>, w'))
      | (r, w') \<Rightarrow> (r, g, w'))"

definition GRPC_endServing :: "MockGRPCWorker \<Rightarrow> bool \<times> MockGRPCWorker" where
  "GRPC_endServing g = (True, g\<lparr>g_online := False\<rparr>)"

text \<open>The reply of the worker's service, after sleeping for the execution time.\<close>

definition GRPC_SubmitTask :: "SubmitTaskRequest \<Rightarrow> bool" where
  "GRPC_SubmitTask request = True"

definition Spark_truncateWorkerTable :: "env \<Rightarrow> world \<Rightarrow> world" where
  "Spark_truncateWorkerTable env w = invoke_void env ''TruncateWorkerTable'' [] w"

text \<open>The state is the static vector \<open>workers_\<close> and the world.\<close>

definition Spark_insertWorker ::
    "env \<Rightarrow> SparkScheduler \<Rightarrow> int \<Rightarrow> int \<Rightarrow> int list \<Rightarrow> MockGRPCWorker list \<times> world \<Rightarrow>
     bool result \<times> (MockGRPCWorker list \<times> world)" where
  "Spark_insertWorker env c workerID capacity workerData s =
     (case s of (workers, w) \<Rightarrow>
      let worker = \<lparr>g_workerId = workerID, g_workerPartitions = workerPartitions c, g_capacity = capacity,
                    g_workerData = workerData, g_workerAddr = [], g_online = False\<rparr>
      in case GRPC_startServing env worker w of
           (r, worker', w') \<Rightarrow> (r, (workers @ [worker'], w')))"

definition Spark_setup ::
    "env \<Rightarrow> SparkScheduler \<Rightarrow> MockGRPCWorker list \<times> world \<Rightarrow> bool result \<times> (MockGRPCWorker list \<times> world)" where
  "Spark_setup env c s =
     (case s of (workers, w) \<Rightarrow>
      case for_range 0 (numWorkers c)
             (\<lambda>i s. case Spark_insertWorker env c i (workerCapacity c) [i] s of
                      (Inr True, s') \<Rightarrow> (None, s')
                    | (r, s') \<Rightarrow> (Some r, s'))
             (workers, Spark_truncateWorkerTable env w) of
        (Some r, s') \<Rightarrow> (r, s')
      | (None, s') \<Rightarrow> (Inr True, s'))"

definition Spark_teardown ::
    "env \<Rightarrow> MockGRPCWorker list \<times> world \<Rightarrow> bool \<times> (MockGRPCWorker list \<times> world)" where
  "Spark_teardown env s =
     (case s of (workers, w) \<Rightarrow>
        (True, (map (\<lambda>g. snd (GRPC_endServing g)) workers, Spark_truncateWorkerTable env w)))"

text \<open>The polling loop of \<open>selectWorker\<close>.\<close>

fun Spark_poll :: "nat \<Rightarrow> env \<Rightarrow> int list \<Rightarrow> int \<Rightarrow> world \<Rightarrow> (int result \<times> world) option" where
  "Spark_poll 0 env targetPartitions target w = None"
| "Spark_poll (Suc fuel) env targetPartitions target w =
     (case rand_mod env (int (length targetPartitions)) w of
        (Inl e, w1) \<Rightarrow> Some (Inl e, w1)
      | (Inr ix, w1) \<Rightarrow>
          (case invoke_int64 env ''SelectSparkWorker''
                  [WInt (targetPartitions ! nat ix), WInt target] w1 of
             (None, w2) \<Rightarrow> Some (Inr (-1), w2)
           | (Some (Inl e), w2) \<Rightarrow> Some (Inl e, w2)
           | (Some (Inr v), w2) \<Rightarrow>
               (let selectedWorker = narrow32 v
                in if selectedWorker \<noteq> -1 then Some (Inr selectedWorker, w2)
                   else Spark_poll fuel env targetPartitions target w2)))"

text \<open>The first column of every row.\<close>

fun int_column :: "wire list list \<Rightarrow> int list result" where
  "int_column [] = Inr []"
| "int_column (row # rows) =
     (case row of
        WInt v # _ \<Rightarrow> (case int_column rows of Inl e \<Rightarrow> Inl e | Inr vs \<Rightarrow> Inr (narrow32 v # vs))
      | _ \<Rightarrow> Inl InvalidColumn)"

definition Spark_selectWorker :: "nat \<Rightarrow> env \<Rightarrow> int \<Rightarrow> world \<Rightarrow> (int result \<times> world) option" where
  "Spark_selectWorker fuel env target w =
     (case invoke env ''SelectDataShardPartition'' [WInt target] w of
        (Failure, w1) \<Rightarrow> Some (Inl OutOfRange, w1)
      | (Results rows, w1) \<Rightarrow>
          (case int_column rows of
             Inl e \<Rightarrow> Some (Inl e, w1)
           | Inr targetPartitions \<Rightarrow> Spark_poll fuel env targetPartitions target w1))"

text \<open>\<open>addrToChannel\<close>: the channel of an address is created once; \<open>fresh\<close> creates a channel.\<close>

definition Spark_addrToChannel ::
    "(string \<Rightarrow> 'ch) \<Rightarrow> string \<Rightarrow> (string \<rightharpoonup> 'ch) \<Rightarrow> 'ch \<times> (string \<rightharpoonup> 'ch)" where
  "Spark_addrToChannel fresh workerAddr channelMap =
     (case channelMap workerAddr of
        Some channel \<Rightarrow> (channel, channelMap)
      | None \<Rightarrow> (let channel = fresh workerAddr in (channel, channelMap(workerAddr \<mapsto> channel))))"

text \<open>An asynchronous call in flight.\<close>

record 'ch AsyncClientCall =
  call_workerID :: int
  call_taskID :: int
  call_channel :: 'ch
  call_request :: SubmitTaskRequest

definition Spark_assignTaskToWorker ::
    "(string \<Rightarrow> 'ch) \<Rightarrow> int \<Rightarrow> int \<Rightarrow> Task_struct \<Rightarrow> (string \<rightharpoonup> 'ch) \<times> 'ch AsyncClientCall list \<Rightarrow>
     bool \<times> ((string \<rightharpoonup> 'ch) \<times> 'ch AsyncClientCall list)" where
  "Spark_assignTaskToWorker fresh taskId workerId task s =
     (case s of (channelMap, cq) \<Rightarrow>
      let workerAddr = ''localhost:'' @ to_string (8000 + workerId)
      in case Spark_addrToChannel fresh workerAddr channelMap of
           (channel, channelMap') \<Rightarrow>
             (True, (channelMap', cq @ [\<lparr>call_workerID = workerId, call_taskID = taskId,
                call_channel = channel,
                call_request = \<lparr>targetdata = targetData task, exectime = execTime task\<rparr>\<rparr>])))"

text \<open>\<open>finishTask\<close>: the client is notified first, then the database is updated.\<close>

definition Spark_finishTask ::
    "env \<Rightarrow> SparkScheduler \<Rightarrow> int \<Rightarrow> int \<Rightarrow> int set \<times> world \<Rightarrow> bool result \<times> (int set \<times> world)" where
  "Spark_finishTask env c taskId workerId s =
     (case s of (taskCompletionSet, w) \<Rightarrow>
      let done' = insert taskId taskCompletionSet
      in if workerPartitions c = 0 then (Inl DivByZero, (done', w))
         else case invoke_status env ''FinishWorkerTask''
                     [WInt workerId, WInt taskId, WInt (c_rem workerId (workerPartitions c))] w of
                (ok, w') \<Rightarrow> (Inr ok, (done', w')))"

text \<open>The rows after a successful \<open>setup\<close>.\<close>

definition spark_rows :: "int \<Rightarrow> int \<Rightarrow> int \<Rightarrow> worker list" where
  "spark_rows P cap n =
     map (\<lambda>i. \<lparr>w_WorkerID = i, w_Capacity = cap, w_DataShards = i, w_PKey = c_rem i P, w_Url = []\<rparr>) [0..n - 1]"

definition shard_rows :: "int \<Rightarrow> int \<Rightarrow> (int \<times> int) list" where
  "shard_rows P n = map (\<lambda>i. (i, c_rem i P)) [0..n - 1]"

text \<open>The workers of a partition that hold a shard and have a slot.\<close>

definition shard_workers :: "int \<Rightarrow> int \<Rightarrow> tables \<Rightarrow> worker list" where
  "shard_workers p d t = filter (\<lambda>w. w_DataShards w = d) (free_workers p t)"

section \<open>Lemmas\<close>

subsection \<open>Setup\<close>

lemma spark_rows_Suc:
  "0 \<le> i \<Longrightarrow> spark_rows P cap (i + 1) = spark_rows P cap i @
     [\<lparr>w_WorkerID = i, w_Capacity = cap, w_DataShards = i, w_PKey = c_rem i P, w_Url = []\<rparr>]"
  "0 \<le> i \<Longrightarrow> shard_rows P (i + 1) = shard_rows P i @ [(i, c_rem i P)]"
  using upto_rec2 [of 0 i] by (simp_all add: spark_rows_def shard_rows_def)

lemma spark_rows_0 [simp]: "spark_rows P cap 0 = []" "shard_rows P 0 = []"
  by (simp_all add: spark_rows_def shard_rows_def)

lemma spark_rows_registered:
  "0 \<le> cap \<Longrightarrow> n \<le> 2 ^ 31 \<Longrightarrow> Worker t = spark_rows P cap n \<Longrightarrow> registered P n t"
  by (auto simp: registered_def wf_workers_def spark_rows_def comp_def)

lemma shard_rows_partition:
  assumes "0 \<le> d" "d < n" "DataLocation t = shard_rows P n"
  shows "SelectDataShardPartition ch d t = [c_rem d P]"
proof -
  have "filter (\<lambda>i. i = d) [0..n - 1] = [d]"
  proof (rule distinct_singleton)
    show "set (filter (\<lambda>i. i = d) [0..n - 1]) = {d}" using assms(1,2) by auto
  qed simp
  then have "map snd (filter (\<lambda>x. fst x = d) (shard_rows P n)) = [c_rem d P]"
    by (simp add: shard_rows_def filter_map comp_def)
  then show ?thesis by (simp add: SelectDataShardPartition_def assms(3) sql_limit_one Let_def)
qed

lemma invoke_SelectDataShardPartition:
  "reliable env \<Longrightarrow> invoke env ''SelectDataShardPartition'' [WInt d] w =
     (Results (map (\<lambda>p. [WInt p]) (SelectDataShardPartition (pick_row env (calls w)) d (seen env w))), tick env w)"
  by (simp add: invoke_def run_procedure_def Let_def reliable_def tick_def)

lemma int_column_ints [simp]: "int_column (map (\<lambda>p. [WInt p]) ps) = Inr (map narrow32 ps)"
  by (induction ps) simp_all

lemma Spark_insertWorker_quiet:
  assumes "reliable env" "alone env" "workerPartitions c \<noteq> 0"
  shows "\<exists>w'. Spark_insertWorker env c i cap [d] (gs, w) = (Inr True,
     (gs @ [\<lparr>g_workerId = i, g_workerPartitions = workerPartitions c, g_capacity = cap, g_workerData = [d],
        g_workerAddr = ''localhost:'' @ to_string (8000 + i), g_online = True\<rparr>], w')) \<and>
     tables_of w' = (tables_of w)\<lparr>Worker := Worker (tables_of w) @
        [\<lparr>w_WorkerID = i, w_Capacity = cap, w_DataShards = d, w_PKey = c_rem i (workerPartitions c), w_Url = []\<rparr>],
       DataLocation := DataLocation (tables_of w) @ [(d, c_rem i (workerPartitions c))]\<rparr>"
  using assms by (simp add: Spark_insertWorker_def GRPC_startServing_def invoke_status_def
      invoke_InsertSparkWorker InsertSparkWorker_def)

text \<open>
  \<open>setup\<close> of the Spark scheduler in a quiet environment: it succeeds, registers worker \<open>i\<close> with
  the data shard \<open>i\<close> in partition \<open>i % workerPartitions\<close>, makes every shard locatable in exactly
  that partition, and all workers it created are online, with pairwise different addresses.
\<close>

theorem Spark_setup_registers:
  assumes "reliable env" "alone env" "0 < workerPartitions c" "0 \<le> workerCapacity c"
    and "0 \<le> numWorkers c" "numWorkers c \<le> 2 ^ 31"
  shows "\<exists>gs w'. Spark_setup env c ([], w) = (Inr True, (gs, w')) \<and>
     Worker (tables_of w') = spark_rows (workerPartitions c) (workerCapacity c) (numWorkers c) \<and>
     registered (workerPartitions c) (numWorkers c) (tables_of w') \<and>
     (\<forall>d ch. 0 \<le> d \<and> d < numWorkers c \<longrightarrow>
        SelectDataShardPartition ch d (tables_of w') = [c_rem d (workerPartitions c)]) \<and>
     map g_workerId gs = [0..numWorkers c - 1] \<and> (\<forall>g \<in> set gs. g_online g) \<and>
     distinct (map g_workerAddr gs)"
proof -
  let ?P = "workerPartitions c" and ?n = "numWorkers c"
  let ?I = "\<lambda>i (gs, w'). Worker (tables_of w') = spark_rows ?P (workerCapacity c) i \<and>
     DataLocation (tables_of w') = shard_rows ?P i \<and>
     map (\<lambda>g. (g_workerId g, g_workerAddr g, g_online g)) gs =
       map (\<lambda>i. (i, ''localhost:'' @ to_string (8000 + i), True)) [0..i - 1]"
  let ?b = "\<lambda>i s. case Spark_insertWorker env c i (workerCapacity c) [i] s of
      (Inr True, s') \<Rightarrow> (None, s') | (r, s') \<Rightarrow> (Some r, s')"
  let ?s0 = "([], Spark_truncateWorkerTable env w)"
  have "ends (?I ?n) (\<lambda>_ _. False) (for_range 0 ?n ?b ?s0)"
  proof (rule for_range_rule [where I = ?I])
    show "?I 0 ?s0"
      using assms(1,2) by (simp add: Spark_truncateWorkerTable_def invoke_void_def
          invoke_TruncateWorkerTable TruncateWorkerTable_def)
  next
    fix i and s :: "MockGRPCWorker list \<times> world" assume i: "0 \<le> i" "i < ?n" and I: "?I i s"
    obtain gs w1 where s: "s = (gs, w1)" by fastforce
    have "[0..i] = [0..i - 1] @ [i]" using i(1) by (rule upto_rec2)
    with I s i(1) Spark_insertWorker_quiet [OF assms(1,2), of c i "workerCapacity c" i gs w1] assms(3)
    show "ends (?I (i + 1)) (\<lambda>_ _. False) (?b i s)"
      by (auto simp: spark_rows_Suc)
  qed (use assms in simp_all)
  then obtain gs w' where r: "for_range 0 ?n ?b ?s0 = (None, (gs, w'))" "?I ?n (gs, w')"
    by (cases "for_range 0 ?n ?b ?s0"; cases "fst (for_range 0 ?n ?b ?s0)") auto
  have addr: "map g_workerAddr gs = map (\<lambda>i. ''localhost:'' @ to_string (8000 + i)) [0..?n - 1]"
    and ids: "map g_workerId gs = [0..?n - 1]" and onl: "map g_online gs = map (\<lambda>_. True) [0..?n - 1]"
    using r(2) by (auto dest: arg_cong [where f = "map (\<lambda>x. fst (snd x))"]
        arg_cong [where f = "map fst"] arg_cong [where f = "map (\<lambda>x. snd (snd x))"] simp: comp_def)
  have "\<forall>g \<in> set gs. g_online g" using onl by (metis (no_types, lifting) imageE image_eqI list.set_map)
  moreover have "distinct (map g_workerAddr gs)"
    unfolding addr by (auto simp: distinct_map inj_on_def dest: to_string_inj)
  moreover have "Spark_setup env c ([], w) = (Inr True, (gs, w'))" using r(1) by (simp add: Spark_setup_def)
  ultimately show ?thesis
    using r(2) ids assms(4,6) by (intro exI [of _ gs] exI [of _ w'])
      (auto intro: spark_rows_registered shard_rows_partition)
qed

theorem Spark_setup_registers_witness:
  "\<exists>gs w'. Spark_setup quiet_env \<lparr>workerCapacity = 2, workerPartitions = 3, numWorkers = 5\<rparr>
       ([], world_with empty_tables) = (Inr True, (gs, w')) \<and> registered 3 5 (tables_of w') \<and>
     SelectDataShardPartition (\<lambda>_ _. 0) 4 (tables_of w') = [c_rem 4 3] \<and> distinct (map g_workerAddr gs)"
  using Spark_setup_registers [of quiet_env "\<lparr>workerCapacity = 2, workerPartitions = 3, numWorkers = 5\<rparr>"
      "world_with empty_tables"] by force

subsection \<open>Selecting a worker\<close>

lemma SelectSparkWorker_cases:
  assumes "registered P n t"
  obtains "shard_workers p d t = []" "SelectSparkWorker ch p d t = (-1, t)"
  | v t' where "v \<in> set (shard_workers p d t)" "SelectSparkWorker ch p d t = (w_WorkerID v, t')"
      "takes_slot p (w_WorkerID v) t t'" "registered P n t'" "narrow32 (w_WorkerID v) = w_WorkerID v"
      "w_WorkerID v \<noteq> -1"
proof (cases "shard_workers p d t = []")
  case True
  then show ?thesis by (intro that(1)) (simp_all add: SelectSparkWorker_def shard_workers_def)
next
  case False
  note dist = registered_distinct [OF assms]
  obtain v where v: "v \<in> set (shard_workers p d t)" "sql_limit (ch 0) (Suc 0) (shard_workers p d t) = [v]"
    using sql_limit_one_ex [OF False] by blast
  have f: "v \<in> set (free_workers p t)" using v(1) by (simp add: shard_workers_def)
  then have ww: "v \<in> set (Worker t)" "w_PKey v = p" "0 < w_Capacity v" by (simp_all add: free_workers_sub)
  let ?t = "set_capacity (w_Capacity v - 1) p (w_WorkerID v) t"
  have run: "SelectSparkWorker ch p d t = (w_WorkerID v, ?t)"
    using v(2) by (simp add: SelectSparkWorker_def shard_workers_def)
  have slot: "takes_slot p (w_WorkerID v) t ?t"
    using f ww cap_of_worker [OF dist ww(1)] cap_of_set_capacity [OF dist ww(1)] by (auto simp: takes_slot_def)
  have "wf_workers P ?t" using assms ww(3) by (simp add: registered_def wf_workers_set_capacity)
  then have reg: "registered P n ?t" using assms registered_layout by auto
  have "0 \<le> w_WorkerID v" "w_WorkerID v < 2 ^ 31" using registered_takes_slot_id [OF assms slot] by simp_all
  then show ?thesis using that(2) [OF v(1) run slot reg] by (simp add: narrow32_id)
qed

lemma Spark_poll_step:
  assumes "reliable env" "alone env" "ps \<noteq> []"
  shows "Spark_poll (Suc fuel) env ps d w =
     (case SelectSparkWorker (pick_row env (calls w)) (ps ! (rnd env (draws w) mod length ps)) d (tables_of w) of
        (v, t) \<Rightarrow>
          let w' = (tick env (w\<lparr>draws := Suc (draws w)\<rparr>))\<lparr>tables_of := t\<rparr> in
          if narrow32 v \<noteq> -1 then Some (Inr (narrow32 v), w') else Spark_poll fuel env ps d w')"
proof -
  have "rand_mod env (int (length ps)) w =
      (Inr (int (rnd env (draws w) mod length ps)), w\<lparr>draws := Suc (draws w)\<rparr>)"
    using assms(3) rand_mod_pos [of "int (length ps)" env w] by (simp add: zmod_int)
  then show ?thesis
    using assms(1,2) by (simp add: invoke_int64_def invoke_SelectSparkWorker Let_def split: prod.split)
qed

declare Spark_poll.simps(2) [simp del]

lemma Spark_poll_found:
  assumes "reliable env" "alone env" "ps \<noteq> []" "registered P n (tables_of w)"
    and "shard_workers (ps ! (rnd env (draws w + k) mod length ps)) d (tables_of w) \<noteq> []" "k < fuel"
  shows "\<exists>p v w'. p \<in> set ps \<and> v \<in> set (shard_workers p d (tables_of w)) \<and>
     Spark_poll fuel env ps d w = Some (Inr (w_WorkerID v), w') \<and>
     takes_slot p (w_WorkerID v) (tables_of w) (tables_of w') \<and> registered P n (tables_of w')"
  using assms(4-6)
proof (induction k arbitrary: w fuel)
  case 0
  then obtain f where f: "fuel = Suc f" by (cases fuel) auto
  let ?p = "ps ! (rnd env (draws w) mod length ps)"
  have p: "?p \<in> set ps" using assms(3) by simp
  from 0(2) SelectSparkWorker_cases [OF 0(1), of ?p d "pick_row env (calls w)"]
  obtain v t' where "v \<in> set (shard_workers ?p d (tables_of w))"
    "SelectSparkWorker (pick_row env (calls w)) ?p d (tables_of w) = (w_WorkerID v, t')"
    "takes_slot ?p (w_WorkerID v) (tables_of w) t'" "registered P n t'" "narrow32 (w_WorkerID v) = w_WorkerID v"
    "w_WorkerID v \<noteq> -1" by (metis add.right_neutral)
  then show ?case using p f by (auto simp: Spark_poll_step [OF assms(1-3)] Let_def)
next
  case (Suc k)
  then obtain f where f: "fuel = Suc f" "k < f" by (cases fuel) auto
  let ?p = "ps ! (rnd env (draws w) mod length ps)"
  have p: "?p \<in> set ps" using assms(3) by simp
  show ?case
  proof (rule SelectSparkWorker_cases [OF Suc.prems(1), of ?p d "pick_row env (calls w)"])
    fix v t'
    assume "v \<in> set (shard_workers ?p d (tables_of w))"
      "SelectSparkWorker (pick_row env (calls w)) ?p d (tables_of w) = (w_WorkerID v, t')"
      "takes_slot ?p (w_WorkerID v) (tables_of w) t'" "registered P n t'"
      "narrow32 (w_WorkerID v) = w_WorkerID v" "w_WorkerID v \<noteq> -1"
    then show ?thesis using p f by (auto simp: Spark_poll_step [OF assms(1-3)] Let_def)
  next
    assume miss: "SelectSparkWorker (pick_row env (calls w)) ?p d (tables_of w) = (-1, tables_of w)"
    let ?w = "(tick env (w\<lparr>draws := Suc (draws w)\<rparr>))\<lparr>tables_of := tables_of w\<rparr>"
    have eq: "Spark_poll fuel env ps d w = Spark_poll f env ps d ?w"
      using miss f by (simp add: Spark_poll_step [OF assms(1-3)] narrow32_def Let_def)
    have "registered P n (tables_of ?w)" using Suc.prems(1) by simp
    moreover have "shard_workers (ps ! (rnd env (draws ?w + k) mod length ps)) d (tables_of ?w) \<noteq> []"
      using Suc.prems(2) by simp
    ultimately have "\<exists>p v w'. p \<in> set ps \<and> v \<in> set (shard_workers p d (tables_of ?w)) \<and>
     Spark_poll f env ps d ?w = Some (Inr (w_WorkerID v), w') \<and>
     takes_slot p (w_WorkerID v) (tables_of ?w) (tables_of w') \<and> registered P n (tables_of w')"
      using f(2) by (rule Suc.IH)
    then show ?thesis unfolding eq by simp
  qed
qed

lemma Spark_poll_forever:
  assumes "reliable env" "alone env" "ps \<noteq> []" "\<forall>p \<in> set ps. shard_workers p d t = []" "tables_of w = t"
  shows "Spark_poll fuel env ps d w = None"
  using assms(5)
proof (induction fuel arbitrary: w)
  case (Suc fuel)
  let ?p = "ps ! (rnd env (draws w) mod length ps)"
  have "?p \<in> set ps" using assms(3) by simp
  then have "SelectSparkWorker (pick_row env (calls w)) ?p d t = (-1, t)"
    using assms(4) by (simp add: SelectSparkWorker_def shard_workers_def)
  then show ?case
    using Suc by (simp add: Spark_poll_step [OF assms(1-3)] narrow32_def Let_def)
qed simp

text \<open>
  C19. \<open>selectWorker\<close> returns a worker with the wanted data as soon as it polls a partition that has
  one with a slot: if the \<open>k\<close>-th draw hits such a partition among those that hold the shard, at
  most \<open>k + 1\<close> iterations are needed, and the result is a worker with the shard, one slot of
  which is taken. If none of the partitions of the shard has such a worker, it never returns.
\<close>

theorem Spark_selectWorker_spec:
  assumes "reliable env" "alone env" "registered P n (tables_of w)"
    and "ps = map narrow32 (SelectDataShardPartition (pick_row env (calls w)) d (tables_of w))" "ps \<noteq> []"
  shows "(shard_workers (ps ! (rnd env (draws w + k) mod length ps)) d (tables_of w) \<noteq> [] \<and> k < fuel \<longrightarrow>
      (\<exists>p v w'. p \<in> set ps \<and> v \<in> set (shard_workers p d (tables_of w)) \<and>
         Spark_selectWorker fuel env d w = Some (Inr (w_WorkerID v), w') \<and>
         takes_slot p (w_WorkerID v) (tables_of w) (tables_of w'))) \<and>
    ((\<forall>p \<in> set ps. shard_workers p d (tables_of w) = []) \<longrightarrow> Spark_selectWorker fuel env d w = None)"
proof -
  have eq: "Spark_selectWorker fuel env d w = Spark_poll fuel env ps d (tick env w)"
    using assms(1,2,4) by (simp add: Spark_selectWorker_def invoke_SelectDataShardPartition)
  have reg: "registered P n (tables_of (tick env w))" using assms(2,3) by simp
  have t: "tables_of (tick env w) = tables_of w" using assms(2) by simp
  show ?thesis
    unfolding eq
    using Spark_poll_found [OF assms(1,2,5) reg, of k d fuel] Spark_poll_forever [OF assms(1,2,5) _ t, of d fuel]
    by (auto simp: assms(2))
qed

theorem Spark_selectWorker_spec_witness:
  "\<exists>w'. Spark_selectWorker 1 quiet_env 0 (world_with (empty_tables\<lparr>Worker := spark_rows 1 2 1,
       DataLocation := shard_rows 1 1\<rparr>)) = Some (Inr 0, w')"
proof -
  let ?t = "empty_tables\<lparr>Worker := spark_rows 1 2 1, DataLocation := shard_rows 1 1\<rparr>"
  have reg: "registered 1 1 ?t" by (rule spark_rows_registered [of 2]) simp_all
  have ps: "SelectDataShardPartition (pick_row quiet_env 0) 0 ?t = [0]"
    by (subst shard_rows_partition [of 0 1 _ 1]) (simp_all add: c_rem_nonneg)
  have free: "shard_workers 0 0 ?t =
      [\<lparr>w_WorkerID = 0, w_Capacity = 2, w_DataShards = 0, w_PKey = 0, w_Url = []\<rparr>]"
    by (simp add: shard_workers_def free_workers_def spark_rows_def c_rem_nonneg)
  from Spark_selectWorker_spec [of quiet_env 1 1 "world_with ?t" "[0]" 0 0 1] reg ps free
  show ?thesis by (auto simp: narrow32_def)
qed

text \<open>
  A shard that is not in the database crashes the scheduler: \<open>selectWorker\<close> computes
  \<open>rand() % targetPartitions.size()\<close> with an empty list of partitions.
\<close>

theorem Spark_selectWorker_unknown_shard:
  assumes "reliable env" "alone env" "\<forall>x \<in> set (DataLocation (tables_of w)). fst x \<noteq> d" "0 < fuel"
  shows "\<exists>w'. Spark_selectWorker fuel env d w = Some (Inl DivByZero, w')"
proof -
  have "SelectDataShardPartition ch d (tables_of w) = []" for ch
  proof -
    have "filter (\<lambda>x. fst x = d) (DataLocation (tables_of w)) = []" using assms(3) by (simp add: filter_empty_conv)
    then show ?thesis by (simp add: SelectDataShardPartition_def)
  qed
  moreover obtain f where "fuel = Suc f" using assms(4) by (cases fuel) auto
  ultimately show ?thesis
    using assms(1,2) by (simp add: Spark_selectWorker_def invoke_SelectDataShardPartition rand_mod_zero
        Spark_poll.simps)
qed

theorem Spark_selectWorker_unknown_shard_witness:
  "\<exists>w'. Spark_selectWorker 1 quiet_env 3 (world_with empty_tables) = Some (Inl DivByZero, w')"
  by (rule Spark_selectWorker_unknown_shard) (simp_all add: empty_tables_def)

subsection \<open>Finishing a task\<close>

text \<open>
  C20. \<open>finishTask\<close> undoes \<open>selectWorker\<close>: after a slot of worker \<open>i\<close> was taken, finishing the task
  succeeds, puts the task into the completion set, and restores the capacity of every worker to what
  it was before the slot was taken.
\<close>

theorem Spark_finishTask_restores:
  assumes "reliable env" "alone env" "0 < workerPartitions c"
    and "registered (workerPartitions c) n t" "takes_slot p i t (tables_of w)"
    and "registered (workerPartitions c) n (tables_of w)" "\<forall>v \<in> set (Worker t). w_Capacity v < 2 ^ 31"
  shows "\<exists>w'. Spark_finishTask env c taskId i (S, w) = (Inr True, (insert taskId S, w')) \<and>
    cap_of (tables_of w') = cap_of t \<and> layout (tables_of w') = layout t"
proof -
  let ?P = "workerPartitions c" and ?t = "tables_of w"
  note d = registered_distinct [OF assms(4)] registered_distinct [OF assms(6)]
  obtain k where k: "cap_of t i = Some k" "cap_of ?t = (cap_of t)(i \<mapsto> k - 1)" "0 < k"
    and lay: "layout ?t = layout t" using assms(5) by (auto simp: takes_slot_def)
  obtain u where u: "u \<in> set (Worker t)" "w_Capacity u = k" using k(1) d(1) by (auto simp: cap_of_Some_iff)
  have "cap_of ?t i = Some (k - 1)" using k(2) by simp
  then obtain v where v: "v \<in> set (Worker ?t)" "w_WorkerID v = i" "w_Capacity v = k - 1"
    using d(2) by (auto simp: cap_of_Some_iff)
  have pk: "w_PKey v = c_rem i ?P" using assms(6) v by (auto simp: registered_def wf_workers_def)
  have "set (filter (\<lambda>x. w_PKey x = c_rem i ?P \<and> w_WorkerID x = i) (Worker ?t)) = {v}"
    using v pk d(2) by (auto dest: distinct_map_key_eq)
  moreover have "distinct (filter (\<lambda>x. w_PKey x = c_rem i ?P \<and> w_WorkerID x = i) (Worker ?t))"
    using d(2) by (simp add: distinct_map)
  ultimately have one: "filter (\<lambda>x. w_PKey x = c_rem i ?P \<and> w_WorkerID x = i) (Worker ?t) = [v]"
    by (intro distinct_singleton)
  have fits: "fits_integer k" using u assms(7) k(3) by (auto simp: fits_integer_def)
  let ?u = "set_capacity k (c_rem i ?P) i ?t"
  have run: "\<exists>t'. FinishWorkerTask ch i taskId (c_rem i ?P) ?t = Some (0, t') \<and> Worker t' = Worker ?u" for ch
    using one fits v(3) by (simp add: FinishWorkerTask_def sql_limit_one Let_def)
  then obtain t' where t': "FinishWorkerTask (pick_row env (calls w)) i taskId (c_rem i ?P) ?t = Some (0, t')"
    "Worker t' = Worker ?u" by blast
  have "cap_of t' = (cap_of ?t)(i \<mapsto> k)"
    using cap_of_cong [OF t'(2)] cap_of_set_capacity [OF d(2) v(1)] v(2) pk by simp
  also have "\<dots> = cap_of t" using k(1,2) by (auto simp: fun_eq_iff)
  finally have "cap_of t' = cap_of t" .
  moreover have "layout t' = layout t" using layout_cong [OF t'(2)] lay by simp
  ultimately show ?thesis
    using t'(1) assms(1-3) by (simp add: Spark_finishTask_def invoke_status_def invoke_FinishWorkerTask)
qed

theorem Spark_finishTask_restores_witness:
  "\<exists>w'. Spark_finishTask quiet_env \<lparr>workerCapacity = 2, workerPartitions = 1, numWorkers = 1\<rparr> 7 0
       ({}, world_with (snd (SelectSparkWorker (\<lambda>_ _. 0) 0 0 (empty_tables\<lparr>Worker := spark_rows 1 2 1\<rparr>)))) =
     (Inr True, ({7}, w')) \<and> cap_of (tables_of w') = cap_of (empty_tables\<lparr>Worker := spark_rows 1 2 1\<rparr>)"
proof -
  let ?t = "empty_tables\<lparr>Worker := spark_rows 1 2 1\<rparr>"
  have reg: "registered 1 1 ?t" by (rule spark_rows_registered [of 2]) simp_all
  have free: "shard_workers 0 0 ?t =
      [\<lparr>w_WorkerID = 0, w_Capacity = 2, w_DataShards = 0, w_PKey = 0, w_Url = []\<rparr>]"
    by (simp add: shard_workers_def free_workers_def spark_rows_def c_rem_nonneg)
  obtain t' where t': "SelectSparkWorker (\<lambda>_ _. 0) 0 0 ?t = (0, t')" "takes_slot 0 0 ?t t'" "registered 1 1 t'"
    by (rule SelectSparkWorker_cases [OF reg, of 0 0 "\<lambda>_ _. 0"]) (auto simp: free)
  have "\<forall>v \<in> set (Worker ?t). w_Capacity v < 2 ^ 31" by (simp add: spark_rows_def)
  from Spark_finishTask_restores [of quiet_env
      "\<lparr>workerCapacity = 2, workerPartitions = 1, numWorkers = 1\<rparr>" 1 ?t 0 0 "world_with t'" 7 "{}"] reg t' this
  show ?thesis by auto
qed

text \<open>
  Assigning a task sends the task's own data to the worker's address and reuses one channel
  for each address: the request is the protobuf form of the task, the channel is the one the map
  holds for that address afterwards, and a second assignment to the same worker uses the same
  channel and leaves the map as it is.
\<close>

theorem Spark_assignTaskToWorker_channel:
  assumes "Spark_assignTaskToWorker fresh i v task (m, cq) = (ok, (m', cq'))"
    and "Spark_assignTaskToWorker fresh j v task2 (m', cq') = (ok2, (m'', cq''))"
  shows "\<exists>ch. m' (''localhost:'' @ to_string (8000 + v)) = Some ch \<and> m'' = m' \<and>
    cq'' = cq @ [\<lparr>call_workerID = v, call_taskID = i, call_channel = ch, call_request = taskToProtobuf task\<rparr>,
      \<lparr>call_workerID = v, call_taskID = j, call_channel = ch, call_request = taskToProtobuf task2\<rparr>]"
  using assms by (auto simp: Spark_assignTaskToWorker_def Spark_addrToChannel_def taskToProtobuf_def Let_def
      split: option.splits)

theorem Spark_assignTaskToWorker_channel_witness:
  "\<exists>ch. snd (snd (Spark_assignTaskToWorker length 5 1 \<lparr>targetData = 3, execTime = 9\<rparr>
      (snd (Spark_assignTaskToWorker length 4 1 \<lparr>targetData = 3, execTime = 9\<rparr> (Map.empty, []))))) =
    [\<lparr>call_workerID = 1, call_taskID = 4, call_channel = ch, call_request = \<lparr>targetdata = 3, exectime = 9\<rparr>\<rparr>,
     \<lparr>call_workerID = 1, call_taskID = 5, call_channel = ch, call_request = \<lparr>targetdata = 3, exectime = 9\<rparr>\<rparr>]"
proof -
  let ?k = "\<lparr>targetData = 3, execTime = 9\<rparr>"
  let ?a = "Spark_assignTaskToWorker length 4 1 ?k (Map.empty, [])"
  let ?b = "Spark_assignTaskToWorker length 5 1 ?k (snd ?a)"
  have "?a = (fst ?a, (fst (snd ?a), snd (snd ?a)))" by simp
  moreover have "Spark_assignTaskToWorker length 5 1 ?k (fst (snd ?a), snd (snd ?a)) =
      (fst ?b, (fst (snd ?b), snd (snd ?b)))" by simp
  ultimately show ?thesis
    using Spark_assignTaskToWorker_channel [of length 4 1 ?k Map.empty "[]" "fst ?a" "fst (snd ?a)" "snd (snd ?a)"
        5 ?k "fst ?b" "fst (snd ?b)" "snd (snd ?b)"]
    by (auto simp: taskToProtobuf_def)
qed

end
