(* ===== verification/Spark_Threads.thy ===== *)
theory Spark_Threads
  imports Spark_Scheduler
begin

text \<open>
  The threads of \<open>SparkScheduler\<close>: clients in \<open>schedule\<close>, the thread of \<open>processTaskQueue\<close>, the thread
  of \<open>finishRequests\<close>, and the destructor. \<open>taskProcessMutex\<close> is held exactly while the processing
  thread is in its inner loop; every other critical section is one step. \<open>taskProcessCV\<close> is a real
  condition variable: a notification wakes a thread that waits at that moment and is otherwise
  lost; a waiting thread may also wake spuriously. The queue holds pointers to the \<open>TaskData\<close> in
  the stack frames of the clients, represented by the numbers of the clients.
\<close>

section \<open>Definitions\<close>

datatype client_pc =
    CStart                  \<comment> \<open>about to enter \<open>schedule\<close>\<close>
  | CPush int               \<comment> \<open>has its task identifier, about to lock and push\<close>
  | CWait int               \<comment> \<open>waiting for its identifier in \<open>taskCompletionSet\<close>\<close>
  | CReturned int

datatype process_pc =
    PStart                  \<comment> \<open>created, has not yet locked \<open>taskProcessMutex\<close>\<close>
  | PWait                   \<comment> \<open>in \<open>taskProcessCV.wait\<close>\<close>
  | PWoken                  \<comment> \<open>woken, about to lock again\<close>
  | PLoop                   \<comment> \<open>in the inner loop, holding the lock\<close>
  | PPop                    \<comment> \<open>the front task is assigned, about to pop it\<close>
  | PEnded

datatype finish_pc = FNext | FUpdate int int   \<comment> \<open>task and worker, about to update the database\<close>

record spark =
  sdb :: tables
  taskIDs :: "32 word"
  runTaskQueueThread :: bool
  clients :: "client_pc list"
  targets :: "int list"                  \<comment> \<open>\<open>targetData\<close> of the task of each client\<close>
  queue :: "nat list"
  processor :: process_pc
  calls_in_flight :: "(int \<times> int) list"      \<comment> \<open>task and worker\<close>
  finisher :: finish_pc
  completed :: "int set"
  crashed :: bool

text \<open>The constructor: both threads are created.\<close>

definition spark_start :: "tables \<Rightarrow> 32 word \<Rightarrow> int list \<Rightarrow> spark" where
  "spark_start t ix ds =
     \<lparr>sdb = t, taskIDs = ix, runTaskQueueThread = True, clients = replicate (length ds) CStart,
      targets = ds, queue = [], processor = PStart, calls_in_flight = [], finisher = FNext,
      completed = {}, crashed = False\<rparr>"

definition process_locked :: "spark \<Rightarrow> bool" where
  "process_locked s \<longleftrightarrow> processor s = PLoop \<or> processor s = PPop"

definition notify :: "process_pc \<Rightarrow> process_pc" where
  "notify p = (if p = PWait then PWoken else p)"

text \<open>The identifier that \<open>taskData->taskID\<close> reads.\<close>

fun task_of :: "client_pc \<Rightarrow> int" where
  "task_of CStart = 0"
| "task_of (CPush i) = i"
| "task_of (CWait i) = i"
| "task_of (CReturned i) = i"

text \<open>One step of \<open>schedule\<close> in client \<open>k\<close>.\<close>

definition spark_schedule :: "nat \<Rightarrow> spark \<Rightarrow> spark option" where
  "spark_schedule k s =
     (case clients s ! k of
        CStart \<Rightarrow> Some (s\<lparr>clients := (clients s)[k := CPush (sint (taskIDs s))], taskIDs := taskIDs s + 1\<rparr>)
      | CPush taskID \<Rightarrow>
          (if process_locked s then None
           else Some (s\<lparr>clients := (clients s)[k := CWait taskID], queue := queue s @ [k],
                        processor := notify (processor s)\<rparr>))
      | CWait taskID \<Rightarrow>
          (if taskID \<in> completed s then Some (s\<lparr>clients := (clients s)[k := CReturned taskID]\<rparr>) else None)
      | CReturned taskID \<Rightarrow> None)"

text \<open>
  One step of \<open>processTaskQueue\<close>. In the inner loop one iteration of the polling in \<open>selectWorker\<close>
  at partition \<open>p\<close> is a step; it returns only when it finds a worker, and the failed assertion on
  \<open>workerId\<close> is the case \<open>failed\<close> of an invocation.
\<close>

definition spark_process :: "(nat \<Rightarrow> nat \<Rightarrow> nat) \<Rightarrow> int \<Rightarrow> bool \<Rightarrow> spark \<Rightarrow> spark option" where
  "spark_process ch p failed s =
     (case processor s of
        PStart \<Rightarrow> Some (s\<lparr>processor := (if runTaskQueueThread s then PWait else PEnded)\<rparr>)
      | PWait \<Rightarrow> None
      | PWoken \<Rightarrow> Some (s\<lparr>processor := PLoop\<rparr>)
      | PLoop \<Rightarrow>
          (case queue s of
             [] \<Rightarrow> Some (s\<lparr>processor := (if runTaskQueueThread s then PWait else PEnded)\<rparr>)
           | k # _ \<Rightarrow>
               (if failed then Some (s\<lparr>crashed := True\<rparr>)
                else case SelectSparkWorker ch p (targets s ! k) (sdb s) of
                       (v, t) \<Rightarrow>
                         (if v = -1 then Some s
                          else Some (s\<lparr>sdb := t,
                                 calls_in_flight := calls_in_flight s @ [(task_of (clients s ! k), v)],
                                 processor := PPop\<rparr>))))
      | PPop \<Rightarrow> Some (s\<lparr>queue := tl (queue s), processor := PLoop\<rparr>)
      | PEnded \<Rightarrow> None)"

text \<open>
  One step of \<open>finishRequests\<close>: the call at position \<open>j\<close> completes (the completion queue gives no
  order), the client is notified, then \<open>FinishWorkerTask\<close> runs; its failure is only printed.
\<close>

definition spark_finish :: "SparkScheduler \<Rightarrow> (nat \<Rightarrow> nat \<Rightarrow> nat) \<Rightarrow> nat \<Rightarrow> bool \<Rightarrow> spark \<Rightarrow> spark option" where
  "spark_finish c ch j failed s =
     (case finisher s of
        FNext \<Rightarrow>
          (if j < length (calls_in_flight s)
           then (if failed then Some (s\<lparr>crashed := True\<rparr>)
                 else case calls_in_flight s ! j of (taskID, v) \<Rightarrow>
                        Some (s\<lparr>calls_in_flight := take j (calls_in_flight s) @ drop (Suc j) (calls_in_flight s),
                                completed := insert taskID (completed s), finisher := FUpdate taskID v\<rparr>))
           else None)
      | FUpdate taskID v \<Rightarrow>
          (if workerPartitions c = 0 then Some (s\<lparr>crashed := True\<rparr>)
           else case (if failed then None
                      else FinishWorkerTask ch v taskID (c_rem v (workerPartitions c)) (sdb s)) of
                  None \<Rightarrow> Some (s\<lparr>finisher := FNext\<rparr>)
                | Some (r, t) \<Rightarrow> Some (s\<lparr>sdb := t, finisher := FNext\<rparr>)))"

text \<open>The destructor stops the processing thread: the flag, then a notification.\<close>

definition spark_destroy :: "spark \<Rightarrow> spark option" where
  "spark_destroy s =
     (if runTaskQueueThread s then Some (s\<lparr>runTaskQueueThread := False\<rparr>)
      else if process_locked s then None
      else Some (s\<lparr>processor := notify (processor s)\<rparr>))"

text \<open>A step of a client, the processing thread or the finishing thread.\<close>

inductive spark_step :: "SparkScheduler \<Rightarrow> spark \<Rightarrow> spark \<Rightarrow> bool" for c where
  schedule: "\<not> crashed s \<Longrightarrow> k < length (clients s) \<Longrightarrow> spark_schedule k s = Some s' \<Longrightarrow> spark_step c s s'"
| process: "\<not> crashed s \<Longrightarrow> spark_process ch p failed s = Some s' \<Longrightarrow> spark_step c s s'"
| finish: "\<not> crashed s \<Longrightarrow> spark_finish c ch j failed s = Some s' \<Longrightarrow> spark_step c s s'"

text \<open>All steps, with spurious wake-ups and the destructor.\<close>

inductive spark_any :: "SparkScheduler \<Rightarrow> spark \<Rightarrow> spark \<Rightarrow> bool" for c where
  thread: "spark_step c s s' \<Longrightarrow> spark_any c s s'"
| spurious: "\<not> crashed s \<Longrightarrow> processor s = PWait \<Longrightarrow> spark_any c s (s\<lparr>processor := PWoken\<rparr>)"
| destroy: "\<not> crashed s \<Longrightarrow> spark_destroy s = Some s' \<Longrightarrow> spark_any c s s'"

inductive spark_reach :: "SparkScheduler \<Rightarrow> spark \<Rightarrow> spark \<Rightarrow> bool" for c s0 where
  refl: "spark_reach c s0 s0"
| step: "spark_reach c s0 s \<Longrightarrow> spark_any c s s' \<Longrightarrow> spark_reach c s0 s'"

text \<open>The slots of a worker: free ones and those of calls that are not yet given back.\<close>

definition held :: "int \<Rightarrow> spark \<Rightarrow> int" where
  "held i s = int (length (filter (\<lambda>x. snd x = i) (calls_in_flight s))) +
     (case finisher s of FNext \<Rightarrow> 0 | FUpdate _ v \<Rightarrow> if v = i then 1 else 0)"

definition spark_slots :: "int \<Rightarrow> spark \<Rightarrow> int" where
  "spark_slots i s = (case cap_of (sdb s) i of None \<Rightarrow> 0 | Some k \<Rightarrow> k) + held i s"

text \<open>Where the clients' tasks are.\<close>

definition unassigned :: "spark \<Rightarrow> nat list" where
  "unassigned s = (if processor s = PPop then tl (queue s) else queue s)"

text \<open>The number of identifiers issued.\<close>

definition issued :: "spark \<Rightarrow> nat" where
  "issued s = length (filter (\<lambda>p. p \<noteq> CStart) (clients s))"

text \<open>
  The invariant of the task identifiers and of the queue: identifiers are issued in sequence and are
  different for different clients; a task that is queued and not yet assigned belongs to a client that
  still waits, and neither is its call in flight nor is it complete; every waiting client's task is
  queued, in flight or complete; a client has returned only when its task is complete.
\<close>

definition spark_ids :: "32 word \<Rightarrow> spark \<Rightarrow> bool" where
  "spark_ids ix s \<longleftrightarrow> taskIDs s = ix + of_nat (issued s) \<and>
     (\<forall>k < length (clients s). clients s ! k \<noteq> CStart \<longrightarrow>
        task_of (clients s ! k) \<in> (\<lambda>j. sint (ix + of_nat j)) ` {..<issued s}) \<and>
     (\<forall>k < length (clients s). \<forall>l < length (clients s). clients s ! k \<noteq> CStart \<longrightarrow> clients s ! l \<noteq> CStart \<longrightarrow>
        task_of (clients s ! k) = task_of (clients s ! l) \<longrightarrow> k = l)"

definition gone :: "spark \<Rightarrow> int set" where
  "gone s = fst ` set (calls_in_flight s) \<union> completed s"

definition spark_tasks :: "spark \<Rightarrow> bool" where
  "spark_tasks s \<longleftrightarrow> distinct (unassigned s) \<and> (processor s = PPop \<longrightarrow> queue s \<noteq> []) \<and>
     (\<forall>k \<in> set (unassigned s). k < length (clients s) \<and>
        (\<exists>i. clients s ! k = CWait i \<and> i \<notin> gone s)) \<and>
     (\<forall>k < length (clients s). \<forall>i. clients s ! k = CWait i \<longrightarrow> k \<in> set (unassigned s) \<or> i \<in> gone s) \<and>
     (\<forall>k < length (clients s). \<forall>i. clients s ! k = CReturned i \<longrightarrow> i \<in> completed s) \<and>
     (\<forall>i \<in> gone s. \<exists>k < length (clients s). clients s ! k = CWait i \<or> clients s ! k = CReturned i)"

section \<open>Lemmas\<close>

text \<open>
  C17. A wake-up is lost at start-up: if a client pushes its task before the processing thread first
  waits, its notification finds nobody, and the scheduler can reach a state in which the client
  waits for its task, the task is in the queue, the processing thread waits for a notification,
  and no thread can take a step, for ever, short of a spurious wake-up or another client.
\<close>

theorem Spark_lost_wakeup_deadlock:
  "\<exists>s. spark_reach c (spark_start t ix [d]) s \<and> \<not> crashed s \<and> queue s = [0] \<and>
     clients s = [CWait (sint ix)] \<and> sint ix \<notin> completed s \<and> processor s = PWait \<and> (\<forall>s'. \<not> spark_step c s s')"
proof -
  let ?s0 = "spark_start t ix [d]"
  let ?s1 = "?s0\<lparr>clients := [CPush (sint ix)], taskIDs := ix + 1\<rparr>"
  let ?s2 = "?s1\<lparr>clients := [CWait (sint ix)], queue := [0]\<rparr>"
  let ?s3 = "?s2\<lparr>processor := PWait\<rparr>"
  have "spark_any c ?s0 ?s1"
    by (intro spark_any.thread spark_step.schedule [where k = 0])
      (simp_all add: spark_start_def spark_schedule_def)
  moreover have "spark_any c ?s1 ?s2"
    by (intro spark_any.thread spark_step.schedule [where k = 0])
      (simp_all add: spark_start_def spark_schedule_def process_locked_def notify_def)
  moreover have "spark_any c ?s2 ?s3"
    by (intro spark_any.thread spark_step.process)
      (simp_all add: spark_start_def spark_process_def)
  ultimately have "spark_reach c ?s0 ?s3" by (meson spark_reach.intros)
  moreover have "\<not> spark_step c ?s3 s'" for s'
    by (auto elim!: spark_step.cases simp: spark_start_def spark_schedule_def spark_process_def spark_finish_def)
  ultimately show ?thesis by (intro exI [of _ ?s3]) (simp add: spark_start_def)
qed

subsection \<open>Wake-ups after the first wait\<close>

lemma spark_any_wait:
  assumes "spark_any c s s'" "processor s \<noteq> PStart" "processor s = PWait \<longrightarrow> queue s = []"
  shows "processor s' \<noteq> PStart \<and> (processor s' = PWait \<longrightarrow> queue s' = [])"
  using assms
  by (auto elim!: spark_any.cases spark_step.cases simp: spark_schedule_def spark_process_def spark_finish_def
      spark_destroy_def notify_def process_locked_def
      split: client_pc.splits process_pc.splits finish_pc.splits list.splits prod.splits option.splits if_splits)

text \<open>
  C18. Once the processing thread has reached its first wait with an empty queue, no wake-up is lost: in
  every later state, under every interleaving, when it waits the queue is empty.
\<close>

theorem Spark_no_lost_wakeup_later:
  assumes "spark_reach c s0 s" "processor s0 = PWait" "queue s0 = []" "processor s = PWait"
  shows "queue s = []"
proof -
  have "processor s \<noteq> PStart \<and> (processor s = PWait \<longrightarrow> queue s = [])"
    using assms(1)
  proof (induction rule: spark_reach.induct)
    case refl
    then show ?case using assms(2,3) by simp
  next
    case (step s s')
    then show ?case using spark_any_wait by blast
  qed
  then show ?thesis using assms(4) by simp
qed

theorem Spark_no_lost_wakeup_later_witness:
  "queue ((spark_start empty_tables 0 [3])\<lparr>processor := PWait, clients := [CPush 0], taskIDs := 1\<rparr>) = []"
proof -
  let ?c = "\<lparr>workerCapacity = 1, workerPartitions = 1, numWorkers = 1\<rparr>"
  let ?s0 = "(spark_start empty_tables 0 [3])\<lparr>processor := PWait\<rparr>"
  let ?s1 = "?s0\<lparr>clients := [CPush 0], taskIDs := 1\<rparr>"
  have "spark_any ?c ?s0 ?s1"
    by (intro spark_any.thread spark_step.schedule [where k = 0])
      (simp_all add: spark_start_def spark_schedule_def)
  then have "spark_reach ?c ?s0 ?s1" by (rule spark_reach.step [OF spark_reach.refl])
  from Spark_no_lost_wakeup_later [OF this] show ?thesis by (simp add: spark_start_def)
qed

subsection \<open>Where the tasks are\<close>

lemma issued_start:
  assumes "k < length (clients s)" "clients s ! k = CStart" "p \<noteq> CStart"
  shows "length (filter (\<lambda>p. p \<noteq> CStart) ((clients s)[k := p])) = Suc (issued s)"
  using assms unfolding issued_def
proof (induction "clients s" arbitrary: s k)
  case (Cons x xs)
  from Cons(2) have xs: "clients (s\<lparr>clients := xs\<rparr>) = xs" by simp
  show ?case
  proof (cases k)
    case 0
    then show ?thesis using Cons.prems Cons(2) [symmetric] by simp
  next
    case (Suc j)
    then show ?thesis
      using Cons.prems Cons(1) [OF xs [symmetric], of j] Cons(2) [symmetric] by simp
  qed
qed simp

lemma issued_same:
  assumes "k < length (clients s)" "clients s ! k \<noteq> CStart" "p \<noteq> CStart"
  shows "length (filter (\<lambda>p. p \<noteq> CStart) ((clients s)[k := p])) = issued s"
  using assms unfolding issued_def
proof (induction "clients s" arbitrary: s k)
  case (Cons x xs)
  from Cons(2) have xs: "clients (s\<lparr>clients := xs\<rparr>) = xs" by simp
  show ?case
  proof (cases k)
    case 0
    then show ?thesis using Cons.prems Cons(2) [symmetric] by simp
  next
    case (Suc j)
    then show ?thesis
      using Cons.prems Cons(1) [OF xs [symmetric], of j] Cons(2) [symmetric] by simp
  qed
qed simp

lemma issued_bound:
  assumes "k < length (clients s)" "clients s ! k = CStart"
  shows "issued s < length (clients s)"
proof -
  have "clients s ! k \<in> set (clients s)" using assms(1) by simp
  then have "CStart \<in> set (clients s)" using assms(2) by simp
  then have "\<exists>x \<in> set (clients s). \<not> x \<noteq> CStart" by auto
  then show ?thesis unfolding issued_def by (metis (mono_tags, lifting) length_filter_less)
qed

text \<open>Steps that leave the clients alone keep the identifiers.\<close>

lemma spark_ids_cong:
  "clients s' = clients s \<Longrightarrow> taskIDs s' = taskIDs s \<Longrightarrow> spark_ids ix s' = spark_ids ix s"
  by (simp add: spark_ids_def issued_def)

lemma spark_ids_advance:
  assumes "spark_ids ix s" "k < length (clients s)" "clients s ! k \<noteq> CStart" "p \<noteq> CStart"
    and "task_of p = task_of (clients s ! k)" "clients s' = (clients s)[k := p]" "taskIDs s' = taskIDs s"
  shows "spark_ids ix s'"
proof -
  have iss: "issued s' = issued s" using issued_same [OF assms(2,3,4)] by (simp add: issued_def assms(6))
  have task: "task_of (clients s' ! l) = task_of (clients s ! l)" for l
    using assms(2,5,6) by (cases "l = k") simp_all
  have st: "clients s' ! l \<noteq> CStart \<longleftrightarrow> clients s ! l \<noteq> CStart" if "l < length (clients s)" for l
    using assms(2,3,4,6) that by (cases "l = k") simp_all
  have len: "length (clients s') = length (clients s)" using assms(6) by simp
  show ?thesis
    using assms(1,7) unfolding spark_ids_def iss len task by (simp add: st)
qed

lemma spark_ids_issue:
  assumes "spark_ids ix s" "length (clients s) \<le> 2 ^ 32" "k < length (clients s)" "clients s ! k = CStart"
    and s': "clients s' = (clients s)[k := CPush (sint (taskIDs s))]" "taskIDs s' = taskIDs s + 1"
  shows "spark_ids ix s'"
    and "\<forall>l < length (clients s). clients s ! l \<noteq> CStart \<longrightarrow> task_of (clients s ! l) \<noteq> sint (taskIDs s)"
proof -
  let ?ids = "\<lambda>n. (\<lambda>j. sint (ix + of_nat j)) ` {..<n}"
  have iss: "issued s' = Suc (issued s)"
    using issued_start [OF assms(3,4), of "CPush (sint (taskIDs s))"] by (simp add: issued_def s')
  have ids: "taskIDs s = ix + of_nat (issued s)" using assms(1) by (simp add: spark_ids_def)
  have "issued s < 2 ^ 32" using issued_bound [OF assms(3,4)] assms(2) by simp
  from fetch_add_fresh [OF this, of ix] have fresh: "sint (taskIDs s) \<notin> ?ids (issued s)" by (simp add: ids)
  then show new: "\<forall>l < length (clients s). clients s ! l \<noteq> CStart \<longrightarrow> task_of (clients s ! l) \<noteq> sint (taskIDs s)"
    using assms(1) by (metis spark_ids_def)
  have len: "length (clients s') = length (clients s)" using s' by simp
  have nth: "clients s' ! l = (if l = k then CPush (sint (taskIDs s)) else clients s ! l)" for l
    using assms(3) s' by simp
  have sub: "?ids (Suc (issued s)) = insert (sint (taskIDs s)) (?ids (issued s))" by (simp add: ids lessThan_Suc)
  show "spark_ids ix s'"
    unfolding spark_ids_def iss len sub
  proof (intro conjI allI impI)
    show "taskIDs s' = ix + of_nat (Suc (issued s))" by (simp add: s'(2) ids add.assoc)
  next
    fix l assume "l < length (clients s)" "clients s' ! l \<noteq> CStart"
    then show "task_of (clients s' ! l) \<in> insert (sint (taskIDs s)) (?ids (issued s))"
      using assms(1) by (auto simp: nth spark_ids_def)
  next
    fix l m assume lm: "l < length (clients s)" "m < length (clients s)" "clients s' ! l \<noteq> CStart"
      "clients s' ! m \<noteq> CStart" "task_of (clients s' ! l) = task_of (clients s' ! m)"
    have old: "l = m" if "clients s ! l \<noteq> CStart" "clients s ! m \<noteq> CStart"
      "task_of (clients s ! l) = task_of (clients s ! m)"
      using assms(1) lm(1,2) that by (simp add: spark_ids_def)
    show "l = m"
    proof (cases "l = k \<or> m = k")
      case True
      then show ?thesis using lm new [rule_format, of l] new [rule_format, of m] by (auto simp: nth split: if_splits)
    next
      case False
      then show ?thesis using lm(3-5) old by (simp add: nth)
    qed
  qed
qed

lemma spark_tasksD:
  assumes "spark_tasks s"
  shows "distinct (unassigned s)" "processor s = PPop \<Longrightarrow> queue s \<noteq> []"
    and "k \<in> set (unassigned s) \<Longrightarrow> k < length (clients s) \<and> (\<exists>i. clients s ! k = CWait i \<and> i \<notin> gone s)"
    and "k < length (clients s) \<Longrightarrow> clients s ! k = CWait i \<Longrightarrow> k \<in> set (unassigned s) \<or> i \<in> gone s"
    and "k < length (clients s) \<Longrightarrow> clients s ! k = CReturned i \<Longrightarrow> i \<in> completed s"
    and "i \<in> gone s \<Longrightarrow> \<exists>k < length (clients s). clients s ! k = CWait i \<or> clients s ! k = CReturned i"
  using assms unfolding spark_tasks_def by auto

text \<open>Moving a client forward, and moving a task from the queue to the calls in flight.\<close>

lemma spark_tasks_schedule:
  assumes inv: "spark_ids ix s" "spark_tasks s" and len: "length (clients s) \<le> 2 ^ 32"
    and k: "k < length (clients s)" and run: "spark_schedule k s = Some s'"
  shows "spark_ids ix s' \<and> spark_tasks s'"
proof (cases "clients s ! k")
  case CStart
  then have s': "s' = s\<lparr>clients := (clients s)[k := CPush (sint (taskIDs s))], taskIDs := taskIDs s + 1\<rparr>"
    using run by (simp add: spark_schedule_def)
  note iss = spark_ids_issue [OF inv(1) len k CStart, of s']
  have nth: "clients s' ! l = (if l = k then CPush (sint (taskIDs s)) else clients s ! l)" for l
    using k by (simp add: s')
  have same: "unassigned s' = unassigned s" "gone s' = gone s" "length (clients s') = length (clients s)"
    "processor s' = processor s" "queue s' = queue s" "completed s' = completed s"
    by (simp_all add: s' unassigned_def gone_def)
  have nq: "k \<notin> set (unassigned s)" using inv(2) CStart by (auto simp: spark_tasks_def)
  have "spark_tasks s'"
    unfolding spark_tasks_def same nth
  proof (intro conjI allI impI ballI)
    fix l assume l: "l \<in> set (unassigned s)"
    then show "l < length (clients s)"
      "\<exists>i. (if l = k then CPush (sint (taskIDs s)) else clients s ! l) = CWait i \<and> i \<notin> gone s"
      using spark_tasksD(3) [OF inv(2) l] nq by auto
  next
    fix i assume "i \<in> gone s"
    from spark_tasksD(6) [OF inv(2) this] CStart
    show "\<exists>l < length (clients s). (if l = k then CPush (sint (taskIDs s)) else clients s ! l) = CWait i \<or>
        (if l = k then CPush (sint (taskIDs s)) else clients s ! l) = CReturned i"
      by (metis client_pc.distinct(3,5))
  qed (use spark_tasksD [OF inv(2)] in \<open>auto split: if_splits\<close>)
  then show ?thesis using iss by (simp add: s')
next
  case (CPush i)
  then have nl: "\<not> process_locked s"
    and s': "s' = s\<lparr>clients := (clients s)[k := CWait i], queue := queue s @ [k], processor := notify (processor s)\<rparr>"
    using run by (auto simp: spark_schedule_def split: if_splits)
  have ids: "spark_ids ix s'" by (rule spark_ids_advance [OF inv(1) k, of "CWait i"]) (simp_all add: CPush s')
  have nth: "clients s' ! l = (if l = k then CWait i else clients s ! l)" for l using k by (simp add: s')
  have un: "unassigned s = queue s" "unassigned s' = queue s @ [k]"
    using nl by (auto simp: unassigned_def process_locked_def s' notify_def)
  have same: "gone s' = gone s" "length (clients s') = length (clients s)" "completed s' = completed s"
    "queue s' = queue s @ [k]"
    by (simp_all add: s' gone_def)
  have nq: "k \<notin> set (queue s)" using inv(2) CPush un(1) by (auto simp: spark_tasks_def)
  have ni: "i \<notin> gone s"
  proof
    assume "i \<in> gone s"
    then obtain l where l: "l < length (clients s)" "clients s ! l = CWait i \<or> clients s ! l = CReturned i"
      using inv(2) by (auto simp: spark_tasks_def)
    then have "task_of (clients s ! l) = task_of (clients s ! k)" "clients s ! l \<noteq> CStart" using CPush by auto
    with l(1) k CPush inv(1) have "l = k" by (auto simp: spark_ids_def)
    with l(2) CPush show False by simp
  qed
  have "spark_tasks s'"
    unfolding spark_tasks_def same nth un
  proof (intro conjI allI impI ballI)
    fix l assume l: "l \<in> set (queue s @ [k])"
    then show "l < length (clients s)" "\<exists>j. (if l = k then CWait i else clients s ! l) = CWait j \<and> j \<notin> gone s"
      using spark_tasksD(3) [OF inv(2), of l] nq ni k un(1) by auto
  next
    fix l j assume "l < length (clients s)" "(if l = k then CWait i else clients s ! l) = CWait j"
    then show "l \<in> set (queue s @ [k]) \<or> j \<in> gone s"
      using spark_tasksD(4) [OF inv(2), of l j] un(1) by (auto split: if_splits)
  next
    fix j assume "j \<in> gone s"
    from spark_tasksD(6) [OF inv(2) this] CPush
    show "\<exists>l < length (clients s). (if l = k then CWait i else clients s ! l) = CWait j \<or>
        (if l = k then CWait i else clients s ! l) = CReturned j"
      by (metis client_pc.distinct(7,9))
  next
    fix l j assume "l < length (clients s)" "(if l = k then CWait i else clients s ! l) = CReturned j"
    then show "j \<in> completed s" using spark_tasksD(5) [OF inv(2), of l j] by (auto split: if_splits)
  qed (use spark_tasksD(1) [OF inv(2)] nq un(1) in simp_all)
  then show ?thesis using ids by simp
next
  case (CWait i)
  then have i: "i \<in> completed s" and s': "s' = s\<lparr>clients := (clients s)[k := CReturned i]\<rparr>"
    using run by (auto simp: spark_schedule_def split: if_splits)
  have ids: "spark_ids ix s'" by (rule spark_ids_advance [OF inv(1) k, of "CReturned i"]) (simp_all add: CWait s')
  have nth: "clients s' ! l = (if l = k then CReturned i else clients s ! l)" for l using k by (simp add: s')
  have same: "unassigned s' = unassigned s" "gone s' = gone s" "length (clients s') = length (clients s)"
    "processor s' = processor s" "queue s' = queue s" "completed s' = completed s"
    by (simp_all add: s' unassigned_def gone_def)
  have "i \<in> gone s" using i by (simp add: gone_def)
  then have nq: "k \<notin> set (unassigned s)" using inv(2) CWait by (auto simp: spark_tasks_def)
  have "spark_tasks s'"
    unfolding spark_tasks_def same nth
  proof (intro conjI allI impI ballI)
    fix l assume l: "l \<in> set (unassigned s)"
    then show "l < length (clients s)" "\<exists>j. (if l = k then CReturned i else clients s ! l) = CWait j \<and> j \<notin> gone s"
      using spark_tasksD(3) [OF inv(2) l] nq by auto
  next
    fix l j assume "l < length (clients s)" "(if l = k then CReturned i else clients s ! l) = CWait j"
    then show "l \<in> set (unassigned s) \<or> j \<in> gone s"
      using spark_tasksD(4) [OF inv(2), of l j] by (auto split: if_splits)
  next
    fix j assume "j \<in> gone s"
    from spark_tasksD(6) [OF inv(2) this] CWait
    show "\<exists>l < length (clients s). (if l = k then CReturned i else clients s ! l) = CWait j \<or>
        (if l = k then CReturned i else clients s ! l) = CReturned j"
      by (metis client_pc.inject(2) client_pc.distinct(11))
  next
    fix l j assume "l < length (clients s)" "(if l = k then CReturned i else clients s ! l) = CReturned j"
    then show "j \<in> completed s" using spark_tasksD(5) [OF inv(2), of l j] i by (auto split: if_splits)
  qed (use spark_tasksD(1,2) [OF inv(2)] in simp_all)
  then show ?thesis using ids by simp
next
  case (CReturned i)
  then show ?thesis using run by (simp add: spark_schedule_def)
qed

lemma spark_tasks_cong:
  assumes "spark_tasks s" "clients s' = clients s" "unassigned s' = unassigned s" "gone s' = gone s"
    and "completed s \<subseteq> completed s'" "processor s' = PPop \<longrightarrow> queue s' \<noteq> []"
  shows "spark_tasks s'"
  using assms unfolding spark_tasks_def by (auto 0 3)

lemma spark_tasks_process:
  assumes inv: "spark_ids ix s" "spark_tasks s" and run: "spark_process ch p failed s = Some s'"
  shows "spark_ids ix s' \<and> spark_tasks s'"
proof -
  have cl: "clients s' = clients s" "taskIDs s' = taskIDs s" "completed s' = completed s"
    using run by (auto simp: spark_process_def split: process_pc.splits list.splits prod.splits if_splits)
  have ids: "spark_ids ix s'" using inv(1) spark_ids_cong [OF cl(1,2)] by simp
  show ?thesis
  proof (cases "processor s = PLoop \<and> processor s' = PPop")
    case False
    then have "unassigned s' = unassigned s" "gone s' = gone s" "processor s' = PPop \<longrightarrow> queue s' \<noteq> []"
      using run spark_tasksD(2) [OF inv(2)]
      by (auto simp: spark_process_def unassigned_def gone_def
          split: process_pc.splits list.splits prod.splits if_splits)
    with inv(2) cl have "spark_tasks s'" by (intro spark_tasks_cong [OF inv(2)]) simp_all
    then show ?thesis using ids by simp
  next
    case True
    then obtain k rest v t where q: "queue s = k # rest"
      and s': "s' = s\<lparr>sdb := t, calls_in_flight := calls_in_flight s @ [(task_of (clients s ! k), v)], processor := PPop\<rparr>"
      using run by (auto simp: spark_process_def split: list.splits prod.splits if_splits)
    have un: "unassigned s = k # rest" "unassigned s' = rest" using True q by (simp_all add: unassigned_def s')
    obtain i where i: "k < length (clients s)" "clients s ! k = CWait i" "i \<notin> gone s"
      using spark_tasksD(3) [OF inv(2), of k] un(1) by auto
    have gone: "gone s' = insert i (gone s)" using i(2) by (auto simp: s' gone_def)
    have other: "j \<noteq> i" if "l \<in> set rest" "clients s ! l = CWait j" for l j
    proof
      assume "j = i"
      moreover have "l < length (clients s)" using spark_tasksD(3) [OF inv(2), of l] un(1) that(1) by simp
      ultimately have "l = k" using inv(1) i that(2) by (auto simp: spark_ids_def)
      then show False using spark_tasksD(1) [OF inv(2)] un(1) that(1) by simp
    qed
    have "spark_tasks s'"
      unfolding spark_tasks_def un gone cl
    proof (intro conjI allI impI ballI)
      fix l assume l: "l \<in> set rest"
      then show "l < length (clients s)" "\<exists>j. clients s ! l = CWait j \<and> j \<notin> insert i (gone s)"
        using spark_tasksD(3) [OF inv(2), of l] un(1) other [OF l] by auto
    next
      fix l j assume "l < length (clients s)" "clients s ! l = CWait j"
      then show "l \<in> set rest \<or> j \<in> insert i (gone s)"
        using spark_tasksD(4) [OF inv(2), of l j] un(1) i(2) by auto
    next
      fix l j assume "l < length (clients s)" "clients s ! l = CReturned j"
      then show "j \<in> completed s" using spark_tasksD(5) [OF inv(2)] by blast
    next
      fix j assume "j \<in> insert i (gone s)"
      then show "\<exists>l < length (clients s). clients s ! l = CWait j \<or> clients s ! l = CReturned j"
        using spark_tasksD(6) [OF inv(2), of j] i(1,2) by auto
    qed (use spark_tasksD(1) [OF inv(2)] un(1) q s' in simp_all)
    then show ?thesis using ids by simp
  qed
qed

lemma set_remove_nth:
  assumes "j < length xs"
  shows "insert (f (xs ! j)) (f ` set (take j xs @ drop (Suc j) xs)) = f ` set xs"
proof -
  have "set xs = set (take j xs @ xs ! j # drop (Suc j) xs)" using assms by (simp only: id_take_nth_drop [symmetric])
  then show ?thesis by auto
qed

lemma spark_tasks_finish:
  assumes inv: "spark_ids ix s" "spark_tasks s" and run: "spark_finish c ch j failed s = Some s'"
  shows "spark_ids ix s' \<and> spark_tasks s'"
proof -
  have cl: "clients s' = clients s" "taskIDs s' = taskIDs s" "unassigned s' = unassigned s"
    "completed s \<subseteq> completed s'" "processor s' = processor s" "queue s' = queue s"
    using run by (auto simp: spark_finish_def unassigned_def split: finish_pc.splits prod.splits option.splits if_splits)
  have "gone s' = gone s"
  proof (cases "finisher s = FNext \<and> \<not> failed")
    case False
    then show ?thesis
      using run by (auto simp: spark_finish_def gone_def split: finish_pc.splits prod.splits option.splits if_splits)
  next
    case True
    then have j: "j < length (calls_in_flight s)"
      and s': "calls_in_flight s' = take j (calls_in_flight s) @ drop (Suc j) (calls_in_flight s)"
        "completed s' = insert (fst (calls_in_flight s ! j)) (completed s)"
      using run by (auto simp: spark_finish_def split: prod.splits option.splits if_splits)
    show ?thesis
      unfolding gone_def s' set_remove_nth [OF j, symmetric] by simp
  qed
  then have "spark_tasks s'" using cl spark_tasksD(2) [OF inv(2)] by (intro spark_tasks_cong [OF inv(2)]) simp_all
  then show ?thesis using inv(1) spark_ids_cong [OF cl(1,2)] by simp
qed

lemma spark_any_tasks:
  assumes "spark_any c s s'" "spark_ids ix s" "spark_tasks s" "length (clients s) \<le> 2 ^ 32"
  shows "spark_ids ix s' \<and> spark_tasks s' \<and> length (clients s') = length (clients s)"
  using assms(1)
proof (cases rule: spark_any.cases)
  case thread
  then show ?thesis
  proof (cases rule: spark_step.cases)
    case (schedule k)
    moreover have "length (clients s') = length (clients s)"
      using schedule by (auto simp: spark_schedule_def split: client_pc.splits if_splits)
    ultimately show ?thesis using assms(2-4) spark_tasks_schedule by blast
  next
    case (process ch p failed)
    moreover have "length (clients s') = length (clients s)"
      using process by (auto simp: spark_process_def split: process_pc.splits list.splits prod.splits if_splits)
    ultimately show ?thesis using assms(2,3) spark_tasks_process by blast
  next
    case (finish ch j failed)
    moreover have "length (clients s') = length (clients s)"
      using finish by (auto simp: spark_finish_def split: finish_pc.splits prod.splits option.splits if_splits)
    ultimately show ?thesis using assms(2,3) spark_tasks_finish by blast
  qed
next
  case spurious
  then have "spark_tasks s'" by (intro spark_tasks_cong [OF assms(3)]) (simp_all add: unassigned_def gone_def)
  then show ?thesis using assms(2) spark_ids_cong [of s' s ix] spurious by simp
next
  case destroy
  then have cl: "clients s' = clients s" "taskIDs s' = taskIDs s" "unassigned s' = unassigned s" "gone s' = gone s"
    "completed s' = completed s" "processor s' = PPop \<longleftrightarrow> processor s = PPop" "queue s' = queue s"
    by (auto simp: spark_destroy_def unassigned_def gone_def notify_def split: if_splits)
  then have "spark_tasks s'" using spark_tasksD(2) [OF assms(3)] by (intro spark_tasks_cong [OF assms(3)]) simp_all
  then show ?thesis using assms(2) cl spark_ids_cong [OF cl(1,2)] by simp
qed

lemma spark_reach_tasks:
  assumes "spark_reach c (spark_start t ix ds) s" "length ds \<le> 2 ^ 32"
  shows "spark_ids ix s \<and> spark_tasks s \<and> length (clients s) = length ds"
  using assms(1)
proof (induction rule: spark_reach.induct)
  case refl
  then show ?case
    by (auto simp: spark_start_def spark_ids_def spark_tasks_def issued_def unassigned_def gone_def)
next
  case (step s s')
  then show ?case using spark_any_tasks [of c s s' ix] assms(2) by simp
qed

text \<open>
  C16. No task of a Spark client is lost and none is answered early: in every reachable state, with
  at most \<open>2 ^ 32\<close> clients, the task of a client that waits in \<open>schedule\<close> is in the queue, in
  flight, or complete; \<open>schedule\<close> has returned only for tasks whose call has completed; and the
  processing thread never follows a dangling pointer: a queued task that is not yet assigned belongs to
  a client that is still inside \<open>schedule\<close>.
\<close>

theorem Spark_tasks_accounted:
  assumes "spark_reach c (spark_start t ix ds) s" "length ds \<le> 2 ^ 32" "k < length ds"
  shows "(clients s ! k = CWait i \<longrightarrow>
       k \<in> set (unassigned s) \<or> i \<in> fst ` set (calls_in_flight s) \<or> i \<in> completed s) \<and>
    (clients s ! k = CReturned i \<longrightarrow> i \<in> completed s) \<and>
    (k \<in> set (unassigned s) \<longrightarrow> (\<exists>j. clients s ! k = CWait j))"
proof -
  have inv: "spark_tasks s" "length (clients s) = length ds" using spark_reach_tasks [OF assms(1,2)] by simp_all
  show ?thesis
    using spark_tasksD(3-5) [OF inv(1), of k] assms(3) inv(2) by (auto simp: gone_def)
qed

theorem Spark_tasks_accounted_witness:
  "let s = (spark_start empty_tables 7 [3])\<lparr>clients := [CWait 7], taskIDs := 8, queue := [0]\<rparr> in
    0 \<in> set (unassigned s) \<or> 7 \<in> fst ` set (calls_in_flight s) \<or> 7 \<in> completed s"
proof -
  let ?c = "\<lparr>workerCapacity = 1, workerPartitions = 1, numWorkers = 1\<rparr>"
  let ?s0 = "spark_start empty_tables 7 [3]"
  let ?s1 = "?s0\<lparr>clients := [CPush 7], taskIDs := 8\<rparr>"
  let ?s2 = "?s0\<lparr>clients := [CWait 7], taskIDs := 8, queue := [0]\<rparr>"
  have "spark_any ?c ?s0 ?s1"
    by (intro spark_any.thread spark_step.schedule [where k = 0])
      (simp_all add: spark_start_def spark_schedule_def)
  moreover have "spark_any ?c ?s1 ?s2"
    by (intro spark_any.thread spark_step.schedule [where k = 0])
      (simp_all add: spark_start_def spark_schedule_def process_locked_def notify_def)
  ultimately have "spark_reach ?c ?s0 ?s2" by (meson spark_reach.intros)
  from Spark_tasks_accounted [OF this, of 0 7] show ?thesis by (simp add: Let_def)
qed

subsection \<open>Workers are never overcommitted\<close>

lemma FinishWorkerTask_cap:
  assumes "registered P n t" "FinishWorkerTask ch v i p t = Some (r, t')"
  shows "registered P n t' \<and> (cap_of t' = cap_of t \<or>
    (\<exists>k. cap_of t v = Some k \<and> cap_of t' = (cap_of t)(v \<mapsto> k + 1)))"
proof (rule sql_limit_one_cases [of "filter (\<lambda>w. w_PKey w = p \<and> w_WorkerID w = v) (Worker t)" "ch 0"])
  assume "sql_limit (ch 0) (Suc 0) (filter (\<lambda>w. w_PKey w = p \<and> w_WorkerID w = v) (Worker t)) = []"
  then show ?thesis using assms by (simp add: FinishWorkerTask_def)
next
  fix w
  assume w: "w \<in> set (filter (\<lambda>w. w_PKey w = p \<and> w_WorkerID w = v) (Worker t))"
    "sql_limit (ch 0) (Suc 0) (filter (\<lambda>w. w_PKey w = p \<and> w_WorkerID w = v) (Worker t)) = [w]"
  note d = registered_distinct [OF assms(1)]
  have t': "Worker t' = Worker (set_capacity (w_Capacity w + 1) p v t)"
    using assms(2) w(2) by (auto simp: FinishWorkerTask_def Let_def split: if_splits)
  have "0 \<le> w_Capacity w" using w(1) assms(1) by (auto simp: registered_def wf_workers_def)
  then have "wf_workers P t'" using wf_workers_cong [OF t'] assms(1)
    by (simp add: registered_def wf_workers_set_capacity)
  moreover have "layout t' = layout t" using layout_cong [OF t'] by simp
  ultimately have reg: "registered P n t'" using assms(1) registered_layout by blast
  have "cap_of t' = (cap_of t)(v \<mapsto> w_Capacity w + 1)"
    using cap_of_cong [OF t'] cap_of_set_capacity [OF d, of w] w(1) by auto
  moreover have "cap_of t v = Some (w_Capacity w)" using cap_of_worker [OF d, of w] w(1) by auto
  ultimately show ?thesis using reg by blast
qed

lemma length_filter_remove_nth:
  assumes "j < length xs"
  shows "length (filter Q xs) =
    length (filter Q (take j xs @ drop (Suc j) xs)) + (if Q (xs ! j) then 1 else 0)"
proof -
  have "filter Q xs = filter Q (take j xs @ xs ! j # drop (Suc j) xs)"
    using assms by (simp only: id_take_nth_drop [symmetric])
  then show ?thesis by simp
qed

lemma spark_slots_process:
  assumes "registered P n (sdb s)" "spark_process ch p failed s = Some s'"
  shows "registered P n (sdb s') \<and> spark_slots i s' = spark_slots i s"
proof (cases "processor s = PLoop \<and> queue s \<noteq> [] \<and> \<not> failed")
  case False
  then show ?thesis using assms
    by (auto simp: spark_process_def spark_slots_def held_def split: process_pc.splits list.splits if_splits)
next
  case True
  then obtain k q where q: "processor s = PLoop" "queue s = k # q" "\<not> failed" by (auto simp: neq_Nil_conv)
  show ?thesis
  proof (rule SelectSparkWorker_cases [OF assms(1), of p "targets s ! k" ch])
    assume "SelectSparkWorker ch p (targets s ! k) (sdb s) = (-1, sdb s)"
    then show ?thesis using assms q by (auto simp: spark_process_def)
  next
    fix v t'
    assume v: "SelectSparkWorker ch p (targets s ! k) (sdb s) = (w_WorkerID v, t')"
      "takes_slot p (w_WorkerID v) (sdb s) t'" "registered P n t'" "w_WorkerID v \<noteq> -1"
    then show ?thesis using assms(2) q
      by (auto simp: spark_process_def spark_slots_def held_def takes_slot_def)
  qed
qed

lemma spark_slots_finish:
  assumes "registered P n (sdb s)" "spark_finish c ch j failed s = Some s'"
  shows "registered P n (sdb s') \<and> spark_slots i s' \<le> spark_slots i s"
proof (cases "finisher s")
  case FNext
  show ?thesis
  proof (cases failed)
    case True
    then show ?thesis using assms FNext by (auto simp: spark_finish_def spark_slots_def held_def split: if_splits)
  next
    case False
    obtain taskID v where call: "calls_in_flight s ! j = (taskID, v)" by fastforce
    have j: "j < length (calls_in_flight s)"
      and s': "s' = s\<lparr>calls_in_flight := take j (calls_in_flight s) @ drop (Suc j) (calls_in_flight s),
                  completed := insert taskID (completed s), finisher := FUpdate taskID v\<rparr>"
      using assms(2) FNext False call by (simp_all add: spark_finish_def split: if_splits)
    have "held i s' = held i s"
      using length_filter_remove_nth [OF j, of "\<lambda>x. snd x = i"]
      by (simp only: s' held_def FNext call) simp
    then show ?thesis using assms(1) by (simp add: s' spark_slots_def)
  qed
next
  case (FUpdate taskID v)
  show ?thesis
  proof (cases "workerPartitions c = 0 \<or> failed")
    case True
    then show ?thesis using assms FUpdate
      by (auto simp: spark_finish_def spark_slots_def held_def split: if_splits)
  next
    case False
    show ?thesis
    proof (cases "FinishWorkerTask ch v taskID (c_rem v (workerPartitions c)) (sdb s)")
      case None
      then show ?thesis using assms FUpdate False by (auto simp: spark_finish_def spark_slots_def held_def)
    next
      case (Some rt)
      obtain r t' where rt: "rt = (r, t')" by (cases rt)
      have s': "s' = s\<lparr>sdb := t', finisher := FNext\<rparr>"
        using assms(2) FUpdate False Some by (simp add: spark_finish_def rt)
      from FinishWorkerTask_cap [OF assms(1) Some [unfolded rt]] consider
          "registered P n t'" "cap_of t' = cap_of (sdb s)"
        | k where "registered P n t'" "cap_of (sdb s) v = Some k" "cap_of t' = (cap_of (sdb s))(v \<mapsto> k + 1)"
        by blast
      then show ?thesis by cases (auto simp: s' spark_slots_def held_def FUpdate)
    qed
  qed
qed

lemma spark_slots_any:
  assumes "spark_any c s s'" "registered P n (sdb s)"
  shows "registered P n (sdb s') \<and> spark_slots i s' \<le> spark_slots i s"
  using assms(1)
proof (cases rule: spark_any.cases)
  case thread
  then show ?thesis
  proof (cases rule: spark_step.cases)
    case (schedule k)
    then show ?thesis using assms(2)
      by (auto simp: spark_schedule_def spark_slots_def held_def split: client_pc.splits if_splits)
  next
    case (process ch p failed)
    then show ?thesis using spark_slots_process [OF assms(2)] by force
  next
    case (finish ch j failed)
    then show ?thesis using spark_slots_finish [OF assms(2)] by blast
  qed
next
  case spurious
  then show ?thesis using assms(2) by (simp add: spark_slots_def held_def)
next
  case destroy
  then show ?thesis using assms(2)
    by (auto simp: spark_destroy_def spark_slots_def held_def split: if_splits)
qed

text \<open>
  C15. No Spark worker is ever overcommitted: in every state reachable from a well-formed worker table,
  under every interleaving of clients, processing and finishing and with every failure of the database
  or of a call, the free capacity of a worker is not negative, and together with its calls in flight
  it does not exceed the capacity the worker was registered with.
\<close>

theorem Spark_never_overcommits:
  assumes "spark_reach c (spark_start t ix ds) s" "registered P n t" "cap_of t i = Some k"
  shows "int (length (filter (\<lambda>call. snd call = i) (calls_in_flight s))) +
    (case cap_of (sdb s) i of None \<Rightarrow> 0 | Some m \<Rightarrow> m) \<le> k \<and> (\<forall>m. cap_of (sdb s) i = Some m \<longrightarrow> 0 \<le> m)"
proof -
  have inv: "registered P n (sdb s) \<and> spark_slots i s \<le> spark_slots i (spark_start t ix ds)"
    using assms(1)
  proof (induction rule: spark_reach.induct)
    case refl
    then show ?case using assms(2) by (simp add: spark_start_def)
  next
    case (step s s')
    then show ?case using spark_slots_any [of c s s' P n i] by force
  qed
  have "0 \<le> (case finisher s of FNext \<Rightarrow> 0 | FUpdate _ v \<Rightarrow> if v = i then 1 else (0::int))"
    by (simp split: finish_pc.split)
  moreover have "0 \<le> m" if "cap_of (sdb s) i = Some m" for m
    using inv that registered_distinct [of P n "sdb s"]
    by (auto simp: cap_of_Some_iff registered_def wf_workers_def)
  ultimately show ?thesis
    using inv assms(3) by (simp add: spark_slots_def held_def spark_start_def)
qed

theorem Spark_never_overcommits_witness:
  "let t = empty_tables\<lparr>Worker := spark_rows 1 2 1\<rparr>; s = (spark_start t 7 [3])\<lparr>clients := [CPush 7], taskIDs := 8\<rparr>
   in int (length (filter (\<lambda>call. snd call = 0) (calls_in_flight s))) + 2 \<le> 2 \<and> cap_of (sdb s) 0 = Some 2"
proof -
  let ?c = "\<lparr>workerCapacity = 1, workerPartitions = 1, numWorkers = 1\<rparr>"
  let ?t = "empty_tables\<lparr>Worker := spark_rows 1 2 1\<rparr>"
  let ?s0 = "spark_start ?t 7 [3]"
  let ?s1 = "?s0\<lparr>clients := [CPush 7], taskIDs := 8\<rparr>"
  have "spark_any ?c ?s0 ?s1"
    by (intro spark_any.thread spark_step.schedule [where k = 0])
      (simp_all add: spark_start_def spark_schedule_def)
  then have reach: "spark_reach ?c ?s0 ?s1" by (meson spark_reach.intros)
  have cap: "cap_of ?t 0 = Some 2" by (simp add: cap_of_def spark_rows_def)
  have "registered 1 1 ?t" by (rule spark_rows_registered [of 2]) simp_all
  from Spark_never_overcommits [OF reach this cap] cap show ?thesis by (simp add: Let_def spark_start_def)
qed

end
