(* ===== verification/HTTP_Worker.thy ===== *)
theory HTTP_Worker
  imports PushFIFO_Scheduler Text_Util
begin

text \<open>
  \<open>MockHTTPWorker\<close>: it registers itself with its address, and completes each task that the export
  stream pushes to that address. The HTTP server calls \<open>handle_request\<close>; the request is represented
  by the value of its \<open>taskID\<close> header (empty when there is none). \<open>startServing\<close> and
  \<open>handle_request\<close> are the two operations that change the database; an exception from \<open>std::stoi\<close> is not caught and ends the process.
\<close>

section \<open>Definitions\<close>

record MockHTTPWorker =
  h_workerId :: int
  h_pkey :: int
  h_threads :: nat           \<comment> \<open>dispatch threads started\<close>
  h_stopDispatch :: bool

definition MockHTTPWorker_new :: "int \<Rightarrow> int \<Rightarrow> MockHTTPWorker" where
  "MockHTTPWorker_new workerId pkey =
     \<lparr>h_workerId = workerId, h_pkey = pkey, h_threads = 0, h_stopDispatch = False\<rparr>"

definition HTTP_address :: "int \<Rightarrow> string" where
  "HTTP_address workerId = ''http://localhost:'' @ to_string (9090 + workerId)"

definition HTTP_startServing :: "env \<Rightarrow> MockHTTPWorker \<times> world \<Rightarrow> bool \<times> (MockHTTPWorker \<times> world)" where
  "HTTP_startServing env s =
     (case s of (h, w) \<Rightarrow>
      case invoke_status env ''InsertWorker''
             [WInt (h_workerId h), WInt 999999999, WInt (h_pkey h), WStr (HTTP_address (h_workerId h))] w of
        (False, w') \<Rightarrow> (False, (h, w'))
      | (True, w') \<Rightarrow> (True, (h\<lparr>h_threads := Suc (h_threads h)\<rparr>, w')))"

definition HTTP_endServing :: "MockHTTPWorker \<Rightarrow> bool \<times> MockHTTPWorker" where
  "HTTP_endServing h = (True, h\<lparr>h_stopDispatch := True\<rparr>)"

text \<open>The state is \<open>totalTasks_\<close> and the world; the result is the body of the response.\<close>

definition HTTP_handle_request ::
    "env \<Rightarrow> MockHTTPWorker \<Rightarrow> string \<Rightarrow> 64 word \<times> world \<Rightarrow> string result \<times> (64 word \<times> world)" where
  "HTTP_handle_request env h taskIdStr s =
     (case s of (totalTasks, w) \<Rightarrow>
      case stoi taskIdStr of
        Inl e \<Rightarrow> (Inl e, (totalTasks, w))
      | Inr taskId \<Rightarrow>
          (Inr ''Hello, World!'',
           (totalTasks + 1,
            invoke_void env ''WorkerUpdateTask''
              [WInt (h_pkey h), WInt (h_workerId h), WInt taskId, WInt COMPLETE] w)))"

text \<open>
  \<open>dispatch\<close>: each poll of the server handles the requests that have arrived, until the flag is
  set; \<open>polls\<close> has the requests of each poll and whether the flag is set after it (the loop has
  not ended when the list does and no flag was set).
\<close>

fun HTTP_requests ::
    "env \<Rightarrow> MockHTTPWorker \<Rightarrow> string list \<Rightarrow> 64 word \<times> world \<Rightarrow> unit result \<times> (64 word \<times> world)" where
  "HTTP_requests env h [] s = (Inr (), s)"
| "HTTP_requests env h (r # rs) s =
     (case HTTP_handle_request env h r s of
        (Inl e, s') \<Rightarrow> (Inl e, s')
      | (Inr _, s') \<Rightarrow> HTTP_requests env h rs s')"

fun HTTP_dispatch ::
    "env \<Rightarrow> MockHTTPWorker \<Rightarrow> (string list \<times> bool) list \<Rightarrow> 64 word \<times> world \<Rightarrow> unit result \<times> (64 word \<times> world)" where
  "HTTP_dispatch env h [] s = (Inr (), s)"
| "HTTP_dispatch env h ((rs, stop) # polls) s =
     (case HTTP_requests env h rs s of
        (Inl e, s') \<Rightarrow> (Inl e, s')
      | (Inr _, s') \<Rightarrow> (if stop then (Inr (), s') else HTTP_dispatch env h polls s'))"

section \<open>Lemmas\<close>

lemma HTTP_address_inj: "HTTP_address i = HTTP_address j \<Longrightarrow> i = j"
  using to_string_inj [of "9090 + i" "9090 + j"] by (simp add: HTTP_address_def)

text \<open>
  A worker that starts in a quiet environment is registered: its row is added with the capacity
  999999999 and an address no other identifier has, and one dispatch thread runs; when the
  invocation fails, \<open>startServing\<close> returns false, starts no thread and adds nothing.
\<close>

theorem HTTP_startServing_spec:
  assumes "alone env"
  shows "\<exists>w'. HTTP_startServing env (h, w) =
      (\<not> outage env (calls w),
       (if outage env (calls w) then h else h\<lparr>h_threads := Suc (h_threads h)\<rparr>, w')) \<and>
    Worker (tables_of w') = Worker (tables_of w) @
      (if outage env (calls w) then []
       else [\<lparr>w_WorkerID = h_workerId h, w_Capacity = 999999999, w_DataShards = 0, w_PKey = h_pkey h,
              w_Url = HTTP_address (h_workerId h)\<rparr>]) \<and>
    (\<forall>j. HTTP_address j = HTTP_address (h_workerId h) \<longrightarrow> j = h_workerId h)"
  using assms HTTP_address_inj [of _ "h_workerId h"]
  by (auto simp: HTTP_startServing_def invoke_status_def invoke_InsertWorker InsertWorker_def tick_def
      seen_def alone_def)

theorem HTTP_startServing_spec_witness:
  "\<exists>w'. HTTP_startServing quiet_env (MockHTTPWorker_new 3 1, world_with empty_tables) =
      (True, ((MockHTTPWorker_new 3 1)\<lparr>h_threads := 1\<rparr>, w')) \<and>
    map w_Url (Worker (tables_of w')) = [''http://localhost:'' @ to_string 9093]"
  using HTTP_startServing_spec [of quiet_env "MockHTTPWorker_new 3 1" "world_with empty_tables"]
  by (auto simp: MockHTTPWorker_new_def quiet_env_def world_with_def empty_tables_def HTTP_address_def alone_def)

lemma WorkerUpdateTask_returns_slot:
  assumes "wf_workers P t" "takes_slot p i t t'" "fresh_task k t" "\<forall>v \<in> set (Worker t). w_Capacity v < 2 ^ 31"
    and "Task t' = Task t @ [\<lparr>t_TaskID = k, t_WorkerID = i, t_State = RUNNING, t_PKey = p\<rparr>]"
  obtains u where "WorkerUpdateTask p i k COMPLETE t' = Some (SUCCESS, u)" "cap_of u = cap_of t"
    "Task u = Task t @ [\<lparr>t_TaskID = k, t_WorkerID = i, t_State = COMPLETE, t_PKey = p\<rparr>]"
proof -
  note d = wf_workers_distinct [OF assms(1)]
  obtain c where c: "cap_of t i = Some c" "0 < c" "cap_of t' = (cap_of t)(i \<mapsto> c - 1)"
    and lay: "layout t' = layout t" and pk: "i \<in> w_WorkerID ` set (free_workers p t)"
    using assms(2) by (auto simp: takes_slot_def)
  have d': "distinct (map w_WorkerID (Worker t'))" using d layout_ids [OF lay] by simp
  have "c < 2 ^ 31" using c(1) d assms(4) by (auto simp: cap_of_Some_iff)
  then have fits: "fits_integer c" using c(2) by (simp add: fits_integer_def)
  obtain v where v: "v \<in> set (Worker t')" "w_WorkerID v = i" "w_Capacity v = c - 1"
    using c(3) d' cap_of_Some_iff [OF d', of i "c - 1"] by auto
  obtain v0 where v0: "v0 \<in> set (Worker t)" "w_WorkerID v0 = i" "w_PKey v0 = p"
    using pk by (auto simp: free_workers_sub)
  have "(i, w_DataShards v, w_PKey v, w_Url v) \<in> set (layout t)" using v lay [symmetric] by (force simp: layout_def)
  then obtain y where "y \<in> set (Worker t)" "w_WorkerID y = i" "w_PKey y = w_PKey v" by (auto simp: layout_def)
  then have "w_PKey v = p" using v0 distinct_map_key_eq [OF d, of y v0] by simp
  let ?f = "\<lambda>w. w\<lparr>w_Capacity := w_Capacity w + 1\<rparr>"
  let ?u = "t'\<lparr>Task := Task t @ [\<lparr>t_TaskID = k, t_WorkerID = i, t_State = COMPLETE, t_PKey = p\<rparr>],
              Worker := sql_update (\<lambda>w. w_PKey w = p \<and> w_WorkerID w = i) ?f (Worker t')\<rparr>"
  have one: "w = v" if "w \<in> set (Worker t')" "w_WorkerID w = i" for w
    using that v d' by (auto dest: distinct_map_key_eq)
  have "sql_update (\<lambda>r. t_PKey r = p \<and> t_TaskID r = k \<and> t_WorkerID r = i) (\<lambda>r. r\<lparr>t_State := COMPLETE\<rparr>) (Task t) = Task t"
    using assms(3) unfolding sql_update_def by (intro map_idI) (auto simp: fresh_task_def)
  then have "sql_update (\<lambda>r. t_PKey r = p \<and> t_TaskID r = k \<and> t_WorkerID r = i) (\<lambda>r. r\<lparr>t_State := COMPLETE\<rparr>) (Task t') =
      Task t @ [\<lparr>t_TaskID = k, t_WorkerID = i, t_State = COMPLETE, t_PKey = p\<rparr>]"
    using assms(5) by (simp add: sql_update_def)
  moreover have "\<not> (\<exists>w \<in> set (Worker t'). w_PKey w = p \<and> w_WorkerID w = i \<and> \<not> fits_integer (w_Capacity w + 1))"
    using fits one v(3) by auto
  ultimately have "WorkerUpdateTask p i k COMPLETE t' = Some (SUCCESS, ?u)"
    by (simp add: WorkerUpdateTask_def Let_def)
  moreover have "sql_update (\<lambda>w. w_PKey w = p \<and> w_WorkerID w = i) ?f (Worker t') =
      Worker (set_capacity c p i t')"
    using one v(3) by (auto simp: set_capacity_def sql_update_def)
  then have "Worker ?u = Worker (set_capacity c p i t')" by simp
  then have "cap_of ?u = (cap_of t')(i \<mapsto> c)"
    using cap_of_cong [of ?u "set_capacity c p i t'"] cap_of_set_capacity [OF d' v(1), of c] v(2) \<open>w_PKey v = p\<close>
    by simp
  moreover have "(cap_of t')(i \<mapsto> c) = cap_of t" using c(1,3) by (auto simp: fun_eq_iff)
  ultimately show ?thesis using that by simp
qed

text \<open>
  C21. The life of a pushed task: when \<open>selectTaskWorker\<close> of the push scheduler succeeds, it has exported
  the task to the address of a worker with a free slot, and when that worker receives the request with
  the task's number in its header, it answers, counts the task, marks exactly that task complete and
  gives back exactly the slot that was taken.
\<close>

theorem HTTP_push_cycle:
  assumes "reliable env" "alone env" "wf_workers (partitions c) (tables_of w)" "0 < partitions c"
    and "fresh_task taskID (tables_of w)" "- (2 ^ 31) \<le> taskID" "taskID < 2 ^ 31"
    and "\<forall>v \<in> set (Worker (tables_of w)). w_Capacity v < 2 ^ 31"
    and "Push_selectTaskWorker env c taskID w = (Inr True, w1)"
  shows "\<exists>v p w2. v \<in> set (free_workers p (tables_of w)) \<and>
    TaskAssign (tables_of w1) = TaskAssign (tables_of w) @ [(taskID, w_Url v, p)] \<and>
    HTTP_handle_request env (MockHTTPWorker_new (w_WorkerID v) p) (to_string taskID) (n, w1) =
      (Inr ''Hello, World!'', (n + 1, w2)) \<and>
    cap_of (tables_of w2) = cap_of (tables_of w) \<and>
    Task (tables_of w2) = Task (tables_of w) @
      [\<lparr>t_TaskID = taskID, t_WorkerID = w_WorkerID v, t_State = COMPLETE, t_PKey = p\<rparr>]"
proof -
  let ?t = "tables_of w"
  obtain p v where v: "v \<in> set (free_workers p ?t)" "takes_slot p (w_WorkerID v) ?t (tables_of w1)"
    "Task (tables_of w1) = Task ?t @ [\<lparr>t_TaskID = taskID, t_WorkerID = w_WorkerID v, t_State = RUNNING, t_PKey = p\<rparr>]"
    "TaskAssign (tables_of w1) = TaskAssign ?t @ [(taskID, w_Url v, p)]"
    using Push_selectTaskWorker_hit [OF assms(1-3,5,4,9)] by (auto simp: push_hit_def)
  obtain u where u: "WorkerUpdateTask p (w_WorkerID v) taskID COMPLETE (tables_of w1) = Some (SUCCESS, u)"
    "cap_of u = cap_of ?t"
    "Task u = Task ?t @ [\<lparr>t_TaskID = taskID, t_WorkerID = w_WorkerID v, t_State = COMPLETE, t_PKey = p\<rparr>]"
    by (rule WorkerUpdateTask_returns_slot [OF assms(3) v(2) assms(5,8) v(3)])
  have "HTTP_handle_request env (MockHTTPWorker_new (w_WorkerID v) p) (to_string taskID) (n, w1) =
      (Inr ''Hello, World!'', (n + 1, w1\<lparr>tables_of := u, calls := Suc (calls w1)\<rparr>))"
    using u(1) assms(1,2,6,7)
    by (simp add: HTTP_handle_request_def stoi_to_string invoke_void_def invoke_WorkerUpdateTask
        MockHTTPWorker_new_def reliable_def alone_def seen_def tick_def)
  then show ?thesis using v u by (intro exI [of _ v] exI [of _ p] exI) auto
qed

theorem HTTP_push_cycle_witness:
  "let t = empty_tables\<lparr>Worker := worker_rows 1 1 1\<rparr> in
   \<exists>w1 w2. Push_selectTaskWorker quiet_env \<lparr>partitions = 1, numTasks = 0, probMultiTx = 0\<rparr> 9 (world_with t) =
      (Inr True, w1) \<and>
    HTTP_handle_request quiet_env (MockHTTPWorker_new 0 0) (to_string 9) (5, w1) =
      (Inr ''Hello, World!'', (6, w2)) \<and> cap_of (tables_of w2) = cap_of t \<and>
    Task (tables_of w2) = [\<lparr>t_TaskID = 9, t_WorkerID = 0, t_State = COMPLETE, t_PKey = 0\<rparr>]"
proof -
  let ?t = "empty_tables\<lparr>Worker := worker_rows 1 1 1\<rparr>"
  let ?c = "\<lparr>partitions = 1, numTasks = 0, probMultiTx = 0\<rparr>"
  have rows: "worker_rows 1 1 1 =
      [\<lparr>w_WorkerID = 0, w_Capacity = 1, w_DataShards = 0, w_PKey = 0, w_Url = []\<rparr>]"
    by (simp add: worker_rows_def c_rem_nonneg)
  have free: "free_workers p ?t = (if p = 0
      then [\<lparr>w_WorkerID = 0, w_Capacity = 1, w_DataShards = 0, w_PKey = 0, w_Url = []\<rparr>] else [])" for p
    by (simp add: free_workers_def rows)
  have "registered 1 1 ?t" by simp
  then have wf: "wf_workers 1 ?t" by (simp add: registered_def)
  have fresh: "fresh_task 9 ?t" by (simp add: fresh_task_def empty_tables_def)
  have "\<exists>p \<in> tri_visits 1 0. free_workers p ?t \<noteq> []" by (simp add: tri_visits_one free)
  then obtain w1 where w1: "Push_selectTaskWorker quiet_env ?c 9 (world_with ?t) = (Inr True, w1)"
    using Push_selectTaskWorker_cases [of quiet_env ?c "world_with ?t" 9 0] wf fresh by auto
  have "\<forall>v \<in> set (Worker ?t). w_Capacity v < 2 ^ 31" by (simp add: rows)
  then obtain v p w2 where *: "v \<in> set (free_workers p ?t)"
    "HTTP_handle_request quiet_env (MockHTTPWorker_new (w_WorkerID v) p) (to_string 9) (5, w1) =
      (Inr ''Hello, World!'', (5 + 1, w2))"
    "cap_of (tables_of w2) = cap_of ?t"
    "Task (tables_of w2) = Task ?t @ [\<lparr>t_TaskID = 9, t_WorkerID = w_WorkerID v, t_State = COMPLETE, t_PKey = p\<rparr>]"
    using HTTP_push_cycle [of quiet_env ?c "world_with ?t" 9 w1 5] wf fresh w1 by auto
  have "p = 0" using *(1) by (simp add: free split: if_splits)
  with *(1) have "w_WorkerID v = 0" by (simp add: free)
  with * w1 \<open>p = 0\<close> show ?thesis by (auto simp: empty_tables_def)
qed

end
