(* ===== verification/Scheduler_Class.thy ===== *)
theory Scheduler_Class
  imports FIFO_Scheduler LocalFIFO_Scheduler SingleFIFOTask_Scheduler PushFIFO_Scheduler
    FIFOTask_Scheduler ScanTask_Scheduler Spark_Scheduler
begin

text \<open>
  The schedulers behind their common base class \<open>VoltdbSchedulerUtil\<close>: construction by the name of an
  algorithm, as the simulation programs do it, and the virtual operations \<open>setup\<close>, \<open>teardown\<close>,
  \<open>schedule\<close> and \<open>asyncSchedule\<close>. The state is the world and the static variables of the classes: the
  task counters, one in each source file that has one, and the vector of Spark workers. \<open>SchedulerServer\<close>
  offers \<open>schedule\<close> of any of them as a service.
\<close>

section \<open>Definitions\<close>

datatype scheduler =
    Fifo PartitionedFIFOScheduler
  | FifoLocal PartitionedLocalFIFOScheduler
  | FifoTask PartitionedFIFOTaskScheduler
  | SinglePartitioned SinglePartitionedFIFOTaskScheduler
  | Spark SparkScheduler
  | ScanTask PartitionedScanTask
  | PushFifo PushFIFOScheduler

text \<open>The static variables of a program that \<open>constructScheduler\<close> reads.\<close>

record sched_params =
  sp_partitions :: int
  sp_numTasks :: int
  sp_workerCapacity :: int
  sp_numWorkers :: int
  sp_probMultiTx :: real

definition new_Fifo :: "'a sched_params_scheme \<Rightarrow> scheduler" where
  "new_Fifo c = Fifo (PartitionedFIFOScheduler.make (sp_workerCapacity c) (sp_partitions c) (sp_numWorkers c))"

definition new_FifoLocal :: "'a sched_params_scheme \<Rightarrow> scheduler" where
  "new_FifoLocal c =
     FifoLocal (PartitionedLocalFIFOScheduler.make (sp_workerCapacity c) (sp_partitions c) (sp_numWorkers c))"

definition new_FifoTask :: "'a sched_params_scheme \<Rightarrow> scheduler" where
  "new_FifoTask c = FifoTask (PartitionedFIFOTaskScheduler.make (sp_partitions c) (sp_numTasks c)
     (sp_workerCapacity c) (sp_numWorkers c) (sp_probMultiTx c))"

definition new_SinglePartitioned :: "'a sched_params_scheme \<Rightarrow> real \<Rightarrow> scheduler" where
  "new_SinglePartitioned c prob =
     SinglePartitioned (SinglePartitionedFIFOTaskScheduler.make (sp_partitions c) (sp_numTasks c)
     (sp_workerCapacity c) (sp_numWorkers c) prob)"

definition new_Spark :: "'a sched_params_scheme \<Rightarrow> scheduler" where
  "new_Spark c = Spark (SparkScheduler.make (sp_workerCapacity c) (sp_partitions c) (sp_numWorkers c))"

definition new_ScanTask :: "'a sched_params_scheme \<Rightarrow> scheduler" where
  "new_ScanTask c = ScanTask (PartitionedScanTask.make (sp_partitions c) (sp_numTasks c)
     (sp_numWorkers c) (sp_probMultiTx c))"

definition new_PushFifo :: "'a sched_params_scheme \<Rightarrow> scheduler" where
  "new_PushFifo c = PushFifo (PushFIFOScheduler.make (sp_partitions c) (sp_numTasks c) (sp_probMultiTx c))"

text \<open>
  The base class constructor connects to every host of the list; a host that refuses makes it throw,
  and nobody catches the exception.
\<close>

definition connected :: "(string \<Rightarrow> bool) \<Rightarrow> string \<Rightarrow> scheduler \<Rightarrow> scheduler option result" where
  "connected accepts dbAddr sch =
     (if snd (VoltdbSchedulerUtil_init accepts dbAddr) then Inr (Some sch) else Inl Uncaught)"

record sched_state =
  ss_world :: world
  ss_local :: "32 word"
  ss_single :: "32 word"
  ss_push :: "32 word"
  ss_spark :: "32 word"
  ss_workers :: "MockGRPCWorker list"

definition on_world :: "sched_state \<Rightarrow> 'r \<times> world \<Rightarrow> 'r \<times> sched_state" where
  "on_world s x = (fst x, s\<lparr>ss_world := snd x\<rparr>)"

definition scheduler_setup :: "env \<Rightarrow> scheduler \<Rightarrow> sched_state \<Rightarrow> bool result \<times> sched_state" where
  "scheduler_setup env sch s =
     (case sch of
        Fifo c \<Rightarrow> on_world s (FIFO_setup env c (ss_world s))
      | FifoLocal c \<Rightarrow> on_world s (LocalFIFO_setup env c (ss_world s))
      | FifoTask c \<Rightarrow> on_world s (FIFOTask_setup env c (ss_world s))
      | SinglePartitioned c \<Rightarrow> on_world s (Single_setup env c (ss_world s))
      | Spark c \<Rightarrow>
          (case Spark_setup env c (ss_workers s, ss_world s) of
             (r, (ws, w)) \<Rightarrow> (r, s\<lparr>ss_workers := ws, ss_world := w\<rparr>))
      | ScanTask c \<Rightarrow> on_world s (ScanTask_setup env c (ss_world s))
      | PushFifo c \<Rightarrow> (case Push_setup env (ss_world s) of (r, w) \<Rightarrow> (Inr r, s\<lparr>ss_world := w\<rparr>)))"

definition scheduler_teardown :: "env \<Rightarrow> scheduler \<Rightarrow> sched_state \<Rightarrow> bool \<times> sched_state" where
  "scheduler_teardown env sch s =
     (case sch of
        Fifo c \<Rightarrow> on_world s (FIFO_teardown env (ss_world s))
      | FifoLocal c \<Rightarrow> on_world s (LocalFIFO_teardown env (ss_world s))
      | FifoTask c \<Rightarrow> on_world s (FIFOTask_teardown env (ss_world s))
      | SinglePartitioned c \<Rightarrow> on_world s (Single_teardown env (ss_world s))
      | Spark c \<Rightarrow>
          (case Spark_teardown env (ss_workers s, ss_world s) of
             (r, (ws, w)) \<Rightarrow> (r, s\<lparr>ss_workers := ws, ss_world := w\<rparr>))
      | ScanTask c \<Rightarrow> on_world s (ScanTask_teardown (ss_world s))
      | PushFifo c \<Rightarrow> on_world s (Push_teardown env (ss_world s)))"

text \<open>
  \<open>SparkScheduler::schedule\<close> with one client, whose task is processed and finished before the next:
  \<open>None\<close> when the polling has not ended within the fuel.
\<close>

definition Spark_schedule ::
    "nat \<Rightarrow> env \<Rightarrow> SparkScheduler \<Rightarrow> Task_struct \<Rightarrow> 32 word \<times> world \<Rightarrow>
     (bool result \<times> (32 word \<times> world)) option" where
  "Spark_schedule fuel env c task s =
     (case s of (ids, w) \<Rightarrow>
      case fetch_add ids of (taskID, ids') \<Rightarrow>
      (case Spark_selectWorker fuel env (targetData task) w of
         None \<Rightarrow> None
       | Some (Inl e, w1) \<Rightarrow> Some (Inl e, (ids', w1))
       | Some (Inr workerId, w1) \<Rightarrow>
           (if workerId < 0 then Some (Inl AssertFailed, (ids', w1))
            else case Spark_finishTask env c taskID workerId ({}, w1) of
                   (Inl e, (_, w2)) \<Rightarrow> Some (Inl e, (ids', w2))
                 | (Inr _, (_, w2)) \<Rightarrow> Some (Inr True, (ids', w2)))))"

definition scheduler_schedule ::
    "nat \<Rightarrow> env \<Rightarrow> scheduler \<Rightarrow> Task_struct \<Rightarrow> sched_state \<Rightarrow> (bool result \<times> sched_state) option" where
  "scheduler_schedule fuel env sch task s =
     (case sch of
        Fifo c \<Rightarrow> Some (on_world s (FIFO_schedule env c task (ss_world s)))
      | FifoLocal c \<Rightarrow>
          (case LocalFIFO_schedule env c task (ss_local s, ss_world s) of
             (r, (ix, w)) \<Rightarrow> Some (r, s\<lparr>ss_local := ix, ss_world := w\<rparr>))
      | FifoTask c \<Rightarrow> Some (on_world s (FIFOTask_schedule env c task (ss_world s)))
      | SinglePartitioned c \<Rightarrow>
          (case Single_schedule env c task (ss_single s, ss_world s) of
             (r, (ix, w)) \<Rightarrow> Some (r, s\<lparr>ss_single := ix, ss_world := w\<rparr>))
      | Spark c \<Rightarrow>
          (case Spark_schedule fuel env c task (ss_spark s, ss_world s) of
             None \<Rightarrow> None
           | Some (r, (ix, w)) \<Rightarrow> Some (r, s\<lparr>ss_spark := ix, ss_world := w\<rparr>))
      | ScanTask c \<Rightarrow> Some (on_world s (ScanTask_schedule env c task (ss_world s)))
      | PushFifo c \<Rightarrow>
          (case Push_schedule env c task (ss_push s, ss_world s) of
             (r, (ix, w)) \<Rightarrow> Some (r, s\<lparr>ss_push := ix, ss_world := w\<rparr>)))"

text \<open>Three classes override \<open>asyncSchedule\<close>; the others inherit the one that aborts.\<close>

definition scheduler_asyncSchedule :: "env \<Rightarrow> scheduler \<Rightarrow> sched_state \<Rightarrow> bool result \<times> sched_state" where
  "scheduler_asyncSchedule env sch s =
     (case sch of
        Fifo c \<Rightarrow> on_world s (FIFO_asyncSchedule env c (ss_world s))
      | FifoLocal c \<Rightarrow>
          (case LocalFIFO_asyncSchedule env c (ss_local s, ss_world s) of
             (r, (ix, w)) \<Rightarrow> (r, s\<lparr>ss_local := ix, ss_world := w\<rparr>))
      | SinglePartitioned c \<Rightarrow>
          (case Single_asyncSchedule env c (ss_single s, ss_world s) of
             (r, (ix, w)) \<Rightarrow> (r, s\<lparr>ss_single := ix, ss_world := w\<rparr>))
      | _ \<Rightarrow> on_world s (VoltdbSchedulerUtil_asyncSchedule (ss_world s)))"

text \<open>
  \<open>SchedulerServer\<close>: the reply is a success whatever \<open>schedule\<close> returns.
\<close>

definition Server_SubmitTask ::
    "nat \<Rightarrow> env \<Rightarrow> scheduler \<Rightarrow> SubmitTaskRequest \<Rightarrow> sched_state \<Rightarrow> (bool result \<times> sched_state) option" where
  "Server_SubmitTask fuel env sch request s =
     (let task = protobufToTask request
      in case scheduler_schedule fuel env sch task s of
           None \<Rightarrow> None
         | Some (Inl e, s') \<Rightarrow> Some (Inl e, s')
         | Some (Inr _, s') \<Rightarrow> Some (Inr True, s'))"

definition Server_address :: "int \<Rightarrow> string" where
  "Server_address port = ''0.0.0.0:'' @ to_string port"

text \<open>The schedulers that record each task they assign.\<close>

definition records_tasks :: "scheduler \<Rightarrow> bool" where
  "records_tasks sch =
     (case sch of FifoLocal _ \<Rightarrow> True | SinglePartitioned _ \<Rightarrow> True | PushFifo _ \<Rightarrow> True | _ \<Rightarrow> False)"

text \<open>The worker table is well formed and worker \<open>i\<close> has \<open>S i\<close> slots, free or taken by open tasks.\<close>

definition slots_are :: "int \<Rightarrow> (int \<Rightarrow> int) \<Rightarrow> tables \<Rightarrow> bool" where
  "slots_are P S t \<longleftrightarrow> wf_workers P t \<and> (\<forall>i. slots i t = S i)"

section \<open>Lemmas\<close>

lemma connected_not_null [simp]: "connected accepts dbAddr sch \<noteq> Inr None"
  by (simp add: connected_def)

lemma on_world_simps [simp]: "fst (on_world s x) = fst x" "ss_world (snd (on_world s x)) = snd x"
  by (simp_all add: on_world_def)

lemma schedule_conserves:
  assumes "records_tasks sch" "slots_are P S (tables_of (ss_world s))" "others_keep env (slots_are P S)"
    and "scheduler_schedule fuel env sch task s = Some (r, s')"
  shows "slots_are P S (tables_of (ss_world s'))"
proof -
  have I: "wf_workers P (tables_of (snd (ix, ss_world s))) \<and> (\<forall>i. slots i (tables_of (snd (ix, ss_world s))) = S i)"
    for ix :: "32 word" using assms(2) by (simp add: slots_are_def)
  have o: "others_keep env (\<lambda>t. wf_workers P t \<and> (\<forall>i. slots i t = S i))"
    using assms(3) by (simp add: slots_are_def others_keep_def)
  show ?thesis
  proof (cases sch)
    case (FifoLocal c)
    then show ?thesis
      using assms(4) LocalFIFO_schedule_conserves_slots [OF I o, of c task "ss_local s"]
      by (auto simp: scheduler_schedule_def slots_are_def split: prod.splits)
  next
    case (SinglePartitioned c)
    then show ?thesis
      using assms(4) Single_schedule_conserves_slots [OF I o, of c task "ss_single s"]
      by (auto simp: scheduler_schedule_def slots_are_def split: prod.splits)
  next
    case (PushFifo c)
    then show ?thesis
      using assms(4) Push_schedule_conserves_slots [OF I o, of c task "ss_push s"]
      by (auto simp: scheduler_schedule_def slots_are_def split: prod.splits)
  qed (use assms(1) in \<open>simp_all add: records_tasks_def\<close>)
qed

lemma asyncSchedule_conserves:
  assumes "records_tasks sch" "slots_are P S (tables_of (ss_world s))" "others_keep env (slots_are P S)"
  shows "slots_are P S (tables_of (ss_world (snd (scheduler_asyncSchedule env sch s))))"
proof -
  have rm: "slots_are P S (tables_of w1)" if "rand_mod env a (ss_world s) = (x, w1)" for a x w1
    using that assms(2) by (auto simp: rand_mod_def c_rand_def)
  have ord: "slots_are P S (tables_of (invoke_async env ''SelectOrderedWorker'' [WInt p, WInt i] w))"
    if "slots_are P S (tables_of w)" for p i w
    using others_keep_seen [OF assms(3) that]
    by (auto simp: invoke_async_def invoke_SelectOrderedWorker slots_are_def
        dest: ord.run_wf ord.run_slots [OF wf_workers_distinct] split: prod.split option.split)
  have single: "slots_are P S (tables_of (invoke_async env ''SelectSinglePartitionedTaskWorker'' [WInt p, WInt i] w))"
    if "slots_are P S (tables_of w)" for p i w
    using others_keep_seen [OF assms(3) that]
    by (auto simp: invoke_async_def invoke_SelectSinglePartitionedTaskWorker slots_are_def
        dest: single.run_wf single.run_slots [OF wf_workers_distinct] split: prod.split option.split)
  show ?thesis
    using assms(1,2) rm ord single
    by (cases sch)
      (auto simp: records_tasks_def scheduler_asyncSchedule_def LocalFIFO_asyncSchedule_def Single_asyncSchedule_def
        VoltdbSchedulerUtil_asyncSchedule_def fetch_add_def Let_def split: prod.split sum.split)
qed

text \<open>
  C27. Slots are conserved through the common interface: for each scheduler that records its tasks, and
  whatever happens between its transactions as long as the other clients (workers and other schedulers)
  keep the worker table well formed and conserve slots, and whichever of its invocations fail, a task
  submitted to the server, scheduled directly or scheduled asynchronously leaves, for every worker, the
  free capacity plus the number of its open tasks as it was.
\<close>

theorem scheduler_conserves_slots:
  assumes "records_tasks sch" "slots_are P S (tables_of (ss_world s))" "others_keep env (slots_are P S)"
  shows "(\<forall>r s'. Server_SubmitTask fuel env sch request s = Some (r, s') \<longrightarrow> slots_are P S (tables_of (ss_world s'))) \<and>
    (\<forall>r s'. scheduler_schedule fuel env sch task s = Some (r, s') \<longrightarrow> slots_are P S (tables_of (ss_world s'))) \<and>
    slots_are P S (tables_of (ss_world (snd (scheduler_asyncSchedule env sch s))))"
proof -
  have "slots_are P S (tables_of (ss_world s'))" if "Server_SubmitTask fuel env sch request s = Some (r, s')" for r s'
    using that schedule_conserves [OF assms, of fuel "protobufToTask request"]
    by (auto simp: Server_SubmitTask_def Let_def split: option.splits prod.splits sum.splits)
  moreover have "slots_are P S (tables_of (ss_world s'))" if "scheduler_schedule fuel env sch task s = Some (r, s')" for r s'
    using schedule_conserves [OF assms that] .
  ultimately show ?thesis using asyncSchedule_conserves [OF assms] by blast
qed

theorem scheduler_conserves_slots_witness:
  "let t = empty_tables\<lparr>Worker := worker_rows 2 4 3\<rparr>;
       sch = FifoLocal (PartitionedLocalFIFOScheduler.make 4 2 3);
       s = \<lparr>ss_world = world_with t, ss_local = 0, ss_single = 0, ss_push = 0, ss_spark = 0, ss_workers = []\<rparr>
   in slots_are 2 (\<lambda>i. slots i t)
        (tables_of (ss_world (snd (scheduler_asyncSchedule (quiet_env\<lparr>outage := (\<lambda>k. k = 1)\<rparr>) sch s))))"
proof -
  let ?t = "empty_tables\<lparr>Worker := worker_rows 2 4 3\<rparr>"
  let ?s = "\<lparr>ss_world = world_with ?t, ss_local = 0, ss_single = 0, ss_push = 0, ss_spark = 0, ss_workers = []\<rparr>"
  have "registered 2 3 ?t" by simp
  then have "slots_are 2 (\<lambda>i. slots i ?t) (tables_of (ss_world ?s))" by (simp add: slots_are_def registered_def)
  moreover have "others_keep (quiet_env\<lparr>outage := (\<lambda>k. k = 1)\<rparr>) (slots_are 2 (\<lambda>i. slots i ?t))"
    by (simp add: others_keep_def quiet_env_def)
  ultimately show ?thesis
    unfolding Let_def
    by (intro scheduler_conserves_slots [THEN conjunct2, THEN conjunct2]) (simp_all add: records_tasks_def)
qed

end
