(* ===== verification/Bench_Util.thy ===== *)
theory Bench_Util
  imports Prelude "HOL-Library.Multiset"
begin

text \<open>
  \<open>BenchmarkUtil\<close> (statistics of recorded latencies, the results file) and the arrival generators of
  \<open>RandomGenerator.h\<close>. A \<open>double\<close> is a real number; every operation on doubles rounds its exact
  result with the parameter \<open>dbl\<close>. What the proofs need of it is \<open>ieee_rounding\<close>: it is
  monotone and exact on the numbers with a significand of at most 53 bits.
\<close>

section \<open>Definitions\<close>

subsection \<open>Rounding\<close>

definition ieee_rounding :: "(real \<Rightarrow> real) \<Rightarrow> bool" where
  "ieee_rounding dbl \<longleftrightarrow> mono dbl \<and>
     (\<forall>k :: int. \<forall>j :: nat. \<bar>k\<bar> \<le> 2 ^ 53 \<longrightarrow> j \<le> 1000 \<longrightarrow> dbl (of_int k / 2 ^ j) = of_int k / 2 ^ j)"

text \<open>\<open>static_cast<int>\<close> of a double, towards zero.\<close>

definition to_int :: "real \<Rightarrow> int" where
  "to_int x = (if 0 \<le> x then \<lfloor>x\<rfloor> else \<lceil>x\<rceil>)"

subsection \<open>BenchmarkUtil\<close>

definition timespecToUsec :: "64 word \<Rightarrow> 64 word \<Rightarrow> 64 word" where
  "timespecToUsec tv_sec tv_nsec = tv_sec * 1000000 + tv_nsec div 1000"

record Statistics =
  st_count :: nat
  st_average :: real
  st_stddev :: real
  st_min :: real
  st_max :: real
  st_P50 :: real
  st_P90 :: real
  st_P95 :: real
  st_P99 :: real

definition zero_stats :: Statistics where
  "zero_stats = \<lparr>st_count = 0, st_average = 0, st_stddev = 0, st_min = 0, st_max = 0,
     st_P50 = 0, st_P90 = 0, st_P95 = 0, st_P99 = 0\<rparr>"

text \<open>The two accumulation loops.\<close>

fun sum_loop :: "(real \<Rightarrow> real) \<Rightarrow> real \<Rightarrow> real list \<Rightarrow> real" where
  "sum_loop dbl acc [] = acc"
| "sum_loop dbl acc (x # xs) = sum_loop dbl (dbl (acc + x)) xs"

fun square_loop :: "(real \<Rightarrow> real) \<Rightarrow> real \<Rightarrow> real \<Rightarrow> real list \<Rightarrow> real" where
  "square_loop dbl average acc [] = acc"
| "square_loop dbl average acc (x # xs) =
     (let diff = \<bar>dbl (x - average)\<bar>
      in square_loop dbl average (dbl (acc + dbl (diff * diff))) xs)"

text \<open>\<open>rawData[static_cast<int>(count * q)]\<close>, on the sorted array.\<close>

definition percentile :: "(real \<Rightarrow> real) \<Rightarrow> real \<Rightarrow> real list \<Rightarrow> real" where
  "percentile dbl q xs = xs ! nat (to_int (dbl (of_nat (length xs) * dbl q)))"

text \<open>The statistics of the array, and the array as it is left behind.\<close>

definition computeStats :: "(real \<Rightarrow> real) \<Rightarrow> real list \<Rightarrow> Statistics \<times> real list" where
  "computeStats dbl rawData =
     (let count = length rawData in
      if count = 0 then (zero_stats, rawData)
      else
        let sorted_data = sort rawData;
            average = dbl (sum_loop dbl 0 sorted_data / dbl (of_nat count));
            stddev = dbl (sqrt (dbl (square_loop dbl average 0 sorted_data / dbl (of_nat count))))
        in (\<lparr>st_count = count, st_average = average, st_stddev = stddev,
             st_min = sorted_data ! 0, st_max = sorted_data ! (count - 1),
             st_P50 = sorted_data ! (count div 2), st_P90 = percentile dbl (9 / 10) sorted_data,
             st_P95 = percentile dbl (95 / 100) sorted_data, st_P99 = percentile dbl (99 / 100) sorted_data\<rparr>,
            sorted_data))"

text \<open>
  \<open>processResults\<close>: one row of the results file for each interval, the first one twice, the
  first time with duration 0; \<open>None\<close> when an index is outside of its vector or of the array. The
  name and the formatting of the numbers are left out. \<open>DurationInMsec\<close> and throughput are
  doubles; a division by zero duration gives an infinity, which is \<open>None\<close> here.
\<close>

record result_row =
  row_time :: "64 word"
  row_duration :: real
  row_stats :: Statistics
  row_throughput :: "real option"

definition double_div :: "(real \<Rightarrow> real) \<Rightarrow> real \<Rightarrow> real \<Rightarrow> real option" where
  "double_div dbl x y = (if y = 0 then None else Some (dbl (x / y)))"

definition process_interval ::
    "(real \<Rightarrow> real) \<Rightarrow> 32 word list \<Rightarrow> 64 word list \<Rightarrow> nat \<Rightarrow> real list \<Rightarrow> (result_row \<times> real list) option" where
  "process_interval dbl indices timeStampsUsec i latencies =
     (let lo = unat (indices ! (i - 1));
          numEntries = unat (indices ! i - indices ! (i - 1));
          durationMsec = dbl (dbl (of_nat (unat (timeStampsUsec ! i - timeStampsUsec ! (i - 1)))) / 1000)
      in if lo + numEntries > length latencies \<or> i \<ge> length timeStampsUsec then None
         else case computeStats dbl (take numEntries (drop lo latencies)) of
                (stats, xs) \<Rightarrow>
                  Some (\<lparr>row_time = timeStampsUsec ! i, row_duration = durationMsec, row_stats = stats,
                         row_throughput = double_div dbl (dbl (dbl (of_nat numEntries) * 1000)) durationMsec\<rparr>,
                        take lo latencies @ xs @ drop (lo + numEntries) latencies))"

fun process_intervals ::
    "(real \<Rightarrow> real) \<Rightarrow> 32 word list \<Rightarrow> 64 word list \<Rightarrow> nat list \<Rightarrow> real list \<Rightarrow>
     (result_row list \<times> real list) option" where
  "process_intervals dbl indices timeStampsUsec [] latencies = Some ([], latencies)"
| "process_intervals dbl indices timeStampsUsec (i # is) latencies =
     (case process_interval dbl indices timeStampsUsec i latencies of
        None \<Rightarrow> None
      | Some (row, latencies') \<Rightarrow>
          (case process_intervals dbl indices timeStampsUsec is latencies' of
             None \<Rightarrow> None
           | Some (rows, latencies'') \<Rightarrow>
               Some ((if i = 1 then [row\<lparr>row_time := timeStampsUsec ! 0, row_duration := 0\<rparr>, row] else [row])
                       @ rows, latencies'')))"

record results =
  res_rows :: "result_row list"
  res_totalEntries :: "32 word"
  res_throughput :: "real option"

definition processResults ::
    "(real \<Rightarrow> real) \<Rightarrow> bool \<Rightarrow> real list \<Rightarrow> 32 word list \<Rightarrow> 64 word list \<Rightarrow> results option result" where
  "processResults dbl file_opens latencies indices timeStampsUsec =
     (if \<not> file_opens then Inr None
      else case process_intervals dbl indices timeStampsUsec [1..<length indices] latencies of
             None \<Rightarrow> Inl OutOfRange
           | Some (rows, _) \<Rightarrow>
               (if indices = [] \<or> length indices > length timeStampsUsec then Inl OutOfRange
                else let n = length indices;
                         total = indices ! (n - 1);
                         sec = dbl (dbl (of_nat (unat (timeStampsUsec ! (n - 1) - timeStampsUsec ! 0))) / 1000000)
                     in Inr (Some \<lparr>res_rows = rows, res_totalEntries = total,
                          res_throughput = double_div dbl (of_nat (unat total)) sec\<rparr>)))"

subsection \<open>Arrival generators\<close>

record Fixed = interval :: real

definition Fixed_updateInterval :: "(real \<Rightarrow> real) \<Rightarrow> real \<Rightarrow> Fixed" where
  "Fixed_updateInterval dbl reqRate = \<lparr>interval = (if reqRate \<le> 0 then 0 else dbl (1 / reqRate))\<rparr>"

definition Fixed_getreqRate :: "(real \<Rightarrow> real) \<Rightarrow> Fixed \<Rightarrow> real" where
  "Fixed_getreqRate dbl g = (if interval g \<le> 0 then -1 else dbl (1 / interval g))"

definition Fixed_generate :: "Fixed \<Rightarrow> real" where
  "Fixed_generate g = interval g"

text \<open>
  The distributions of the standard library draw from the state of a generator: \<open>draw param\<close> gives
  the next value for a parameter. \<open>lambda_ == lambda_\<close> in \<open>Poisson::setreqRate\<close> compares the field
  with itself.
\<close>

record Poisson =
  p_lambda :: real
  p_param :: real              \<comment> \<open>parameter of \<open>expIG\<close>\<close>

definition Poisson_new :: "real \<Rightarrow> Poisson" where
  "Poisson_new reqRate = \<lparr>p_lambda = reqRate, p_param = reqRate\<rparr>"

definition Poisson_generate :: "(real \<Rightarrow> 'g \<Rightarrow> real \<times> 'g) \<Rightarrow> Poisson \<Rightarrow> 'g \<Rightarrow> real \<times> 'g" where
  "Poisson_generate draw p gen = (if p_lambda p \<le> 0 then (86400, gen) else draw (p_param p) gen)"

definition Poisson_setreqRate :: "real \<Rightarrow> Poisson \<Rightarrow> bool \<times> Poisson" where
  "Poisson_setreqRate lam p =
     (if p_lambda p = p_lambda p then (False, p)
      else (True, (p\<lparr>p_lambda := lam\<rparr>)\<lparr>p_param := (if lam > 0 then lam else p_param p)\<rparr>))"

record Uniform =
  u_lambda :: real
  u_max :: real                \<comment> \<open>upper bound of \<open>uniformIG\<close>\<close>

definition Uniform_new :: "(real \<Rightarrow> real) \<Rightarrow> real \<Rightarrow> Uniform" where
  "Uniform_new dbl reqRate = \<lparr>u_lambda = reqRate, u_max = dbl (2 / reqRate)\<rparr>"

definition Uniform_generate :: "(real \<Rightarrow> 'g \<Rightarrow> real \<times> 'g) \<Rightarrow> Uniform \<Rightarrow> 'g \<Rightarrow> real \<times> 'g" where
  "Uniform_generate draw u gen = (if u_lambda u \<le> 0 then (86400, gen) else draw (u_max u) gen)"

definition Uniform_setreqRate :: "(real \<Rightarrow> real) \<Rightarrow> real \<Rightarrow> Uniform \<Rightarrow> bool \<times> Uniform" where
  "Uniform_setreqRate dbl lam u =
     (if u_lambda u = lam then (False, u)
      else (True, u\<lparr>u_lambda := lam, u_max := (if lam > 0 then dbl (2 / lam) else u_max u)\<rparr>))"

text \<open>The entries of one interval.\<close>

definition interval_data :: "32 word list \<Rightarrow> nat \<Rightarrow> real list \<Rightarrow> real list" where
  "interval_data indices i latencies =
     take (unat (indices ! i) - unat (indices ! (i - 1))) (drop (unat (indices ! (i - 1))) latencies)"

text \<open>Indices that start at zero, do not decrease and stay inside the array.\<close>

definition boundaries :: "32 word list \<Rightarrow> nat \<Rightarrow> bool" where
  "boundaries indices m \<longleftrightarrow> indices \<noteq> [] \<and> indices ! 0 = 0 \<and>
     (\<forall>i j. i \<le> j \<longrightarrow> j < length indices \<longrightarrow> indices ! i \<le> indices ! j) \<and>
     (\<forall>i < length indices. unat (indices ! i) \<le> m)"

section \<open>Lemmas\<close>

subsection \<open>Rounding\<close>

lemma dbl_exact:
  assumes "ieee_rounding dbl" "\<bar>k\<bar> \<le> 2 ^ 53" "j \<le> 1000"
  shows "dbl (of_int k / 2 ^ j) = of_int k / 2 ^ j"
  using assms by (simp add: ieee_rounding_def)

lemma dbl_int: "ieee_rounding dbl \<Longrightarrow> \<bar>k\<bar> \<le> 2 ^ 53 \<Longrightarrow> dbl (of_int k) = of_int k"
  using dbl_exact [of dbl k 0] by simp

lemma dbl_mono: "ieee_rounding dbl \<Longrightarrow> x \<le> y \<Longrightarrow> dbl x \<le> dbl y"
  by (simp add: ieee_rounding_def mono_def)

lemma to_int_mono: "x \<le> y \<Longrightarrow> to_int x \<le> to_int y"
  by (auto simp: to_int_def intro: floor_mono ceiling_mono order_trans [of _ 0])

lemma ieee_rounding_id [simp]: "ieee_rounding (\<lambda>x. x)"
  by (simp add: ieee_rounding_def mono_def)

text \<open>The index of a percentile is in the upper half of the array.\<close>

lemma percentile_index:
  assumes r: "ieee_rounding dbl" and q: "1 / 2 \<le> q" "q \<le> 127 / 128" and n: "0 < n" "n \<le> 2 ^ 46"
  shows "n div 2 \<le> nat (to_int (dbl (of_nat n * dbl q)))" "nat (to_int (dbl (of_nat n * dbl q))) < n"
proof -
  have n': "int n \<le> 2 ^ 46" using n(2) by (metis of_nat_le_iff of_nat_numeral of_nat_power)
  have "dbl (1 / 2) = 1 / 2" "dbl (127 / 128) = 127 / 128"
    using dbl_exact [OF r, of 1 1] dbl_exact [OF r, of 127 7] by simp_all
  then have dq: "1 / 2 \<le> dbl q" "dbl q \<le> 127 / 128"
    using dbl_mono [OF r q(1)] dbl_mono [OF r q(2)] by simp_all
  have half: "dbl (of_nat n / 2) = of_nat n / 2" using dbl_exact [OF r, of "int n" 1] n' by simp
  have upper: "dbl (of_nat n * 127 / 128) = of_nat n * 127 / 128"
    using dbl_exact [OF r, of "int n * 127" 7] n' by simp
  have "of_nat n / 2 \<le> of_nat n * dbl q" "of_nat n * dbl q \<le> of_nat n * (127 / 128)"
    using mult_left_mono [OF dq(1), of "of_nat n"] mult_left_mono [OF dq(2), of "of_nat n"] by simp_all
  then have b: "of_nat n / 2 \<le> dbl (of_nat n * dbl q)" "dbl (of_nat n * dbl q) \<le> of_nat n * 127 / 128"
    using dbl_mono [OF r] half upper by (metis, metis times_divide_eq_right)
  then have fl: "to_int (dbl (of_nat n * dbl q)) = \<lfloor>dbl (of_nat n * dbl q)\<rfloor>"
    by (simp add: to_int_def order_trans [of 0 "of_nat n / 2"])
  have "\<lfloor>of_nat n / 2 :: real\<rfloor> = int (n div 2)" by (metis floor_divide_of_nat_eq of_nat_numeral)
  then have "int (n div 2) \<le> \<lfloor>dbl (of_nat n * dbl q)\<rfloor>" using floor_mono [OF b(1)] by simp
  then show "n div 2 \<le> nat (to_int (dbl (of_nat n * dbl q)))" using fl by simp
  have "dbl (of_nat n * dbl q) < of_nat n" using b(2) n(1) by (simp add: field_simps)
  then have "\<lfloor>dbl (of_nat n * dbl q)\<rfloor> < int n" by (simp add: floor_less_iff)
  then show "nat (to_int (dbl (of_nat n * dbl q))) < n" using fl n(1) by simp
qed

lemma percentile_mono:
  assumes "ieee_rounding dbl" "q \<le> q'"
  shows "nat (to_int (dbl (of_nat n * dbl q))) \<le> nat (to_int (dbl (of_nat n * dbl q')))"
proof -
  have "of_nat n * dbl q \<le> of_nat n * dbl q'"
    using dbl_mono [OF assms] by (intro mult_left_mono) simp_all
  then show ?thesis by (intro nat_mono to_int_mono dbl_mono [OF assms(1)])
qed

subsection \<open>Statistics\<close>



lemma sum_loop_exact:
  assumes "ieee_rounding dbl" "\<forall>k \<in> set ks. 0 \<le> k" "0 \<le> a" "a + sum_list ks \<le> 2 ^ 53"
  shows "sum_loop dbl (of_int a) (map of_int ks) = of_int (a + sum_list ks)"
  using assms(2-4)
proof (induction ks arbitrary: a)
  case (Cons k ks)
  have "0 \<le> sum_list ks" using Cons.prems(1) by (intro sum_list_nonneg) simp
  then have "dbl (of_int a + of_int k) = of_int (a + k)"
    using dbl_int [OF assms(1), of "a + k"] Cons.prems by simp
  then show ?case using Cons.IH [of "a + k"] Cons.prems by (simp add: add.assoc)
qed simp

lemma sort_map_of_int: "sort (map of_int ks :: real list) = map of_int (sort ks)"
  by (rule properties_for_sort) (simp_all add: sorted_map)

lemma mean_bounds:
  assumes "ks \<noteq> []" "\<And>k. k \<in> set ks \<Longrightarrow> lo \<le> k" "\<And>k. k \<in> set ks \<Longrightarrow> k \<le> (hi :: int)"
  shows "of_int lo \<le> of_int (sum_list ks) / (of_nat (length ks) :: real)"
    and "of_int (sum_list ks) / (of_nat (length ks) :: real) \<le> of_int hi"
proof -
  have "int (length ks) * lo \<le> sum_list ks" "sum_list ks \<le> int (length ks) * hi"
    using assms(2,3) by (induction ks) (auto simp: algebra_simps intro: add_mono)
  then have "real_of_int (int (length ks) * lo) \<le> of_int (sum_list ks)"
    "real_of_int (sum_list ks) \<le> of_int (int (length ks) * hi)" by (simp_all only: of_int_le_iff)
  moreover have "0 < (of_nat (length ks) :: real)" using assms(1) by simp
  ultimately show "of_int lo \<le> of_int (sum_list ks) / (of_nat (length ks) :: real)"
    "of_int (sum_list ks) / (of_nat (length ks) :: real) \<le> of_int hi"
    by (simp_all add: field_simps)
qed

text \<open>
  The average of latencies in whole microseconds whose total is below \<open>2 ^ 53\<close>: the summation
  loop makes no rounding error at all, so the reported average is the exact mean rounded once, and
  lies between the reported minimum and maximum.
\<close>

theorem computeStats_average:
  assumes "ieee_rounding dbl" "ks \<noteq> []" "length ks \<le> 2 ^ 46"
    and "\<forall>k \<in> set ks. 0 \<le> k" "sum_list ks \<le> 2 ^ 53"
  shows "case computeStats dbl (map of_int ks) of (s, ys) \<Rightarrow>
    st_average s = dbl (of_int (sum_list ks) / of_nat (length ks)) \<and>
    st_min s \<le> st_average s \<and> st_average s \<le> st_max s"
proof -
  let ?n = "length ks" and ?m = "sort ks ! 0" and ?M = "sort ks ! (length ks - 1)"
  have n: "0 < ?n" using assms(2) by simp
  have each: "?m \<le> k" "k \<le> ?M" if "k \<in> set ks" for k
  proof -
    obtain j where "j < ?n" "k = sort ks ! j" using \<open>k \<in> set ks\<close> by (metis in_set_conv_nth length_sort set_sort)
    then show "?m \<le> k" "k \<le> ?M" by (simp_all add: sorted_nth_mono)
  qed
  have inset: "?m \<in> set ks" "?M \<in> set ks" using n nth_mem [of 0 "sort ks"] nth_mem [of "?n - 1" "sort ks"] by simp_all
  have tot: "sum_list (sort ks) = sum_list ks" by (metis mset_sort sum_mset_sum_list)
  have le_sum: "k \<le> sum_list ks" if "k \<in> set ks" for k using that assms(4) member_le_sum_list by metis
  have sum: "sum_loop dbl 0 (map of_int (sort ks)) = of_int (sum_list ks)"
    using sum_loop_exact [OF assms(1), of "sort ks" 0] assms(4,5) tot by simp
  have "int ?n \<le> 2 ^ 46" using assms(3) by (metis of_nat_le_iff of_nat_numeral of_nat_power)
  then have cnt: "dbl (of_nat ?n) = of_nat ?n" using dbl_int [OF assms(1), of "int ?n"] by simp
  have "dbl (of_int ?m) = of_int ?m" "dbl (of_int ?M) = of_int ?M"
    using dbl_int [OF assms(1)] le_sum [OF inset(1)] le_sum [OF inset(2)] assms(4,5) inset
    by (auto simp: abs_of_nonneg)
  then have "of_int ?m \<le> dbl (of_int (sum_list ks) / of_nat ?n)"
    "dbl (of_int (sum_list ks) / of_nat ?n) \<le> of_int ?M"
    using dbl_mono [OF assms(1) mean_bounds(1) [OF assms(2) each]] dbl_mono [OF assms(1) mean_bounds(2) [OF assms(2) each]]
    by simp_all
  then show ?thesis using n by (simp add: computeStats_def Let_def sort_map_of_int sum cnt)
qed

theorem computeStats_average_witness:
  "case computeStats (\<lambda>x. x) (map of_int [4, 1, 1]) of (s, ys) \<Rightarrow> st_average s = 2"
  using computeStats_average [of "\<lambda>x. x" "[4, 1, 1]"] by auto

subsection \<open>The results file\<close>

lemma computeStats_length: "computeStats dbl xs = (s, ys) \<Longrightarrow> length ys = length xs"
  by (auto simp: computeStats_def Let_def split: if_splits)

lemma computeStats_count: "st_count (fst (computeStats dbl xs)) = length xs"
  by (simp add: computeStats_def Let_def zero_stats_def)

lemma take_drop_update:
  assumes "a + length ys \<le> length xs" "a + length ys \<le> b"
  shows "take k (drop b (take a xs @ ys @ drop (a + length ys) xs)) = take k (drop b xs)"
  using assms by (simp add: min_def)

lemma process_interval_ok:
  assumes "boundaries ix (length xs)" "length ix \<le> length ts" "1 \<le> i" "i < length ix"
  shows "\<exists>row ys. process_interval dbl ix ts i xs = Some (row, ys) \<and> length ys = length xs \<and>
    row_stats row = fst (computeStats dbl (interval_data ix i xs)) \<and> row_time row = ts ! i \<and>
    (\<forall>j. i < j \<longrightarrow> j < length ix \<longrightarrow> interval_data ix j ys = interval_data ix j xs)"
proof -
  let ?lo = "unat (ix ! (i - 1))" and ?hi = "unat (ix ! i)"
  have le: "ix ! (i - 1) \<le> ix ! i" and hi: "?hi \<le> length xs" using assms by (simp_all add: boundaries_def)
  then have d: "unat (ix ! i - ix ! (i - 1)) = ?hi - ?lo" "?lo \<le> ?hi"
    by (simp_all add: unat_sub word_le_nat_alt)
  obtain s ys where cs: "computeStats dbl (interval_data ix i xs) = (s, ys)" by fastforce
  have len: "length ys = ?hi - ?lo"
    using computeStats_length [OF cs] hi d(2) by (simp add: interval_data_def)
  let ?zs = "take ?lo xs @ ys @ drop ?hi xs"
  have "interval_data ix j ?zs = interval_data ix j xs" if "i < j" "j < length ix" for j
  proof -
    have "ix ! i \<le> ix ! (j - 1)" using assms(1) that by (simp add: boundaries_def)
    then have "?lo + length ys \<le> unat (ix ! (j - 1))" using len d(2) by (simp add: word_le_nat_alt)
    then show ?thesis
      using take_drop_update [of ?lo ys xs "unat (ix ! (j - 1))" "unat (ix ! j) - unat (ix ! (j - 1))"] len hi d(2)
      by (simp add: interval_data_def)
  qed
  then show ?thesis
    using cs assms(2,4) d hi len
    by (auto simp: process_interval_def Let_def interval_data_def)
qed

lemma process_intervals_later:
  assumes "boundaries ix (length xs)" "length ix \<le> length ts" "2 \<le> a"
  shows "\<exists>rows ys. process_intervals dbl ix ts [a..<length ix] xs = Some (rows, ys) \<and>
    map row_stats rows = map (\<lambda>i. fst (computeStats dbl (interval_data ix i xs))) [a..<length ix]"
  using assms
proof (induction "length ix - a" arbitrary: a xs)
  case (Suc m)
  then have a: "1 \<le> a" "a < length ix" by simp_all
  obtain row ys where row: "process_interval dbl ix ts a xs = Some (row, ys)" "length ys = length xs"
    "row_stats row = fst (computeStats dbl (interval_data ix a xs))"
    "\<forall>j. a < j \<longrightarrow> j < length ix \<longrightarrow> interval_data ix j ys = interval_data ix j xs"
    using process_interval_ok [OF Suc.prems(1,2) a] by blast
  have "\<exists>rows zs. process_intervals dbl ix ts [Suc a..<length ix] ys = Some (rows, zs) \<and>
      map row_stats rows = map (\<lambda>i. fst (computeStats dbl (interval_data ix i ys))) [Suc a..<length ix]"
    using Suc.hyps(2) Suc.prems row(2) by (intro Suc.hyps(1)) simp_all
  then show ?case using row a(2) Suc.prems(3) by (auto simp: upt_conv_Cons)
qed simp

lemma sum_interval_lengths:
  assumes "boundaries ix m" "n < length ix"
  shows "(\<Sum>i\<leftarrow>[1..<Suc n]. unat (ix ! i) - unat (ix ! (i - 1))) = unat (ix ! n)"
  using assms(2)
proof (induction n)
  case 0
  then show ?case using assms(1) by (simp add: boundaries_def)
next
  case (Suc n)
  have "unat (ix ! n) \<le> unat (ix ! Suc n)"
    using assms(1) Suc.prems by (simp add: boundaries_def word_le_nat_alt)
  then show ?case using Suc by simp
qed

lemma length_interval_data:
  assumes "boundaries ix (length xs)" "i < length ix"
  shows "length (interval_data ix i xs) = unat (ix ! i) - unat (ix ! (i - 1))"
  using assms by (auto simp: interval_data_def boundaries_def)

text \<open>
  The results file accounts for every request: for interval boundaries that start at zero, do not
  decrease and lie in the array, \<open>processResults\<close> writes the first interval twice (the first time
  with the start time and duration 0), then one row for each interval with the statistics of exactly
  the latencies recorded in it, although earlier intervals have been sorted in place, and the counts of
  the rows add up to the total it reports.
\<close>

lemma processResults_accounts:
  assumes "boundaries ix (length xs)" "length ix \<le> length ts" "1 < length ix"
  shows "\<exists>R. processResults dbl True xs ix ts = Inr (Some R) \<and>
    map row_stats (tl (res_rows R)) =
      map (\<lambda>i. fst (computeStats dbl (interval_data ix i xs))) [1..<length ix] \<and>
    hd (res_rows R) = (res_rows R ! 1)\<lparr>row_time := ts ! 0, row_duration := 0\<rparr> \<and>
    (\<Sum>r\<leftarrow>tl (res_rows R). st_count (row_stats r)) = unat (res_totalEntries R)"
proof -
  obtain row ys where row: "process_interval dbl ix ts 1 xs = Some (row, ys)" "length ys = length xs"
    "row_stats row = fst (computeStats dbl (interval_data ix 1 xs))"
    "\<forall>j. 1 < j \<longrightarrow> j < length ix \<longrightarrow> interval_data ix j ys = interval_data ix j xs"
    using process_interval_ok [OF assms(1,2) order_refl assms(3)] by blast
  obtain rows zs where rows: "process_intervals dbl ix ts [2..<length ix] ys = Some (rows, zs)"
    "map row_stats rows = map (\<lambda>i. fst (computeStats dbl (interval_data ix i ys))) [2..<length ix]"
    using process_intervals_later [of ix ys ts 2 dbl] assms(1,2) row(2) by auto
  have upt: "[1..<length ix] = 1 # [2..<length ix]" using assms(3) by (simp add: upt_conv_Cons numeral_2_eq_2)
  let ?R = "row\<lparr>row_time := ts ! 0, row_duration := 0\<rparr> # row # rows"
  have run: "process_intervals dbl ix ts [1..<length ix] xs = Some (?R, zs)"
    unfolding upt using row(1) rows(1) by simp
  have stats: "map row_stats (row # rows) =
      map (\<lambda>i. fst (computeStats dbl (interval_data ix i xs))) [1..<length ix]"
    unfolding upt using row(3,4) rows(2) by auto
  have "(\<Sum>r\<leftarrow>row # rows. st_count (row_stats r)) =
      (\<Sum>i\<leftarrow>[1..<length ix]. length (interval_data ix i xs))"
    using arg_cong [OF stats, of "\<lambda>l. sum_list (map st_count l)"]
    by (simp add: comp_def computeStats_count)
  also have "\<dots> = (\<Sum>i\<leftarrow>[1..<length ix]. unat (ix ! i) - unat (ix ! (i - 1)))"
    using assms(1) by (intro arg_cong [where f = sum_list] map_cong) (auto simp: length_interval_data)
  also have "[1..<length ix] = [1..<Suc (length ix - 1)]" using assms(3) Suc_pred' [of "length ix"] by (metis less_trans zero_less_one)
  also have "(\<Sum>i\<leftarrow>[1..<Suc (length ix - 1)]. unat (ix ! i) - unat (ix ! (i - 1))) = unat (ix ! (length ix - 1))"
    using assms(1,3) by (intro sum_interval_lengths) simp_all
  finally have total: "(\<Sum>r\<leftarrow>row # rows. st_count (row_stats r)) = unat (ix ! (length ix - 1))" .
  have "processResults dbl True xs ix ts = Inr (Some
      \<lparr>res_rows = ?R, res_totalEntries = ix ! (length ix - 1),
       res_throughput = double_div dbl (of_nat (unat (ix ! (length ix - 1))))
         (dbl (dbl (of_nat (unat (ts ! (length ix - 1) - ts ! 0))) / 1000000))\<rparr>)"
    using run assms(2,3) by (auto simp: processResults_def Let_def)
  then show ?thesis using stats total by (intro exI) (auto simp del: sum_list.Cons)
qed

end
