(* ===== verification/Bench_Recorder.thy ===== *)
theory Bench_Recorder
  imports Bench_Util
begin

text \<open>
  The measurement that the scheduler benchmarks share (\<open>SyntheticScheduler.cc\<close>,
  \<open>AsyncSyntheticScheduler.cc\<close>, \<open>LoadGenerator.cc\<close>): threads take entries of one latency array
  with an atomic counter and fill them in, while the main thread records the counter and the time at
  every interval, then stops and joins the threads and processes the results. Each operation on the
  shared variables is one step; a program of threads records correctly if each of its steps is one of
  these or leaves the shared variables alone, which the locale \<open>recording_program\<close> states.
\<close>

section \<open>Definitions\<close>

definition kMaxEntries :: nat where
  "kMaxEntries = 2 ^ 26"

text \<open>What a thread holds: nothing, an index not yet checked, an index, or it has ended.\<close>

datatype ticket = Idle | Taken "32 word" | Holding "32 word" | Gone

datatype main_pc = Measuring | Joining | Finished "results option result"

record recorder =
  latencies :: "real list"
  arrayIndex :: "32 word"
  indices :: "32 word list"
  stamps :: "64 word list"
  tickets :: "ticket list"
  exited :: bool
  main_at :: main_pc

definition rec_start :: "nat \<Rightarrow> 64 word \<Rightarrow> recorder" where
  "rec_start n now =
     \<lparr>latencies = replicate kMaxEntries 0, arrayIndex = 0, indices = [0], stamps = [now],
      tickets = replicate n Idle, exited = False, main_at = Measuring\<rparr>"

text \<open>\<open>schedLatsArrayIndex.fetch_add(1)\<close>.\<close>

definition rec_take :: "nat \<Rightarrow> 'a recorder_scheme \<Rightarrow> 'a recorder_scheme" where
  "rec_take k s = s\<lparr>arrayIndex := arrayIndex s + 1, tickets := (tickets s)[k := Taken (arrayIndex s)]\<rparr>"

text \<open>\<open>if (aryIndex >= kMaxEntries) exit(1)\<close>.\<close>

definition rec_check :: "nat \<Rightarrow> 32 word \<Rightarrow> 'a recorder_scheme \<Rightarrow> 'a recorder_scheme" where
  "rec_check k ix s =
     (if unat ix \<ge> kMaxEntries then s\<lparr>exited := True\<rparr> else s\<lparr>tickets := (tickets s)[k := Holding ix]\<rparr>)"

text \<open>\<open>schedLatencies[aryIndex] = latency\<close>.\<close>

definition rec_write :: "nat \<Rightarrow> 32 word \<Rightarrow> real \<Rightarrow> 'a recorder_scheme \<Rightarrow> 'a recorder_scheme" where
  "rec_write k ix latency s = s\<lparr>latencies := (latencies s)[unat ix := latency], tickets := (tickets s)[k := Idle]\<rparr>"

definition rec_end :: "nat \<Rightarrow> 'a recorder_scheme \<Rightarrow> 'a recorder_scheme" where
  "rec_end k s = s\<lparr>tickets := (tickets s)[k := Gone]\<rparr>"

text \<open>The end of an interval; the main loop ends after it when the time is up.\<close>

definition rec_mark :: "64 word \<Rightarrow> bool \<Rightarrow> 'a recorder_scheme \<Rightarrow> 'a recorder_scheme" where
  "rec_mark now up s =
     s\<lparr>indices := indices s @ [arrayIndex s], stamps := stamps s @ [now],
       main_at := (if up then Joining else Measuring)\<rparr>"

text \<open>All threads are joined, then \<open>processResults\<close>; the clean-up frees the array.\<close>

definition rec_process :: "(real \<Rightarrow> real) \<Rightarrow> bool \<Rightarrow> 'a recorder_scheme \<Rightarrow> 'a recorder_scheme" where
  "rec_process dbl file_opens s =
     s\<lparr>main_at := Finished (processResults dbl file_opens (latencies s) (indices s) (stamps s))\<rparr>"

text \<open>One step of the shared state; a step may also end the process (\<open>exit\<close>, a failed assertion).\<close>

inductive rec_step :: "(real \<Rightarrow> real) \<Rightarrow> bool \<Rightarrow> recorder \<Rightarrow> recorder \<Rightarrow> bool" for dbl file_ok where
  grab: "k < length (tickets s) \<Longrightarrow> tickets s ! k = Idle \<Longrightarrow> rec_step dbl file_ok s (rec_take k s)"
| test: "k < length (tickets s) \<Longrightarrow> tickets s ! k = Taken ix \<Longrightarrow> rec_step dbl file_ok s (rec_check k ix s)"
| fill: "k < length (tickets s) \<Longrightarrow> tickets s ! k = Holding ix \<Longrightarrow> rec_step dbl file_ok s (rec_write k ix x s)"
| stop: "k < length (tickets s) \<Longrightarrow> tickets s ! k = Idle \<Longrightarrow> rec_step dbl file_ok s (rec_end k s)"
| mark: "main_at s = Measuring \<Longrightarrow> rec_step dbl file_ok s (rec_mark now up s)"
| results: "main_at s = Joining \<Longrightarrow> \<forall>x \<in> set (tickets s). x = Gone \<Longrightarrow> rec_step dbl file_ok s (rec_process dbl file_ok s)"
| die: "rec_step dbl file_ok s (s\<lparr>exited := True\<rparr>)"

text \<open>The indices in the hands of threads, and the number of those outside of the array.\<close>

fun held_by :: "ticket \<Rightarrow> 32 word list" where
  "held_by Idle = []"
| "held_by (Taken ix) = [ix]"
| "held_by (Holding ix) = [ix]"
| "held_by Gone = []"

definition held :: "'a recorder_scheme \<Rightarrow> 32 word list" where
  "held s = concat (map held_by (tickets s))"

definition beyond :: "'a recorder_scheme \<Rightarrow> nat" where
  "beyond s = length (filter (\<lambda>x. \<exists>ix. x = Taken ix \<and> unat ix \<ge> kMaxEntries) (tickets s))"

definition rec_inv :: "'a recorder_scheme \<Rightarrow> bool" where
  "rec_inv s \<longleftrightarrow> length (latencies s) = kMaxEntries \<and> length (stamps s) = length (indices s) \<and>
     indices s \<noteq> [] \<and> indices s ! 0 = 0 \<and> sorted (indices s) \<and> last (indices s) \<le> arrayIndex s \<and>
     unat (arrayIndex s) \<le> kMaxEntries + beyond s \<and>
     distinct (held s) \<and> (\<forall>ix \<in> set (held s). ix < arrayIndex s) \<and>
     (\<forall>ix. Holding ix \<in> set (tickets s) \<longrightarrow> unat ix < kMaxEntries) \<and>
     (main_at s \<noteq> Measuring \<longrightarrow> 1 < length (indices s))"

text \<open>Once the results are processed, the threads are gone and nothing changes any more.\<close>

definition rec_done :: "(real \<Rightarrow> real) \<Rightarrow> bool \<Rightarrow> recorder \<Rightarrow> bool" where
  "rec_done dbl file_ok s \<longleftrightarrow> (\<forall>R. main_at s = Finished R \<longrightarrow> (\<forall>x \<in> set (tickets s). x = Gone) \<and>
     R = processResults dbl file_ok (latencies s) (indices s) (stamps s))"

text \<open>
  What a finished recording says of the results: every request counted at the last interval
  boundary is in exactly one row.
\<close>

definition accounts :: "(real \<Rightarrow> real) \<Rightarrow> recorder \<Rightarrow> results \<Rightarrow> bool" where
  "accounts dbl s R \<longleftrightarrow> res_totalEntries R = last (indices s) \<and>
     (\<Sum>r\<leftarrow>tl (res_rows R). st_count (row_stats r)) = unat (last (indices s)) \<and>
     map row_stats (tl (res_rows R)) =
       map (\<lambda>i. fst (computeStats dbl (interval_data (indices s) i (latencies s)))) [1..<length (indices s)]"

section \<open>Lemmas\<close>

lemma beyond_le: "beyond s \<le> length (tickets s)"
  by (simp add: beyond_def)

lemma concat_replace:
  assumes "k < length xs"
  shows "mset (concat (map f (xs[k := y]))) + mset (f (xs ! k)) = mset (concat (map f xs)) + mset (f y)"
proof -
  obtain as x bs where "xs = as @ x # bs" "length as = k" using assms by (metis id_take_nth_drop length_take min.absorb4)
  then show ?thesis by (auto simp: list_update_append nth_append)
qed

lemma held_replace:
  "k < length (tickets s) \<Longrightarrow>
   mset (concat (map held_by ((tickets s)[k := y]))) + mset (held_by (tickets s ! k)) = mset (held s) + mset (held_by y)"
  unfolding held_def by (rule concat_replace)

lemma length_filter_replace:
  assumes "k < length xs"
  shows "length (filter Q (xs[k := y])) + (if Q (xs ! k) then 1 else 0) =
    length (filter Q xs) + (if Q y then 1 else 0)"
proof -
  have "filter Q xs = filter Q (take k xs @ xs ! k # drop (Suc k) xs)"
    using assms by (simp only: id_take_nth_drop [symmetric])
  moreover have "xs[k := y] = take k xs @ y # drop (Suc k) xs" using assms by (simp add: upd_conv_take_nth_drop)
  ultimately show ?thesis by simp
qed

lemma rec_take_inv:
  assumes "rec_inv s" "k < length (tickets s)" "tickets s ! k = Idle" "length (tickets s) \<le> 2 ^ 31"
  shows "rec_inv (rec_take k s)"
proof -
  let ?i = "arrayIndex s" and ?T = "Taken (arrayIndex s)"
  have i: "unat ?i \<le> kMaxEntries + beyond s" using assms(1) by (simp add: rec_inv_def)
  also have "\<dots> \<le> 2 ^ 26 + 2 ^ 31" using beyond_le [of s] assms(4) by (simp add: kMaxEntries_def)
  finally have "unat ?i < 2 ^ 32 - 1" by simp
  then have up: "unat (?i + 1) = unat ?i + 1" "?i < ?i + 1"
    by (simp_all add: unat_word_ariths word_less_nat_alt)
  have h: "mset (held (rec_take k s)) = mset (?i # held s)"
    using held_replace [OF assms(2), of ?T] assms(3) by (simp add: held_def rec_take_def)
  have b: "beyond (rec_take k s) = beyond s + (if unat ?i \<ge> kMaxEntries then 1 else 0)"
    using length_filter_replace [OF assms(2), of "\<lambda>x. \<exists>ix. x = Taken ix \<and> unat ix \<ge> kMaxEntries" ?T] assms(3)
    by (simp add: beyond_def rec_take_def)
  have "set (held (rec_take k s)) = insert ?i (set (held s))" using mset_eq_setD [OF h] by simp
  moreover have "distinct (held (rec_take k s))"
    using mset_eq_imp_distinct_iff [OF h] assms(1) by (auto simp: rec_inv_def)
  moreover have "Holding ix \<in> set (tickets s)" if "Holding ix \<in> set ((tickets s)[k := ?T])" for ix
    using that set_update_subset_insert [of "tickets s" k ?T] by auto
  ultimately show ?thesis
    using assms(1) up b i unfolding rec_inv_def
    by (auto simp: rec_take_def intro: less_trans order_trans less_imp_le)
qed

lemma distinct_submultiset:
  assumes "mset xs \<subseteq># mset ys" "distinct ys"
  shows "distinct xs"
  unfolding distinct_count_atmost_1
proof
  fix a
  have "count (mset xs) a \<le> count (mset ys) a" using assms(1) by (simp add: subseteq_mset_def)
  also have "\<dots> \<le> 1" using assms(2) by (simp add: distinct_count_atmost_1)
  finally show "count (mset xs) a = (if a \<in> set xs then 1 else 0)"
    by (cases "a \<in> set xs") (simp_all add: le_Suc_eq count_mset_0_iff)
qed

lemma sorted_le_last: "sorted xs \<Longrightarrow> x \<in> set xs \<Longrightarrow> x \<le> last xs"
  by (induction xs) auto

lemma rec_inv_replace:
  assumes "rec_inv s" "k < length (tickets s)"
    and "mset (held_by y) \<subseteq># mset (held_by (tickets s ! k))"
    and "\<And>ix. y = Holding ix \<Longrightarrow> unat ix < kMaxEntries"
    and "\<And>ix. tickets s ! k = Taken ix \<Longrightarrow> unat ix < kMaxEntries"
    and "\<And>ix. y \<noteq> Taken ix" "length xs = length (latencies s)"
  shows "rec_inv (s\<lparr>latencies := xs, tickets := (tickets s)[k := y]\<rparr>)"
proof -
  let ?s = "s\<lparr>latencies := xs, tickets := (tickets s)[k := y]\<rparr>"
  have "mset (held ?s) + mset (held_by (tickets s ! k)) = mset (held s) + mset (held_by y)"
    using held_replace [OF assms(2), of y] by (simp add: held_def)
  then have sub: "mset (held ?s) \<subseteq># mset (held s)" using assms(3)
    by (metis mset_subset_eq_mono_add_right_cancel union_commute mset_subset_eq_add_right
        subset_mset.add_le_cancel_right subset_mset.add_left_mono)
  then have "set (held ?s) \<subseteq> set (held s)" by (metis set_mset_mono set_mset_mset)
  moreover have "distinct (held ?s)"
    using distinct_submultiset [OF sub] assms(1) by (simp add: rec_inv_def)
  moreover have "beyond ?s = beyond s"
    using length_filter_replace [OF assms(2), of "\<lambda>x. \<exists>ix. x = Taken ix \<and> unat ix \<ge> kMaxEntries" y] assms(5,6)
    by (auto simp: beyond_def split: if_splits)
  moreover have "unat ix < kMaxEntries" if "Holding ix \<in> set ((tickets s)[k := y])" for ix
  proof -
    have "y = Holding ix \<or> Holding ix \<in> set (tickets s)"
      using that set_update_subset_insert [of "tickets s" k y] by auto
    then show ?thesis using assms(1,4) by (auto simp: rec_inv_def)
  qed
  ultimately show ?thesis using assms(1,7) unfolding rec_inv_def by auto
qed

lemma rec_mark_inv:
  assumes "rec_inv s"
  shows "rec_inv (rec_mark now up s)"
proof -
  have "x \<le> arrayIndex s" if "x \<in> set (indices s)" for x
    using assms that sorted_le_last [of "indices s" x] by (auto simp: rec_inv_def)
  moreover have "(indices s @ [arrayIndex s]) ! 0 = 0" using assms by (simp add: rec_inv_def nth_append)
  ultimately show ?thesis
    using assms unfolding rec_inv_def rec_mark_def by (auto simp: sorted_append beyond_def held_def Suc_le_eq)
qed

lemma rec_step_inv:
  assumes "rec_step dbl file_ok s s'" "rec_inv s" "length (tickets s) \<le> 2 ^ 31"
  shows "rec_inv s'"
  using assms(1)
proof (cases rule: rec_step.cases)
  case (grab k)
  then show ?thesis using assms(2,3) rec_take_inv by simp
next
  case (test k ix)
  then show ?thesis
    using assms(2) rec_inv_replace [of s k "Holding ix" "latencies s"]
    by (auto simp: rec_check_def rec_inv_def held_def beyond_def)
next
  case (fill k ix x)
  then show ?thesis
    using rec_inv_replace [of s k Idle "(latencies s)[unat ix := x]"] assms(2) by (simp add: rec_write_def)
next
  case (stop k)
  then show ?thesis using rec_inv_replace [of s k Gone "latencies s"] assms(2) by (simp add: rec_end_def)
next
  case (mark now up)
  then show ?thesis using assms(2) rec_mark_inv by simp
next
  case results
  then show ?thesis using assms(2) by (auto simp: rec_process_def rec_inv_def held_def beyond_def)
next
  case die
  then show ?thesis using assms(2) by (simp add: rec_inv_def held_def beyond_def)
qed

lemma rec_step_done:
  assumes "rec_step dbl file_ok s s'" "rec_done dbl file_ok s"
  shows "rec_done dbl file_ok s'"
proof -
  have gone: "tickets s ! k = Gone" if "main_at s = Finished R" "k < length (tickets s)" for R k
    using assms(2) that nth_mem [OF that(2)] by (auto simp: rec_done_def)
  from assms(1) show ?thesis
    using assms(2)
    by (cases rule: rec_step.cases)
      (auto simp: rec_done_def rec_take_def rec_check_def rec_write_def rec_end_def rec_mark_def rec_process_def
        dest: gone)
qed

lemma rec_step_tickets: "rec_step dbl file_ok s s' \<Longrightarrow> length (tickets s') = length (tickets s)"
  by (cases rule: rec_step.cases, assumption)
    (auto simp: rec_take_def rec_check_def rec_write_def rec_end_def rec_mark_def rec_process_def)

lemma rec_start_inv: "rec_inv (rec_start n now)" "rec_done dbl file_ok (rec_start n now)"
proof -
  have "concat (map held_by (replicate n Idle)) = []" by (induction n) simp_all
  then show "rec_inv (rec_start n now)" by (simp add: rec_inv_def rec_start_def held_def beyond_def)
qed (simp add: rec_done_def rec_start_def)

lemma processResults_totalEntries:
  "processResults dbl True xs ix ts = Inr (Some R) \<Longrightarrow> res_totalEntries R = last ix"
  by (auto simp: processResults_def Let_def last_conv_nth split: option.splits prod.splits if_splits)

lemma rec_finished_accounts:
  assumes "rec_inv s" "rec_done dbl True s" "main_at s = Finished R"
  shows "\<exists>res. R = Inr (Some res) \<and> accounts dbl s res"
proof -
  have gone: "\<forall>x \<in> set (tickets s). x = Gone"
    and R: "R = processResults dbl True (latencies s) (indices s) (stamps s)"
    using assms(2,3) by (auto simp: rec_done_def)
  have "beyond s = 0" using gone by (auto simp: beyond_def filter_empty_conv)
  then have top: "unat (arrayIndex s) \<le> kMaxEntries" using assms(1) by (simp add: rec_inv_def)
  have le: "unat x \<le> kMaxEntries" if "x \<in> set (indices s)" for x
  proof -
    have "x \<le> arrayIndex s" using assms(1) sorted_le_last [OF _ that] by (auto simp: rec_inv_def)
    then show ?thesis using top by (simp add: word_le_nat_alt)
  qed
  have "boundaries (indices s) (length (latencies s))"
    using assms(1) le by (auto simp: boundaries_def rec_inv_def sorted_nth_mono)
  moreover have "length (indices s) \<le> length (stamps s)" "1 < length (indices s)"
    using assms(1,3) by (auto simp: rec_inv_def)
  ultimately obtain res where "R = Inr (Some res)"
    "map row_stats (tl (res_rows res)) =
      map (\<lambda>i. fst (computeStats dbl (interval_data (indices s) i (latencies s)))) [1..<length (indices s)]"
    "(\<Sum>r\<leftarrow>tl (res_rows res). st_count (row_stats r)) = unat (res_totalEntries res)"
    using processResults_accounts [of "indices s" "latencies s" "stamps s" dbl] R by auto
  then show ?thesis using processResults_totalEntries R by (auto simp: accounts_def)
qed

text \<open>The shared variables of an extended state.\<close>

lemma truncate_rec [simp]:
  "recorder.truncate (rec_take k s) = rec_take k (recorder.truncate s)"
  "recorder.truncate (rec_check k ix s) = rec_check k ix (recorder.truncate s)"
  "recorder.truncate (rec_write k ix x s) = rec_write k ix x (recorder.truncate s)"
  "recorder.truncate (rec_end k s) = rec_end k (recorder.truncate s)"
  "recorder.truncate (rec_mark now up s) = rec_mark now up (recorder.truncate s)"
  "recorder.truncate (rec_process dbl file_ok s) = rec_process dbl file_ok (recorder.truncate s)"
  "recorder.truncate (s\<lparr>exited := b\<rparr>) = (recorder.truncate s)\<lparr>exited := b\<rparr>"
  by (simp_all add: recorder.truncate_def rec_take_def rec_check_def rec_write_def rec_end_def rec_mark_def
      rec_process_def)

lemma truncate_fields [simp]:
  "tickets (recorder.truncate s) = tickets s" "main_at (recorder.truncate s) = main_at s"
  "indices (recorder.truncate s) = indices s" "latencies (recorder.truncate s) = latencies s"
  "arrayIndex (recorder.truncate s) = arrayIndex s" "exited (recorder.truncate s) = exited s"
  by (simp_all add: recorder.truncate_def)

lemma tickets_rec [simp]:
  "tickets (rec_take k s) = (tickets s)[k := Taken (arrayIndex s)]"
  "tickets (rec_check k ix s) = (if unat ix \<ge> kMaxEntries then tickets s else (tickets s)[k := Holding ix])"
  "tickets (rec_write k ix x s) = (tickets s)[k := Idle]"
  "tickets (rec_end k s) = (tickets s)[k := Gone]"
  "tickets (rec_mark now up s) = tickets s"
  "tickets (rec_process dbl file_ok s) = tickets s"
  by (simp_all add: rec_take_def rec_check_def rec_write_def rec_end_def rec_mark_def rec_process_def)

locale recording_program =
  fixes step :: "'p \<Rightarrow> 'p \<Rightarrow> bool"
    and wf :: "'p \<Rightarrow> bool"
    and view :: "'p \<Rightarrow> recorder"
    and dbl :: "real \<Rightarrow> real"
    and file_ok :: bool
  assumes step_wf: "wf s \<Longrightarrow> step s s' \<Longrightarrow> wf s'"
    and step_view: "wf s \<Longrightarrow> step s s' \<Longrightarrow> view s' = view s \<or> rec_step dbl file_ok (view s) (view s')"
begin

lemma reach_inv:
  assumes "step\<^sup>*\<^sup>* s0 s" "wf s0" "view s0 = rec_start n now" "n \<le> 2 ^ 31"
  shows "wf s \<and> rec_inv (view s) \<and> rec_done dbl file_ok (view s) \<and> length (tickets (view s)) = n"
  using assms(1)
proof (induction rule: rtranclp_induct)
  case base
  then show ?case using assms(2,3) rec_start_inv by (simp add: rec_start_def)
next
  case (step s s')
  have wf: "wf s" using step.IH by simp
  then have wf': "wf s'" using step.hyps(2) by (rule step_wf)
  show ?case
  proof (cases "view s' = view s")
    case False
    then have st: "rec_step dbl file_ok (view s) (view s')" using step_view [OF wf step.hyps(2)] by simp
    then show ?thesis using wf' step.IH assms(4) rec_step_inv rec_step_done rec_step_tickets by metis
  qed (use wf' step.IH in simp)
qed

text \<open>Threads never hold the same entry, nor write outside of the array.\<close>

lemma reach_exclusive:
  assumes "step\<^sup>*\<^sup>* s0 s" "wf s0" "view s0 = rec_start n now" "n \<le> 2 ^ 31"
    and "k < n" "l < n" "k \<noteq> l" "tickets (view s) ! k = Holding ix" "tickets (view s) ! l = Holding jx"
  shows "ix \<noteq> jx \<and> unat ix < length (latencies (view s))"
proof -
  have inv: "rec_inv (view s)" "length (tickets (view s)) = n" using reach_inv [OF assms(1-4)] by simp_all
  have in_set: "Holding ix \<in> set (tickets (view s))" using assms(5,8) inv(2) nth_mem by metis
  have "ix \<noteq> jx"
  proof
    assume "ix = jx"
    let ?ts = "tickets (view s)"
    have "mset (held (view s)) = mset (concat (map held_by (?ts[k := Idle]))) + {#ix#}"
      using held_replace [of k "view s" Idle] assms(5,8) inv(2) by simp
    moreover have "Holding jx \<in> set (?ts[k := Idle])"
      using assms(6,7,9) inv(2) by (metis length_list_update nth_list_update_neq nth_mem)
    then have "jx \<in> set (concat (map held_by (?ts[k := Idle])))" by force
    ultimately have "2 \<le> count (mset (held (view s))) ix" using \<open>ix = jx\<close> by (simp add: Suc_le_eq)
    then show False using inv(1) by (auto simp: rec_inv_def distinct_count_atmost_1 split: if_splits)
  qed
  then show ?thesis using inv(1) in_set by (auto simp: rec_inv_def)
qed

lemma reach_accounts:
  assumes "step\<^sup>*\<^sup>* s0 s" "wf s0" "view s0 = rec_start n now" "n \<le> 2 ^ 31" "file_ok" "main_at (view s) = Finished R"
  shows "\<exists>res. R = Inr (Some res) \<and> accounts dbl (view s) res"
  using reach_inv [OF assms(1-4)] assms(5,6) by (intro rec_finished_accounts) simp_all

end

end
