(* ===== verification/Getopt.thy ===== *)
theory Getopt
  imports Text_Util Complex_Main
begin

text \<open>
  The command line as the simulation programs read it: \<open>getopt\<close> over \<open>argv\<close> without the program name
  (GNU behaviour: arguments that are no options are skipped, \<open>--\<close> ends the options, options without
  arguments may be clustered, an argument may be attached), and \<open>atof\<close> on decimal numbers. The
  result of \<open>getopt\<close> is the sequence of options with their arguments; an unknown option or a missing
  argument is the option \<open>?\<close>.
\<close>

section \<open>Definitions\<close>

text \<open>\<open>None\<close>: no option; otherwise whether it takes an argument.\<close>

fun optspec :: "string \<Rightarrow> char \<Rightarrow> bool option" where
  "optspec [] c = None"
| "optspec (d # ds) c =
     (if c = CHR '':'' then None
      else if c = d then Some (case ds of e # _ \<Rightarrow> e = CHR '':'' | [] \<Rightarrow> False)
      else optspec ds c)"

text \<open>
  \<open>getopt_in\<close> continues inside the cluster \<open>cs\<close> of the current argument.
\<close>

function getopt :: "string \<Rightarrow> string list \<Rightarrow> (char \<times> string) list"
  and getopt_in :: "string \<Rightarrow> string \<Rightarrow> string list \<Rightarrow> (char \<times> string) list" where
  "getopt spec [] = []"
| "getopt spec (a # as) =
     (if a = ''--'' then []
      else case a of
             c # d # cs \<Rightarrow> (if c = CHR ''-'' then getopt_in spec (d # cs) as else getopt spec as)
           | _ \<Rightarrow> getopt spec as)"
| "getopt_in spec [] as = getopt spec as"
| "getopt_in spec (c # cs) as =
     (case optspec spec c of
        None \<Rightarrow> (CHR ''?'', []) # getopt_in spec cs as
      | Some False \<Rightarrow> (c, []) # getopt_in spec cs as
      | Some True \<Rightarrow>
          (if cs \<noteq> [] then (c, cs) # getopt spec as
           else case as of [] \<Rightarrow> [(CHR ''?'', [])] | a # as' \<Rightarrow> (c, a) # getopt spec as'))"
  by pat_completeness auto
termination
  by (relation "measure (\<lambda>x. case x of Inl (spec, as) \<Rightarrow> 2 * sum_list (map (\<lambda>a. Suc (length a)) as)
        | Inr (spec, cs, as) \<Rightarrow> Suc (length cs + 2 * sum_list (map (\<lambda>a. Suc (length a)) as)))")
    (auto split: list.splits)

text \<open>The loop over the options: the switch may end the program (\<open>Usage\<close> calls \<open>exit(1)\<close>).\<close>

fun option_loop :: "(char \<times> string \<Rightarrow> 'o \<Rightarrow> 'o option) \<Rightarrow> (char \<times> string) list \<Rightarrow> 'o \<Rightarrow> 'o option" where
  "option_loop switch [] o' = Some o'"
| "option_loop switch (x # xs) o' =
     (case switch x o' of None \<Rightarrow> None | Some o'' \<Rightarrow> option_loop switch xs o'')"

definition is_digit :: "char \<Rightarrow> bool" where
  "is_digit c \<longleftrightarrow> digit_value c \<noteq> None"

definition sign_of :: "string \<Rightarrow> bool \<times> string" where
  "sign_of s =
     (case s of
        c # cs \<Rightarrow> (if c = CHR ''-'' then (True, cs) else if c = CHR ''+'' then (False, cs) else (False, s))
      | [] \<Rightarrow> (False, []))"

definition exponent_of :: "string \<Rightarrow> int" where
  "exponent_of s =
     (case s of
        c # cs \<Rightarrow>
          (if c = CHR ''e'' \<or> c = CHR ''E'' then
             (case sign_of cs of (neg, ds) \<Rightarrow>
                let v = int (digits_acc 0 ds) in if neg then - v else v)
           else 0)
      | [] \<Rightarrow> 0)"

text \<open>\<open>atof\<close> of a decimal number, rounded once with \<open>dbl\<close>.\<close>

definition atof :: "(real \<Rightarrow> real) \<Rightarrow> string \<Rightarrow> real" where
  "atof dbl s =
     (case sign_of (dropWhile is_space s) of
        (neg, s2) \<Rightarrow>
          let ip = takeWhile is_digit s2;
              s3 = dropWhile is_digit s2;
              (fp, s4) = (case s3 of
                            c # r \<Rightarrow> (if c = CHR ''.'' then (takeWhile is_digit r, dropWhile is_digit r) else ([], s3))
                          | [] \<Rightarrow> ([], []))
          in if ip = [] \<and> fp = [] then 0
             else let m = real (digits_acc 0 (ip @ fp)) / 10 ^ length fp;
                      e = exponent_of s4;
                      v = (if 0 \<le> e then m * 10 ^ nat e else m / 10 ^ nat (- e))
                  in dbl (if neg then - v else v))"

section \<open>Lemmas\<close>

declare getopt.simps [simp del] getopt_in.simps [simp del]

lemma getopt_Nil [simp]: "getopt spec [] = []"
  by (simp add: getopt.simps)

lemma getopt_arg:
  "optspec spec c = Some True \<Longrightarrow> c \<noteq> CHR ''-'' \<Longrightarrow>
   getopt spec ([CHR ''-'', c] # a # as) = (c, a) # getopt spec as"
  by (simp add: getopt.simps getopt_in.simps)

lemma getopt_flag:
  "optspec spec c = Some False \<Longrightarrow> c \<noteq> CHR ''-'' \<Longrightarrow>
   getopt spec ([CHR ''-'', c] # as) = (c, []) # getopt spec as"
  by (simp add: getopt.simps getopt_in.simps)

lemma atoi_to_string: "- (2 ^ 31) \<le> x \<Longrightarrow> x < 2 ^ 31 \<Longrightarrow> atoi (to_string x) = x"
  by (simp add: atoi_def strtol_to_string narrow32_id)

end
