(* ===== verification/Bench_Sync.thy ===== *)
theory Bench_Sync
  imports Scheduler_Class Bench_Recorder Getopt
begin

text \<open>
  \<open>SyntheticScheduler.cc\<close>: the benchmark with synchronous schedulers. The options, the scheduler and
  the arrival generator chosen from them, the scheduler threads and the main thread as an interleaving
  step relation over the shared recorder, and \<open>setup\<close>, \<open>runBenchmark\<close>, \<open>teardown\<close> composed as in
  \<open>main\<close>. The clock is an input of every step. Each thread has its own client, so its own view of the
  database: what the others do in between is the interference of its \<open>env\<close>.
\<close>

section \<open>Definitions\<close>

subsection \<open>Options\<close>

definition kDists :: "string list" where
  "kDists = [''none'', ''fixed'', ''poisson'', ''uniform'']"

definition sync_kAlgorithms :: "string list" where
  "sync_kAlgorithms = [''fifo'', ''fifo-local'', ''fifo-task'', ''single-partitioned-fifo-task'', ''spark'',
     ''scan-task'', ''push-fifo'']"

record sync_options = sched_params +
  so_numSchedulers :: int
  so_measureIntervalMsec :: int
  so_totalExecTimeMsec :: int
  so_reqPerSec :: real
  so_reqPerSecThread :: real
  so_reqDist :: string
  so_scheduleAlgo :: string
  so_cleanDB :: bool
  so_serverAddr :: string
  so_outputFile :: string

definition sync_defaults :: sync_options where
  "sync_defaults = \<lparr>sp_partitions = 8, sp_numTasks = 8, sp_workerCapacity = 2 ^ 27, sp_numWorkers = 1,
     sp_probMultiTx = 0, so_numSchedulers = 1, so_measureIntervalMsec = 2000, so_totalExecTimeMsec = 10000,
     so_reqPerSec = 100, so_reqPerSecThread = 100, so_reqDist = ''none'', so_scheduleAlgo = ''fifo'',
     so_cleanDB = False, so_serverAddr = ''localhost'', so_outputFile = ''synthetic_scheduler_results.csv''\<rparr>"

text \<open>
  What the platform decides: \<open>float\<close> and \<open>double\<close> rounding, the values the random distributions draw, and
  which database hosts accept a connection.
\<close>

record platform =
  n_dbl :: "real \<Rightarrow> real"
  n_flt :: "real \<Rightarrow> real"
  n_exp :: "real \<Rightarrow> nat \<Rightarrow> real"
  n_unif :: "real \<Rightarrow> nat \<Rightarrow> real"
  n_accepts :: "string \<Rightarrow> bool"

definition sync_switch :: "platform \<Rightarrow> char \<times> string \<Rightarrow> sync_options \<Rightarrow> sync_options option" where
  "sync_switch nu x c =
     (case x of (opt, optarg) \<Rightarrow>
      if opt = CHR ''o'' then Some (c\<lparr>so_outputFile := optarg\<rparr>)
      else if opt = CHR ''s'' then Some (c\<lparr>so_serverAddr := optarg\<rparr>)
      else if opt = CHR ''i'' then Some (c\<lparr>so_measureIntervalMsec := atoi optarg\<rparr>)
      else if opt = CHR ''t'' then Some (c\<lparr>so_totalExecTimeMsec := atoi optarg\<rparr>)
      else if opt = CHR ''N'' then Some (c\<lparr>so_numSchedulers := atoi optarg\<rparr>)
      else if opt = CHR ''W'' then Some (c\<lparr>sp_numWorkers := atoi optarg\<rparr>)
      else if opt = CHR ''C'' then Some (c\<lparr>sp_workerCapacity := atoi optarg\<rparr>)
      else if opt = CHR ''P'' then Some (c\<lparr>sp_partitions := atoi optarg\<rparr>)
      else if opt = CHR ''A'' then Some (c\<lparr>so_scheduleAlgo := optarg\<rparr>)
      else if opt = CHR ''T'' then Some (c\<lparr>sp_numTasks := atoi optarg\<rparr>)
      else if opt = CHR ''p'' then Some (c\<lparr>sp_probMultiTx := n_flt nu (atof (n_dbl nu) optarg)\<rparr>)
      else if opt = CHR ''R'' then Some (c\<lparr>so_reqPerSec := atof (n_dbl nu) optarg\<rparr>)
      else if opt = CHR ''D'' then Some (c\<lparr>so_reqDist := optarg\<rparr>)
      else if opt = CHR ''x'' then Some (c\<lparr>so_cleanDB := True\<rparr>)
      else None)"

text \<open>The options part of \<open>main\<close>: \<open>None\<close> is \<open>Usage\<close>, which ends the program with status 1.\<close>

definition sync_args :: "platform \<Rightarrow> string list \<Rightarrow> sync_options option" where
  "sync_args nu argv =
     (case option_loop (sync_switch nu) (getopt ''hxo:s:i:t:N:W:C:P:A:T:p:R:D:'' argv) sync_defaults of
        None \<Rightarrow> None
      | Some c \<Rightarrow>
          (if so_scheduleAlgo c \<notin> set sync_kAlgorithms then None
           else if so_reqDist c \<notin> set kDists then None
           else if so_reqDist c \<noteq> ''none''
           then Some (c\<lparr>so_reqPerSecThread := n_dbl nu (so_reqPerSec c / of_int (so_numSchedulers c))\<rparr>)
           else Some c))"

definition sync_constructScheduler :: "platform \<Rightarrow> sync_options \<Rightarrow> string \<Rightarrow> scheduler option result" where
  "sync_constructScheduler nu c algo =
     (let new = connected (n_accepts nu) (so_serverAddr c) in
      if algo = ''fifo'' then new (new_Fifo c)
      else if algo = ''fifo-local'' then new (new_FifoLocal c)
      else if algo = ''fifo-task'' then new (new_FifoTask c)
      else if algo = ''single-partitioned-fifo-task'' then new (new_SinglePartitioned c (sp_probMultiTx c))
      else if algo = ''spark'' then new (new_Spark c)
      else if algo = ''scan-task'' then new (new_ScanTask c)
      else if algo = ''push-fifo'' then new (new_PushFifo c)
      else Inr None)"

subsection \<open>Arrivals\<close>

datatype arrival = AsFast | AFixed Fixed | APoisson Poisson | AUniform Uniform

definition make_arrival :: "platform \<Rightarrow> string \<Rightarrow> real \<Rightarrow> arrival option" where
  "make_arrival nu reqDist rate =
     (if reqDist = ''fixed'' then Some (AFixed (Fixed_updateInterval (n_dbl nu) rate))
      else if reqDist = ''poisson'' then Some (APoisson (Poisson_new rate))
      else if reqDist = ''uniform'' then Some (AUniform (Uniform_new (n_dbl nu) rate))
      else if reqDist = ''none'' then Some AsFast
      else None)"

text \<open>\<open>iaGen->generate()\<close> as the \<open>k\<close>-th draw of a thread, and \<open>(uint64_t)(... * 1000 * 1000)\<close>.\<close>

definition arrival_generate :: "platform \<Rightarrow> arrival \<Rightarrow> nat \<Rightarrow> real" where
  "arrival_generate nu g k =
     (case g of
        AsFast \<Rightarrow> 0
      | AFixed f \<Rightarrow> Fixed_generate f
      | APoisson p \<Rightarrow> fst (Poisson_generate (\<lambda>q j. (n_exp nu q j, Suc j)) p k)
      | AUniform u \<Rightarrow> fst (Uniform_generate (\<lambda>q j. (n_unif nu q j, Suc j)) u k))"

definition arrival_usec :: "platform \<Rightarrow> real \<Rightarrow> 64 word" where
  "arrival_usec nu sec = of_int (to_int (n_dbl nu (n_dbl nu (sec * 1000) * 1000)))"

subsection \<open>Threads\<close>

datatype thread_pc =
    TStart
  | TLoop                          \<comment> \<open>at the top of the loop\<close>
  | TTaken "32 word"               \<comment> \<open>has its index, about to check it\<close>
  | TSend "32 word" "64 word"      \<comment> \<open>index and start time, about to schedule\<close>
  | TCond                          \<comment> \<open>at \<open>while (!mainFinished)\<close>\<close>
  | TEnd

record sched_thread =
  th_pc :: thread_pc
  th_scheduler :: scheduler
  th_gen :: arrival
  th_draws :: nat
  th_curr :: "64 word"
  th_next :: "64 word"
  th_state :: sched_state

record sync = recorder +
  sy_threads :: "sched_thread list"
  sy_mainFinished :: bool
  sy_endTime :: "64 word"

definition set_thread :: "nat \<Rightarrow> sched_thread \<Rightarrow> sync \<Rightarrow> sync" where
  "set_thread k th s = s\<lparr>sy_threads := (sy_threads s)[k := th]\<rparr>"

text \<open>The next arrival: advances the generator when there is one.\<close>

definition next_arrival :: "platform \<Rightarrow> 64 word \<Rightarrow> sched_thread \<Rightarrow> sched_thread" where
  "next_arrival nu from_time th =
     (if th_gen th = AsFast then th\<lparr>th_next := from_time\<rparr>
      else th\<lparr>th_next := from_time + arrival_usec nu (arrival_generate nu (th_gen th) (th_draws th)),
              th_draws := Suc (th_draws th)\<rparr>)"

text \<open>
  One step of \<open>SchedulerThread\<close> in thread \<open>k\<close>; \<open>None\<close> when it cannot step. A failed assertion, a crash
  of a scheduler and \<open>exit\<close> end the process. The sleep while it is not its turn (at most 5
  microseconds) has no effect but on the clock.
\<close>

definition sync_thread_start :: "platform \<Rightarrow> sync_options \<Rightarrow> nat \<Rightarrow> 64 word \<Rightarrow> sync \<Rightarrow> sync option" where
  "sync_thread_start nu c k now s =
     (let th = sy_threads s ! k in
      case sync_constructScheduler nu c (so_scheduleAlgo c) of
        Inl e \<Rightarrow> Some (s\<lparr>exited := True\<rparr>)
      | Inr None \<Rightarrow> Some (s\<lparr>exited := True\<rparr>)
      | Inr (Some sch) \<Rightarrow>
          (case make_arrival nu (so_reqDist c) (so_reqPerSecThread c) of
             None \<Rightarrow> Some (s\<lparr>exited := True\<rparr>)
           | Some g \<Rightarrow>
               Some (set_thread k (next_arrival nu now
                       (th\<lparr>th_scheduler := sch, th_gen := g, th_curr := now, th_pc := TLoop\<rparr>)) s)))"

definition sync_thread_send ::
    "platform \<Rightarrow> env \<Rightarrow> nat \<Rightarrow> sync_options \<Rightarrow> nat \<Rightarrow> 64 word \<Rightarrow> 32 word \<Rightarrow> 64 word \<Rightarrow> sync \<Rightarrow> sync option" where
  "sync_thread_send nu env fuel c k now aryIndex startTime s =
     (let th = sy_threads s ! k in
      case rand_mod env (sp_numWorkers c) (ss_world (th_state th)) of
        (Inl e, w) \<Rightarrow> Some (s\<lparr>exited := True\<rparr>)
      | (Inr target, w) \<Rightarrow>
          (case scheduler_schedule fuel env (th_scheduler th) \<lparr>targetData = target, execTime = 1000\<rparr>
                  ((th_state th)\<lparr>ss_world := w\<rparr>) of
             None \<Rightarrow> None
           | Some (Inr True, st) \<Rightarrow>
               Some (set_thread k ((next_arrival nu (th_next th) (th\<lparr>th_state := st\<rparr>))
                                     \<lparr>th_curr := now, th_pc := TCond\<rparr>)
                       (rec_write k aryIndex (n_dbl nu (of_nat (unat (now - startTime)))) s))
           | Some (_, st) \<Rightarrow> Some (s\<lparr>exited := True\<rparr>)))"

definition sync_thread_step ::
    "platform \<Rightarrow> env \<Rightarrow> nat \<Rightarrow> sync_options \<Rightarrow> nat \<Rightarrow> 64 word \<Rightarrow> sync \<Rightarrow> sync option" where
  "sync_thread_step nu env fuel c k now s =
     (let th = sy_threads s ! k in
      case th_pc th of
        TStart \<Rightarrow> sync_thread_start nu c k now s
      | TLoop \<Rightarrow>
          (if th_gen th \<noteq> AsFast \<and> th_next th > th_curr th
           then Some (set_thread k (th\<lparr>th_curr := now, th_pc := TCond\<rparr>) s)
           else Some (set_thread k (th\<lparr>th_pc := TTaken (arrayIndex s)\<rparr>) (rec_take k s)))
      | TTaken ix \<Rightarrow>
          (if unat ix \<ge> kMaxEntries then Some (rec_check k ix s)
           else Some (set_thread k (th\<lparr>th_pc := TSend ix now\<rparr>) (rec_check k ix s)))
      | TSend aryIndex startTime \<Rightarrow> sync_thread_send nu env fuel c k now aryIndex startTime s
      | TCond \<Rightarrow>
          (if sy_mainFinished s then Some (set_thread k (th\<lparr>th_pc := TEnd\<rparr>) (rec_end k s))
           else Some (set_thread k (th\<lparr>th_pc := TLoop\<rparr>) s))
      | TEnd \<Rightarrow> None)"

text \<open>\<open>runBenchmark\<close>: the measuring loop, then joining the threads and processing the results.\<close>

definition sync_main_step :: "platform \<Rightarrow> bool \<Rightarrow> 64 word \<Rightarrow> sync \<Rightarrow> sync option" where
  "sync_main_step nu file_ok now s =
     (case main_at s of
        Measuring \<Rightarrow>
          (let up = \<not> now < sy_endTime s
           in Some ((rec_mark now up s)\<lparr>sy_mainFinished := up\<rparr>))
      | Joining \<Rightarrow>
          (if \<forall>x \<in> set (tickets s). x = Gone then Some (rec_process (n_dbl nu) file_ok s) else None)
      | Finished _ \<Rightarrow> None)"

text \<open>The state when the threads have been created at time \<open>now\<close>.\<close>

definition new_thread :: "sched_state \<Rightarrow> sched_thread" where
  "new_thread st =
     \<lparr>th_pc = TStart, th_scheduler = Fifo (PartitionedFIFOScheduler.make 0 0 0), th_gen = AsFast, th_draws = 0,
      th_curr = 0, th_next = 0, th_state = st\<rparr>"

definition sync_start :: "sync_options \<Rightarrow> 64 word \<Rightarrow> 64 word \<Rightarrow> sched_state \<Rightarrow> sync" where
  "sync_start c t0 now st =
     recorder.extend (rec_start (nat (so_numSchedulers c)) t0)
       \<lparr>sy_threads = replicate (nat (so_numSchedulers c)) (new_thread st), sy_mainFinished = False,
        sy_endTime = now + of_int (narrow32 (so_totalExecTimeMsec c * 1000))\<rparr>"

inductive sync_step :: "platform \<Rightarrow> (nat \<Rightarrow> env) \<Rightarrow> sync_options \<Rightarrow> bool \<Rightarrow> sync \<Rightarrow> sync \<Rightarrow> bool"
  for nu envs c file_ok where
  thread: "\<not> exited s \<Longrightarrow> k < length (sy_threads s) \<Longrightarrow> sync_thread_step nu (envs k) fuel c k now s = Some s' \<Longrightarrow>
    sync_step nu envs c file_ok s s'"
| main: "\<not> exited s \<Longrightarrow> sync_main_step nu file_ok now s = Some s' \<Longrightarrow> sync_step nu envs c file_ok s s'"

subsection \<open>The program\<close>

definition sync_setup :: "platform \<Rightarrow> env \<Rightarrow> sync_options \<Rightarrow> sched_state \<Rightarrow> bool result \<times> sched_state" where
  "sync_setup nu env c s =
     (case sync_constructScheduler nu c (so_scheduleAlgo c) of
        Inl e \<Rightarrow> (Inl e, s)
      | Inr None \<Rightarrow> (Inl AssertFailed, s)
      | Inr (Some sch) \<Rightarrow> scheduler_setup env sch s)"

definition sync_teardown :: "platform \<Rightarrow> env \<Rightarrow> sync_options \<Rightarrow> sched_state \<Rightarrow> bool result \<times> sched_state" where
  "sync_teardown nu env c s =
     (case sync_constructScheduler nu c (so_scheduleAlgo c) of
        Inl e \<Rightarrow> (Inl e, s)
      | Inr None \<Rightarrow> (Inl AssertFailed, s)
      | Inr (Some sch) \<Rightarrow> (case scheduler_teardown env sch s of (r, s') \<Rightarrow> (Inr r, s')))"

text \<open>
  \<open>main\<close>: the exit status. \<open>run\<close> is what the interleaved run of \<open>runBenchmark\<close> does to the database.
\<close>

definition sync_main ::
    "platform \<Rightarrow> env \<Rightarrow> string list \<Rightarrow> (sync_options \<Rightarrow> sched_state \<Rightarrow> bool result \<times> sched_state) \<Rightarrow>
     sched_state \<Rightarrow> int result \<times> sched_state" where
  "sync_main nu env argv run s =
     (case sync_args nu argv of
        None \<Rightarrow> (Inr 1, s)
      | Some c \<Rightarrow>
          (case sync_setup nu env c s of
             (Inl e, s1) \<Rightarrow> (Inl e, s1)
           | (Inr False, s1) \<Rightarrow> (Inr 1, s1)
           | (Inr True, s1) \<Rightarrow>
               (case run c s1 of
                  (Inl e, s2) \<Rightarrow> (Inl e, s2)
                | (Inr False, s2) \<Rightarrow> (Inr 1, s2)
                | (Inr True, s2) \<Rightarrow>
                    (if so_cleanDB c
                     then (case sync_teardown nu env c s2 of
                             (Inl e, s3) \<Rightarrow> (Inl e, s3)
                           | (Inr ok, s3) \<Rightarrow> (Inr (if ok then 0 else 1), s3))
                     else (Inr 0, s2)))))"

text \<open>A command line for given options (with the default probability and rate).\<close>

definition sync_argv :: "sync_options \<Rightarrow> string list" where
  "sync_argv c =
     [''-o'', so_outputFile c, ''-s'', so_serverAddr c, ''-i'', to_string (so_measureIntervalMsec c),
      ''-t'', to_string (so_totalExecTimeMsec c), ''-N'', to_string (so_numSchedulers c),
      ''-W'', to_string (sp_numWorkers c), ''-C'', to_string (sp_workerCapacity c),
      ''-P'', to_string (sp_partitions c), ''-A'', so_scheduleAlgo c, ''-T'', to_string (sp_numTasks c),
      ''-D'', so_reqDist c] @ (if so_cleanDB c then [''-x''] else [])"

definition int32 :: "int \<Rightarrow> bool" where
  "int32 x \<longleftrightarrow> - (2 ^ 31) \<le> x \<and> x < 2 ^ 31"

text \<open>What a thread at each point holds.\<close>

fun ticket_at :: "thread_pc \<Rightarrow> ticket" where
  "ticket_at TStart = Idle"
| "ticket_at TLoop = Idle"
| "ticket_at (TTaken ix) = Taken ix"
| "ticket_at (TSend ix t) = Holding ix"
| "ticket_at TCond = Idle"
| "ticket_at TEnd = Gone"

definition sync_wf :: "sync \<Rightarrow> bool" where
  "sync_wf s \<longleftrightarrow> tickets s = map (\<lambda>th. ticket_at (th_pc th)) (sy_threads s)"

section \<open>Lemmas\<close>

lemma truncate_set_thread [simp]: "recorder.truncate (set_thread k th s) = recorder.truncate s"
  by (simp add: set_thread_def recorder.truncate_def)

lemma sy_threads_rec [simp]:
  "sy_threads (rec_take k s) = sy_threads s" "sy_threads (rec_check k ix s) = sy_threads s"
  "sy_threads (rec_write k ix x s) = sy_threads s" "sy_threads (rec_end k s) = sy_threads s"
  "sy_threads (rec_mark now up s) = sy_threads s" "sy_threads (rec_process dbl file_ok s) = sy_threads s"
  by (simp_all add: rec_take_def rec_check_def rec_write_def rec_end_def rec_mark_def rec_process_def)

lemma set_thread_fields [simp]:
  "tickets (set_thread k th s) = tickets s" "sy_threads (set_thread k th s) = (sy_threads s)[k := th]"
  by (simp_all add: set_thread_def)

lemma next_arrival_pc [simp]: "th_pc (next_arrival nu t th) = th_pc th"
  by (simp add: next_arrival_def)

lemma update_same_map: "k < length xs \<Longrightarrow> f (xs ! k) = y \<Longrightarrow> map f xs = (map f xs)[k := y]"
  by (metis length_map list_update_id nth_map)

lemma sync_step_wf: "sync_wf s \<Longrightarrow> sync_step nu envs c file_ok s s' \<Longrightarrow> sync_wf s'"
  by (auto elim!: sync_step.cases simp: sync_wf_def sync_thread_step_def sync_thread_start_def sync_thread_send_def
      sync_main_step_def Let_def map_update intro!: update_same_map
      split: thread_pc.splits main_pc.splits option.splits prod.splits sum.splits bool.splits if_splits)

lemma truncate_mainFinished [simp]: "recorder.truncate (s\<lparr>sy_mainFinished := b\<rparr>) = recorder.truncate s"
  by (simp add: recorder.truncate_def)

lemma sync_thread_view:
  assumes "sync_wf s" "k < length (sy_threads s)" "sync_thread_step nu env fuel c k now s = Some s'"
  shows "recorder.truncate s' = recorder.truncate s \<or>
    rec_step (n_dbl nu) file_ok (recorder.truncate s) (recorder.truncate s')"
proof -
  have t: "k < length (tickets s)" "tickets s ! k = ticket_at (th_pc (sy_threads s ! k))"
    using assms(1,2) by (simp_all add: sync_wf_def)
  show ?thesis
  proof (cases "th_pc (sy_threads s ! k)")
    case TStart
    then show ?thesis using assms(3) rec_step.die [of _ _ "recorder.truncate s"]
      by (auto simp: sync_thread_step_def sync_thread_start_def Let_def split: sum.splits option.splits)
  next
    case TLoop
    then show ?thesis using assms(3) t rec_step.grab [of k "recorder.truncate s"]
      by (auto simp: sync_thread_step_def Let_def split: if_splits)
  next
    case (TTaken ix)
    then show ?thesis using assms(3) t rec_step.test [of k "recorder.truncate s" ix]
      by (auto simp: sync_thread_step_def Let_def split: if_splits)
  next
    case (TSend ix st)
    then show ?thesis using assms(3) t rec_step.fill [of k "recorder.truncate s" ix] rec_step.die [of _ _ "recorder.truncate s"]
      by (auto simp: sync_thread_step_def sync_thread_send_def Let_def
          split: option.splits prod.splits sum.splits bool.splits)
  next
    case TCond
    then show ?thesis using assms(3) t rec_step.stop [of k "recorder.truncate s"]
      by (auto simp: sync_thread_step_def Let_def split: if_splits)
  qed (use assms(3) in \<open>simp add: sync_thread_step_def Let_def\<close>)
qed

lemma sync_main_view:
  assumes "sync_main_step nu file_ok now s = Some s'"
  shows "rec_step (n_dbl nu) file_ok (recorder.truncate s) (recorder.truncate s')"
  using assms rec_step.mark [of "recorder.truncate s"] rec_step.results [of "recorder.truncate s"]
  by (auto simp: sync_main_step_def Let_def split: main_pc.splits if_splits)

interpretation sync_rec: recording_program "sync_step nu envs c file_ok" sync_wf "recorder.truncate" "n_dbl nu" file_ok
  for nu envs c file_ok
proof
  fix s s'
  assume "sync_wf s" "sync_step nu envs c file_ok s s'"
  then show "sync_wf s'" by (rule sync_step_wf)
next
  fix s s'
  assume wf: "sync_wf s" and "sync_step nu envs c file_ok s s'"
  from this(2) show "recorder.truncate s' = recorder.truncate s \<or>
      rec_step (n_dbl nu) file_ok (recorder.truncate s) (recorder.truncate s')"
    by (cases rule: sync_step.cases) (use sync_thread_view [OF wf] sync_main_view in blast)+
qed

lemma sync_start_wf: "sync_wf (sync_start c t0 now st)"
  "recorder.truncate (sync_start c t0 now st) = rec_start (nat (so_numSchedulers c)) t0"
  by (simp_all add: sync_wf_def sync_start_def recorder.extend_def recorder.truncate_def rec_start_def new_thread_def)

text \<open>
  C28. The synchronous benchmark reports exactly what its threads did, under every interleaving of the
  scheduler threads and the main thread and every behaviour of the database: two threads that are
  about to record hold different entries of the latency array, both inside it; and when the benchmark
  has finished, the results exist, the counts of their intervals add up to the number of requests
  begun before the last boundary, and the statistics of each interval are those of its own entries.
\<close>

theorem sync_benchmark_accounts:
  assumes "(sync_step nu envs c True)\<^sup>*\<^sup>* (sync_start c t0 now st) s" "so_numSchedulers c \<le> 2 ^ 31"
  shows "(\<forall>R. main_at s = Finished R \<longrightarrow>
      (\<exists>res. R = Inr (Some res) \<and> accounts (n_dbl nu) (recorder.truncate s) res)) \<and>
    (\<forall>k l ix jx. k < nat (so_numSchedulers c) \<longrightarrow> l < nat (so_numSchedulers c) \<longrightarrow> k \<noteq> l \<longrightarrow>
      tickets s ! k = Holding ix \<longrightarrow> tickets s ! l = Holding jx \<longrightarrow> ix \<noteq> jx \<and> unat ix < length (latencies s))"
proof -
  have n: "nat (so_numSchedulers c) \<le> 2 ^ 31" using assms(2) by simp
  show ?thesis
    using sync_rec.reach_accounts [OF assms(1) sync_start_wf n TrueI]
      sync_rec.reach_exclusive [OF assms(1) sync_start_wf n] by auto
qed

theorem sync_benchmark_accounts_witness:
  "let c = sync_defaults\<lparr>so_reqDist := ''fixed'', so_totalExecTimeMsec := 0\<rparr>;
       nu = \<lparr>n_dbl = (\<lambda>x. x), n_flt = (\<lambda>x. x), n_exp = (\<lambda>_ _. 1), n_unif = (\<lambda>_ _. 1), n_accepts = (\<lambda>_. True)\<rparr>;
       st = \<lparr>ss_world = world_with empty_tables, ss_local = 0, ss_single = 0, ss_push = 0, ss_spark = 0, ss_workers = []\<rparr>
   in \<exists>s res. (sync_step nu (\<lambda>_. quiet_env) c True)\<^sup>*\<^sup>* (sync_start c 5 6 st) s \<and>
     main_at s = Finished (Inr (Some res)) \<and> res_totalEntries res = 0"
proof -
  let ?c = "sync_defaults\<lparr>so_reqDist := ''fixed'', so_totalExecTimeMsec := 0\<rparr>"
  let ?nu = "\<lparr>n_dbl = (\<lambda>x. x), n_flt = (\<lambda>x. x), n_exp = (\<lambda>_ _. 1), n_unif = (\<lambda>_ _. 1), n_accepts = (\<lambda>_. True)\<rparr>"
  let ?st = "\<lparr>ss_world = world_with empty_tables, ss_local = 0, ss_single = 0, ss_push = 0, ss_spark = 0, ss_workers = []\<rparr>"
  let ?R = "sync_step ?nu (\<lambda>_. quiet_env) ?c True"
  let ?s0 = "sync_start ?c 5 6 ?st"
  let ?g = "AFixed (Fixed_updateInterval (\<lambda>x. x) 100)"
  let ?th = "next_arrival ?nu 7 ((new_thread ?st)\<lparr>th_scheduler := new_Fifo ?c, th_gen := ?g, th_curr := 7, th_pc := TLoop\<rparr>)"
  let ?s1 = "(rec_mark 9 True ?s0)\<lparr>sy_mainFinished := True\<rparr>"
  let ?s2 = "set_thread 0 ?th ?s1"
  let ?s3 = "set_thread 0 (?th\<lparr>th_curr := 8, th_pc := TCond\<rparr>) ?s2"
  let ?s4 = "set_thread 0 (?th\<lparr>th_curr := 8, th_pc := TEnd\<rparr>) (rec_end 0 ?s3)"
  have facts: "\<not> exited ?s0" "main_at ?s0 = Measuring" "sy_endTime ?s0 = 6" "sy_threads ?s0 = [new_thread ?st]"
    "tickets ?s0 = [Idle]" "indices ?s0 = [0]" "arrayIndex ?s0 = 0"
    by (simp_all add: sync_start_def recorder.extend_def rec_start_def sync_defaults_def narrow32_def)
  have "?R ?s0 ?s1"
    using facts by (intro sync_step.main [where now = 9]) (simp_all add: sync_main_step_def Let_def)
  moreover have "?R ?s1 ?s2"
    using facts
    by (intro sync_step.thread [where k = 0 and now = 7])
      (simp_all add: sync_thread_step_def sync_thread_start_def new_thread_def rec_mark_def
        sync_constructScheduler_def connected_def VoltdbSchedulerUtil_init_def make_arrival_def
        sync_defaults_def)
  moreover have late: "th_next ?th = 10007" "th_curr ?th = 7" "th_gen ?th = ?g" "th_pc ?th = TLoop"
    by (simp_all add: next_arrival_def new_thread_def arrival_usec_def arrival_generate_def Fixed_generate_def
        Fixed_updateInterval_def to_int_def)
  have "?R ?s2 ?s3"
    using facts late
    by (intro sync_step.thread [where k = 0 and now = 8])
      (simp_all add: sync_thread_step_def Let_def rec_mark_def set_thread_def)
  moreover have "?R ?s3 ?s4"
    using facts
    by (intro sync_step.thread [where k = 0 and now = 8])
      (simp_all add: sync_thread_step_def Let_def rec_mark_def set_thread_def)
  moreover have "?R ?s4 (rec_process (\<lambda>x. x) True ?s4)"
    using facts by (intro sync_step.main [where now = 10])
      (simp_all add: sync_main_step_def rec_mark_def set_thread_def rec_end_def)
  ultimately have reach: "?R\<^sup>*\<^sup>* ?s0 (rec_process (\<lambda>x. x) True ?s4)"
    by (meson rtranclp.rtrancl_into_rtrancl rtranclp.rtrancl_refl)
  have "\<exists>R. main_at (rec_process (\<lambda>x. x) True ?s4) = Finished R \<and> indices (rec_process (\<lambda>x. x) True ?s4) = [0, 0]"
    using facts by (simp add: rec_process_def set_thread_def rec_end_def rec_mark_def)
  with reach obtain s R where s: "?R\<^sup>*\<^sup>* ?s0 s" "main_at s = Finished R" "indices s = [0, 0]" by blast
  have "so_numSchedulers ?c \<le> 2 ^ 31" by (simp add: sync_defaults_def)
  from sync_benchmark_accounts [OF s(1) this] s(2)
  obtain res where "R = Inr (Some res)" "accounts (n_dbl ?nu) (recorder.truncate s) res" by blast
  then have "main_at s = Finished (Inr (Some res))" "res_totalEntries res = 0"
    using s(2,3) by (simp_all add: accounts_def)
  with s(1) show ?thesis unfolding Let_def by blast
qed

subsection \<open>Options\<close>

text \<open>
  Reading back the options: for any options with 32-bit numbers, a supported algorithm and a
  supported distribution, \<open>main\<close> reads from the corresponding command line exactly these options, with the
  request rate divided among the threads unless requests are sent as fast as possible; and then
  a scheduler is constructed (unless a database host refuses the connection) and the arrival generator
  exists.
\<close>

theorem sync_args_roundtrip:
  assumes "\<forall>x \<in> {so_measureIntervalMsec c, so_totalExecTimeMsec c, so_numSchedulers c, sp_numWorkers c,
      sp_workerCapacity c, sp_partitions c, sp_numTasks c}. int32 x"
    and "so_scheduleAlgo c \<in> set sync_kAlgorithms" "so_reqDist c \<in> set kDists"
    and "sp_probMultiTx c = 0" "so_reqPerSec c = 100" "so_reqPerSecThread c = 100"
  shows "sync_args nu (sync_argv c) = Some (if so_reqDist c = ''none'' then c
      else c\<lparr>so_reqPerSecThread := n_dbl nu (100 / of_int (so_numSchedulers c))\<rparr>) \<and>
    sync_constructScheduler nu c (so_scheduleAlgo c) \<noteq> Inr None \<and> make_arrival nu (so_reqDist c) r \<noteq> None"
proof -
  let ?spec = "''hxo:s:i:t:N:W:C:P:A:T:p:R:D:''"
  have opts: "getopt ?spec (sync_argv c) =
      [(CHR ''o'', so_outputFile c), (CHR ''s'', so_serverAddr c), (CHR ''i'', to_string (so_measureIntervalMsec c)),
       (CHR ''t'', to_string (so_totalExecTimeMsec c)), (CHR ''N'', to_string (so_numSchedulers c)),
       (CHR ''W'', to_string (sp_numWorkers c)), (CHR ''C'', to_string (sp_workerCapacity c)),
       (CHR ''P'', to_string (sp_partitions c)), (CHR ''A'', so_scheduleAlgo c), (CHR ''T'', to_string (sp_numTasks c)),
       (CHR ''D'', so_reqDist c)] @ (if so_cleanDB c then [(CHR ''x'', [])] else [])"
    by (simp add: sync_argv_def getopt_arg getopt_flag)
  have "option_loop (sync_switch nu) (getopt ?spec (sync_argv c)) sync_defaults = Some c"
    unfolding opts using assms(1,4-6)
    by (simp add: sync_switch_def sync_defaults_def atoi_to_string int32_def)
  then have "sync_args nu (sync_argv c) = Some (if so_reqDist c = ''none'' then c
      else c\<lparr>so_reqPerSecThread := n_dbl nu (100 / of_int (so_numSchedulers c))\<rparr>)"
    using assms(2,3,5) by (simp add: sync_args_def)
  moreover have "sync_constructScheduler nu c (so_scheduleAlgo c) \<noteq> Inr None"
    using assms(2) by (auto simp: sync_kAlgorithms_def sync_constructScheduler_def)
  moreover have "make_arrival nu (so_reqDist c) r \<noteq> None" using assms(3) by (auto simp: kDists_def make_arrival_def)
  ultimately show ?thesis by simp
qed

theorem sync_args_roundtrip_witness:
  "sync_args \<lparr>n_dbl = (\<lambda>x. x), n_flt = (\<lambda>x. x), n_exp = (\<lambda>_ _. 1), n_unif = (\<lambda>_ _. 1), n_accepts = (\<lambda>_. True)\<rparr>
     (sync_argv (sync_defaults\<lparr>sp_numWorkers := 20, so_cleanDB := True\<rparr>)) =
   Some (sync_defaults\<lparr>sp_numWorkers := 20, so_cleanDB := True\<rparr>)"
  using sync_args_roundtrip [of "sync_defaults\<lparr>sp_numWorkers := 20, so_cleanDB := True\<rparr>"]
  by (simp add: sync_defaults_def int32_def sync_kAlgorithms_def kDists_def)

end
