(* ===== verification/Bench_Async.thy ===== *)
theory Bench_Async
  imports Bench_Sync
begin

text \<open>
  \<open>AsyncSyntheticScheduler.cc\<close>: the benchmark with asynchronous requests. A thread sends requests
  without waiting; the responses that have arrived are handled in the event loop of its own client
  (\<open>runOnce\<close>, \<open>drain\<close>), which calls \<open>SchedulerCallback::callback\<close> for each. How many responses have
  arrived when the event loop runs is up to the database: the loop may end at any moment, and \<open>drain\<close>
  ends when no request is outstanding. The field \<open>at_sent\<close> counts the requests sent; the program
  has no such variable.
\<close>

section \<open>Definitions\<close>

subsection \<open>Options\<close>

definition async_kAlgorithms :: "string list" where
  "async_kAlgorithms = [''fifo'', ''fifo-local'', ''single-partitioned-fifo-task'']"

record async_options = sync_options +
  ao_maxOutstanding :: int
  ao_noSetupDB :: bool
  ao_outputCpuUsage :: bool

definition async_defaults :: async_options where
  "async_defaults = sync_options.extend sync_defaults
     \<lparr>ao_maxOutstanding = 1, ao_noSetupDB = False, ao_outputCpuUsage = False\<rparr>"

definition async_switch :: "platform \<Rightarrow> char \<times> string \<Rightarrow> async_options \<Rightarrow> async_options option" where
  "async_switch nu x c =
     (case x of (opt, optarg) \<Rightarrow>
      if opt = CHR ''o'' then Some (c\<lparr>so_outputFile := optarg\<rparr>)
      else if opt = CHR ''s'' then Some (c\<lparr>so_serverAddr := optarg\<rparr>)
      else if opt = CHR ''i'' then Some (c\<lparr>so_measureIntervalMsec := atoi optarg\<rparr>)
      else if opt = CHR ''t'' then Some (c\<lparr>so_totalExecTimeMsec := atoi optarg\<rparr>)
      else if opt = CHR ''N'' then Some (c\<lparr>so_numSchedulers := atoi optarg\<rparr>)
      else if opt = CHR ''W'' then Some (c\<lparr>sp_numWorkers := atoi optarg\<rparr>)
      else if opt = CHR ''C'' then Some (c\<lparr>sp_workerCapacity := atoi optarg\<rparr>)
      else if opt = CHR ''P'' then Some (c\<lparr>sp_partitions := atoi optarg\<rparr>)
      else if opt = CHR ''A'' then Some (c\<lparr>so_scheduleAlgo := optarg\<rparr>)
      else if opt = CHR ''T'' then Some (c\<lparr>sp_numTasks := atoi optarg\<rparr>)
      else if opt = CHR ''p'' then Some (c\<lparr>sp_probMultiTx := n_flt nu (atof (n_dbl nu) optarg)\<rparr>)
      else if opt = CHR ''R'' then Some (c\<lparr>so_reqPerSec := atof (n_dbl nu) optarg\<rparr>)
      else if opt = CHR ''D'' then Some (c\<lparr>so_reqDist := optarg\<rparr>)
      else if opt = CHR ''x'' then Some (c\<lparr>so_cleanDB := True\<rparr>)
      else if opt = CHR ''X'' then Some (c\<lparr>ao_noSetupDB := True\<rparr>)
      else if opt = CHR ''m'' then Some (c\<lparr>ao_maxOutstanding := atoi optarg\<rparr>)
      else if opt = CHR ''c'' then Some (c\<lparr>ao_outputCpuUsage := True\<rparr>)
      else None)"

definition async_args :: "platform \<Rightarrow> string list \<Rightarrow> async_options option" where
  "async_args nu argv =
     (case option_loop (async_switch nu) (getopt ''hxXco:s:i:t:N:W:C:P:A:T:p:R:D:m:'' argv) async_defaults of
        None \<Rightarrow> None
      | Some c \<Rightarrow>
          (if so_scheduleAlgo c \<notin> set async_kAlgorithms then None
           else if so_reqDist c \<notin> set kDists then None
           else if so_reqDist c \<noteq> ''none''
           then Some (c\<lparr>so_reqPerSecThread := n_dbl nu (so_reqPerSec c / of_int (so_numSchedulers c))\<rparr>)
           else Some c))"

definition async_constructScheduler :: "platform \<Rightarrow> async_options \<Rightarrow> string \<Rightarrow> scheduler option result" where
  "async_constructScheduler nu c algo =
     (let new = connected (n_accepts nu) (so_serverAddr c) in
      if algo = ''fifo'' then new (new_Fifo c)
      else if algo = ''fifo-local'' then new (new_FifoLocal c)
      else if algo = ''single-partitioned-fifo-task'' then new (new_SinglePartitioned c 0)
      else Inr None)"

subsection \<open>Threads\<close>

datatype async_pc =
    AStart
  | ALoop                             \<comment> \<open>at the top of the loop\<close>
  | AEvents bool                      \<comment> \<open>in the event loop, of \<open>drain\<close> or not\<close>
  | ATaken bool "32 word" response    \<comment> \<open>in the callback with an index, about to check it\<close>
  | AHold bool "32 word" response     \<comment> \<open>in the callback with an entry, about to record\<close>
  | ACond                             \<comment> \<open>at \<open>while (!mainFinished)\<close>\<close>
  | AEnd

record async_thread =
  at_pc :: async_pc
  at_scheduler :: scheduler
  at_gen :: arrival
  at_draws :: nat
  at_curr :: "64 word"
  at_next :: "64 word"
  at_state :: sched_state
  at_outCnt :: int
  at_sent :: nat

record async = recorder +
  as_threads :: "async_thread list"
  as_mainFinished :: bool
  as_endTime :: "64 word"

definition set_async :: "nat \<Rightarrow> async_thread \<Rightarrow> async \<Rightarrow> async" where
  "set_async k th s = s\<lparr>as_threads := (as_threads s)[k := th]\<rparr>"

definition outstanding_of :: "async_thread \<Rightarrow> response list" where
  "outstanding_of th = pending (ss_world (at_state th))"

definition set_outstanding :: "response list \<Rightarrow> async_thread \<Rightarrow> async_thread" where
  "set_outstanding rs th = th\<lparr>at_state := (at_state th)\<lparr>ss_world := (ss_world (at_state th))\<lparr>pending := rs\<rparr>\<rparr>\<rparr>"

definition async_next :: "platform \<Rightarrow> 64 word \<Rightarrow> async_thread \<Rightarrow> async_thread" where
  "async_next nu from_time th =
     th\<lparr>at_next := from_time + arrival_usec nu (arrival_generate nu (at_gen th) (at_draws th)),
        at_draws := Suc (at_draws th)\<rparr>"

definition async_thread_start :: "platform \<Rightarrow> async_options \<Rightarrow> nat \<Rightarrow> 64 word \<Rightarrow> async \<Rightarrow> async option" where
  "async_thread_start nu c k now s =
     (let th = as_threads s ! k in
      case async_constructScheduler nu c (so_scheduleAlgo c) of
        Inl e \<Rightarrow> Some (s\<lparr>exited := True\<rparr>)
      | Inr None \<Rightarrow> Some (s\<lparr>exited := True\<rparr>)
      | Inr (Some sch) \<Rightarrow>
          (case make_arrival nu (so_reqDist c) (so_reqPerSecThread c) of
             None \<Rightarrow> Some (s\<lparr>exited := True\<rparr>)
           | Some g \<Rightarrow>
               (let th' = th\<lparr>at_scheduler := sch, at_gen := g, at_outCnt := 0, at_pc := ALoop\<rparr>
                in Some (set_async k (if g = AsFast then th' else async_next nu now (th'\<lparr>at_curr := now\<rparr>)) s))))"

text \<open>
  A request: \<open>asyncSchedule\<close>, then the event loop when the heuristics ask for it; a thread with an
  arrival distribution always enters it.
\<close>

definition async_thread_send :: "env \<Rightarrow> async_options \<Rightarrow> nat \<Rightarrow> async \<Rightarrow> async option" where
  "async_thread_send env c k s =
     (let th = as_threads s ! k in
      case scheduler_asyncSchedule env (at_scheduler th) (at_state th) of
        (Inr True, st) \<Rightarrow>
          (let out = at_outCnt th + 1;
               events = at_gen th \<noteq> AsFast \<or> out \<ge> ao_maxOutstanding c \<or> out > c_div (ao_maxOutstanding c) 2
           in Some (set_async k (th\<lparr>at_state := st, at_outCnt := out, at_sent := Suc (at_sent th),
                      at_pc := (if events then AEvents False else ACond)\<rparr>) s))
      | (_, st) \<Rightarrow> Some (s\<lparr>exited := True\<rparr>))"

text \<open>The event loop returns to the thread: the next arrival, and the clock.\<close>

definition async_leave :: "platform \<Rightarrow> 64 word \<Rightarrow> async_thread \<Rightarrow> async_thread" where
  "async_leave nu now th =
     (if at_gen th = AsFast then th\<lparr>at_pc := ACond\<rparr>
      else (async_next nu (at_next th) th)\<lparr>at_curr := now, at_pc := ACond\<rparr>)"

text \<open>
  The next response is handed to \<open>SchedulerCallback::callback\<close>, up to the atomic counter.
\<close>

definition async_callback :: "bool \<Rightarrow> nat \<Rightarrow> async \<Rightarrow> async option" where
  "async_callback drain k s =
     (let th = as_threads s ! k in
      case outstanding_of th of
        [] \<Rightarrow> None
      | Failure # rs \<Rightarrow> Some (s\<lparr>exited := True\<rparr>)
      | Results rows # rs \<Rightarrow>
          Some (set_async k ((set_outstanding rs th)\<lparr>at_pc := ATaken drain (arrayIndex s) (Results rows)\<rparr>)
                  (rec_take k s)))"

text \<open>
  The rest of the callback: the latency is the round trip time in milliseconds that the server reports;
  the response must name a worker; the event loop ends when few requests are outstanding.
\<close>

definition async_record ::
    "platform \<Rightarrow> async_options \<Rightarrow> nat \<Rightarrow> 64 word \<Rightarrow> int \<Rightarrow> bool \<Rightarrow> 32 word \<Rightarrow> response \<Rightarrow> async \<Rightarrow> async" where
  "async_record nu c k now roundTrip drain ix r s =
     (let th = as_threads s ! k;
          s1 = rec_write k ix (n_dbl nu (of_int roundTrip * 1000)) s
      in case first_int64 (case r of Failure \<Rightarrow> [] | Results rows \<Rightarrow> rows) of
           Inl e \<Rightarrow> s\<lparr>exited := True\<rparr>
         | Inr v \<Rightarrow>
             (if narrow32 v < 0 then s\<lparr>exited := True\<rparr>
              else let th' = th\<lparr>at_outCnt := at_outCnt th - 1\<rparr>
                   in set_async k (if at_outCnt th' \<le> c_div (ao_maxOutstanding c) 2 \<and> \<not> drain
                                   then async_leave nu now th' else th'\<lparr>at_pc := AEvents drain\<rparr>) s1))"

definition async_thread_step ::
    "platform \<Rightarrow> env \<Rightarrow> async_options \<Rightarrow> nat \<Rightarrow> 64 word \<Rightarrow> int \<Rightarrow> bool \<Rightarrow> async \<Rightarrow> async option" where
  "async_thread_step nu env c k now roundTrip arrived s =
     (let th = as_threads s ! k in
      case at_pc th of
        AStart \<Rightarrow> async_thread_start nu c k now s
      | ALoop \<Rightarrow>
          (if at_gen th \<noteq> AsFast \<and> at_next th > at_curr th
           then Some (set_async k (th\<lparr>at_curr := now, at_pc := ACond\<rparr>) s)
           else async_thread_send env c k s)
      | AEvents drain \<Rightarrow>
          (if arrived then async_callback drain k s
           else if \<not> drain then Some (set_async k (async_leave nu now th) s)
           else if outstanding_of th = [] then Some (set_async k (th\<lparr>at_pc := AEnd\<rparr>) (rec_end k s))
           else None)
      | ATaken drain ix r \<Rightarrow>
          (if unat ix \<ge> kMaxEntries then Some (rec_check k ix s)
           else Some (set_async k (th\<lparr>at_pc := AHold drain ix r\<rparr>) (rec_check k ix s)))
      | AHold drain ix r \<Rightarrow> Some (async_record nu c k now roundTrip drain ix r s)
      | ACond \<Rightarrow> Some (set_async k (th\<lparr>at_pc := (if as_mainFinished s then AEvents True else ALoop)\<rparr>) s)
      | AEnd \<Rightarrow> None)"

definition async_main_step :: "platform \<Rightarrow> bool \<Rightarrow> 64 word \<Rightarrow> async \<Rightarrow> async option" where
  "async_main_step nu file_ok now s =
     (case main_at s of
        Measuring \<Rightarrow>
          (let up = \<not> now < as_endTime s
           in Some ((rec_mark now up s)\<lparr>as_mainFinished := up\<rparr>))
      | Joining \<Rightarrow>
          (if \<forall>x \<in> set (tickets s). x = Gone then Some (rec_process (n_dbl nu) file_ok s) else None)
      | Finished _ \<Rightarrow> None)"

definition new_async_thread :: "sched_state \<Rightarrow> async_thread" where
  "new_async_thread st =
     \<lparr>at_pc = AStart, at_scheduler = Fifo (PartitionedFIFOScheduler.make 0 0 0), at_gen = AsFast, at_draws = 0,
      at_curr = 0, at_next = 0, at_state = st, at_outCnt = 0, at_sent = 0\<rparr>"

definition async_start :: "async_options \<Rightarrow> 64 word \<Rightarrow> 64 word \<Rightarrow> sched_state \<Rightarrow> async" where
  "async_start c t0 now st =
     recorder.extend (rec_start (nat (so_numSchedulers c)) t0)
       \<lparr>as_threads = replicate (nat (so_numSchedulers c)) (new_async_thread st), as_mainFinished = False,
        as_endTime = now + of_int (narrow32 (so_totalExecTimeMsec c * 1000))\<rparr>"

inductive async_step :: "platform \<Rightarrow> (nat \<Rightarrow> env) \<Rightarrow> async_options \<Rightarrow> bool \<Rightarrow> async \<Rightarrow> async \<Rightarrow> bool"
  for nu envs c file_ok where
  thread: "\<not> exited s \<Longrightarrow> k < length (as_threads s) \<Longrightarrow>
    async_thread_step nu (envs k) c k now roundTrip arrived s = Some s' \<Longrightarrow> async_step nu envs c file_ok s s'"
| main: "\<not> exited s \<Longrightarrow> async_main_step nu file_ok now s = Some s' \<Longrightarrow> async_step nu envs c file_ok s s'"

subsection \<open>The program\<close>

definition async_setup :: "platform \<Rightarrow> env \<Rightarrow> async_options \<Rightarrow> sched_state \<Rightarrow> bool result \<times> sched_state" where
  "async_setup nu env c s =
     (case async_constructScheduler nu c (so_scheduleAlgo c) of
        Inl e \<Rightarrow> (Inl e, s)
      | Inr None \<Rightarrow> (Inl AssertFailed, s)
      | Inr (Some sch) \<Rightarrow> scheduler_setup env sch s)"

definition async_teardown :: "platform \<Rightarrow> env \<Rightarrow> async_options \<Rightarrow> sched_state \<Rightarrow> bool result \<times> sched_state" where
  "async_teardown nu env c s =
     (case async_constructScheduler nu c (so_scheduleAlgo c) of
        Inl e \<Rightarrow> (Inl e, s)
      | Inr None \<Rightarrow> (Inl AssertFailed, s)
      | Inr (Some sch) \<Rightarrow> (case scheduler_teardown env sch s of (r, s') \<Rightarrow> (Inr r, s')))"

definition async_main ::
    "platform \<Rightarrow> env \<Rightarrow> string list \<Rightarrow> (async_options \<Rightarrow> sched_state \<Rightarrow> bool result \<times> sched_state) \<Rightarrow>
     sched_state \<Rightarrow> int result \<times> sched_state" where
  "async_main nu env argv run s =
     (case async_args nu argv of
        None \<Rightarrow> (Inr 1, s)
      | Some c \<Rightarrow>
          (case (if ao_noSetupDB c then (Inr True, s) else async_setup nu env c s) of
             (Inl e, s1) \<Rightarrow> (Inl e, s1)
           | (Inr False, s1) \<Rightarrow> (Inr 1, s1)
           | (Inr True, s1) \<Rightarrow>
               (case run c s1 of
                  (Inl e, s2) \<Rightarrow> (Inl e, s2)
                | (Inr False, s2) \<Rightarrow> (Inr 1, s2)
                | (Inr True, s2) \<Rightarrow>
                    (if so_cleanDB c
                     then (case async_teardown nu env c s2 of
                             (Inl e, s3) \<Rightarrow> (Inl e, s3)
                           | (Inr ok, s3) \<Rightarrow> (Inr (if ok then 0 else 1), s3))
                     else (Inr 0, s2)))))"

text \<open>What a thread at each point holds.\<close>

fun ticket_async :: "async_pc \<Rightarrow> ticket" where
  "ticket_async AStart = Idle"
| "ticket_async ALoop = Idle"
| "ticket_async (AEvents d) = Idle"
| "ticket_async (ATaken d ix r) = Taken ix"
| "ticket_async (AHold d ix r) = Holding ix"
| "ticket_async ACond = Idle"
| "ticket_async AEnd = Gone"

definition async_wf :: "async \<Rightarrow> bool" where
  "async_wf s \<longleftrightarrow> tickets s = map (\<lambda>th. ticket_async (at_pc th)) (as_threads s)"

text \<open>
  The counter of outstanding requests is right, but for a response that is being handled; a thread ends with
  nothing outstanding; and every request sent is outstanding or has taken an index.
\<close>

definition in_callback :: "async_thread \<Rightarrow> nat" where
  "in_callback th = (case at_pc th of ATaken d ix r \<Rightarrow> 1 | AHold d ix r \<Rightarrow> 1 | _ \<Rightarrow> 0)"

definition async_thread_ok :: "async_thread \<Rightarrow> bool" where
  "async_thread_ok th \<longleftrightarrow> at_outCnt th = int (length (outstanding_of th) + in_callback th) \<and>
     (at_pc th = AStart \<or> at_pc th = AEnd \<longrightarrow> outstanding_of th = [])"

definition async_inv :: "async \<Rightarrow> bool" where
  "async_inv s \<longleftrightarrow> (\<forall>th \<in> set (as_threads s). async_thread_ok th) \<and>
     unat (arrayIndex s) + (\<Sum>th\<leftarrow>as_threads s. length (outstanding_of th)) = (\<Sum>th\<leftarrow>as_threads s. at_sent th)"

section \<open>Lemmas\<close>

lemma truncate_set_async [simp]: "recorder.truncate (set_async k th s) = recorder.truncate s"
  "recorder.truncate (s\<lparr>as_mainFinished := b\<rparr>) = recorder.truncate s"
  by (simp_all add: set_async_def recorder.truncate_def)

lemma as_threads_rec [simp]:
  "as_threads (rec_take k s) = as_threads s" "as_threads (rec_check k ix s) = as_threads s"
  "as_threads (rec_write k ix x s) = as_threads s" "as_threads (rec_end k s) = as_threads s"
  "as_threads (rec_mark now up s) = as_threads s" "as_threads (rec_process dbl file_ok s) = as_threads s"
  by (simp_all add: rec_take_def rec_check_def rec_write_def rec_end_def rec_mark_def rec_process_def)

lemma arrayIndex_rec [simp]:
  "arrayIndex (rec_take k s) = arrayIndex s + 1" "arrayIndex (rec_check k ix s) = arrayIndex s"
  "arrayIndex (rec_write k ix x s) = arrayIndex s" "arrayIndex (rec_end k s) = arrayIndex s"
  "arrayIndex (rec_mark now up s) = arrayIndex s" "arrayIndex (rec_process dbl file_ok s) = arrayIndex s"
  by (simp_all add: rec_take_def rec_check_def rec_write_def rec_end_def rec_mark_def rec_process_def)

lemma set_async_fields [simp]:
  "tickets (set_async k th s) = tickets s" "as_threads (set_async k th s) = (as_threads s)[k := th]"
  "arrayIndex (set_async k th s) = arrayIndex s"
  by (simp_all add: set_async_def)

lemma outstanding_of_update [simp]:
  "outstanding_of (th\<lparr>at_pc := p\<rparr>) = outstanding_of th" "outstanding_of (th\<lparr>at_outCnt := i\<rparr>) = outstanding_of th"
  "outstanding_of (th\<lparr>at_curr := t\<rparr>) = outstanding_of th" "outstanding_of (th\<lparr>at_gen := g\<rparr>) = outstanding_of th"
  "outstanding_of (th\<lparr>at_scheduler := sch\<rparr>) = outstanding_of th" "outstanding_of (th\<lparr>at_sent := m\<rparr>) = outstanding_of th"
  "outstanding_of (th\<lparr>at_state := st\<rparr>) = pending (ss_world st)"
  by (simp_all add: outstanding_of_def)

lemma async_thread_fields [simp]:
  "at_pc (async_next nu t th) = at_pc th" "at_pc (async_leave nu t th) = ACond" "at_pc (set_outstanding rs th) = at_pc th"
  "outstanding_of (async_next nu t th) = outstanding_of th" "outstanding_of (async_leave nu t th) = outstanding_of th"
  "outstanding_of (set_outstanding rs th) = rs"
  "at_outCnt (async_next nu t th) = at_outCnt th" "at_outCnt (async_leave nu t th) = at_outCnt th"
  "at_outCnt (set_outstanding rs th) = at_outCnt th"
  "at_sent (async_next nu t th) = at_sent th" "at_sent (async_leave nu t th) = at_sent th"
  "at_sent (set_outstanding rs th) = at_sent th"
  by (simp_all add: async_next_def async_leave_def set_outstanding_def outstanding_of_def)

lemmas async_step_defs = async_thread_step_def async_thread_start_def async_thread_send_def async_callback_def
  async_record_def async_main_step_def Let_def

lemma async_step_wf: "async_wf s \<Longrightarrow> async_step nu envs c file_ok s s' \<Longrightarrow> async_wf s'"
  by (auto elim!: async_step.cases simp: async_wf_def async_step_defs map_update intro!: update_same_map
      split: async_pc.splits main_pc.splits option.splits prod.splits sum.splits bool.splits if_splits
        list.splits response.splits)

lemma async_thread_view:
  assumes "async_wf s" "k < length (as_threads s)" "async_thread_step nu env c k now rt arrived s = Some s'"
  shows "recorder.truncate s' = recorder.truncate s \<or>
    rec_step (n_dbl nu) file_ok (recorder.truncate s) (recorder.truncate s')"
proof -
  have t: "k < length (tickets s)" "tickets s ! k = ticket_async (at_pc (as_threads s ! k))"
    using assms(1,2) by (simp_all add: async_wf_def)
  note die = rec_step.die [of _ _ "recorder.truncate s"]
  show ?thesis
  proof (cases "at_pc (as_threads s ! k)")
    case AStart
    then show ?thesis using assms(3) die by (auto simp: async_step_defs split: sum.splits option.splits if_splits)
  next
    case ALoop
    then show ?thesis using assms(3) die
      by (auto simp: async_step_defs split: if_splits prod.splits sum.splits bool.splits)
  next
    case (AEvents d)
    then show ?thesis using assms(3) t die rec_step.grab [of k "recorder.truncate s"] rec_step.stop [of k "recorder.truncate s"]
      by (auto simp: async_step_defs split: if_splits list.splits response.splits)
  next
    case (ATaken d ix r)
    then show ?thesis using assms(3) t rec_step.test [of k "recorder.truncate s" ix]
      by (auto simp: async_step_defs split: if_splits)
  next
    case (AHold d ix r)
    then show ?thesis using assms(3) t die rec_step.fill [of k "recorder.truncate s" ix]
      by (auto simp: async_step_defs split: sum.splits if_splits)
  qed (use assms(3) in \<open>auto simp: async_step_defs\<close>)
qed

lemma async_main_view:
  assumes "async_main_step nu file_ok now s = Some s'"
  shows "rec_step (n_dbl nu) file_ok (recorder.truncate s) (recorder.truncate s')"
  using assms rec_step.mark [of "recorder.truncate s"] rec_step.results [of "recorder.truncate s"]
  by (auto simp: async_main_step_def Let_def split: main_pc.splits if_splits)

interpretation async_rec: recording_program "async_step nu envs c file_ok" async_wf "recorder.truncate" "n_dbl nu" file_ok
  for nu envs c file_ok
proof
  fix s s'
  assume "async_wf s" "async_step nu envs c file_ok s s'"
  then show "async_wf s'" by (rule async_step_wf)
next
  fix s s'
  assume wf: "async_wf s" and "async_step nu envs c file_ok s s'"
  from this(2) show "recorder.truncate s' = recorder.truncate s \<or>
      rec_step (n_dbl nu) file_ok (recorder.truncate s) (recorder.truncate s')"
    by (cases rule: async_step.cases) (use async_thread_view [OF wf] async_main_view in blast)+
qed

lemma async_start_wf: "async_wf (async_start c t0 now st)"
  "recorder.truncate (async_start c t0 now st) = rec_start (nat (so_numSchedulers c)) t0"
  by (simp_all add: async_wf_def async_start_def recorder.extend_def recorder.truncate_def rec_start_def
      new_async_thread_def)

subsection \<open>Every request is recorded\<close>

lemma asyncSchedule_pending:
  assumes "scheduler_asyncSchedule env sch st = (Inr True, st')"
  shows "length (pending (ss_world st')) = Suc (length (pending (ss_world st)))"
proof -
  have inv: "length (pending (invoke_async env name ps w)) = Suc (length (pending w))" for name ps w
    by (simp add: invoke_async_def invoke_def tick_def split: option.split prod.split)
  have rm: "pending w1 = pending w" if "rand_mod env a w = (x, w1)" for a w x w1
    using that by (auto simp: rand_mod_def c_rand_def)
  show ?thesis
    using assms
    by (cases sch)
      (auto simp: scheduler_asyncSchedule_def FIFO_asyncSchedule_def LocalFIFO_asyncSchedule_def Single_asyncSchedule_def
        VoltdbSchedulerUtil_asyncSchedule_def on_world_def fetch_add_def Let_def inv
        dest!: rm split: prod.splits sum.splits)
qed

lemma sum_list_replace:
  assumes "k < length xs"
  shows "(\<Sum>x\<leftarrow>xs[k := y]. f x) + f (xs ! k) = (\<Sum>x\<leftarrow>xs. f x) + (f y :: nat)"
proof -
  obtain as x bs where "xs = as @ x # bs" "length as = k" using assms by (metis id_take_nth_drop length_take min.absorb4)
  then show ?thesis by (auto simp: list_update_append nth_append)
qed

text \<open>A step of thread \<open>k\<close> that keeps the balance of requests.\<close>

lemma async_inv_replace:
  assumes "async_inv s" "k < length (as_threads s)" "as_threads s' = (as_threads s)[k := th]" "async_thread_ok th"
    and "unat (arrayIndex s') + length (outstanding_of th) + at_sent (as_threads s ! k) =
      unat (arrayIndex s) + length (outstanding_of (as_threads s ! k)) + at_sent th"
  shows "async_inv s'"
proof -
  let ?out = "\<lambda>th. length (outstanding_of th)"
  have "async_thread_ok x" if "x \<in> set (as_threads s')" for x
    using that assms(1,3,4) set_update_subset_insert [of "as_threads s" k th] by (auto simp: async_inv_def)
  moreover have "unat (arrayIndex s') + (\<Sum>x\<leftarrow>as_threads s'. ?out x) = (\<Sum>x\<leftarrow>as_threads s'. at_sent x)"
    using sum_list_replace [OF assms(2), where f = ?out and y = th] sum_list_replace [OF assms(2), where f = at_sent and y = th]
      assms(1,3,5) by (simp add: async_inv_def)
  ultimately show ?thesis by (simp add: async_inv_def)
qed

lemma async_inv_exit: "async_inv s \<Longrightarrow> async_inv (s\<lparr>exited := True\<rparr>)"
  by (simp add: async_inv_def)

lemma async_thread_ok_simps [simp]:
  "async_thread_ok (async_leave nu t th) = (at_outCnt th = int (length (outstanding_of th)))"
  "in_callback (th\<lparr>at_pc := ALoop\<rparr>) = 0" "in_callback (th\<lparr>at_pc := ACond\<rparr>) = 0" "in_callback (th\<lparr>at_pc := AEvents d\<rparr>) = 0"
  "in_callback (th\<lparr>at_pc := AEnd\<rparr>) = 0" "in_callback (th\<lparr>at_pc := ATaken d ix r\<rparr>) = 1"
  "in_callback (th\<lparr>at_pc := AHold d ix r\<rparr>) = 1"
  by (simp_all add: async_thread_ok_def in_callback_def)

lemma async_thread_inv:
  assumes inv: "async_inv s" and k: "k < length (as_threads s)" and top: "unat (arrayIndex s) < 2 ^ 32 - 1"
    and run: "async_thread_step nu env c k now rt arrived s = Some s'"
  shows "async_inv s'"
proof -
  let ?th = "as_threads s ! k"
  have ok: "async_thread_ok ?th" using inv k nth_mem by (auto simp: async_inv_def)
  have up: "unat (arrayIndex s + 1) = unat (arrayIndex s) + 1" using top by (simp add: unat_word_ariths)
  note replace = async_inv_replace [OF inv k]
  show ?thesis
  proof (cases "at_pc ?th")
    case AStart
    then show ?thesis using run ok
      by (auto simp: async_step_defs async_thread_ok_def in_callback_def
          split: sum.splits option.splits if_splits intro!: async_inv_exit [OF inv] replace)
  next
    case ALoop
    then show ?thesis using run ok asyncSchedule_pending [of env "at_scheduler ?th" "at_state ?th", folded outstanding_of_def]
      by (auto simp: async_step_defs async_thread_ok_def in_callback_def
          split: if_splits prod.splits sum.splits bool.splits intro!: async_inv_exit [OF inv] replace)
  next
    case (AEvents d)
    then show ?thesis using run ok up
      by (auto simp: async_step_defs async_thread_ok_def in_callback_def
          split: if_splits list.splits response.splits intro!: async_inv_exit [OF inv] replace)
  next
    case (ATaken d ix r)
    then show ?thesis using run ok inv
      by (auto simp: async_step_defs async_thread_ok_def in_callback_def rec_check_def
          split: if_splits intro!: async_inv_exit replace)
  next
    case (AHold d ix r)
    then show ?thesis using run ok
      by (auto simp: async_step_defs async_thread_ok_def in_callback_def
          split: sum.splits if_splits intro!: async_inv_exit [OF inv] replace)
  next
    case ACond
    then show ?thesis using run ok
      by (auto simp: async_step_defs async_thread_ok_def in_callback_def intro!: replace)
  qed (use run in \<open>simp add: async_step_defs\<close>)
qed

lemma async_main_inv: "async_inv s \<Longrightarrow> async_main_step nu file_ok now s = Some s' \<Longrightarrow> async_inv s'"
  by (auto simp: async_main_step_def async_inv_def Let_def split: main_pc.splits if_splits)

lemma async_start_inv: "pending (ss_world st) = [] \<Longrightarrow> async_inv (async_start c t0 now st)"
  by (simp add: async_inv_def async_start_def recorder.extend_def rec_start_def new_async_thread_def
      async_thread_ok_def in_callback_def outstanding_of_def map_replicate_const)

lemma async_reach_inv:
  assumes "(async_step nu envs c file_ok)\<^sup>*\<^sup>* (async_start c t0 now st) s" "nat (so_numSchedulers c) \<le> 2 ^ 31"
    and "pending (ss_world st) = []"
  shows "async_inv s"
  using assms(1)
proof (induction rule: rtranclp_induct)
  case base
  then show ?case using async_start_inv assms(3) by blast
next
  case (step s s')
  have inv: "rec_inv (recorder.truncate s)" "length (tickets s) = nat (so_numSchedulers c)"
    using async_rec.reach_inv [OF step.hyps(1) async_start_wf assms(2)] by simp_all
  have "unat (arrayIndex s) \<le> kMaxEntries + beyond (recorder.truncate s)" using inv(1) by (simp add: rec_inv_def)
  also have "\<dots> \<le> 2 ^ 26 + 2 ^ 31"
    using beyond_le [of "recorder.truncate s"] inv(2) assms(2) by (simp add: kMaxEntries_def)
  finally have top: "unat (arrayIndex s) < 2 ^ 32 - 1" by simp
  from step.hyps(2) show ?case
    by (cases rule: async_step.cases) (use step.IH top async_thread_inv async_main_inv in blast)+
qed

text \<open>
  C29. The asynchronous benchmark loses no request, under every interleaving of the threads, every arrival of
  responses and every behaviour of the database: the counter of outstanding requests of a thread is the
  number of its responses not yet handled; every request sent is outstanding or recorded; and when the
  benchmark has finished, every request sent has been recorded exactly once, and the results exist and
  account for the requests up to the last interval boundary.
\<close>

theorem async_benchmark_accounts:
  assumes "(async_step nu envs c True)\<^sup>*\<^sup>* (async_start c t0 now st) s" "so_numSchedulers c \<le> 2 ^ 31"
    and "pending (ss_world st) = []"
  shows "(\<forall>th \<in> set (as_threads s). at_outCnt th = int (length (outstanding_of th) + in_callback th)) \<and>
    unat (arrayIndex s) + (\<Sum>th\<leftarrow>as_threads s. length (outstanding_of th)) = (\<Sum>th\<leftarrow>as_threads s. at_sent th) \<and>
    (\<forall>R. main_at s = Finished R \<longrightarrow> unat (arrayIndex s) = (\<Sum>th\<leftarrow>as_threads s. at_sent th) \<and>
      (\<exists>res. R = Inr (Some res) \<and> accounts (n_dbl nu) (recorder.truncate s) res))"
proof -
  have n: "nat (so_numSchedulers c) \<le> 2 ^ 31" using assms(2) by simp
  have inv: "async_inv s" using async_reach_inv [OF assms(1) n assms(3)] .
  have balance: "unat (arrayIndex s) + (\<Sum>th\<leftarrow>as_threads s. length (outstanding_of th)) = (\<Sum>th\<leftarrow>as_threads s. at_sent th)"
    using inv by (simp add: async_inv_def)
  have "unat (arrayIndex s) = (\<Sum>th\<leftarrow>as_threads s. at_sent th)" if "main_at s = Finished R" for R
  proof -
    have wf: "async_wf s" "rec_done (n_dbl nu) True (recorder.truncate s)"
      using async_rec.reach_inv [OF assms(1) async_start_wf n] by simp_all
    have "outstanding_of th = []" if "th \<in> set (as_threads s)" for th
    proof -
      have "ticket_async (at_pc th) = Gone"
        using wf \<open>main_at s = Finished R\<close> that by (auto simp: async_wf_def rec_done_def)
      then have "at_pc th = AEnd" by (cases "at_pc th") simp_all
      then show ?thesis using inv that by (auto simp: async_inv_def async_thread_ok_def)
    qed
    then have "(\<Sum>th\<leftarrow>as_threads s. length (outstanding_of th)) = 0" by (simp add: sum_list_eq_0_iff)
    with balance show ?thesis by simp
  qed
  then show ?thesis
    using inv balance async_rec.reach_accounts [OF assms(1) async_start_wf n TrueI]
    by (auto simp: async_inv_def async_thread_ok_def)
qed

theorem async_benchmark_accounts_witness:
  "let c = async_defaults;
       nu = \<lparr>n_dbl = (\<lambda>x. x), n_flt = (\<lambda>x. x), n_exp = (\<lambda>_ _. 1), n_unif = (\<lambda>_ _. 1), n_accepts = (\<lambda>_. True)\<rparr>;
       st = \<lparr>ss_world = world_with empty_tables, ss_local = 0, ss_single = 0, ss_push = 0, ss_spark = 0, ss_workers = []\<rparr>
   in \<exists>s th. (async_step nu (\<lambda>_. quiet_env) c True)\<^sup>*\<^sup>* (async_start c 5 6 st) s \<and> as_threads s = [th] \<and>
     at_sent th = 1 \<and> at_outCnt th = 1 \<and> length (outstanding_of th) = 1"
proof -
  let ?c = async_defaults
  let ?nu = "\<lparr>n_dbl = (\<lambda>x. x), n_flt = (\<lambda>x. x), n_exp = (\<lambda>_ _. 1), n_unif = (\<lambda>_ _. 1), n_accepts = (\<lambda>_. True)\<rparr>"
  let ?st = "\<lparr>ss_world = world_with empty_tables, ss_local = 0, ss_single = 0, ss_push = 0, ss_spark = 0, ss_workers = []\<rparr>"
  let ?R = "async_step ?nu (\<lambda>_. quiet_env) ?c True"
  let ?s0 = "async_start ?c 5 6 ?st"
  let ?th = "(new_async_thread ?st)\<lparr>at_scheduler := new_Fifo ?c, at_gen := AsFast, at_outCnt := 0, at_pc := ALoop\<rparr>"
  let ?s1 = "set_async 0 ?th ?s0"
  have dist: "so_reqDist ?c = ''none''" "so_scheduleAlgo ?c = ''fifo''" "so_numSchedulers ?c = 1" "ao_maxOutstanding ?c = 1"
    by (simp_all add: async_defaults_def sync_defaults_def sync_options.extend_def)
  have facts: "\<not> exited ?s0" "as_threads ?s0 = [new_async_thread ?st]"
    using dist by (simp_all add: async_start_def recorder.extend_def rec_start_def)
  have 1: "?R ?s0 ?s1"
    using facts dist by (intro async_step.thread [where k = 0])
      (simp_all add: async_step_defs new_async_thread_def async_constructScheduler_def connected_def
        VoltdbSchedulerUtil_init_def make_arrival_def)
  obtain st' where st': "scheduler_asyncSchedule quiet_env (new_Fifo ?c) ?st = (Inr True, st')"
    by (simp add: scheduler_asyncSchedule_def new_Fifo_def FIFO_asyncSchedule_def PartitionedFIFOScheduler.make_def
        async_defaults_def sync_defaults_def sync_options.extend_def rand_mod_pos on_world_def Let_def)
  let ?th2 = "?th\<lparr>at_state := st', at_outCnt := 1, at_sent := 1, at_pc := AEvents False\<rparr>"
  have 2: "?R ?s1 (set_async 0 ?th2 ?s1)"
    using facts dist st' by (intro async_step.thread [where k = 0])
      (simp_all add: async_step_defs new_async_thread_def set_async_def)
  have reach: "?R\<^sup>*\<^sup>* ?s0 (set_async 0 ?th2 ?s1)" using 1 2 by (meson rtranclp.rtrancl_into_rtrancl rtranclp.rtrancl_refl)
  have "as_threads (set_async 0 ?th2 ?s1) = [?th2]" "at_outCnt ?th2 = 1" "in_callback ?th2 = 0" "at_sent ?th2 = 1"
    using facts by (simp_all add: set_async_def in_callback_def)
  moreover have "so_numSchedulers ?c \<le> 2 ^ 31" "pending (ss_world ?st) = []" using dist by (simp_all add: world_with_def)
  ultimately have "length (outstanding_of ?th2) = 1"
    using async_benchmark_accounts [OF reach] by force
  with reach \<open>as_threads (set_async 0 ?th2 ?s1) = [?th2]\<close> show ?thesis
    unfolding Let_def by (intro exI [of _ "set_async 0 ?th2 ?s1"] exI [of _ ?th2]) simp
qed

end
