(* ===== verification/Load_Generator.thy ===== *)
theory Load_Generator
  imports Bench_Sync
begin

text \<open>
  \<open>LoadGenerator.cc\<close>: client threads submit tasks over gRPC to scheduler servers (\<open>SchedulerServer\<close>) at
  the ports from 9000, and record the latencies as the other benchmarks do. The database is set up with
  the algorithm of the options; the servers always run the Spark scheduler. A submission is one step:
  the service of the chosen server runs and replies; how the threads inside a Spark scheduler interleave is
  in \<open>Spark_Threads\<close>.
\<close>

section \<open>Definitions\<close>

subsection \<open>Options\<close>

definition load_kAlgorithms :: "string list" where
  "load_kAlgorithms = [''fifo'', ''fifo-task'', ''single-partitioned-fifo-task'', ''spark'', ''scan-task'', ''push-fifo'']"

record load_options = sched_params +
  lo_numSchedulers :: int
  lo_numClientThreads :: int
  lo_measureIntervalMsec :: int
  lo_totalExecTimeMsec :: int
  lo_arrivalDelay :: int
  lo_scheduleAlgo :: string
  lo_cleanDB :: bool
  lo_serverAddr :: string
  lo_outputFile :: string

definition load_defaults :: load_options where
  "load_defaults = \<lparr>sp_partitions = 8, sp_numTasks = 8, sp_workerCapacity = 2 ^ 27, sp_numWorkers = 1,
     sp_probMultiTx = 0, lo_numSchedulers = 1, lo_numClientThreads = 1, lo_measureIntervalMsec = 2000,
     lo_totalExecTimeMsec = 10000, lo_arrivalDelay = 0, lo_scheduleAlgo = ''fifo'', lo_cleanDB = False,
     lo_serverAddr = ''localhost'', lo_outputFile = ''synthetic_scheduler_results.csv''\<rparr>"

text \<open>The case of \<open>d\<close> has no \<open>break\<close>: it continues with the case of \<open>x\<close>.\<close>

definition load_switch :: "platform \<Rightarrow> char \<times> string \<Rightarrow> load_options \<Rightarrow> load_options option" where
  "load_switch nu x c =
     (case x of (opt, optarg) \<Rightarrow>
      if opt = CHR ''o'' then Some (c\<lparr>lo_outputFile := optarg\<rparr>)
      else if opt = CHR ''s'' then Some (c\<lparr>lo_serverAddr := optarg\<rparr>)
      else if opt = CHR ''i'' then Some (c\<lparr>lo_measureIntervalMsec := atoi optarg\<rparr>)
      else if opt = CHR ''t'' then Some (c\<lparr>lo_totalExecTimeMsec := atoi optarg\<rparr>)
      else if opt = CHR ''N'' then Some (c\<lparr>lo_numClientThreads := atoi optarg\<rparr>)
      else if opt = CHR ''S'' then Some (c\<lparr>lo_numSchedulers := atoi optarg\<rparr>)
      else if opt = CHR ''W'' then Some (c\<lparr>sp_numWorkers := atoi optarg\<rparr>)
      else if opt = CHR ''C'' then Some (c\<lparr>sp_workerCapacity := atoi optarg\<rparr>)
      else if opt = CHR ''P'' then Some (c\<lparr>sp_partitions := atoi optarg\<rparr>)
      else if opt = CHR ''A'' then Some (c\<lparr>lo_scheduleAlgo := optarg\<rparr>)
      else if opt = CHR ''T'' then Some (c\<lparr>sp_numTasks := atoi optarg\<rparr>)
      else if opt = CHR ''p'' then Some (c\<lparr>sp_probMultiTx := n_flt nu (atof (n_dbl nu) optarg)\<rparr>)
      else if opt = CHR ''d'' then Some (c\<lparr>lo_arrivalDelay := atoi optarg, lo_cleanDB := True\<rparr>)
      else if opt = CHR ''x'' then Some (c\<lparr>lo_cleanDB := True\<rparr>)
      else None)"

definition load_args :: "platform \<Rightarrow> string list \<Rightarrow> load_options option" where
  "load_args nu argv =
     (case option_loop (load_switch nu) (getopt ''hxo:s:i:t:N:S:W:C:P:A:T:p:d:'' argv) load_defaults of
        None \<Rightarrow> None
      | Some c \<Rightarrow> (if lo_scheduleAlgo c \<notin> set load_kAlgorithms then None else Some c))"

definition load_constructScheduler :: "platform \<Rightarrow> load_options \<Rightarrow> string \<Rightarrow> scheduler option result" where
  "load_constructScheduler nu c algo =
     (let new = connected (n_accepts nu) (lo_serverAddr c) in
      if algo = ''fifo'' then new (new_Fifo c)
      else if algo = ''fifo-task'' then new (new_FifoTask c)
      else if algo = ''single-partitioned-fifo-task'' then new (new_SinglePartitioned c (sp_probMultiTx c))
      else if algo = ''spark'' then new (new_Spark c)
      else if algo = ''scan-task'' then new (new_ScanTask c)
      else if algo = ''push-fifo'' then new (new_PushFifo c)
      else Inr None)"

subsection \<open>Client threads\<close>

datatype load_pc =
    LStart
  | LLoop
  | LTaken "32 word"
  | LSend "32 word" "64 word"
  | LCond
  | LEnd

record load_thread =
  lt_pc :: load_pc
  lt_channels :: "string list"
  lt_rand :: world              \<comment> \<open>for the values of \<open>rand()\<close>\<close>

text \<open>A scheduler server: its port, its scheduler, and the state of the scheduler.\<close>

record load_server =
  ls_port :: int
  ls_scheduler :: scheduler
  ls_state :: sched_state

record load = recorder +
  ld_threads :: "load_thread list"
  ld_servers :: "load_server list"
  ld_mainFinished :: bool
  ld_endTime :: "64 word"

definition set_load :: "nat \<Rightarrow> load_thread \<Rightarrow> load \<Rightarrow> load" where
  "set_load k th s = s\<lparr>ld_threads := (ld_threads s)[k := th]\<rparr>"

definition server_addr :: "int \<Rightarrow> string" where
  "server_addr port = ''localhost:'' @ to_string port"

text \<open>The server that listens at an address; \<open>None\<close> when the connection fails.\<close>

definition server_at :: "string \<Rightarrow> load_server list \<Rightarrow> nat option" where
  "server_at addr servers =
     map_option fst (find (\<lambda>(j, sv). server_addr (ls_port sv) = addr) (enumerate 0 servers))"

text \<open>
  A submission: the task, a random channel, the call; \<open>status.ok()\<close> is asserted. A call that fails on the
  way, \<open>lost\<close>, is a status that is not ok.
\<close>

definition load_send ::
    "platform \<Rightarrow> env \<Rightarrow> nat \<Rightarrow> load_options \<Rightarrow> nat \<Rightarrow> 64 word \<Rightarrow> bool \<Rightarrow> 32 word \<Rightarrow> 64 word \<Rightarrow> load \<Rightarrow> load option" where
  "load_send nu env fuel c k now lost aryIndex startTime s =
     (let th = ld_threads s ! k in
      case rand_mod env (sp_numWorkers c) (lt_rand th) of
        (Inl e, w) \<Rightarrow> Some (s\<lparr>exited := True\<rparr>)
      | (Inr target, w) \<Rightarrow>
          (case rand_mod env (int (length (lt_channels th))) w of
             (Inl e, w2) \<Rightarrow> Some (s\<lparr>exited := True\<rparr>)
           | (Inr ch, w2) \<Rightarrow>
               (case server_at (lt_channels th ! nat ch) (ld_servers s) of
                  None \<Rightarrow> Some (s\<lparr>exited := True\<rparr>)
                | Some j \<Rightarrow>
                    (let sv = ld_servers s ! j in
                     if lost then Some (s\<lparr>exited := True\<rparr>)
                     else case Server_SubmitTask fuel env (ls_scheduler sv)
                            (taskToProtobuf \<lparr>targetData = target, execTime = 1000\<rparr>) (ls_state sv) of
                       None \<Rightarrow> None
                     | Some (Inl e, st) \<Rightarrow> Some (s\<lparr>exited := True\<rparr>)
                     | Some (Inr ok, st) \<Rightarrow>
                         Some ((set_load k (th\<lparr>lt_rand := w2, lt_pc := LCond\<rparr>)
                             (rec_write k aryIndex (n_dbl nu (of_nat (unat (now - startTime)))) s))
                           \<lparr>ld_servers := (ld_servers s)[j := sv\<lparr>ls_state := st\<rparr>]\<rparr>)))))"

text \<open>One step of \<open>ClientThread\<close>; the arrival delay has no effect but on the clock.\<close>

definition load_thread_step ::
    "platform \<Rightarrow> env \<Rightarrow> nat \<Rightarrow> load_options \<Rightarrow> nat \<Rightarrow> 64 word \<Rightarrow> bool \<Rightarrow> load \<Rightarrow> load option" where
  "load_thread_step nu env fuel c k now lost s =
     (let th = ld_threads s ! k in
      case lt_pc th of
        LStart \<Rightarrow> Some (set_load k (th\<lparr>lt_channels := map (\<lambda>sv. server_addr (ls_port sv)) (ld_servers s), lt_pc := LLoop\<rparr>) s)
      | LLoop \<Rightarrow> Some (set_load k (th\<lparr>lt_pc := LTaken (arrayIndex s)\<rparr>) (rec_take k s))
      | LTaken ix \<Rightarrow>
          (if unat ix \<ge> kMaxEntries then Some (rec_check k ix s)
           else Some (set_load k (th\<lparr>lt_pc := LSend ix now\<rparr>) (rec_check k ix s)))
      | LSend aryIndex startTime \<Rightarrow> load_send nu env fuel c k now lost aryIndex startTime s
      | LCond \<Rightarrow>
          (if ld_mainFinished s then Some (set_load k (th\<lparr>lt_pc := LEnd\<rparr>) (rec_end k s))
           else Some (set_load k (th\<lparr>lt_pc := LLoop\<rparr>) s))
      | LEnd \<Rightarrow> None)"

text \<open>\<open>runBenchmark\<close>: the servers, the client threads, the measuring loop, joining, the results.\<close>

definition load_servers :: "platform \<Rightarrow> load_options \<Rightarrow> sched_state \<Rightarrow> load_server list result" where
  "load_servers nu c st =
     (case for_range 0 (lo_numSchedulers c)
        (\<lambda>schedulerId svs.
           (let port = 9000 + schedulerId
            in case load_constructScheduler nu c ''spark'' of
                 Inl e \<Rightarrow> (Some e, svs)
               | Inr None \<Rightarrow> (Some AssertFailed, svs)
               | Inr (Some sch) \<Rightarrow> (None, svs @ [\<lparr>ls_port = port, ls_scheduler = sch, ls_state = st\<rparr>])))
        [] of
        (Some e, _) \<Rightarrow> Inl e
      | (None, svs) \<Rightarrow> Inr svs)"

definition load_start :: "platform \<Rightarrow> load_options \<Rightarrow> 64 word \<Rightarrow> 64 word \<Rightarrow> sched_state \<Rightarrow> load result" where
  "load_start nu c t0 now st =
     (case load_servers nu c st of
        Inl e \<Rightarrow> Inl e
      | Inr servers \<Rightarrow>
          Inr (recorder.extend (rec_start (nat (lo_numClientThreads c)) t0)
            \<lparr>ld_threads = replicate (nat (lo_numClientThreads c)) \<lparr>lt_pc = LStart, lt_channels = [], lt_rand = ss_world st\<rparr>,
             ld_servers = servers, ld_mainFinished = False,
             ld_endTime = now + of_int (narrow32 (lo_totalExecTimeMsec c * 1000))\<rparr>))"

definition load_main_step :: "platform \<Rightarrow> bool \<Rightarrow> 64 word \<Rightarrow> load \<Rightarrow> load option" where
  "load_main_step nu file_ok now s =
     (case main_at s of
        Measuring \<Rightarrow>
          (let up = \<not> now < ld_endTime s
           in Some ((rec_mark now up s)\<lparr>ld_mainFinished := up\<rparr>))
      | Joining \<Rightarrow>
          (if \<forall>x \<in> set (tickets s). x = Gone then Some (rec_process (n_dbl nu) file_ok s) else None)
      | Finished _ \<Rightarrow> None)"

inductive load_step :: "platform \<Rightarrow> (nat \<Rightarrow> env) \<Rightarrow> load_options \<Rightarrow> bool \<Rightarrow> load \<Rightarrow> load \<Rightarrow> bool"
  for nu envs c file_ok where
  thread: "\<not> exited s \<Longrightarrow> k < length (ld_threads s) \<Longrightarrow>
    load_thread_step nu (envs k) fuel c k now lost s = Some s' \<Longrightarrow> load_step nu envs c file_ok s s'"
| main: "\<not> exited s \<Longrightarrow> load_main_step nu file_ok now s = Some s' \<Longrightarrow> load_step nu envs c file_ok s s'"

subsection \<open>The program\<close>

definition load_setup :: "platform \<Rightarrow> env \<Rightarrow> load_options \<Rightarrow> sched_state \<Rightarrow> bool result \<times> sched_state" where
  "load_setup nu env c s =
     (case load_constructScheduler nu c (lo_scheduleAlgo c) of
        Inl e \<Rightarrow> (Inl e, s)
      | Inr None \<Rightarrow> (Inl AssertFailed, s)
      | Inr (Some sch) \<Rightarrow> scheduler_setup env sch s)"

definition load_teardown :: "platform \<Rightarrow> env \<Rightarrow> load_options \<Rightarrow> sched_state \<Rightarrow> bool result \<times> sched_state" where
  "load_teardown nu env c s =
     (case load_constructScheduler nu c (lo_scheduleAlgo c) of
        Inl e \<Rightarrow> (Inl e, s)
      | Inr None \<Rightarrow> (Inl AssertFailed, s)
      | Inr (Some sch) \<Rightarrow> (case scheduler_teardown env sch s of (r, s') \<Rightarrow> (Inr r, s')))"

definition load_main ::
    "platform \<Rightarrow> env \<Rightarrow> string list \<Rightarrow> (load_options \<Rightarrow> sched_state \<Rightarrow> bool result \<times> sched_state) \<Rightarrow>
     sched_state \<Rightarrow> int result \<times> sched_state" where
  "load_main nu env argv run s =
     (case load_args nu argv of
        None \<Rightarrow> (Inr 1, s)
      | Some c \<Rightarrow>
          (case load_setup nu env c s of
             (Inl e, s1) \<Rightarrow> (Inl e, s1)
           | (Inr False, s1) \<Rightarrow> (Inr 1, s1)
           | (Inr True, s1) \<Rightarrow>
               (case run c s1 of
                  (Inl e, s2) \<Rightarrow> (Inl e, s2)
                | (Inr False, s2) \<Rightarrow> (Inr 1, s2)
                | (Inr True, s2) \<Rightarrow>
                    (if lo_cleanDB c
                     then (case load_teardown nu env c s2 of
                             (Inl e, s3) \<Rightarrow> (Inl e, s3)
                           | (Inr ok, s3) \<Rightarrow> (Inr (if ok then 0 else 1), s3))
                     else (Inr 0, s2)))))"

text \<open>What a thread at each point holds.\<close>

fun ticket_load :: "load_pc \<Rightarrow> ticket" where
  "ticket_load LStart = Idle"
| "ticket_load LLoop = Idle"
| "ticket_load (LTaken ix) = Taken ix"
| "ticket_load (LSend ix t) = Holding ix"
| "ticket_load LCond = Idle"
| "ticket_load LEnd = Gone"

definition load_wf :: "load \<Rightarrow> bool" where
  "load_wf s \<longleftrightarrow> tickets s = map (\<lambda>th. ticket_load (lt_pc th)) (ld_threads s)"

text \<open>The servers stay those of \<open>runBenchmark\<close>, and the clients know exactly their addresses.\<close>

definition load_linked :: "load_options \<Rightarrow> load \<Rightarrow> bool" where
  "load_linked c s \<longleftrightarrow> map (\<lambda>sv. (ls_port sv, ls_scheduler sv)) (ld_servers s) =
       map (\<lambda>i. (9000 + i, new_Spark c)) [0..lo_numSchedulers c - 1] \<and>
     (\<forall>th \<in> set (ld_threads s). lt_pc th \<noteq> LStart \<longrightarrow>
        lt_channels th = map (\<lambda>sv. server_addr (ls_port sv)) (ld_servers s))"

section \<open>Lemmas\<close>

lemma truncate_set_load [simp]: "recorder.truncate (set_load k th s) = recorder.truncate s"
  "recorder.truncate (s\<lparr>ld_mainFinished := b\<rparr>) = recorder.truncate s"
  "recorder.truncate (s\<lparr>ld_servers := xs\<rparr>) = recorder.truncate s"
  by (simp_all add: set_load_def recorder.truncate_def)

lemma ld_fields_rec [simp]:
  "ld_threads (rec_take k s) = ld_threads s" "ld_threads (rec_check k ix s) = ld_threads s"
  "ld_threads (rec_write k ix x s) = ld_threads s" "ld_threads (rec_end k s) = ld_threads s"
  "ld_threads (rec_mark now up s) = ld_threads s" "ld_threads (rec_process dbl file_ok s) = ld_threads s"
  "ld_servers (rec_take k s) = ld_servers s" "ld_servers (rec_check k ix s) = ld_servers s"
  "ld_servers (rec_write k ix x s) = ld_servers s" "ld_servers (rec_end k s) = ld_servers s"
  "ld_servers (rec_mark now up s) = ld_servers s" "ld_servers (rec_process dbl file_ok s) = ld_servers s"
  by (simp_all add: rec_take_def rec_check_def rec_write_def rec_end_def rec_mark_def rec_process_def)

lemma set_load_fields [simp]:
  "tickets (set_load k th s) = tickets s" "ld_threads (set_load k th s) = (ld_threads s)[k := th]"
  "ld_servers (set_load k th s) = ld_servers s"
  by (simp_all add: set_load_def)

lemmas load_step_defs = load_thread_step_def load_send_def load_main_step_def Let_def

lemma load_step_wf: "load_wf s \<Longrightarrow> load_step nu envs c file_ok s s' \<Longrightarrow> load_wf s'"
  by (auto elim!: load_step.cases simp: load_wf_def load_step_defs map_update intro!: update_same_map
      split: load_pc.splits main_pc.splits option.splits prod.splits sum.splits if_splits)

lemma load_thread_view:
  assumes "load_wf s" "k < length (ld_threads s)" "load_thread_step nu env fuel c k now lost s = Some s'"
  shows "recorder.truncate s' = recorder.truncate s \<or>
    rec_step (n_dbl nu) file_ok (recorder.truncate s) (recorder.truncate s')"
proof -
  have t: "k < length (tickets s)" "tickets s ! k = ticket_load (lt_pc (ld_threads s ! k))"
    using assms(1,2) by (simp_all add: load_wf_def)
  show ?thesis
  proof (cases "lt_pc (ld_threads s ! k)")
    case LLoop
    then show ?thesis using assms(3) t rec_step.grab [of k "recorder.truncate s"] by (auto simp: load_step_defs)
  next
    case (LTaken ix)
    then show ?thesis using assms(3) t rec_step.test [of k "recorder.truncate s" ix]
      by (auto simp: load_step_defs split: if_splits)
  next
    case (LSend ix st)
    then show ?thesis
      using assms(3) t rec_step.fill [of k "recorder.truncate s" ix] rec_step.die [of _ _ "recorder.truncate s"]
      by (auto simp: load_step_defs split: option.splits prod.splits sum.splits if_splits)
  next
    case LCond
    then show ?thesis using assms(3) t rec_step.stop [of k "recorder.truncate s"]
      by (auto simp: load_step_defs split: if_splits)
  qed (use assms(3) in \<open>auto simp: load_step_defs\<close>)
qed

lemma load_main_view:
  assumes "load_main_step nu file_ok now s = Some s'"
  shows "rec_step (n_dbl nu) file_ok (recorder.truncate s) (recorder.truncate s')"
  using assms rec_step.mark [of "recorder.truncate s"] rec_step.results [of "recorder.truncate s"]
  by (auto simp: load_main_step_def Let_def split: main_pc.splits if_splits)

interpretation load_rec: recording_program "load_step nu envs c file_ok" load_wf "recorder.truncate" "n_dbl nu" file_ok
  for nu envs c file_ok
proof
  fix s s'
  assume "load_wf s" "load_step nu envs c file_ok s s'"
  then show "load_wf s'" by (rule load_step_wf)
next
  fix s s'
  assume wf: "load_wf s" and "load_step nu envs c file_ok s s'"
  from this(2) show "recorder.truncate s' = recorder.truncate s \<or>
      rec_step (n_dbl nu) file_ok (recorder.truncate s) (recorder.truncate s')"
    by (cases rule: load_step.cases) (use load_thread_view [OF wf] load_main_view in blast)+
qed

lemma load_start_wf:
  assumes "load_start nu c t0 now st = Inr s0"
  shows "load_wf s0" "recorder.truncate s0 = rec_start (nat (lo_numClientThreads c)) t0"
  using assms by (auto simp: load_wf_def load_start_def recorder.extend_def recorder.truncate_def rec_start_def
      split: sum.splits)

subsection \<open>Clients and servers\<close>

lemma server_addr_inj: "server_addr p = server_addr q \<Longrightarrow> p = q"
  using to_string_inj by (simp add: server_addr_def)

lemma load_linked_thread:
  assumes "load_linked c s" "k < length (ld_threads s)" "ld_threads s' = (ld_threads s)[k := th]"
    and "map (\<lambda>sv. (ls_port sv, ls_scheduler sv)) (ld_servers s') = map (\<lambda>sv. (ls_port sv, ls_scheduler sv)) (ld_servers s)"
    and "lt_channels th = (if lt_pc (ld_threads s ! k) = LStart then map (\<lambda>sv. server_addr (ls_port sv)) (ld_servers s)
      else lt_channels (ld_threads s ! k))"
  shows "load_linked c s'"
proof -
  have ports: "map (\<lambda>sv. server_addr (ls_port sv)) (ld_servers s') = map (\<lambda>sv. server_addr (ls_port sv)) (ld_servers s)"
    using arg_cong [OF assms(4), of "map (\<lambda>x. server_addr (fst x))"] by (simp add: comp_def)
  have "lt_channels th = map (\<lambda>sv. server_addr (ls_port sv)) (ld_servers s)"
    using assms(1,2,5) nth_mem [OF assms(2)] by (auto simp: load_linked_def)
  then show ?thesis
    using assms(1,3,4) ports set_update_subset_insert [of "ld_threads s" k th] by (auto simp: load_linked_def)
qed

lemma load_thread_linked:
  assumes lk: "load_linked c s" and k: "k < length (ld_threads s)"
    and run: "load_thread_step nu env fuel c k now lost s = Some s'"
  shows "load_linked c s'"
proof -
  have exit: "load_linked c (s\<lparr>exited := True\<rparr>)" using lk by (simp add: load_linked_def)
  have upd: "map (\<lambda>sv. (ls_port sv, ls_scheduler sv)) (svs[j := (svs ! j)\<lparr>ls_state := st\<rparr>]) =
      map (\<lambda>sv. (ls_port sv, ls_scheduler sv)) svs" for svs :: "load_server list" and j st
    by (cases "j < length svs") (simp_all add: map_update list_update_same_conv list_update_beyond)
  note linked = load_linked_thread [OF lk k]
  show ?thesis
  proof (cases "lt_pc (ld_threads s ! k)")
    case (LTaken ix)
    have "load_linked c (rec_check k ix s)" using lk by (simp add: load_linked_def)
    with LTaken show ?thesis using run by (auto simp: load_step_defs split: if_splits intro!: linked)
  next
    case (LSend ix st)
    then show ?thesis using run exit
      by (auto simp: load_step_defs upd split: option.splits prod.splits sum.splits if_splits intro!: linked)
  qed (use run in \<open>auto simp: load_step_defs split: if_splits intro!: linked\<close>)
qed

text \<open>The servers are those of the Spark scheduler, at the ports from 9000, if every host accepts.\<close>

lemma load_servers_loop:
  assumes "\<forall>h \<in> set (getlines CHR '','' (lo_serverAddr c)). n_accepts nu h"
  shows "for_loop n i (\<lambda>schedulerId svs. (let port = 9000 + schedulerId
            in case load_constructScheduler nu c ''spark'' of
                 Inl e \<Rightarrow> (Some e, svs)
               | Inr None \<Rightarrow> (Some AssertFailed, svs)
               | Inr (Some sch) \<Rightarrow> (None, svs @ [\<lparr>ls_port = port, ls_scheduler = sch, ls_state = st\<rparr>]))) svs =
     (None, svs @ map (\<lambda>k. \<lparr>ls_port = 9000 + k, ls_scheduler = new_Spark c, ls_state = st\<rparr>) [i..i + int n - 1])"
proof (induction n arbitrary: i svs)
  case (Suc n)
  have "[i..i + int (Suc n) - 1] = i # [i + 1..i + 1 + int n - 1]" by (subst upto_rec1) simp_all
  then show ?case
    using assms Suc by (simp add: load_constructScheduler_def connected_def VoltdbSchedulerUtil_init_def)
qed simp

lemma load_servers_eq:
  "load_servers nu c st =
     (if lo_numSchedulers c \<le> 0 \<or> (\<forall>h \<in> set (getlines CHR '','' (lo_serverAddr c)). n_accepts nu h)
      then Inr (map (\<lambda>k. \<lparr>ls_port = 9000 + k, ls_scheduler = new_Spark c, ls_state = st\<rparr>) [0..lo_numSchedulers c - 1])
      else Inl Uncaught)"
proof (cases "lo_numSchedulers c \<le> 0")
  case True
  then show ?thesis by (simp add: load_servers_def)
next
  case False
  show ?thesis
  proof (cases "\<forall>h \<in> set (getlines CHR '','' (lo_serverAddr c)). n_accepts nu h")
    case True
    with False show ?thesis unfolding load_servers_def for_range_def load_servers_loop [OF True] by simp
  next
    case refused: False
    then have "load_constructScheduler nu c ''spark'' = Inl Uncaught"
      by (auto simp: load_constructScheduler_def connected_def VoltdbSchedulerUtil_init_def)
    with False refused show ?thesis by (auto simp: load_servers_def for_range_step Let_def)
  qed
qed

lemma load_start_linked: "load_start nu c t0 now st = Inr s0 \<Longrightarrow> load_linked c s0"
  by (auto simp: load_linked_def load_start_def recorder.extend_def load_servers_eq comp_def
      split: sum.splits if_splits)

lemma load_reach_linked:
  assumes "load_linked c s0" "(load_step nu envs c file_ok)\<^sup>*\<^sup>* s0 s"
  shows "load_linked c s"
  using assms(2)
proof (induction rule: rtranclp_induct)
  case base
  then show ?case using assms(1) .
next
  case (step s s')
  from step.hyps(2) show ?case
  proof (cases rule: load_step.cases)
    case (thread k fuel now lost)
    then show ?thesis using load_thread_linked step.IH by blast
  next
    case (main now)
    then show ?thesis using step.IH
      by (auto simp: load_main_step_def load_linked_def Let_def split: main_pc.splits if_splits)
  qed
qed

lemma server_at_found:
  assumes "i < length svs" "distinct (map ls_port svs)"
  shows "server_at (server_addr (ls_port (svs ! i))) svs = Some i"
proof -
  let ?Q = "\<lambda>(j, sv). server_addr (ls_port sv) = server_addr (ls_port (svs ! i))"
  have uniq: "j = i" if "j < length svs" "server_addr (ls_port (svs ! j)) = server_addr (ls_port (svs ! i))" for j
    using server_addr_inj [OF that(2)] assms that(1) nth_eq_iff_index_eq [of "map ls_port svs" j i] by simp
  have "find ?Q (enumerate 0 svs) = Some (i, svs ! i)"
    unfolding find_Some_iff using assms(1) uniq
    by (intro exI [of _ i]) (auto simp: nth_enumerate_eq dest: uniq [rotated])
  then show ?thesis by (simp add: server_at_def)
qed

text \<open>
  C30. The load generator, under every interleaving of its clients and every failure: when it has
  finished, its results exist and account for every request begun before the last interval boundary; a
  client that has started knows one channel for each server, and each channel leads to the server of
  its port, which runs the Spark scheduler whatever algorithm the options name.
\<close>

theorem load_benchmark_accounts:
  assumes "load_start nu c t0 now st = Inr s0"
    and "(load_step nu envs c True)\<^sup>*\<^sup>* s0 s" "lo_numClientThreads c \<le> 2 ^ 31"
  shows "(\<forall>R. main_at s = Finished R \<longrightarrow>
      (\<exists>res. R = Inr (Some res) \<and> accounts (n_dbl nu) (recorder.truncate s) res)) \<and>
    (\<forall>th \<in> set (ld_threads s). lt_pc th \<noteq> LStart \<longrightarrow> length (lt_channels th) = nat (lo_numSchedulers c) \<and>
      (\<forall>i < length (lt_channels th). server_at (lt_channels th ! i) (ld_servers s) = Some i \<and>
         ls_port (ld_servers s ! i) = 9000 + int i \<and> ls_scheduler (ld_servers s ! i) = new_Spark c))"
proof -
  have n: "nat (lo_numClientThreads c) \<le> 2 ^ 31" using assms(3) by simp
  let ?svs = "ld_servers s"
  have lk: "map (\<lambda>sv. (ls_port sv, ls_scheduler sv)) ?svs = map (\<lambda>i. (9000 + i, new_Spark c)) [0..lo_numSchedulers c - 1]"
    and ch: "\<forall>th \<in> set (ld_threads s). lt_pc th \<noteq> LStart \<longrightarrow> lt_channels th = map (\<lambda>sv. server_addr (ls_port sv)) ?svs"
    using load_reach_linked [OF load_start_linked [OF assms(1)] assms(2)] by (simp_all add: load_linked_def)
  have len: "length ?svs = nat (lo_numSchedulers c)" using arg_cong [OF lk, of length] by simp
  have each: "ls_port (?svs ! i) = 9000 + int i" "ls_scheduler (?svs ! i) = new_Spark c" if "i < length ?svs" for i
    using arg_cong [OF lk, of "\<lambda>l. l ! i"] that len by simp_all
  have "map ls_port ?svs = map (\<lambda>i. 9000 + i) [0..lo_numSchedulers c - 1]"
    using arg_cong [OF lk, of "map fst"] by (simp add: comp_def)
  then have "distinct (map ls_port ?svs)" by (simp add: distinct_map inj_on_def)
  then have "server_at (server_addr (ls_port (?svs ! i))) ?svs = Some i" if "i < length ?svs" for i
    using that server_at_found by blast
  then show ?thesis
    using load_rec.reach_accounts [OF assms(2) load_start_wf [OF assms(1)] n TrueI] ch len each by auto
qed

theorem load_benchmark_accounts_witness:
  "let c = load_defaults\<lparr>lo_numSchedulers := 2, lo_scheduleAlgo := ''push-fifo''\<rparr>;
       nu = \<lparr>n_dbl = (\<lambda>x. x), n_flt = (\<lambda>x. x), n_exp = (\<lambda>_ _. 1), n_unif = (\<lambda>_ _. 1), n_accepts = (\<lambda>_. True)\<rparr>;
       st = \<lparr>ss_world = world_with empty_tables, ss_local = 0, ss_single = 0, ss_push = 0, ss_spark = 0, ss_workers = []\<rparr>
   in \<exists>s0 s th. load_start nu c 5 6 st = Inr s0 \<and> (load_step nu (\<lambda>_. quiet_env) c True)\<^sup>*\<^sup>* s0 s \<and> ld_threads s = [th] \<and>
     server_at (lt_channels th ! 1) (ld_servers s) = Some 1 \<and> ls_scheduler (ld_servers s ! 1) = new_Spark c"
proof -
  let ?c = "load_defaults\<lparr>lo_numSchedulers := 2, lo_scheduleAlgo := ''push-fifo''\<rparr>"
  let ?nu = "\<lparr>n_dbl = (\<lambda>x. x), n_flt = (\<lambda>x. x), n_exp = (\<lambda>_ _. 1), n_unif = (\<lambda>_ _. 1), n_accepts = (\<lambda>_. True)\<rparr>"
  let ?st = "\<lparr>ss_world = world_with empty_tables, ss_local = 0, ss_single = 0, ss_push = 0, ss_spark = 0, ss_workers = []\<rparr>"
  let ?svs = "map (\<lambda>k. \<lparr>ls_port = 9000 + k, ls_scheduler = new_Spark ?c, ls_state = ?st\<rparr>) [0..1]"
  let ?s0 = "recorder.extend (rec_start 1 5)
    \<lparr>ld_threads = [\<lparr>lt_pc = LStart, lt_channels = [], lt_rand = world_with empty_tables\<rparr>],
     ld_servers = ?svs, ld_mainFinished = False, ld_endTime = 6 + of_int (narrow32 10000000)\<rparr>"
  let ?th = "\<lparr>lt_pc = LLoop, lt_channels = map (\<lambda>sv. server_addr (ls_port sv)) ?svs,
    lt_rand = world_with empty_tables\<rparr>"
  let ?R = "load_step ?nu (\<lambda>_. quiet_env) ?c True"
  have s0: "load_start ?nu ?c 5 6 ?st = Inr ?s0"
    by (simp add: load_start_def load_servers_eq load_defaults_def)
  have "?R ?s0 (set_load 0 ?th ?s0)"
    by (intro load_step.thread [where k = 0])
      (simp_all add: load_thread_step_def recorder.extend_def rec_start_def)
  then have reach: "?R\<^sup>*\<^sup>* ?s0 (set_load 0 ?th ?s0)" by (rule r_into_rtranclp)
  have th: "ld_threads (set_load 0 ?th ?s0) = [?th]"
    by (simp add: recorder.extend_def set_load_def)
  have n: "lo_numClientThreads ?c \<le> 2 ^ 31" "lo_numSchedulers ?c = 2" by (simp_all add: load_defaults_def)
  from s0 reach th obtain s0 s th where s: "load_start ?nu ?c 5 6 ?st = Inr s0" "?R\<^sup>*\<^sup>* s0 s" "ld_threads s = [th]"
    "lt_pc th = LLoop" by fastforce
  have "server_at (lt_channels th ! 1) (ld_servers s) = Some 1 \<and> ls_scheduler (ld_servers s ! 1) = new_Spark ?c"
    using load_benchmark_accounts [OF s(1,2) n(1), THEN conjunct2, THEN bspec, of th] s(3,4) n(2) by simp
  with s show ?thesis unfolding Let_def by blast
qed

end
