(* ===== verification/Synthetic_Worker.thy ===== *)
theory Synthetic_Worker
  imports Poll_Worker HTTP_Worker Bench_Util Getopt
begin

text \<open>
  \<open>SyntheticWorker.cc\<close>: the program that runs workers. The options, the construction of a worker by type,
  the control threads (one for each worker), which wait on a condition variable for the end of the
  measurement and then call \<open>endServing\<close>, and the main thread, which measures, sets \<open>mainFinished\<close> without
  the lock and notifies. \<open>mainCv.wait(lock, pred)\<close> tests the predicate while it holds the lock and then
  blocks: between the test and the block the main thread can still set the flag and notify.
\<close>

section \<open>Definitions\<close>

subsection \<open>Options\<close>

definition kWorkerTypes :: "string list" where
  "kWorkerTypes = [''mock-poll'', ''mock-http'']"

record worker_options =
  wo_numWorkers :: int
  wo_numExecutors :: int
  wo_partitions :: int
  wo_topkTasks :: int
  wo_measureIntervalMsec :: int
  wo_totalExecTimeMsec :: int
  wo_workerType :: string
  wo_serverAddr :: string
  wo_outputFile :: string

definition worker_defaults :: worker_options where
  "worker_defaults = \<lparr>wo_numWorkers = 1, wo_numExecutors = 1, wo_partitions = 8, wo_topkTasks = 1,
     wo_measureIntervalMsec = 2000, wo_totalExecTimeMsec = 10000, wo_workerType = ''mock-poll'',
     wo_serverAddr = ''localhost'', wo_outputFile = ''synthetic_worker_results.csv''\<rparr>"

definition worker_switch :: "char \<times> string \<Rightarrow> worker_options \<Rightarrow> worker_options option" where
  "worker_switch x c =
     (case x of (opt, optarg) \<Rightarrow>
      if opt = CHR ''o'' then Some (c\<lparr>wo_outputFile := optarg\<rparr>)
      else if opt = CHR ''s'' then Some (c\<lparr>wo_serverAddr := optarg\<rparr>)
      else if opt = CHR ''i'' then Some (c\<lparr>wo_measureIntervalMsec := atoi optarg\<rparr>)
      else if opt = CHR ''t'' then Some (c\<lparr>wo_totalExecTimeMsec := atoi optarg\<rparr>)
      else if opt = CHR ''W'' then Some (c\<lparr>wo_numWorkers := atoi optarg\<rparr>)
      else if opt = CHR ''P'' then Some (c\<lparr>wo_partitions := atoi optarg\<rparr>)
      else if opt = CHR ''A'' then Some (c\<lparr>wo_workerType := optarg\<rparr>)
      else if opt = CHR ''E'' then Some (c\<lparr>wo_numExecutors := atoi optarg\<rparr>)
      else if opt = CHR ''K'' then Some (c\<lparr>wo_topkTasks := atoi optarg\<rparr>)
      else None)"

definition worker_args :: "string list \<Rightarrow> worker_options option" where
  "worker_args argv =
     (case option_loop worker_switch (getopt ''ho:s:i:t:W:P:A:E:K:'' argv) worker_defaults of
        None \<Rightarrow> None
      | Some c \<Rightarrow> (if wo_workerType c \<notin> set kWorkerTypes then None else Some c))"

subsection \<open>Workers\<close>

datatype worker_manager = PollWorker poll_config | HTTPWorker MockHTTPWorker

definition constructWorker :: "worker_options \<Rightarrow> int \<Rightarrow> string \<Rightarrow> worker_manager option result" where
  "constructWorker c wid type =
     (if type = ''mock-poll'' then
        (if wo_partitions c = 0 then Inl DivByZero
         else Inr (Some (PollWorker \<lparr>pkey = c_rem wid (wo_partitions c), workerId = wid,
                     numExecutors = nat (wo_numExecutors c), topk = wo_topkTasks c\<rparr>)))
      else if type = ''mock-http'' then
        (if wo_partitions c = 0 then Inl DivByZero
         else Inr (Some (HTTPWorker (MockHTTPWorker_new wid (c_rem wid (wo_partitions c))))))
      else Inr None)"

text \<open>
  \<open>startServing\<close> through the base class; its result is not looked at. A poll worker starts its
  threads, which are in \<open>Poll_Worker\<close>.
\<close>

definition worker_startServing :: "env \<Rightarrow> worker_manager \<Rightarrow> world \<Rightarrow> bool \<times> (worker_manager \<times> world)" where
  "worker_startServing env m w =
     (case m of
        PollWorker c \<Rightarrow> (True, (PollWorker c, w))
      | HTTPWorker h \<Rightarrow> (case HTTP_startServing env (h, w) of (r, (h', w')) \<Rightarrow> (r, (HTTPWorker h', w'))))"

definition worker_endServing :: "worker_manager \<Rightarrow> bool \<times> worker_manager" where
  "worker_endServing m =
     (case m of
        PollWorker c \<Rightarrow> (True, PollWorker c)
      | HTTPWorker h \<Rightarrow> (case HTTP_endServing h of (r, h') \<Rightarrow> (r, HTTPWorker h')))"

subsection \<open>Control threads\<close>

datatype control_thread_pc =
    WStart                  \<comment> \<open>about to connect, construct the worker and call \<open>startServing\<close>\<close>
  | WLock                   \<comment> \<open>about to lock \<open>mainLock\<close>\<close>
  | WTest                   \<comment> \<open>holds the lock, about to test the predicate\<close>
  | WBlock                  \<comment> \<open>holds the lock, the predicate was false, about to block\<close>
  | WBlocked
  | WEnding                 \<comment> \<open>about to call \<open>endServing\<close>\<close>
  | WEnd

datatype worker_main_pc =
    MMeasure                \<comment> \<open>in the measuring loop\<close>
  | MSet                    \<comment> \<open>about to set \<open>mainFinished\<close>\<close>
  | MNotify                 \<comment> \<open>about to notify\<close>
  | MJoin
  | MEnd

record worker_thread =
  wt_pc :: control_thread_pc
  wt_worker :: "worker_manager option"
  wt_world :: world

record worker_bench =
  wb_threads :: "worker_thread list"
  wb_main :: worker_main_pc
  wb_mainFinished :: bool
  wb_endTime :: "64 word"
  wb_lastTime :: "64 word"
  wb_lastTasks :: "64 word"
  wb_lastFinished :: "64 word"
  wb_dispatchThroughput :: "real option list"
  wb_finishThroughput :: "real option list"
  wb_exited :: bool

definition set_worker :: "nat \<Rightarrow> worker_thread \<Rightarrow> worker_bench \<Rightarrow> worker_bench" where
  "set_worker k th s = s\<lparr>wb_threads := (wb_threads s)[k := th]\<rparr>"

definition main_locked :: "worker_bench \<Rightarrow> bool" where
  "main_locked s \<longleftrightarrow> (\<exists>th \<in> set (wb_threads s). wt_pc th = WTest \<or> wt_pc th = WBlock)"

text \<open>One step of \<open>WorkerThread\<close>; \<open>accepts\<close> says whether a host accepts the connection.\<close>

definition worker_thread_start ::
    "env \<Rightarrow> (string \<Rightarrow> bool) \<Rightarrow> worker_options \<Rightarrow> nat \<Rightarrow> worker_bench \<Rightarrow> worker_bench" where
  "worker_thread_start env accepts c k s =
     (let th = wb_threads s ! k in
      case WorkerManager_createVoltdbClient env accepts (wo_serverAddr c) (wt_world th) of
        (Inl e, w1) \<Rightarrow> s\<lparr>wb_exited := True\<rparr>
      | (Inr None, w1) \<Rightarrow> s\<lparr>wb_exited := True\<rparr>
      | (Inr (Some host), w1) \<Rightarrow>
          (case constructWorker c (int k) (wo_workerType c) of
             Inl e \<Rightarrow> s\<lparr>wb_exited := True\<rparr>
           | Inr None \<Rightarrow> s\<lparr>wb_exited := True\<rparr>
           | Inr (Some m) \<Rightarrow>
               (case worker_startServing env m w1 of (_, (m', w2)) \<Rightarrow>
                  set_worker k (th\<lparr>wt_worker := Some m', wt_world := w2, wt_pc := WLock\<rparr>) s)))"

definition worker_thread_step ::
    "env \<Rightarrow> (string \<Rightarrow> bool) \<Rightarrow> worker_options \<Rightarrow> nat \<Rightarrow> worker_bench \<Rightarrow> worker_bench option" where
  "worker_thread_step env accepts c k s =
     (let th = wb_threads s ! k in
      case wt_pc th of
        WStart \<Rightarrow> Some (worker_thread_start env accepts c k s)
      | WLock \<Rightarrow> (if main_locked s then None else Some (set_worker k (th\<lparr>wt_pc := WTest\<rparr>) s))
      | WTest \<Rightarrow> Some (set_worker k (th\<lparr>wt_pc := (if wb_mainFinished s then WEnding else WBlock)\<rparr>) s)
      | WBlock \<Rightarrow> Some (set_worker k (th\<lparr>wt_pc := WBlocked\<rparr>) s)
      | WBlocked \<Rightarrow> None
      | WEnding \<Rightarrow>
          Some (set_worker k (th\<lparr>wt_worker := map_option (\<lambda>m. snd (worker_endServing m)) (wt_worker th), wt_pc := WEnd\<rparr>) s)
      | WEnd \<Rightarrow> None)"

text \<open>Throughput between two readings of the counters, which are \<open>uint64_t\<close>.\<close>

definition throughput :: "(real \<Rightarrow> real) \<Rightarrow> 64 word \<Rightarrow> 64 word \<Rightarrow> real option" where
  "throughput dbl tasks usec =
     double_div dbl (dbl (of_nat (unat tasks))) (dbl (dbl (of_nat (unat usec)) / 1000000))"

text \<open>
  One step of \<open>runBenchmark\<close>: a reading \<open>tasks\<close>, \<open>fin\<close> of the counters of the workers at time \<open>now\<close>.
\<close>

definition worker_main_step ::
    "(real \<Rightarrow> real) \<Rightarrow> 64 word \<Rightarrow> 64 word \<Rightarrow> 64 word \<Rightarrow> worker_bench \<Rightarrow> worker_bench option" where
  "worker_main_step dbl now tasks fin s =
     (case wb_main s of
        MMeasure \<Rightarrow>
          Some (s\<lparr>wb_dispatchThroughput := wb_dispatchThroughput s @ [throughput dbl (tasks - wb_lastTasks s) (now - wb_lastTime s)],
                  wb_finishThroughput := wb_finishThroughput s @ [throughput dbl (fin - wb_lastFinished s) (now - wb_lastTime s)],
                  wb_lastTasks := tasks, wb_lastTime := now, wb_lastFinished := fin,
                  wb_main := (if now < wb_endTime s then MMeasure else MSet)\<rparr>)
      | MSet \<Rightarrow> Some (s\<lparr>wb_mainFinished := True, wb_main := MNotify\<rparr>)
      | MNotify \<Rightarrow>
          Some (s\<lparr>wb_threads := map (\<lambda>th. if wt_pc th = WBlocked then th\<lparr>wt_pc := WLock\<rparr> else th) (wb_threads s),
                  wb_main := MJoin\<rparr>)
      | MJoin \<Rightarrow> (if \<forall>th \<in> set (wb_threads s). wt_pc th = WEnd then Some (s\<lparr>wb_main := MEnd\<rparr>) else None)
      | MEnd \<Rightarrow> None)"

definition worker_bench_start :: "worker_options \<Rightarrow> 64 word \<Rightarrow> world \<Rightarrow> worker_bench" where
  "worker_bench_start c now w =
     \<lparr>wb_threads = replicate (nat (wo_numWorkers c)) \<lparr>wt_pc = WStart, wt_worker = None, wt_world = w\<rparr>,
      wb_main = MMeasure, wb_mainFinished = False, wb_endTime = now + of_int (narrow32 (wo_totalExecTimeMsec c * 1000)),
      wb_lastTime = now, wb_lastTasks = 0, wb_lastFinished = 0, wb_dispatchThroughput = [],
      wb_finishThroughput = [], wb_exited = False\<rparr>"

inductive worker_step ::
    "(real \<Rightarrow> real) \<Rightarrow> env \<Rightarrow> (string \<Rightarrow> bool) \<Rightarrow> worker_options \<Rightarrow> worker_bench \<Rightarrow> worker_bench \<Rightarrow> bool"
  for dbl env accepts c where
  thread: "\<not> wb_exited s \<Longrightarrow> k < length (wb_threads s) \<Longrightarrow> worker_thread_step env accepts c k s = Some s' \<Longrightarrow>
    worker_step dbl env accepts c s s'"
| main: "\<not> wb_exited s \<Longrightarrow> worker_main_step dbl now tasks fin s = Some s' \<Longrightarrow> worker_step dbl env accepts c s s'"

text \<open>\<open>main\<close>: the exit status; \<open>run\<close> is the result of \<open>runBenchmark\<close>.\<close>

definition worker_main :: "string list \<Rightarrow> (worker_options \<Rightarrow> bool) \<Rightarrow> int" where
  "worker_main argv run =
     (case worker_args argv of None \<Rightarrow> 1 | Some c \<Rightarrow> (if run c then 0 else 1))"

text \<open>The flag is set exactly when the main thread is about to notify or later.\<close>

definition finished_flag :: "worker_bench \<Rightarrow> bool" where
  "finished_flag s \<longleftrightarrow> (wb_main s \<in> {MNotify, MJoin, MEnd} \<longleftrightarrow> wb_mainFinished s)"

section \<open>Lemmas\<close>

lemma set_worker_fields [simp]:
  "wb_main (set_worker k th s) = wb_main s" "wb_mainFinished (set_worker k th s) = wb_mainFinished s"
  "wb_exited (set_worker k th s) = wb_exited s" "wb_endTime (set_worker k th s) = wb_endTime s" "wb_threads (set_worker k th s) = (wb_threads s)[k := th]"
  by (simp_all add: set_worker_def)

lemma worker_step_flag: "worker_step dbl env accepts c s s' \<Longrightarrow> finished_flag s \<Longrightarrow> finished_flag s'"
  by (auto elim!: worker_step.cases simp: finished_flag_def worker_thread_step_def worker_thread_start_def
      worker_main_step_def Let_def
      split: control_thread_pc.splits worker_main_pc.splits prod.splits sum.splits option.splits if_splits)

lemma worker_reach_flag:
  assumes "(worker_step dbl env accepts c)\<^sup>*\<^sup>* (worker_bench_start c now w) s"
  shows "finished_flag s"
  using assms
proof (induction rule: rtranclp_induct)
  case base
  then show ?case by (simp add: finished_flag_def worker_bench_start_def)
qed (rule worker_step_flag)

lemma worker_thread_enabled:
  assumes "k < length (wb_threads s)" "\<not> wb_exited s" "\<And>s'. \<not> worker_step dbl env accepts c s s'"
  shows "wt_pc (wb_threads s ! k) = WBlocked \<or> wt_pc (wb_threads s ! k) = WEnd"
proof -
  have none: "worker_thread_step env accepts c j s = None" if "j < length (wb_threads s)" for j
    using assms(2,3) that worker_step.thread [of s j env accepts c _ dbl]
    by (cases "worker_thread_step env accepts c j s") auto
  have free: "\<not> main_locked s"
  proof
    assume "main_locked s"
    then obtain j where "j < length (wb_threads s)" "wt_pc (wb_threads s ! j) = WTest \<or> wt_pc (wb_threads s ! j) = WBlock"
      by (auto simp: main_locked_def in_set_conv_nth)
    then show False using none [of j] by (auto simp: worker_thread_step_def Let_def)
  qed
  then show ?thesis
    using none [OF assms(1)]
    by (cases "wt_pc (wb_threads s ! k)") (auto simp: worker_thread_step_def Let_def)
qed

text \<open>
  The worker program can stop only in two ways: in every reachable state from which no thread can step,
  either the benchmark has ended, or the main thread waits to join a control thread that is blocked on
  the condition variable although \<open>mainFinished\<close> is set and all notifications have been given.
\<close>

theorem worker_stops:
  assumes "(worker_step dbl env accepts c)\<^sup>*\<^sup>* (worker_bench_start c now w) s" "\<not> wb_exited s"
    and "\<forall>s'. \<not> worker_step dbl env accepts c s s'"
  shows "wb_main s = MEnd \<or>
    (wb_main s = MJoin \<and> wb_mainFinished s \<and> (\<exists>th \<in> set (wb_threads s). wt_pc th = WBlocked))"
proof -
  have no_main: "worker_main_step dbl now tasks fin s = None" for now tasks fin
    using assms(2,3) worker_step.main [of s dbl now tasks fin _ env accepts c]
    by (cases "worker_main_step dbl now tasks fin s") auto
  show ?thesis
  proof (cases "wb_main s")
    case MJoin
    then have "\<exists>th \<in> set (wb_threads s). wt_pc th \<noteq> WEnd"
      using no_main by (auto simp: worker_main_step_def split: if_splits)
    then obtain k where "k < length (wb_threads s)" "wt_pc (wb_threads s ! k) \<noteq> WEnd"
      by (auto simp: in_set_conv_nth)
    then have "\<exists>th \<in> set (wb_threads s). wt_pc th = WBlocked"
      using worker_thread_enabled [of k s dbl env accepts c] assms(2,3) nth_mem by blast
    moreover have "wb_mainFinished s" using worker_reach_flag [OF assms(1)] MJoin by (simp add: finished_flag_def)
    ultimately show ?thesis using MJoin by simp
  qed (use no_main in \<open>auto simp: worker_main_step_def\<close>)
qed

theorem worker_stops_witness:
  "let c = worker_defaults\<lparr>wo_numWorkers := 0, wo_totalExecTimeMsec := 0\<rparr> in
   \<exists>s. (worker_step (\<lambda>x. x) quiet_env (\<lambda>_. True) c)\<^sup>*\<^sup>* (worker_bench_start c 3 (world_with empty_tables)) s \<and>
     (wb_main s = MEnd \<or> (wb_main s = MJoin \<and> wb_mainFinished s \<and> (\<exists>th \<in> set (wb_threads s). wt_pc th = WBlocked)))"
proof -
  let ?c = "worker_defaults\<lparr>wo_numWorkers := 0, wo_totalExecTimeMsec := 0\<rparr>"
  let ?R = "worker_step (\<lambda>x. x) quiet_env (\<lambda>_. True) ?c"
  let ?s0 = "worker_bench_start ?c 3 (world_with empty_tables)"
  obtain s1 where s1: "worker_main_step (\<lambda>x. x) 3 0 0 ?s0 = Some s1"
    by (simp add: worker_main_step_def worker_bench_start_def)
  have f: "wb_threads s1 = []" "wb_main s1 = MSet" "\<not> wb_exited s1"
    using s1 by (auto simp: worker_main_step_def worker_bench_start_def worker_defaults_def narrow32_def)
  let ?s2 = "s1\<lparr>wb_mainFinished := True, wb_main := MNotify\<rparr>"
  let ?s3 = "?s2\<lparr>wb_threads := [], wb_main := MJoin\<rparr>"
  let ?s4 = "?s3\<lparr>wb_main := MEnd\<rparr>"
  have "?R ?s0 s1" using s1 by (intro worker_step.main) (simp_all add: worker_bench_start_def)
  moreover have "?R s1 ?s2" using f by (intro worker_step.main) (simp_all add: worker_main_step_def)
  moreover have "?R ?s2 ?s3" using f by (intro worker_step.main) (simp_all add: worker_main_step_def)
  moreover have "?R ?s3 ?s4" using f by (intro worker_step.main) (simp_all add: worker_main_step_def)
  ultimately have reach: "?R\<^sup>*\<^sup>* ?s0 ?s4" by (meson rtranclp.rtrancl_into_rtrancl rtranclp.rtrancl_refl)
  moreover have "\<forall>s'. \<not> ?R ?s4 s'" using f by (auto elim!: worker_step.cases simp: worker_main_step_def)
  ultimately show ?thesis unfolding Let_def using worker_stops [OF reach] f by (intro exI [of _ ?s4]) simp
qed

text \<open>
  C40. The second way does happen: with one poll worker, a run exists in which the control thread has tested
  the predicate, the main thread then sets the flag and notifies, and the control thread blocks:
  \<open>endServing\<close> is never called and the program never ends.
\<close>

theorem worker_lost_wakeup:
  assumes "wo_numWorkers c = 1" "wo_partitions c \<noteq> 0" "wo_workerType c = ''mock-poll''"
    and "wo_serverAddr c = ''localhost''" "accepts ''localhost''" "wo_totalExecTimeMsec c = 0"
  shows "\<exists>s. (worker_step dbl env accepts c)\<^sup>*\<^sup>* (worker_bench_start c now w) s \<and> \<not> wb_exited s \<and>
    wb_main s = MJoin \<and> wb_mainFinished s \<and> map wt_pc (wb_threads s) = [WBlocked] \<and>
    (\<forall>s'. \<not> worker_step dbl env accepts c s s')"
proof -
  let ?R = "worker_step dbl env accepts c" and ?s0 = "worker_bench_start c now w"
  have one: "getlines CHR '','' ''localhost'' = [''localhost'']" by (simp add: getlines.simps)
  have th0: "wb_threads ?s0 = [\<lparr>wt_pc = WStart, wt_worker = None, wt_world = w\<rparr>]" "\<not> wb_exited ?s0"
    using assms(1) by (simp_all add: worker_bench_start_def)
  obtain w1 where w1: "WorkerManager_createVoltdbClient env accepts ''localhost'' w = (Inr (Some ''localhost''), w1)"
    using assms(5) by (auto simp: WorkerManager_createVoltdbClient_def one Let_def rand_mod_def c_rand_def c_rem_def)
  obtain m where m: "worker_thread_start env accepts c 0 ?s0 =
      set_worker 0 \<lparr>wt_pc = WLock, wt_worker = Some m, wt_world = w1\<rparr> ?s0"
    using assms(2-4) w1 th0 by (auto simp: worker_thread_start_def constructWorker_def worker_startServing_def)
  let ?t = "\<lambda>p. \<lparr>wt_pc = p, wt_worker = Some m, wt_world = w1\<rparr>"
  let ?s1 = "set_worker 0 (?t WLock) ?s0" and ?s2 = "set_worker 0 (?t WTest) ?s0" and ?s3 = "set_worker 0 (?t WBlock) ?s0"
  obtain s4 where s4: "?R ?s3 s4" "wb_threads s4 = [?t WBlock]" "wb_main s4 = MSet" "\<not> wb_exited s4"
  proof -
    have "worker_main_step dbl now 0 0 ?s3 \<noteq> None" by (simp add: worker_main_step_def worker_bench_start_def)
    then obtain s4 where s4: "worker_main_step dbl now 0 0 ?s3 = Some s4" by blast
    then have "?R ?s3 s4" using th0(2) by (intro worker_step.main) simp_all
    moreover have "wb_threads s4 = [?t WBlock]" "wb_main s4 = MSet" "\<not> wb_exited s4"
      using s4 th0 assms(6) by (auto simp: worker_main_step_def worker_bench_start_def narrow32_def)
    ultimately show ?thesis using that by blast
  qed
  let ?s5 = "s4\<lparr>wb_mainFinished := True, wb_main := MNotify\<rparr>"
  let ?s6 = "?s5\<lparr>wb_threads := [?t WBlock], wb_main := MJoin\<rparr>"
  let ?s7 = "set_worker 0 (?t WBlocked) ?s6"
  have "?R ?s0 ?s1" using th0 m by (intro worker_step.thread [where k = 0]) (simp_all add: worker_thread_step_def)
  moreover have "?R ?s1 ?s2" using th0
    by (intro worker_step.thread [where k = 0]) (simp_all add: worker_thread_step_def main_locked_def set_worker_def)
  moreover have "?R ?s2 ?s3" using th0
    by (intro worker_step.thread [where k = 0])
      (simp_all add: worker_thread_step_def set_worker_def worker_bench_start_def)
  moreover have "?R s4 ?s5" using s4 by (intro worker_step.main) (simp_all add: worker_main_step_def)
  moreover have "?R ?s5 ?s6" using s4 by (intro worker_step.main) (simp_all add: worker_main_step_def)
  moreover have "?R ?s6 ?s7" using s4
    by (intro worker_step.thread [where k = 0]) (simp_all add: worker_thread_step_def)
  ultimately have "?R\<^sup>*\<^sup>* ?s0 ?s7" using s4(1) by (meson rtranclp.rtrancl_into_rtrancl rtranclp.rtrancl_refl)
  moreover have "\<not> ?R ?s7 s'" for s'
    by (auto elim!: worker_step.cases simp: worker_thread_step_def worker_main_step_def set_worker_def)
  ultimately show ?thesis using s4 by (intro exI [of _ ?s7]) (simp add: set_worker_def)
qed

theorem worker_lost_wakeup_witness:
  "\<exists>s. (worker_step (\<lambda>x. x) quiet_env (\<lambda>_. True) (worker_defaults\<lparr>wo_totalExecTimeMsec := 0\<rparr>))\<^sup>*\<^sup>*
      (worker_bench_start (worker_defaults\<lparr>wo_totalExecTimeMsec := 0\<rparr>) 3 (world_with empty_tables)) s \<and>
    wb_mainFinished s \<and> map wt_pc (wb_threads s) = [WBlocked]"
  using worker_lost_wakeup [of "worker_defaults\<lparr>wo_totalExecTimeMsec := 0\<rparr>" "\<lambda>_. True" "\<lambda>x. x" quiet_env 3
      "world_with empty_tables"] by (auto simp: worker_defaults_def)

end
