(* ===== verification/HTTP_Parser.thy ===== *)
theory HTTP_Parser
  imports Prelude
begin

text \<open>
  The input stream and the parser of \<open>httpserver.h\<close>, the server inside \<open>MockHTTPWorker\<close>: the tables as in
  the source, the buffer with its token under construction, and \<open>http_parse\<close>, which consumes
  characters until a token is complete. A read outside of a table or of the buffer is a crash
  (\<open>OutOfRange\<close>) in the model; in the program it is undefined. The one exception is the read of
  \<open>hs_token_start_states\<close> one entry behind its end, which every bad request does: what it finds is the
  parameter \<open>behind\<close>.
\<close>

section \<open>Definitions\<close>

definition and_then :: "'a result \<Rightarrow> ('a \<Rightarrow> 'b result) \<Rightarrow> 'b result" where
  "and_then r f = (case r of Inl e \<Rightarrow> Inl e | Inr x \<Rightarrow> f x)"

definition narrow16 :: "int \<Rightarrow> int" where
  "narrow16 x = (x + 2 ^ 15) mod 2 ^ 16 - 2 ^ 15"

definition narrow64 :: "int \<Rightarrow> int" where
  "narrow64 x = (x + 2 ^ 63) mod 2 ^ 64 - 2 ^ 63"

text \<open>A \<open>char\<close> as a number; it is signed.\<close>

definition char_int :: "char \<Rightarrow> int" where
  "char_int c = (let k = int (of_char c) in if 128 \<le> k then k - 256 else k)"

subsection \<open>Types and tables\<close>

definition HTTP_REQUEST_BUF_SIZE :: int where "HTTP_REQUEST_BUF_SIZE = 1024"

definition HTTP_RESPONSE_BUF_SIZE :: int where "HTTP_RESPONSE_BUF_SIZE = 1024"

definition HTTP_MAX_TOKEN_LENGTH :: int where "HTTP_MAX_TOKEN_LENGTH = 8192"

definition HTTP_MAX_TOTAL_EST_MEM_USAGE :: int where "HTTP_MAX_TOTAL_EST_MEM_USAGE = 4294967296"

definition HTTP_MAX_REQUEST_BUF_SIZE :: int where "HTTP_MAX_REQUEST_BUF_SIZE = 8388608"

definition HTTP_MAX_HEADER_COUNT :: int where "HTTP_MAX_HEADER_COUNT = 127"

datatype hs_token =
    HS_TOK_NONE | HS_TOK_METHOD | HS_TOK_TARGET | HS_TOK_VERSION | HS_TOK_HEADER_KEY | HS_TOK_HEADER_VAL
  | HS_TOK_CHUNK_BODY | HS_TOK_BODY | HS_TOK_BODY_STREAM | HS_TOK_REQ_END | HS_TOK_EOF | HS_TOK_ERROR

datatype hs_state =
    ST | MT | MS | TR | TS | VN | RR | RN | HK | HS | HV | HR | HE
  | ER | HN | BD | CS | CB | CE | CR | CN | CD | C1 | C2 | BR

datatype hs_char_type =
    HS_SPC | HS_NL | HS_CR | HS_COLN | HS_TAB | HS_SCOLN
  | HS_DIGIT | HS_HEX | HS_ALPHA | HS_TCHAR | HS_VCHAR | HS_ETC

datatype hs_meta_state =
    M_WFK | M_ANY | M_MTE | M_MCL | M_CLV | M_MCK | M_SML | M_CHK | M_BIG | M_ZER | M_CSZ
  | M_CBD | M_LST | M_STR | M_SEN | M_BDY | M_END | M_ERR

text \<open>The columns of \<open>hs_meta_transitions\<close>.\<close>

abbreviation (input) HS_META_NOT_CONTENT_LEN :: nat where "HS_META_NOT_CONTENT_LEN \<equiv> 0"

abbreviation (input) HS_META_NOT_TRANSFER_ENC :: nat where "HS_META_NOT_TRANSFER_ENC \<equiv> 1"

abbreviation (input) HS_META_END_KEY :: nat where "HS_META_END_KEY \<equiv> 2"

abbreviation (input) HS_META_END_VALUE :: nat where "HS_META_END_VALUE \<equiv> 3"

abbreviation (input) HS_META_END_HEADERS :: nat where "HS_META_END_HEADERS \<equiv> 4"

abbreviation (input) HS_META_LARGE_BODY :: nat where "HS_META_LARGE_BODY \<equiv> 5"

abbreviation (input) HS_META_NOT_CHUNKED :: nat where "HS_META_NOT_CHUNKED \<equiv> 0"

abbreviation (input) HS_META_NON_ZERO :: nat where "HS_META_NON_ZERO \<equiv> 0"

abbreviation (input) HS_META_END_CHK_SIZE :: nat where "HS_META_END_CHK_SIZE \<equiv> 1"

abbreviation (input) HS_META_END_CHUNK :: nat where "HS_META_END_CHUNK \<equiv> 2"

abbreviation (input) HS_META_NEXT :: nat where "HS_META_NEXT \<equiv> 0"

text \<open>Rows of the tables; a state without a row has the empty list.\<close>

fun hs_transitions :: "hs_state \<Rightarrow> hs_state list" where
  "hs_transitions ST = [BR, BR, BR, BR, BR, BR, BR, MT, MT, MT, BR, BR]"
| "hs_transitions MT = [MS, BR, BR, BR, BR, BR, MT, MT, MT, MT, BR, BR]"
| "hs_transitions MS = [BR, BR, BR, BR, BR, BR, TR, TR, TR, TR, TR, BR]"
| "hs_transitions TR = [TS, BR, BR, TR, BR, TR, TR, TR, TR, TR, TR, BR]"
| "hs_transitions TS = [BR, BR, BR, BR, BR, BR, VN, VN, VN, VN, VN, BR]"
| "hs_transitions VN = [BR, BR, RR, BR, BR, BR, VN, VN, VN, VN, VN, BR]"
| "hs_transitions RR = [BR, RN, BR, BR, BR, BR, BR, BR, BR, BR, BR, BR]"
| "hs_transitions RN = [BR, BR, BR, BR, BR, BR, HK, HK, HK, HK, BR, BR]"
| "hs_transitions HK = [BR, BR, BR, HS, BR, BR, HK, HK, HK, HK, BR, BR]"
| "hs_transitions HS = [HS, HS, HS, HV, HS, HV, HV, HV, HV, HV, HV, BR]"
| "hs_transitions HV = [HV, BR, HR, HV, HV, HV, HV, HV, HV, HV, HV, BR]"
| "hs_transitions HR = [BR, HE, BR, BR, BR, BR, BR, BR, BR, BR, BR, BR]"
| "hs_transitions HE = [BR, BR, ER, BR, BR, BR, HK, HK, HK, HK, BR, BR]"
| "hs_transitions ER = [BR, HN, BR, BR, BR, BR, BR, BR, BR, BR, BR, BR]"
| "hs_transitions HN = [BD, BD, BD, BD, BD, BD, BD, BD, BD, BD, BD, BD]"
| "hs_transitions BD = [BD, BD, BD, BD, BD, BD, BD, BD, BD, BD, BD, BD]"
| "hs_transitions CS = [BR, BR, CR, BR, BR, CE, CS, CS, BR, BR, BR, BR]"
| "hs_transitions CB = [CB, CB, CB, CB, CB, CB, CB, CB, CB, CB, CB, CB]"
| "hs_transitions CE = [BR, BR, CR, CE, CE, CE, CE, CE, CE, CE, CE, BR]"
| "hs_transitions CR = [BR, CN, BR, BR, BR, BR, BR, BR, BR, BR, BR, BR]"
| "hs_transitions CN = [CB, CB, CB, CB, CB, CB, CB, CB, CB, CB, CB, CB]"
| "hs_transitions CD = [BR, BR, C1, BR, BR, BR, BR, BR, BR, BR, BR, BR]"
| "hs_transitions C1 = [BR, C2, BR, BR, BR, BR, BR, BR, BR, BR, BR, BR]"
| "hs_transitions C2 = [BR, BR, BR, BR, BR, BR, CS, CS, BR, BR, BR, BR]"
| "hs_transitions BR = []"

fun hs_meta_transitions :: "hs_meta_state \<Rightarrow> hs_meta_state list" where
  "hs_meta_transitions M_WFK = [M_WFK, M_WFK, M_WFK, M_ANY, M_END, M_ERR]"
| "hs_meta_transitions M_ANY = [M_MTE, M_MCL, M_WFK, M_ERR, M_END, M_ERR]"
| "hs_meta_transitions M_MTE = [M_MTE, M_WFK, M_MCK, M_ERR, M_ERR, M_ERR]"
| "hs_meta_transitions M_MCL = [M_WFK, M_MCL, M_CLV, M_ERR, M_ERR, M_ERR]"
| "hs_meta_transitions M_CLV = [M_ERR, M_ERR, M_ERR, M_SML, M_ERR, M_ERR]"
| "hs_meta_transitions M_MCK = [M_WFK, M_ERR, M_ERR, M_CHK, M_ERR, M_ERR]"
| "hs_meta_transitions M_SML = [M_SML, M_SML, M_SML, M_SML, M_BDY, M_BIG]"
| "hs_meta_transitions M_CHK = [M_CHK, M_CHK, M_CHK, M_CHK, M_ZER, M_ERR]"
| "hs_meta_transitions M_BIG = [M_BIG, M_BIG, M_BIG, M_BIG, M_STR, M_ERR]"
| "hs_meta_transitions M_ZER = [M_CSZ, M_LST, M_ERR, M_ERR, M_ERR, M_ERR]"
| "hs_meta_transitions M_CSZ = [M_CSZ, M_CBD, M_ERR, M_ERR, M_ERR, M_ERR]"
| "hs_meta_transitions M_CBD = [M_CBD, M_CBD, M_ZER, M_ERR, M_ERR, M_ERR]"
| "hs_meta_transitions M_LST = [M_LST, M_END, M_END, M_ERR, M_ERR, M_ERR]"
| "hs_meta_transitions M_STR = [M_SEN, M_ERR, M_ERR, M_ERR, M_ERR, M_ERR]"
| "hs_meta_transitions M_SEN = [M_END, M_ERR, M_ERR, M_ERR, M_ERR, M_ERR]"
| "hs_meta_transitions M_BDY = [M_END, M_ERR, M_ERR, M_ERR, M_ERR, M_ERR]"
| "hs_meta_transitions M_END = [M_WFK, M_ERR, M_ERR, M_ERR, M_ERR, M_ERR]"
| "hs_meta_transitions M_ERR = []"

definition hs_ctype :: "hs_char_type list" where
  "hs_ctype =
    [HS_ETC, HS_ETC, HS_ETC, HS_ETC, HS_ETC, HS_ETC, HS_ETC,
     HS_ETC, HS_ETC, HS_TAB, HS_NL, HS_ETC, HS_ETC, HS_CR,
     HS_ETC, HS_ETC, HS_ETC, HS_ETC, HS_ETC, HS_ETC, HS_ETC,
     HS_ETC, HS_ETC, HS_ETC, HS_ETC, HS_ETC, HS_ETC, HS_ETC,
     HS_ETC, HS_ETC, HS_ETC, HS_ETC, HS_SPC, HS_TCHAR, HS_VCHAR,
     HS_TCHAR, HS_TCHAR, HS_TCHAR, HS_TCHAR, HS_TCHAR, HS_VCHAR, HS_VCHAR,
     HS_TCHAR, HS_TCHAR, HS_TCHAR, HS_TCHAR, HS_TCHAR, HS_VCHAR, HS_DIGIT,
     HS_DIGIT, HS_DIGIT, HS_DIGIT, HS_DIGIT, HS_DIGIT, HS_DIGIT, HS_DIGIT,
     HS_DIGIT, HS_DIGIT, HS_COLN, HS_SCOLN, HS_VCHAR, HS_VCHAR, HS_VCHAR,
     HS_VCHAR, HS_VCHAR, HS_HEX, HS_HEX, HS_HEX, HS_HEX, HS_HEX,
     HS_HEX, HS_ALPHA, HS_ALPHA, HS_ALPHA, HS_ALPHA, HS_ALPHA, HS_ALPHA,
     HS_ALPHA, HS_ALPHA, HS_ALPHA, HS_ALPHA, HS_ALPHA, HS_ALPHA, HS_ALPHA,
     HS_ALPHA, HS_ALPHA, HS_ALPHA, HS_ALPHA, HS_ALPHA, HS_ALPHA, HS_ALPHA,
     HS_VCHAR, HS_VCHAR, HS_VCHAR, HS_TCHAR, HS_TCHAR, HS_TCHAR, HS_HEX,
     HS_HEX, HS_HEX, HS_HEX, HS_HEX, HS_HEX, HS_ALPHA, HS_ALPHA,
     HS_ALPHA, HS_ALPHA, HS_ALPHA, HS_ALPHA, HS_ALPHA, HS_ALPHA, HS_ALPHA,
     HS_ALPHA, HS_ALPHA, HS_ALPHA, HS_ALPHA, HS_ALPHA, HS_ALPHA, HS_ALPHA,
     HS_ALPHA, HS_ALPHA, HS_ALPHA, HS_ALPHA, HS_VCHAR, HS_TCHAR, HS_VCHAR,
     HS_TCHAR, HS_ETC]"

fun hs_column :: "hs_char_type \<Rightarrow> nat" where
  "hs_column HS_SPC = 0"
| "hs_column HS_NL = 1"
| "hs_column HS_CR = 2"
| "hs_column HS_COLN = 3"
| "hs_column HS_TAB = 4"
| "hs_column HS_SCOLN = 5"
| "hs_column HS_DIGIT = 6"
| "hs_column HS_HEX = 7"
| "hs_column HS_ALPHA = 8"
| "hs_column HS_TCHAR = 9"
| "hs_column HS_VCHAR = 10"
| "hs_column HS_ETC = 11"

definition char_type :: "char \<Rightarrow> hs_char_type" where
  "char_type c = (if char_int c < 0 then HS_ETC else hs_ctype ! nat (char_int c))"

fun hs_token_start_states :: "hs_token \<Rightarrow> hs_state \<Rightarrow> hs_token" where
  "hs_token_start_states behind MT = HS_TOK_METHOD"
| "hs_token_start_states behind TR = HS_TOK_TARGET"
| "hs_token_start_states behind VN = HS_TOK_VERSION"
| "hs_token_start_states behind HK = HS_TOK_HEADER_KEY"
| "hs_token_start_states behind HV = HS_TOK_HEADER_VAL"
| "hs_token_start_states behind BD = HS_TOK_BODY"
| "hs_token_start_states behind CB = HS_TOK_CHUNK_BODY"
| "hs_token_start_states behind BR = behind"
| "hs_token_start_states behind _ = HS_TOK_NONE"

definition table_at :: "'a list \<Rightarrow> nat \<Rightarrow> 'a result" where
  "table_at row i = (if i < length row then Inr (row ! i) else Inl OutOfRange)"

record http_token =
  tok_index :: int
  tok_len :: int
  tok_type :: hs_token

definition no_token :: http_token where
  "no_token = \<lparr>tok_index = 0, tok_len = 0, tok_type = HS_TOK_NONE\<rparr>"

text \<open>
  The stream: \<open>buf\<close> is \<open>None\<close> for the null pointer; the list has the bytes that have been written to
  the buffer.
\<close>

record hs_stream =
  s_buf :: "string option"
  s_total_bytes :: int
  s_capacity :: int
  s_length :: int
  s_index :: int
  s_anchor :: int
  s_token :: http_token
  s_consumed :: bool

record http_parser =
  p_content_length :: int
  p_body_consumed :: int
  p_match_index :: int
  p_header_count :: int
  p_state :: hs_state
  p_meta :: hs_meta_state

definition parser_init :: http_parser where
  "parser_init = \<lparr>p_content_length = 0, p_body_consumed = 0, p_match_index = 0, p_header_count = 0,
     p_state = ST, p_meta = M_WFK\<rparr>"

definition stream_init :: hs_stream where
  "stream_init = \<lparr>s_buf = None, s_total_bytes = 0, s_capacity = 0, s_length = 0, s_index = 0, s_anchor = 0,
     s_token = no_token, s_consumed = False\<rparr>"

subsection \<open>The input stream\<close>

definition byte_at :: "hs_stream \<Rightarrow> int \<Rightarrow> char result" where
  "byte_at s i =
     (case s_buf s of
        None \<Rightarrow> Inl OutOfRange
      | Some b \<Rightarrow> (if 0 \<le> i \<and> i < int (length b) then Inr (b ! nat i) else Inl OutOfRange))"

definition hs_stream_next :: "hs_stream \<Rightarrow> (char option \<times> hs_stream) result" where
  "hs_stream_next s =
     (let s' = s\<lparr>s_consumed := False\<rparr>
      in if s_index s' \<ge> s_length s' then Inr (None, s')
         else and_then (byte_at s' (s_index s')) (\<lambda>c. Inr (Some c, s')))"

text \<open>The token grows with the index once it has a type.\<close>

definition set_token_len :: "int \<Rightarrow> hs_stream \<Rightarrow> hs_stream" where
  "set_token_len n s =
     s\<lparr>s_token := (s_token s)\<lparr>tok_len := (if tok_type (s_token s) = HS_TOK_NONE then 0 else n)\<rparr>\<rparr>"

definition hs_stream_consume :: "hs_stream \<Rightarrow> hs_stream" where
  "hs_stream_consume s =
     (if s_consumed s then s
      else set_token_len (tok_len (s_token s) + 1) (s\<lparr>s_consumed := True, s_index := s_index s + 1\<rparr>))"

definition hs_stream_begin_token :: "hs_token \<Rightarrow> hs_stream \<Rightarrow> hs_stream" where
  "hs_stream_begin_token type s = s\<lparr>s_token := (s_token s)\<lparr>tok_index := s_index s, tok_type := type\<rparr>\<rparr>"

definition hs_stream_jump :: "int \<Rightarrow> hs_stream \<Rightarrow> bool \<times> hs_stream" where
  "hs_stream_jump offset s =
     (let s' = s\<lparr>s_consumed := True\<rparr>; target = narrow32 (s_index s + offset)
      in if target > s_length s then (False, s')
         else (True, set_token_len (narrow32 (tok_len (s_token s) + offset)) (s'\<lparr>s_index := target\<rparr>)))"

definition hs_stream_jumpall :: "hs_stream \<Rightarrow> int \<times> hs_stream" where
  "hs_stream_jumpall s =
     (let offset = s_length s - s_index s
      in (offset, set_token_len (tok_len (s_token s) + offset)
                    (s\<lparr>s_index := s_index s + offset, s_consumed := True\<rparr>)))"

definition hs_stream_anchor :: "hs_stream \<Rightarrow> hs_stream" where
  "hs_stream_anchor s = s\<lparr>s_anchor := s_index s\<rparr>"

definition hs_stream_emit :: "hs_stream \<Rightarrow> http_token \<times> hs_stream" where
  "hs_stream_emit s = (s_token s, s\<lparr>s_token := no_token\<rparr>)"

definition hs_stream_can_contain :: "hs_stream \<Rightarrow> int \<Rightarrow> bool" where
  "hs_stream_can_contain s n \<longleftrightarrow> HTTP_MAX_REQUEST_BUF_SIZE - s_index s + 1 \<ge> n"

text \<open>\<open>memcpy\<close> inside of the buffer.\<close>

definition copy_within :: "int \<Rightarrow> int \<Rightarrow> int \<Rightarrow> string option \<Rightarrow> string option result" where
  "copy_within dst src n buf =
     (case buf of
        None \<Rightarrow> Inl OutOfRange
      | Some b \<Rightarrow>
          (if 0 \<le> n \<and> 0 \<le> dst \<and> 0 \<le> src \<and> dst + n \<le> int (length b) \<and> src + n \<le> int (length b)
           then Inr (Some (take (nat dst) b @ take (nat n) (drop (nat src) b) @ drop (nat (dst + n)) b))
           else Inl OutOfRange))"

definition hs_stream_shift :: "hs_stream \<Rightarrow> hs_stream result" where
  "hs_stream_shift s =
     (let t = s_token s
      in if tok_index t = s_anchor s then Inr s
         else and_then
                (if tok_len t > 0
                 then copy_within (s_anchor s) (tok_index t) (s_length s - tok_index t) (s_buf s)
                 else Inr (s_buf s))
                (\<lambda>buf. Inr (s\<lparr>s_buf := buf, s_token := t\<lparr>tok_index := s_anchor s\<rparr>,
                              s_index := tok_len t + s_anchor s, s_length := s_anchor s + tok_len t\<rparr>)))"

subsection \<open>The parser\<close>

definition hs_trigger_meta :: "nat \<Rightarrow> http_parser \<Rightarrow> http_parser result" where
  "hs_trigger_meta event p =
     and_then (table_at (hs_meta_transitions (p_meta p)) event) (\<lambda>to. Inr (p\<lparr>p_meta := to\<rparr>))"

definition lower :: "char \<Rightarrow> char" where
  "lower c = (if 65 \<le> char_int c \<and> char_int c \<le> 90 then char_of (nat (char_int c + 32)) else c)"

text \<open>
  The macro \<open>HS_MATCH\<close>. \<open>m\<close> is the character of the string at the match index, and keeps its old value
  when the index is behind the end of the string. The index is an \<open>int16_t\<close>.
\<close>

definition hs_match :: "string \<Rightarrow> nat \<Rightarrow> char \<Rightarrow> char \<Rightarrow> http_parser \<Rightarrow> (char \<times> http_parser) result" where
  "hs_match str meta c m p =
     and_then (if p_match_index p < int (length str)
               then (if p_match_index p < 0 then Inl OutOfRange else Inr (str ! nat (p_match_index p)))
               else Inr m)
       (\<lambda>m'. and_then (if lower c \<noteq> m' then hs_trigger_meta meta p else Inr p) (\<lambda>p'. Inr (m', p')))"

text \<open>\<open>hs_transition_action\<close> up to the \<open>switch\<close>: the state changes from \<open>src\<close> to \<open>dst\<close>.\<close>

definition hs_enter ::
    "hs_token \<Rightarrow> hs_state \<Rightarrow> hs_state \<Rightarrow> http_parser \<Rightarrow> hs_stream \<Rightarrow> (http_token \<times> http_parser \<times> hs_stream) result" where
  "hs_enter behind src dst p s =
     (let s1 = (if src = HN then hs_stream_anchor s else s)
      in if src = dst then Inr (no_token, p, s1)
         else
           let type = hs_token_start_states behind dst;
               s2 = (if type \<noteq> HS_TOK_NONE then hs_stream_begin_token type s1 else s1)
           in and_then (if src = CS then hs_trigger_meta HS_META_END_CHK_SIZE p else Inr p)
                (\<lambda>p1. and_then
                   (if dst = HK then
                      let p2 = p1\<lparr>p_header_count := narrow16 (p_header_count p1 + 1)\<rparr>
                      in Inr (if p_header_count p2 > HTTP_MAX_HEADER_COUNT then no_token\<lparr>tok_type := HS_TOK_ERROR\<rparr>
                              else no_token, p2, s2)
                    else if dst = HS then
                      and_then (hs_trigger_meta HS_META_END_KEY p1)
                        (\<lambda>p2. case hs_stream_emit s2 of (tok, s3) \<Rightarrow> Inr (tok, p2, s3))
                    else Inr (no_token, p1, s2))
                   (\<lambda>(tok, p3, s3). Inr (tok, p3\<lparr>p_match_index := 0\<rparr>, s3))))"

text \<open>The cases of the \<open>switch\<close> that need more than a line.\<close>

definition hs_key_char :: "char \<Rightarrow> http_parser \<Rightarrow> http_parser result" where
  "hs_key_char c p =
     and_then (hs_match ''transfer-encoding'' HS_META_NOT_TRANSFER_ENC c (CHR 0x00) p)
       (\<lambda>(m, p1). and_then (hs_match ''content-length'' HS_META_NOT_CONTENT_LEN c m p1)
          (\<lambda>(_, p2). Inr (p2\<lparr>p_match_index := narrow16 (p_match_index p2 + 1)\<rparr>)))"

definition hs_value_char :: "char \<Rightarrow> http_parser \<Rightarrow> http_parser result" where
  "hs_value_char c p =
     (if p_meta p = M_MCK
      then and_then (hs_match ''chunked'' HS_META_NOT_CHUNKED c (CHR 0x00) p)
             (\<lambda>(_, p1). Inr (p1\<lparr>p_match_index := narrow16 (p_match_index p1 + 1)\<rparr>))
      else if p_meta p = M_CLV
      then Inr (p\<lparr>p_content_length := narrow64 (narrow64 (p_content_length p * 10) + (char_int c - 48))\<rparr>)
      else Inr p)"

definition hs_headers_end :: "http_token \<Rightarrow> http_parser \<Rightarrow> hs_stream \<Rightarrow> (http_token \<times> http_parser) result" where
  "hs_headers_end emitted p s =
     and_then (if p_meta p = M_SML \<and> \<not> hs_stream_can_contain s (p_content_length p)
               then hs_trigger_meta HS_META_LARGE_BODY p else Inr p)
       (\<lambda>p1. let emitted1 = (if p_meta p1 = M_BIG \<or> p_meta p1 = M_CHK
                              then emitted\<lparr>tok_type := HS_TOK_BODY_STREAM\<rparr> else emitted)
             in and_then (hs_trigger_meta HS_META_END_HEADERS p1)
                  (\<lambda>p2. let p3 = (if p_content_length p2 = 0 \<and> p_meta p2 = M_BDY then p2\<lparr>p_meta := M_END\<rparr> else p2)
                        in Inr (if p_meta p3 = M_END then emitted1\<lparr>tok_type := HS_TOK_BODY\<rparr> else emitted1, p3)))"

definition hs_size_char :: "char \<Rightarrow> http_parser \<Rightarrow> http_parser result" where
  "hs_size_char c p =
     and_then (if c \<noteq> CHR ''0'' then hs_trigger_meta HS_META_NON_ZERO p else Inr p)
       (\<lambda>p1. let k = char_int c;
                 digit = (if 65 \<le> k \<and> k \<le> 70 then Some (k - 55)
                          else if 97 \<le> k \<and> k \<le> 102 then Some (k - 87)
                          else if 48 \<le> k \<and> k \<le> 57 then Some (k - 48)
                          else None)
             in case digit of
                  None \<Rightarrow> Inr p1
                | Some d \<Rightarrow> Inr (p1\<lparr>p_content_length := narrow64 (narrow64 (p_content_length p1 * 16) + d)\<rparr>))"

definition hs_body ::
    "hs_state \<Rightarrow> http_token \<Rightarrow> http_parser \<Rightarrow> hs_stream \<Rightarrow> (http_token \<times> http_parser \<times> hs_stream) result" where
  "hs_body dst emitted p s =
     (let s1 = (if p_meta p = M_STR then hs_stream_begin_token HS_TOK_CHUNK_BODY s else s);
          body_left = narrow32 (p_content_length p - p_body_consumed p)
      in case hs_stream_jump body_left s1 of
           (True, s2) \<Rightarrow>
             (case hs_stream_emit s2 of (tok, s3) \<Rightarrow>
                and_then (hs_trigger_meta HS_META_NEXT p)
                  (\<lambda>p1. Inr (tok, p1\<lparr>p_state := (if dst = CB then CD else p_state p1),
                                       p_content_length := 0, p_body_consumed := 0\<rparr>, s3)))
         | (False, s2) \<Rightarrow>
             (case hs_stream_jumpall s2 of (n, s3) \<Rightarrow>
                let p1 = p\<lparr>p_body_consumed := p_body_consumed p + n\<rparr>
                in if p_meta p1 = M_STR
                   then (case hs_stream_emit s3 of (tok, s4) \<Rightarrow>
                           and_then (hs_stream_shift s4) (\<lambda>s5. Inr (tok, p1, s5)))
                   else Inr (emitted, p1, s3)))"

definition hs_switch ::
    "char \<Rightarrow> hs_state \<Rightarrow> http_token \<Rightarrow> http_parser \<Rightarrow> hs_stream \<Rightarrow> (http_token \<times> http_parser \<times> hs_stream) result" where
  "hs_switch c dst emitted p s =
     (if dst = MS \<or> dst = TS
      then (case hs_stream_emit s of (tok, s') \<Rightarrow> Inr (tok, p, s'))
      else if dst = RR \<or> dst = HR
      then and_then (hs_trigger_meta HS_META_END_VALUE p)
             (\<lambda>p'. case hs_stream_emit s of (tok, s') \<Rightarrow> Inr (tok, p', s'))
      else if dst = HK then and_then (hs_key_char c p) (\<lambda>p'. Inr (emitted, p', s))
      else if dst = HV then and_then (hs_value_char c p) (\<lambda>p'. Inr (emitted, p', s))
      else if dst = HN then and_then (hs_headers_end emitted p s) (\<lambda>(tok, p'). Inr (tok, p', s))
      else if dst = CS then and_then (hs_size_char c p) (\<lambda>p'. Inr (emitted, p', s))
      else if dst = CB \<or> dst = BD then hs_body dst emitted p s
      else if dst = C2 then and_then (hs_trigger_meta HS_META_END_CHUNK p) (\<lambda>p'. Inr (emitted, p', s))
      else if dst = BR then Inr (emitted\<lparr>tok_type := HS_TOK_ERROR\<rparr>, p, s)
      else Inr (emitted, p, s))"

definition hs_transition_action ::
    "hs_token \<Rightarrow> char \<Rightarrow> hs_state \<Rightarrow> hs_state \<Rightarrow> http_parser \<Rightarrow> hs_stream \<Rightarrow>
     (http_token \<times> http_parser \<times> hs_stream) result" where
  "hs_transition_action behind c src dst p s =
     and_then (hs_enter behind src dst p s) (\<lambda>(emitted, p1, s1). hs_switch c dst emitted p1 s1)"

definition hs_meta_emit :: "http_parser \<Rightarrow> (http_token \<times> http_parser) result" where
  "hs_meta_emit p =
     (if p_meta p = M_SEN
      then and_then (hs_trigger_meta HS_META_NEXT p) (\<lambda>p'. Inr (no_token\<lparr>tok_type := HS_TOK_CHUNK_BODY\<rparr>, p'))
      else if p_meta p = M_END then Inr (no_token\<lparr>tok_type := HS_TOK_REQ_END\<rparr>, parser_init)
      else Inr (no_token, p))"

text \<open>The body of the loop of \<open>http_parse\<close> for one character.\<close>

definition parse_char ::
    "hs_token \<Rightarrow> char \<Rightarrow> http_parser \<Rightarrow> hs_stream \<Rightarrow> (http_token \<times> http_parser \<times> hs_stream) result" where
  "parse_char behind c p s =
     and_then (table_at (hs_transitions (p_state p)) (hs_column (char_type c)))
       (\<lambda>dst0. let dst = (if p_meta p = M_ZER \<and> p_state p = HN \<and> dst0 = BD then CS else dst0)
               in and_then (hs_transition_action behind c (p_state p) dst (p\<lparr>p_state := dst\<rparr>) s)
                    (\<lambda>(tok, p', s'). Inr (tok, p', hs_stream_consume s')))"

text \<open>The end of \<open>http_parse\<close>, when the input is exhausted.\<close>

definition parse_end :: "http_parser \<Rightarrow> hs_stream \<Rightarrow> (http_token \<times> http_parser \<times> hs_stream) result" where
  "parse_end p s =
     and_then (if p_state p = CB then hs_stream_shift s else Inr s)
       (\<lambda>s'. and_then (hs_meta_emit p)
          (\<lambda>(tok, p'). let current = s_token s'
             in Inr (if tok_type current \<noteq> HS_TOK_CHUNK_BODY \<and> tok_type current \<noteq> HS_TOK_BODY \<and>
                        tok_len current > HTTP_MAX_TOKEN_LENGTH
                     then tok\<lparr>tok_type := HS_TOK_ERROR\<rparr> else tok, p', s')))"

text \<open>
  The loop with fuel: \<open>None\<close> when it runs out. \<open>http_parse\<close> gives it one round for each character
  that is left and one for the end.
\<close>

fun parse_loop ::
    "nat \<Rightarrow> hs_token \<Rightarrow> http_parser \<Rightarrow> hs_stream \<Rightarrow> (http_token \<times> http_parser \<times> hs_stream) result option" where
  "parse_loop 0 behind p s = None"
| "parse_loop (Suc n) behind p s =
     (case hs_stream_next s of
        Inl e \<Rightarrow> Some (Inl e)
      | Inr (None, s1) \<Rightarrow> Some (parse_end p s1)
      | Inr (Some c, s1) \<Rightarrow>
          (case parse_char behind c p s1 of
             Inl e \<Rightarrow> Some (Inl e)
           | Inr (tok, p2, s2) \<Rightarrow>
               (if tok_type tok \<noteq> HS_TOK_NONE then Some (Inr (tok, p2, s2)) else parse_loop n behind p2 s2)))"

definition http_parse ::
    "hs_token \<Rightarrow> http_parser \<Rightarrow> hs_stream \<Rightarrow> (http_token \<times> http_parser \<times> hs_stream) result option" where
  "http_parse behind p s =
     (case hs_meta_emit p of
        Inl e \<Rightarrow> Some (Inl e)
      | Inr (tok, p1) \<Rightarrow>
          (if tok_type tok \<noteq> HS_TOK_NONE then Some (Inr (tok, p1, s))
           else parse_loop (Suc (nat (s_length s - s_index s))) behind p1 s))"

end
