(* ===== verification/HTTP_Session.thy ===== *)
theory HTTP_Session
  imports HTTP_Parser Text_Util "HOL-Library.Word"
begin

unbundle bit_operations_syntax

text \<open>
  The sessions of \<open>httpserver.h\<close>: what happens when an event arrives for a connection. A session reads from its
  socket into the buffer, parses, calls the handler of the application when a request is complete, and writes the
  response. The kernel's side of a socket is the record \<open>http_socket\<close>. The handler is a parameter.
\<close>

section \<open>Definitions\<close>

subsection \<open>Sockets\<close>

text \<open>
  Received bytes that have not been read, whether the peer has closed its side, how many bytes the next calls of
  \<open>write\<close> accept (all, behind the end of the list), whether the connection is broken, and the bytes written.
\<close>

record http_socket =
  k_in :: string
  k_eof :: bool
  k_room :: "nat list"
  k_broken :: bool
  k_out :: string

text \<open>\<open>read\<close> on a socket that does not block: the return value, the bytes, and the socket afterwards.\<close>

definition sock_read :: "int \<Rightarrow> http_socket \<Rightarrow> int \<times> string \<times> http_socket" where
  "sock_read n k =
     (if n \<le> 0 then (0, [], k)
      else if k_in k = [] then (if k_eof k then 0 else - 1, [], k)
      else let bytes = take (nat n) (k_in k) in (int (length bytes), bytes, k\<lparr>k_in := drop (nat n) (k_in k)\<rparr>))"

datatype errno = NoError | EAGAIN | EPIPE

text \<open>\<open>write\<close>: the return value, the error when it fails, the socket afterwards.\<close>

definition sock_write :: "string \<Rightarrow> http_socket \<Rightarrow> int \<times> errno \<times> http_socket" where
  "sock_write bytes k =
     (if bytes = [] then (0, NoError, k)
      else if k_broken k then (- 1, EPIPE, k)
      else case k_room k of
             [] \<Rightarrow> (int (length bytes), NoError, k\<lparr>k_out := k_out k @ bytes\<rparr>)
           | a # rest \<Rightarrow>
               (if a = 0 then (- 1, EAGAIN, k\<lparr>k_room := rest\<rparr>)
                else (int (min a (length bytes)), NoError, k\<lparr>k_room := rest, k_out := k_out k @ take a bytes\<rparr>)))"

subsection \<open>Sessions\<close>

datatype http_session_state = HTTP_SESSION_INIT | HTTP_SESSION_READ | HTTP_SESSION_WRITE | HTTP_SESSION_NOP

definition HTTP_KEEP_ALIVE :: "8 word" where "HTTP_KEEP_ALIVE = 0x1"

definition HTTP_FLG_STREAMED :: "8 word" where "HTTP_FLG_STREAMED = 0x1"

definition HTTP_END_SESSION :: "8 word" where "HTTP_END_SESSION = 0x2"

definition HTTP_AUTOMATIC :: "8 word" where "HTTP_AUTOMATIC = 0x8"

definition HTTP_CHUNKED_RESPONSE :: "8 word" where "HTTP_CHUNKED_RESPONSE = 0x20"

definition HTTP_REQUEST_TIMEOUT :: int where "HTTP_REQUEST_TIMEOUT = 20"

definition HTTP_KEEP_ALIVE_TIMEOUT :: int where "HTTP_KEEP_ALIVE_TIMEOUT = 120"

definition flag_set :: "8 word \<Rightarrow> 8 word \<Rightarrow> bool" where
  "flag_set flags flag \<longleftrightarrow> flags AND flag \<noteq> 0"

text \<open>\<open>v_errno\<close> is the thread's \<open>errno\<close>, which keeps its value when a call succeeds.\<close>

record http_server =
  v_memused :: int
  v_date :: string
  v_errno :: errno

text \<open>
  \<open>r_tokens\<close> is \<open>None\<close> for the null pointer; \<open>r_write_event\<close> is set once the session also waits for its
  socket to be writable; a session that was ended is not \<open>r_live\<close>. The callback for chunks is the null pointer:
  this program never sets it.
\<close>

record http_request =
  r_stream :: hs_stream
  r_parser :: http_parser
  r_state :: http_session_state
  r_timeout :: int
  r_tokens :: "http_token list option"
  r_flags :: "8 word"
  r_socket :: http_socket
  r_write_event :: bool
  r_live :: bool

type_synonym http_conn = "http_server \<times> http_request"

text \<open>A session as \<open>calloc\<close> and \<open>hs_accept_connections\<close> make it.\<close>

definition new_session :: "http_socket \<Rightarrow> http_request" where
  "new_session k =
     \<lparr>r_stream = stream_init, r_parser = parser_init, r_state = HTTP_SESSION_INIT, r_timeout = HTTP_REQUEST_TIMEOUT,
      r_tokens = None, r_flags = 0, r_socket = k, r_write_event = False, r_live = True\<rparr>"

definition set_flag :: "8 word \<Rightarrow> http_request \<Rightarrow> http_request" where
  "set_flag flag r = r\<lparr>r_flags := r_flags r OR flag\<rparr>"

definition clear_flag :: "8 word \<Rightarrow> http_request \<Rightarrow> http_request" where
  "clear_flag flag r = r\<lparr>r_flags := r_flags r AND NOT flag\<rparr>"

definition has_flag :: "http_request \<Rightarrow> 8 word \<Rightarrow> bool" where
  "has_flag r flag \<longleftrightarrow> flag_set (r_flags r) flag"

subsection \<open>Reading\<close>

text \<open>The capacity doubles when the buffer is full, up to the limit.\<close>

definition grow :: "hs_stream \<times> int \<Rightarrow> hs_stream \<times> int" where
  "grow sm =
     (case sm of (s, mem) \<Rightarrow>
        if s_length s = s_capacity s \<and> s_capacity s \<noteq> HTTP_MAX_REQUEST_BUF_SIZE
        then let cap = min (s_capacity s * 2) HTTP_MAX_REQUEST_BUF_SIZE
             in (s\<lparr>s_capacity := cap\<rparr>, mem - s_capacity s + cap)
        else (s, mem))"

text \<open>Bytes are written to the buffer behind those that are valid.\<close>

definition put_bytes :: "string \<Rightarrow> hs_stream \<Rightarrow> hs_stream" where
  "put_bytes bytes s =
     s\<lparr>s_buf := map_option (\<lambda>b. take (nat (s_length s)) b @ bytes @ drop (nat (s_length s) + length bytes) b) (s_buf s),
       s_length := s_length s + int (length bytes), s_total_bytes := s_total_bytes s + int (length bytes)\<rparr>"

function read_loop :: "http_socket \<Rightarrow> hs_stream \<Rightarrow> int \<Rightarrow> int \<times> http_socket \<times> hs_stream \<times> int" where
  "read_loop k s mem =
     (case sock_read (s_capacity s - s_length s) k of
        (bytes, text, k') \<Rightarrow>
          (case grow (if bytes > 0 then put_bytes text s else s, mem) of
             (s', mem') \<Rightarrow>
               (if bytes > 0 \<and> s_capacity s' < HTTP_MAX_REQUEST_BUF_SIZE then read_loop k' s' mem'
                else (bytes, k', s', mem'))))"
  by pat_completeness auto

termination read_loop
  by (relation "measure (\<lambda>(k, s, mem). length (k_in k))") (auto simp: sock_read_def Let_def split: if_splits)

definition hs_stream_read_socket :: "http_conn \<Rightarrow> bool \<times> http_conn" where
  "hs_stream_read_socket c =
     (case c of (v, r) \<Rightarrow>
        let s = r_stream r
        in if s_index s < s_length s then (True, c)
           else
             let (s1, mem) = (case s_buf s of
                   None \<Rightarrow> (s\<lparr>s_buf := Some [], s_capacity := HTTP_REQUEST_BUF_SIZE\<rparr>, v_memused v + HTTP_REQUEST_BUF_SIZE)
                 | Some _ \<Rightarrow> (s, v_memused v));
                 (bytes, k, s2, mem2) = read_loop (r_socket r) s1 mem
             in (bytes \<noteq> 0, (v\<lparr>v_memused := mem2, v_errno := (if bytes < 0 then EAGAIN else v_errno v)\<rparr>,
                              r\<lparr>r_stream := s2, r_socket := k\<rparr>)))"

subsection \<open>Writing\<close>

definition hs_free_buffer :: "http_conn \<Rightarrow> http_conn" where
  "hs_free_buffer c =
     (case c of (v, r) \<Rightarrow>
        (case s_buf (r_stream r) of
           None \<Rightarrow> c
         | Some _ \<Rightarrow> (v\<lparr>v_memused := v_memused v - s_capacity (r_stream r)\<rparr>,
                     r\<lparr>r_stream := (r_stream r)\<lparr>s_buf := None\<rparr>\<rparr>)))"

definition hs_init_session :: "http_request \<Rightarrow> http_request" where
  "hs_init_session r = r\<lparr>r_flags := HTTP_AUTOMATIC, r_parser := parser_init, r_stream := stream_init, r_tokens := Some []\<rparr>"

definition hs_end_session :: "http_conn \<Rightarrow> http_conn" where
  "hs_end_session c = (case hs_free_buffer c of (v, r) \<Rightarrow> (v, r\<lparr>r_tokens := None, r_live := False\<rparr>))"

definition hs_write_client_socket :: "http_conn \<Rightarrow> bool \<times> http_conn" where
  "hs_write_client_socket c =
     (case c of (v, r) \<Rightarrow>
        let s = r_stream r;
            text = (case s_buf s of None \<Rightarrow> [] | Some b \<Rightarrow> drop (nat (s_total_bytes s)) (take (nat (s_length s)) b));
            (bytes, err, k) = sock_write text (r_socket r);
            v' = (if err = NoError then v else v\<lparr>v_errno := err\<rparr>)
        in (v_errno v' \<noteq> EPIPE,
            (v', r\<lparr>r_socket := k,
                   r_stream := (if bytes > 0 then s\<lparr>s_total_bytes := s_total_bytes s + bytes\<rparr> else s)\<rparr>)))"

definition hs_write_response :: "http_conn \<Rightarrow> http_conn result" where
  "hs_write_response c =
     (case hs_write_client_socket c of
        (False, (v, r)) \<Rightarrow> Inr (v, set_flag HTTP_END_SESSION r)
      | (True, (v, r)) \<Rightarrow>
          (if s_total_bytes (r_stream r) \<noteq> s_length (r_stream r)
           then Inr (v, r\<lparr>r_write_event := True, r_state := HTTP_SESSION_WRITE, r_timeout := HTTP_REQUEST_TIMEOUT\<rparr>)
           else if has_flag r HTTP_CHUNKED_RESPONSE then Inl Undefined
           else if has_flag r HTTP_KEEP_ALIVE
           then (case hs_free_buffer (v, r\<lparr>r_state := HTTP_SESSION_INIT\<rparr>) of
                   (v', r') \<Rightarrow> Inr (v', r'\<lparr>r_timeout := HTTP_KEEP_ALIVE_TIMEOUT\<rparr>))
           else Inr (v, set_flag HTTP_END_SESSION r)))"

subsection \<open>Requests\<close>

text \<open>A string of the library points into the buffer: position and length, or the null pointer.\<close>

type_synonym http_string = "(int \<times> int) option"

definition token_string :: "http_token \<Rightarrow> http_string" where
  "token_string tok = Some (tok_index tok, tok_len tok)"

definition http_get_token_string :: "http_request \<Rightarrow> hs_token \<Rightarrow> http_string" where
  "http_get_token_string r type =
     (case r_tokens r of
        None \<Rightarrow> None
      | Some toks \<Rightarrow> (case find (\<lambda>tok. tok_type tok = type) toks of None \<Rightarrow> None | Some tok \<Rightarrow> token_string tok))"

definition string_len :: "http_string \<Rightarrow> int" where
  "string_len str = (case str of None \<Rightarrow> 0 | Some (i, n) \<Rightarrow> n)"

text \<open>The bytes it points to.\<close>

definition string_bytes :: "http_request \<Rightarrow> http_string \<Rightarrow> string result" where
  "string_bytes r str =
     (case str of
        None \<Rightarrow> Inr []
      | Some (i, n) \<Rightarrow>
          (case s_buf (r_stream r) of
             None \<Rightarrow> Inl OutOfRange
           | Some b \<Rightarrow> (if 0 \<le> i \<and> 0 \<le> n \<and> i + n \<le> int (length b) then Inr (take (nat n) (drop (nat i) b))
                        else Inl OutOfRange)))"

fun hs_case_insensitive_cmp :: "string \<Rightarrow> string \<Rightarrow> nat \<Rightarrow> bool" where
  "hs_case_insensitive_cmp (a # as) (b # bs) (Suc n) = (lower a = lower b \<and> hs_case_insensitive_cmp as bs n)"
| "hs_case_insensitive_cmp as bs n = (n = 0)"

fun find_header :: "http_request \<Rightarrow> http_token list \<Rightarrow> string \<Rightarrow> http_string result" where
  "find_header r [] key = Inr None"
| "find_header r (tok # toks) key =
     (if tok_type tok = HS_TOK_HEADER_KEY \<and> tok_len tok = int (length key)
      then and_then (string_bytes r (token_string tok))
             (\<lambda>name. if hs_case_insensitive_cmp name key (length key)
                     then (case toks of [] \<Rightarrow> Inl OutOfRange | val # _ \<Rightarrow> Inr (token_string val))
                     else find_header r toks key)
      else find_header r toks key)"

definition http_request_header :: "http_request \<Rightarrow> string \<Rightarrow> http_string result" where
  "http_request_header r key =
     (case r_tokens r of None \<Rightarrow> Inr None | Some toks \<Rightarrow> find_header r toks key)"

definition hs_auto_detect_keep_alive :: "http_request \<Rightarrow> http_request result" where
  "hs_auto_detect_keep_alive r =
     (case http_get_token_string r HS_TOK_VERSION of
        None \<Rightarrow> Inr r
      | Some (i, n) \<Rightarrow>
          and_then (byte_at (r_stream r) (i + n - 1))
            (\<lambda>last. and_then (http_request_header r ''Connection'')
               (\<lambda>str. and_then (if string_len str = 5 then string_bytes r str else Inr [])
                  (\<lambda>value. Inr (if string_len str = 5 \<and> hs_case_insensitive_cmp value ''close'' 5 \<or>
                                   string_len str = 0 \<and> last \<noteq> CHR ''1''
                                then clear_flag HTTP_KEEP_ALIVE r else set_flag HTTP_KEEP_ALIVE r)))))"

subsection \<open>Responses\<close>

text \<open>The headers are a linked list: the last one that was added comes first.\<close>

record http_response =
  x_headers :: "(string \<times> string) list"
  x_body :: "string option"
  x_content_length :: int
  x_status :: int

definition http_response_init :: http_response where
  "http_response_init = \<lparr>x_headers = [], x_body = None, x_content_length = 0, x_status = 200\<rparr>"

definition http_response_header :: "string \<Rightarrow> string \<Rightarrow> http_response \<Rightarrow> http_response" where
  "http_response_header key val x = x\<lparr>x_headers := (key, val) # x_headers x\<rparr>"

definition http_response_status :: "int \<Rightarrow> http_response \<Rightarrow> http_response" where
  "http_response_status status x = x\<lparr>x_status := (if status > 599 \<or> status < 100 then 500 else status)\<rparr>"

definition http_response_body :: "string \<Rightarrow> int \<Rightarrow> http_response \<Rightarrow> http_response" where
  "http_response_body body n x = x\<lparr>x_body := Some body, x_content_length := n\<rparr>"

text \<open>
  The table has 599 entries: a comma is missing behind the tenth entry of the 500s, which joins two strings.
\<close>

definition hs_status_text :: "string list" where
  "hs_status_text =
     replicate 100 [] @
     [''Continue'', ''Switching Protocols''] @ replicate 98 [] @
     [''OK'', ''Created'', ''Accepted'', ''Non-Authoritative Information'', ''No Content'', ''Reset Content'',
      ''Partial Content''] @ replicate 93 [] @
     [''Multiple Choices'', ''Moved Permanently'', ''Found'', ''See Other'', ''Not Modified'', ''Use Proxy'', '''',
      ''Temporary Redirect''] @ replicate 92 [] @
     [''Bad Request'', ''Unauthorized'', ''Payment Required'', ''Forbidden'', ''Not Found'', ''Method Not Allowed'',
      ''Not Acceptable'', ''Proxy Authentication Required'', ''Request Timeout'', ''Conflict'', ''Gone'',
      ''Length Required'', '''', ''Payload Too Large''] @ replicate 86 [] @
     [''Internal Server Error'', ''Not Implemented'', ''Bad Gateway'', ''Service Unavailable'', ''Gateway Timeout''] @
     replicate 94 []"

text \<open>The growing buffer of the response, with the bytes written so far; the other component is \<open>memused\<close>.\<close>

record grwprintf_t =
  g_buf :: string
  g_capacity :: int

definition grwprintf_init :: "int \<Rightarrow> int \<Rightarrow> grwprintf_t \<times> int" where
  "grwprintf_init capacity mem = (\<lparr>g_buf = [], g_capacity = capacity\<rparr>, mem + capacity)"

definition grwmemcpy :: "string \<Rightarrow> int \<Rightarrow> grwprintf_t \<times> int \<Rightarrow> (grwprintf_t \<times> int) result" where
  "grwmemcpy src n gm =
     (case gm of (g, mem) \<Rightarrow>
        if n < 0 \<or> n > int (length src) then Inl OutOfRange
        else
          let needed = int (length (g_buf g)) + n;
              cap = (if needed > g_capacity g then needed else g_capacity g)
          in Inr (\<lparr>g_buf = g_buf g @ take (nat n) src, g_capacity = cap\<rparr>, mem - g_capacity g + cap))"

text \<open>
  \<open>vsnprintf\<close> writes a null byte behind the text, in place of the last byte when the text fills the buffer
  exactly. A text that does not fit is printed again with arguments that are used up.
\<close>

definition grwprintf :: "string \<Rightarrow> grwprintf_t \<times> int \<Rightarrow> (grwprintf_t \<times> int) result" where
  "grwprintf text gm =
     (case gm of (g, mem) \<Rightarrow>
        let room = g_capacity g - int (length (g_buf g))
        in if int (length text) > room then Inl Undefined
           else if int (length text) = room \<and> text \<noteq> []
           then Inr (g\<lparr>g_buf := g_buf g @ butlast text @ [CHR 0x00]\<rparr>, mem)
           else Inr (g\<lparr>g_buf := g_buf g @ text\<rparr>, mem))"

definition eol :: string where
  "eol = [CHR 0x0D, CHR 0x0A]"

fun print_headers :: "(string \<times> string) list \<Rightarrow> grwprintf_t \<times> int \<Rightarrow> (grwprintf_t \<times> int) result" where
  "print_headers [] gm = Inr gm"
| "print_headers ((key, val) # hs) gm = and_then (grwprintf (key @ '': '' @ val @ eol) gm) (print_headers hs)"

definition http_buffer_headers ::
    "http_request \<Rightarrow> http_response \<Rightarrow> grwprintf_t \<times> int \<Rightarrow> (grwprintf_t \<times> int) result" where
  "http_buffer_headers r x gm =
     and_then (print_headers (x_headers x) gm)
       (\<lambda>gm1. and_then (if has_flag r HTTP_CHUNKED_RESPONSE then Inr gm1
                        else grwprintf (''Content-Length: '' @ to_string (x_content_length x) @ eol) gm1)
          (grwprintf eol))"

definition http_respond_headers ::
    "string \<Rightarrow> http_request \<Rightarrow> http_response \<Rightarrow> grwprintf_t \<times> int \<Rightarrow>
     (http_request \<times> http_response \<times> grwprintf_t \<times> int) result" where
  "http_respond_headers date r x gm =
     and_then (if has_flag r HTTP_AUTOMATIC then hs_auto_detect_keep_alive r else Inr r)
       (\<lambda>r1. let x1 = http_response_header ''Connection'' (if has_flag r1 HTTP_KEEP_ALIVE then ''keep-alive'' else ''close'') x
             in and_then (table_at hs_status_text (nat (x_status x1)))
                  (\<lambda>status. and_then
                     (grwprintf (''HTTP/1.1 '' @ to_string (x_status x1) @ '' '' @ status @ eol @ ''Date: '' @ date @ eol) gm)
                     (\<lambda>gm1. and_then (http_buffer_headers r1 x1 gm1) (\<lambda>(g, mem). Inr (r1, x1, g, mem)))))"

definition http_end_response :: "grwprintf_t \<Rightarrow> http_conn \<Rightarrow> http_conn result" where
  "http_end_response g c =
     (case hs_free_buffer c of (v, r) \<Rightarrow>
        hs_write_response (v, r\<lparr>r_stream := (r_stream r)\<lparr>s_buf := Some (g_buf g), s_total_bytes := 0,
            s_length := int (length (g_buf g)), s_capacity := g_capacity g\<rparr>, r_state := HTTP_SESSION_WRITE\<rparr>))"

definition http_respond :: "http_response \<Rightarrow> http_conn \<Rightarrow> http_conn result" where
  "http_respond x c =
     (case c of (v, r) \<Rightarrow>
        and_then (http_respond_headers (v_date v) r x (grwprintf_init HTTP_RESPONSE_BUF_SIZE (v_memused v)))
          (\<lambda>(r1, x1, gm). and_then
             (case x_body x1 of None \<Rightarrow> Inr gm | Some body \<Rightarrow> grwmemcpy body (x_content_length x1) gm)
             (\<lambda>(g, mem). http_end_response g (v\<lparr>v_memused := mem\<rparr>, r1))))"

definition hs_error_response :: "int \<Rightarrow> string \<Rightarrow> http_conn \<Rightarrow> http_conn result" where
  "hs_error_response code message c =
     and_then
       (http_respond
          (http_response_body message (int (length message))
             (http_response_header ''Content-Type'' ''text/plain'' (http_response_status code http_response_init))) c)
       hs_write_response"

subsection \<open>The state machine\<close>

type_synonym 'a http_handler = "http_conn \<times> 'a \<Rightarrow> (http_conn \<times> 'a) result"

definition http_token_dyn_push :: "http_token \<Rightarrow> http_request \<Rightarrow> http_request result" where
  "http_token_dyn_push tok r =
     (case r_tokens r of None \<Rightarrow> Inl OutOfRange | Some toks \<Rightarrow> Inr (r\<lparr>r_tokens := Some (toks @ [tok])\<rparr>))"

text \<open>What a token makes the session do.\<close>

definition dispatch_token :: "'a http_handler \<Rightarrow> http_token \<Rightarrow> http_conn \<times> 'a \<Rightarrow> (http_conn \<times> 'a) result" where
  "dispatch_token handler tok st =
     (case st of ((v, r), a) \<Rightarrow>
        and_then (if tok_type tok \<noteq> HS_TOK_NONE then http_token_dyn_push tok r else Inr r)
          (\<lambda>r1. if tok_type tok = HS_TOK_ERROR
                then and_then (hs_error_response 400 ''Bad Request'' (v, r1)) (\<lambda>c. Inr (c, a))
                else if tok_type tok = HS_TOK_BODY \<or> tok_type tok = HS_TOK_BODY_STREAM
                then let r2 = (if tok_type tok = HS_TOK_BODY_STREAM then set_flag HTTP_FLG_STREAMED r1 else r1)
                     in handler ((v, r2\<lparr>r_state := HTTP_SESSION_NOP\<rparr>), a)
                else if tok_type tok = HS_TOK_CHUNK_BODY then Inl Undefined
                else Inr ((v, r1), a)))"

text \<open>
  The loop of \<open>hs_read_and_process_request\<close>, with fuel: \<open>None\<close> when it runs out. A token that does not end
  the loop is behind at least one character, except for the end of a request.
\<close>

fun process_loop :: "nat \<Rightarrow> hs_token \<Rightarrow> 'a http_handler \<Rightarrow> http_conn \<times> 'a \<Rightarrow> (http_conn \<times> 'a) result option" where
  "process_loop 0 behind handler st = None"
| "process_loop (Suc n) behind handler st =
     (case st of ((v, r), a) \<Rightarrow>
        (case http_parse behind (r_parser r) (r_stream r) of
           None \<Rightarrow> None
         | Some (Inl e) \<Rightarrow> Some (Inl e)
         | Some (Inr (tok, p, s)) \<Rightarrow>
             (case dispatch_token handler tok ((v, r\<lparr>r_parser := p, r_stream := s\<rparr>), a) of
                Inl e \<Rightarrow> Some (Inl e)
              | Inr ((v', r'), a') \<Rightarrow>
                  (if tok_type tok \<noteq> HS_TOK_NONE \<and> r_state r' = HTTP_SESSION_READ
                   then process_loop n behind handler ((v', r'), a') else Some (Inr ((v', r'), a'))))))"

definition hs_read_and_process_request ::
    "hs_token \<Rightarrow> 'a http_handler \<Rightarrow> http_conn \<times> 'a \<Rightarrow> (http_conn \<times> 'a) result option" where
  "hs_read_and_process_request behind handler st =
     (case st of ((v, r), a) \<Rightarrow>
        (case hs_stream_read_socket (v, r\<lparr>r_state := HTTP_SESSION_READ, r_timeout := HTTP_REQUEST_TIMEOUT\<rparr>) of
           (False, (v1, r1)) \<Rightarrow> Some (Inr ((v1, set_flag HTTP_END_SESSION r1), a))
         | (True, (v1, r1)) \<Rightarrow>
             process_loop (nat (s_length (r_stream r1) - s_index (r_stream r1)) + 2) behind handler ((v1, r1), a)))"

definition end_if_asked :: "http_conn \<times> 'a \<Rightarrow> http_conn \<times> 'a" where
  "end_if_asked st = (case st of (c, a) \<Rightarrow> if has_flag (snd c) HTTP_END_SESSION then (hs_end_session c, a) else st)"

definition http_session :: "hs_token \<Rightarrow> 'a http_handler \<Rightarrow> http_conn \<times> 'a \<Rightarrow> (http_conn \<times> 'a) result option" where
  "http_session behind handler st =
     (case st of ((v, r), a) \<Rightarrow>
        (case r_state r of
           HTTP_SESSION_INIT \<Rightarrow>
             let r1 = (hs_init_session r)\<lparr>r_state := HTTP_SESSION_READ\<rparr>
             in if v_memused v > HTTP_MAX_TOTAL_EST_MEM_USAGE
                then Some (and_then (hs_error_response 503 ''Service Unavailable'' (v, r1)) (\<lambda>c. Inr (c, a)))
                else map_option (\<lambda>x. and_then x (\<lambda>st'. Inr (end_if_asked st')))
                       (hs_read_and_process_request behind handler ((v, r1), a))
         | HTTP_SESSION_READ \<Rightarrow>
             map_option (\<lambda>x. and_then x (\<lambda>st'. Inr (end_if_asked st'))) (hs_read_and_process_request behind handler st)
         | HTTP_SESSION_WRITE \<Rightarrow>
             Some (and_then (hs_write_response (v, r)) (\<lambda>c. Inr (end_if_asked (c, a))))
         | HTTP_SESSION_NOP \<Rightarrow> Some (Inr (end_if_asked st))))"

text \<open>The timer of a session.\<close>

definition hs_request_timer_cb :: "http_conn \<Rightarrow> http_conn" where
  "hs_request_timer_cb c =
     (case c of (v, r) \<Rightarrow>
        let r' = r\<lparr>r_timeout := r_timeout r - 1\<rparr>
        in if r_timeout r' = 0 then hs_end_session (v, r') else (v, r'))"

text \<open>The peer sends bytes, and the event loop handles the event.\<close>

definition arrive :: "string \<Rightarrow> http_request \<Rightarrow> http_request" where
  "arrive bytes r = r\<lparr>r_socket := (r_socket r)\<lparr>k_in := k_in (r_socket r) @ bytes\<rparr>\<rparr>"

fun serve :: "hs_token \<Rightarrow> 'a http_handler \<Rightarrow> string list \<Rightarrow> http_conn \<times> 'a \<Rightarrow> (http_conn \<times> 'a) result option" where
  "serve behind handler [] st = Some (Inr st)"
| "serve behind handler (bytes # chunks) st =
     (case st of ((v, r), a) \<Rightarrow>
        (case http_session behind handler ((v, arrive bytes r), a) of
           None \<Rightarrow> None
         | Some (Inl e) \<Rightarrow> Some (Inl e)
         | Some (Inr st') \<Rightarrow> serve behind handler chunks st'))"

end
