(* ===== verification/HTTP_Scan.thy ===== *)
theory HTTP_Scan
  imports HTTP_Parser "HOL-Library.Sublist"
begin

text \<open>
  What the parser does with the head of a request: \<open>scan\<close> runs the parser over characters without a
  buffer, so it does not matter how the characters are divided into reads; \<open>http_parse\<close> on a buffer refines it. The text of a
  request with given method, target, version and headers is scanned into exactly its parts.
\<close>

section \<open>Definitions\<close>

text \<open>The states in which a character is handled without looking at the rest of the buffer.\<close>

definition head_state :: "hs_state \<Rightarrow> bool" where
  "head_state x \<longleftrightarrow> x \<in> {ST, MT, MS, TR, TS, VN, RR, RN, HK, HS, HV, HR, HE, ER}"

definition fresh :: "hs_stream \<Rightarrow> hs_stream" where
  "fresh s = s\<lparr>s_consumed := False\<rparr>"

fun scan ::
    "hs_token \<Rightarrow> string \<Rightarrow> http_parser \<Rightarrow> hs_stream \<Rightarrow> (http_token list \<times> http_parser \<times> hs_stream) result" where
  "scan behind [] p s = Inr ([], p, s)"
| "scan behind (c # cs) p s =
     and_then (parse_char behind c p s)
       (\<lambda>(tok, p1, s1). and_then (scan behind cs p1 (fresh s1))
          (\<lambda>(toks, p2, s2). Inr (if tok_type tok = HS_TOK_NONE then toks else tok # toks, p2, s2)))"

text \<open>A stream at position \<open>i\<close> with a token under construction, and a token put in front of a scan.\<close>

definition stream_at :: "int \<Rightarrow> http_token \<Rightarrow> hs_stream \<Rightarrow> hs_stream" where
  "stream_at i tok s = s\<lparr>s_index := i, s_token := tok, s_consumed := False\<rparr>"

definition prepend ::
    "http_token \<Rightarrow> (http_token list \<times> http_parser \<times> hs_stream) result \<Rightarrow> (http_token list \<times> http_parser \<times> hs_stream) result" where
  "prepend tok r = and_then r (\<lambda>(toks, p, s). Inr (tok # toks, p, s))"

text \<open>The characters that may stand in the parts of a request.\<close>

definition is_tchar :: "char \<Rightarrow> bool" where
  "is_tchar c \<longleftrightarrow> char_type c \<in> {HS_DIGIT, HS_HEX, HS_ALPHA, HS_TCHAR}"

definition is_vchar :: "char \<Rightarrow> bool" where
  "is_vchar c \<longleftrightarrow> is_tchar c \<or> char_type c = HS_VCHAR"

definition method_ok :: "string \<Rightarrow> bool" where
  "method_ok m \<longleftrightarrow> m \<noteq> [] \<and> char_type (hd m) \<noteq> HS_DIGIT \<and> (\<forall>c \<in> set m. is_tchar c)"

definition target_ok :: "string \<Rightarrow> bool" where
  "target_ok t \<longleftrightarrow> t \<noteq> [] \<and> is_vchar (hd t) \<and> (\<forall>c \<in> set t. is_vchar c \<or> char_type c \<in> {HS_COLN, HS_SCOLN})"

definition version_ok :: "string \<Rightarrow> bool" where
  "version_ok v \<longleftrightarrow> v \<noteq> [] \<and> (\<forall>c \<in> set v. is_vchar c)"

definition key_ok :: "string \<Rightarrow> bool" where
  "key_ok k \<longleftrightarrow> k \<noteq> [] \<and> (\<forall>c \<in> set k. is_tchar c)"

definition value_ok :: "string \<Rightarrow> bool" where
  "value_ok x \<longleftrightarrow> x \<noteq> [] \<and> (is_vchar (hd x) \<or> char_type (hd x) \<in> {HS_COLN, HS_SCOLN}) \<and>
     (\<forall>c \<in> set x. is_vchar c \<or> char_type c \<in> {HS_SPC, HS_COLN, HS_TAB, HS_SCOLN})"

text \<open>
  The names that the parser takes for its two special headers: any beginning of them, and three more characters
  of \<open>transfer-encoding\<close> behind the end of \<open>content-length\<close>.
\<close>

definition transfer_name :: string where
  "transfer_name = ''transfer-encoding''"

definition length_name :: string where
  "length_name = ''content-lengthing''"

fun key_run :: "string \<Rightarrow> http_parser \<Rightarrow> http_parser result" where
  "key_run [] p = Inr p"
| "key_run (c # cs) p = and_then (hs_key_char c p) (key_run cs)"

definition key_meta :: "hs_meta_state \<Rightarrow> string \<Rightarrow> hs_meta_state" where
  "key_meta meta k =
     (if meta \<noteq> M_ANY then meta
      else if prefix (map lower k) transfer_name then M_MTE
      else if prefix (map lower k) length_name then M_MCL
      else M_WFK)"

section \<open>Lemmas\<close>

lemma and_then_simps [simp]: "and_then (Inl e) f = Inl e" "and_then (Inr x) f = f x"
  by (simp_all add: and_then_def)

lemma and_then_eq_Inr: "and_then r f = Inr y \<longleftrightarrow> (\<exists>x. r = Inr x \<and> f x = Inr y)"
  by (auto simp: and_then_def split: sum.split)

lemma and_then_assoc: "and_then (and_then r f) g = and_then r (\<lambda>x. and_then (f x) g)"
  by (simp add: and_then_def split: sum.split)

lemma scan_append:
  "scan behind (as @ bs) p s =
     and_then (scan behind as p s)
       (\<lambda>(t1, p1, s1). and_then (scan behind bs p1 s1) (\<lambda>(t2, p2, s2). Inr (t1 @ t2, p2, s2)))"
proof (induction as arbitrary: p s)
  case (Cons c as)
  then show ?case
    by (auto simp: and_then_def split: sum.split prod.split)
qed (simp add: and_then_def split: sum.split prod.split)

subsection \<open>Single characters\<close>

lemmas parse_defs = parse_char_def hs_transition_action_def hs_enter_def hs_switch_def table_at_def

lemmas stream_defs = stream_at_def fresh_def hs_stream_consume_def hs_stream_begin_token_def hs_stream_emit_def
  set_token_len_def no_token_def hs_stream_anchor_def

lemma char_type_special [simp]:
  "char_type CHR '' '' = HS_SPC" "char_type CHR '':'' = HS_COLN" "char_type (CHR 0x0D) = HS_CR"
  "char_type (CHR 0x0A) = HS_NL"
  by (simp_all add: char_type_def char_int_def hs_ctype_def)

lemma prepend_simps [simp]: "prepend tok (Inl e) = Inl e" "prepend tok (Inr (ts, p, s)) = Inr (tok # ts, p, s)"
  by (simp_all add: prepend_def)

lemma scan_step:
  assumes "parse_char behind c p s = Inr (tok, p1, s1)"
  shows "scan behind (c # cs) p s =
    (if tok_type tok = HS_TOK_NONE then scan behind cs p1 (fresh s1) else prepend tok (scan behind cs p1 (fresh s1)))"
  using assms by (simp add: prepend_def and_then_def split: sum.split prod.split)

lemma parse_char_to:
  assumes "hs_column (char_type c) < length (hs_transitions (p_state p))"
    and "hs_transitions (p_state p) ! hs_column (char_type c) = dst" "p_state p \<noteq> HN"
  shows "parse_char behind c p s = and_then (hs_transition_action behind c (p_state p) dst (p\<lparr>p_state := dst\<rparr>) s)
    (\<lambda>(tok, p', s'). Inr (tok, p', hs_stream_consume s'))"
  using assms by (simp add: parse_char_def table_at_def Let_def)

lemma hs_enter_other:
  assumes "src \<noteq> dst" "src \<notin> {HN, CS}" "dst \<notin> {HK, HS}"
  shows "hs_enter behind src dst p s = Inr (no_token, p\<lparr>p_match_index := 0\<rparr>,
    if hs_token_start_states behind dst \<noteq> HS_TOK_NONE then hs_stream_begin_token (hs_token_start_states behind dst) s else s)"
  using assms by (simp add: hs_enter_def Let_def)

lemma hs_enter_same: "src \<noteq> HN \<Longrightarrow> hs_enter behind src src p s = Inr (no_token, p, s)"
  by (simp add: hs_enter_def)

lemma hs_switch_other:
  assumes "dst \<in> {MT, TR, VN, RN, HS, HE, ER}"
  shows "hs_switch c dst emitted p s = Inr (emitted, p, s)"
  using assms by (elim insertE) (simp_all add: hs_switch_def)

text \<open>A token begins.\<close>

lemma parse_char_begin:
  assumes "hs_column (char_type c) < length (hs_transitions (p_state p))"
    and "hs_transitions (p_state p) ! hs_column (char_type c) = dst" "p_state p \<notin> {HN, CS, dst}" "dst \<in> {MT, TR, VN}"
  shows "parse_char behind c p s = Inr (no_token, p\<lparr>p_state := dst, p_match_index := 0\<rparr>,
    hs_stream_consume (hs_stream_begin_token (hs_token_start_states behind dst) s))"
proof -
  have "hs_token_start_states behind dst \<noteq> HS_TOK_NONE" "dst \<notin> {HK, HS}" using assms(4) by auto
  moreover have "hs_switch c dst e q s' = Inr (e, q, s')" for e q s' using assms(4) by (intro hs_switch_other) auto
  moreover have "p_state p \<noteq> HN" "p_state p \<notin> {HN, CS}" "p_state p \<noteq> dst" using assms(3) by auto
  ultimately show ?thesis
    unfolding parse_char_to [OF assms(1,2) \<open>p_state p \<noteq> HN\<close>] hs_transition_action_def
    by (simp add: hs_enter_other)
qed

lemma scan_begin:
  assumes "hs_column (char_type c) < length (hs_transitions (p_state p))"
    and "hs_transitions (p_state p) ! hs_column (char_type c) = dst" "p_state p \<notin> {HN, CS, dst}" "dst \<in> {MT, TR, VN}"
  shows "scan behind (c # cs) p (stream_at i no_token s0) =
    scan behind cs (p\<lparr>p_state := dst, p_match_index := 0\<rparr>)
      (stream_at (i + 1) \<lparr>tok_index = i, tok_len = 1, tok_type = hs_token_start_states behind dst\<rparr> s0)"
  unfolding scan_step [OF parse_char_begin [OF assms]] using assms(4) by (auto simp: stream_defs)

text \<open>A token goes on.\<close>

lemma scan_self:
  assumes "\<forall>c \<in> set cs. hs_column (char_type c) < length (hs_transitions (p_state p)) \<and>
      hs_transitions (p_state p) ! hs_column (char_type c) = p_state p"
    and "p_state p \<in> {MT, TR, VN}" "tok_type tok \<noteq> HS_TOK_NONE"
  shows "scan behind (cs @ rest) p (stream_at i tok s0) =
    scan behind rest p (stream_at (i + int (length cs)) (tok\<lparr>tok_len := tok_len tok + int (length cs)\<rparr>) s0)"
  using assms(1,3)
proof (induction cs arbitrary: i tok)
  case (Cons c cs)
  have "p_state p \<noteq> HN" "hs_switch c (p_state p) e q s' = Inr (e, q, s')" for e q s'
    using assms(2) by (auto intro!: hs_switch_other)
  then have "parse_char behind c p (stream_at i tok s0) = Inr (no_token, p, hs_stream_consume (stream_at i tok s0))"
    using Cons.prems(1) by (simp add: parse_char_to hs_transition_action_def hs_enter_same)
  moreover have "fresh (hs_stream_consume (stream_at i tok s0)) = stream_at (i + 1) (tok\<lparr>tok_len := tok_len tok + 1\<rparr>) s0"
    using Cons.prems(2) by (simp add: stream_defs)
  ultimately have "scan behind ((c # cs) @ rest) p (stream_at i tok s0) =
      scan behind (cs @ rest) p (stream_at (i + 1) (tok\<lparr>tok_len := tok_len tok + 1\<rparr>) s0)"
    by (simp only: append_Cons scan_step) (simp add: no_token_def)
  also have "\<dots> = scan behind rest p (stream_at (i + int (length (c # cs)))
      (tok\<lparr>tok_len := tok_len tok + int (length (c # cs))\<rparr>) s0)"
    using Cons.prems by (subst Cons.IH) (simp_all add: ac_simps)
  finally show ?case .
qed (simp add: stream_at_def)

text \<open>A token ends.\<close>

lemma scan_space:
  assumes "p_state p = MT \<and> dst = MS \<or> p_state p = TR \<and> dst = TS" "tok_type tok \<noteq> HS_TOK_NONE"
  shows "scan behind (CHR '' '' # cs) p (stream_at i tok s0) =
    prepend tok (scan behind cs (p\<lparr>p_state := dst, p_match_index := 0\<rparr>) (stream_at (i + 1) no_token s0))"
proof -
  have "parse_char behind CHR '' '' p (stream_at i tok s0) = Inr (tok, p\<lparr>p_state := dst, p_match_index := 0\<rparr>,
      hs_stream_consume ((stream_at i tok s0)\<lparr>s_token := no_token\<rparr>))"
    using assms(1) by (auto simp: parse_char_to hs_transition_action_def hs_enter_def hs_switch_def Let_def stream_defs)
  then show ?thesis using assms(2) by (simp only: scan_step) (simp add: stream_defs)
qed

lemma scan_cr:
  assumes "p_state p = VN \<and> dst = RR \<or> p_state p = HV \<and> dst = HR" "tok_type tok \<noteq> HS_TOK_NONE"
    and "HS_META_END_VALUE < length (hs_meta_transitions (p_meta p))"
  shows "scan behind (CHR 0x0D # cs) p (stream_at i tok s0) =
    prepend tok (scan behind cs (p\<lparr>p_state := dst, p_match_index := 0,
      p_meta := hs_meta_transitions (p_meta p) ! HS_META_END_VALUE\<rparr>) (stream_at (i + 1) no_token s0))"
proof -
  have "parse_char behind (CHR 0x0D) p (stream_at i tok s0) = Inr (tok, p\<lparr>p_state := dst, p_match_index := 0,
      p_meta := hs_meta_transitions (p_meta p) ! HS_META_END_VALUE\<rparr>,
      hs_stream_consume ((stream_at i tok s0)\<lparr>s_token := no_token\<rparr>))"
    using assms(1,3)
    by (auto simp: parse_char_to hs_transition_action_def hs_enter_def hs_switch_def Let_def stream_defs
        hs_trigger_meta_def table_at_def)
  then show ?thesis using assms(2) by (simp only: scan_step) (simp add: stream_defs)
qed

lemma scan_quiet:
  assumes "p_state p = RR \<and> c = CHR 0x0A \<and> dst = RN \<or> p_state p = HR \<and> c = CHR 0x0A \<and> dst = HE \<or>
    p_state p = HE \<and> c = CHR 0x0D \<and> dst = ER"
  shows "scan behind (c # cs) p (stream_at i no_token s0) =
    scan behind cs (p\<lparr>p_state := dst, p_match_index := 0\<rparr>) (stream_at (i + 1) no_token s0)"
proof -
  have "parse_char behind c p (stream_at i no_token s0) = Inr (no_token, p\<lparr>p_state := dst, p_match_index := 0\<rparr>,
      hs_stream_consume (stream_at i no_token s0))"
    using assms by (auto simp: parse_char_to hs_transition_action_def hs_enter_def hs_switch_def Let_def)
  then show ?thesis by (simp only: scan_step) (simp add: stream_defs)
qed

subsection \<open>Header names\<close>

lemma key_run_append: "key_run (as @ bs) p = and_then (key_run as p) (key_run bs)"
  by (induction as arbitrary: p) (auto simp: and_then_def split: sum.split)

lemma prefix_snoc_nth: "prefix (xs @ [x]) ys \<longleftrightarrow> prefix xs ys \<and> length xs < length ys \<and> ys ! length xs = x"
proof
  assume "prefix (xs @ [x]) ys"
  then show "prefix xs ys \<and> length xs < length ys \<and> ys ! length xs = x" by (auto simp: prefix_def)
next
  assume *: "prefix xs ys \<and> length xs < length ys \<and> ys ! length xs = x"
  then obtain zs where "ys = xs @ zs" "zs \<noteq> []" by (auto simp: prefix_def)
  with * show "prefix (xs @ [x]) ys" by (cases zs) auto
qed

lemma lower_not_null: "is_tchar c \<Longrightarrow> lower c \<noteq> CHR 0x00"
proof
  assume tc: "is_tchar c" and l: "lower c = CHR 0x00"
  show False
  proof (cases "65 \<le> char_int c \<and> char_int c \<le> 90")
    case True
    then have "of_char (lower c) = (nat (char_int c + 32) :: nat)" by (auto simp: lower_def)
    with l True show False by simp
  next
    case False
    with l have "c = CHR 0x00" by (auto simp: lower_def)
    with tc show False by (simp add: is_tchar_def char_type_def char_int_def hs_ctype_def)
  qed
qed

lemma names_nth:
  assumes "n < 17"
  shows "(if n < 14 then ''content-length'' ! n else ''transfer-encoding'' ! n) = length_name ! n"
proof -
  have l: "length_name = ''content-length'' @ ''ing''" and t: "''transfer-encoding'' = ''transfer-encod'' @ ''ing''"
    by (simp_all add: length_name_def)
  have "length ''content-length'' = 14" "length ''transfer-encod'' = 14" by simp_all
  then show ?thesis unfolding l t nth_append by simp
qed

lemma narrow16_id: "- (2 ^ 15) \<le> x \<Longrightarrow> x < 2 ^ 15 \<Longrightarrow> narrow16 x = x"
  by (simp add: narrow16_def)

lemma hs_meta_rows: "x \<noteq> M_ERR \<Longrightarrow> length (hs_meta_transitions x) = 6"
  by (cases x) simp_all

lemma hs_match_eq:
  assumes "p_match_index p = int n" "p_meta p \<noteq> M_ERR" "e < 6"
  shows "hs_match str e c m p =
    (let m' = (if n < length str then str ! n else m)
     in Inr (m', if lower c = m' then p else p\<lparr>p_meta := hs_meta_transitions (p_meta p) ! e\<rparr>))"
  using assms hs_meta_rows [of "p_meta p"] by (simp add: hs_match_def hs_trigger_meta_def table_at_def)

lemma hs_key_char_eq:
  assumes "p_match_index p = int n" "n < 32767" "is_tchar c" "p_meta p \<noteq> M_ERR"
  defines "m1 \<equiv> (if n < 17 \<and> transfer_name ! n = lower c then p_meta p
      else hs_meta_transitions (p_meta p) ! HS_META_NOT_TRANSFER_ENC)"
  defines "m2 \<equiv> (if n < 17 \<and> length_name ! n = lower c then m1 else hs_meta_transitions m1 ! HS_META_NOT_CONTENT_LEN)"
  assumes "m1 \<noteq> M_ERR"
  shows "hs_key_char c p = Inr (p\<lparr>p_match_index := int (Suc n), p_meta := m2\<rparr>)"
proof -
  define te cl where "te = ''transfer-encoding''" and "cl = ''content-length''"
  have len: "length te = 17" "length cl = 14" by (simp_all add: te_def cl_def)
  define m where "m = (if n < length te then te ! n else CHR 0x00)"
  define m' where "m' = (if n < length cl then cl ! n else m)"
  have nz: "lower c \<noteq> CHR 0x00" using lower_not_null [OF assms(3)] .
  have "m1 = (if lower c = m then p_meta p else hs_meta_transitions (p_meta p) ! HS_META_NOT_TRANSFER_ENC)"
    using nz by (auto simp: m_def m1_def len transfer_name_def te_def [symmetric])
  then have 1: "hs_match te HS_META_NOT_TRANSFER_ENC c (CHR 0x00) p = Inr (m, p\<lparr>p_meta := m1\<rparr>)"
    using hs_match_eq [OF assms(1,4), of 1 te c "CHR 0x00"] by (simp add: m_def)
  have "m' = (if n < 17 then length_name ! n else CHR 0x00)"
    using names_nth [of n, folded te_def cl_def] by (auto simp: m'_def m_def len split: if_splits)
  then have "m2 = (if lower c = m' then m1 else hs_meta_transitions m1 ! HS_META_NOT_CONTENT_LEN)"
    using nz by (auto simp: m2_def)
  then have 2: "hs_match cl HS_META_NOT_CONTENT_LEN c m (p\<lparr>p_meta := m1\<rparr>) = Inr (m', p\<lparr>p_meta := m2\<rparr>)"
    using assms(1,7) hs_match_eq [of "p\<lparr>p_meta := m1\<rparr>" n 0 cl c m] by (simp add: m'_def)
  show ?thesis
    using assms(1,2) 1 2 by (simp add: hs_key_char_def te_def [symmetric] cl_def [symmetric] narrow16_id)
qed

lemma names_differ: "k \<noteq> [] \<Longrightarrow> prefix k transfer_name \<Longrightarrow> \<not> prefix k length_name"
  by (cases k) (auto simp: transfer_name_def length_name_def)

lemma names_length [simp]: "length transfer_name = 17" "length length_name = 17"
  by (simp_all add: transfer_name_def length_name_def)

text \<open>What the parser has recognised after the characters of a name.\<close>

lemma key_run_meta:
  assumes "k \<noteq> []" "\<forall>c \<in> set k. is_tchar c" "length k \<le> 32767" "p_match_index p = 0" "p_meta p \<in> {M_ANY, M_SML, M_CHK}"
  shows "key_run k p = Inr (p\<lparr>p_match_index := int (length k), p_meta := key_meta (p_meta p) k\<rparr>)"
  using assms(1-3)
proof (induction k rule: rev_nonempty_induct)
  case (single c)
  have "hs_key_char c p = Inr (p\<lparr>p_match_index := int (Suc 0), p_meta := key_meta (p_meta p) [c]\<rparr>)"
    using assms(5) single.prems
    by (subst hs_key_char_eq [where n = 0])
      (auto simp: assms(4) key_meta_def transfer_name_def length_name_def)
  then show ?case by simp
next
  case (snoc c k)
  let ?q = "p\<lparr>p_match_index := int (length k), p_meta := key_meta (p_meta p) k\<rparr>"
  have IH: "key_run k p = Inr ?q" using snoc by simp
  have ok: "p_match_index ?q = int (length k)" "length k < 32767" "is_tchar c" using snoc.prems by simp_all
  have kn: "map lower k \<noteq> []" using snoc.hyps by simp
  have "hs_key_char c ?q = Inr (p\<lparr>p_match_index := int (Suc (length k)), p_meta := key_meta (p_meta p) (k @ [c])\<rparr>)"
    using assms(5) names_differ [OF kn]
    by (subst hs_key_char_eq [OF ok])
      (auto simp: key_meta_def prefix_snoc_nth)
  then show ?case by (simp add: key_run_append IH)
qed

subsection \<open>Headers\<close>

text \<open>The first character of a header name.\<close>

lemma scan_key_first:
  assumes "p_state p \<in> {RN, HE}" "is_tchar c" "p_header_count p < 127" "0 \<le> p_header_count p"
    and "hs_key_char c (p\<lparr>p_state := HK, p_header_count := p_header_count p + 1, p_match_index := 0\<rparr>) = Inr p'"
  shows "scan behind (c # cs) p (stream_at i no_token s0) =
    scan behind cs p' (stream_at (i + 1) \<lparr>tok_index = i, tok_len = 1, tok_type = HS_TOK_HEADER_KEY\<rparr> s0)"
proof -
  have col: "hs_column (char_type c) < length (hs_transitions (p_state p))"
    "hs_transitions (p_state p) ! hs_column (char_type c) = HK" "p_state p \<noteq> HN" "p_state p \<noteq> CS" "p_state p \<noteq> HK"
    using assms(1,2) by (auto simp: is_tchar_def)
  have "narrow16 (p_header_count p + 1) = p_header_count p + 1" using assms(3,4) by (intro narrow16_id) simp_all
  then have "parse_char behind c p (stream_at i no_token s0) =
      Inr (no_token, p', hs_stream_consume (hs_stream_begin_token HS_TOK_HEADER_KEY (stream_at i no_token s0)))"
    using assms(3,5) col(3-5)
    by (simp add: parse_char_to [OF col(1,2)] hs_transition_action_def hs_enter_def hs_switch_def HTTP_MAX_HEADER_COUNT_def)
  then show ?thesis by (simp only: scan_step) (simp add: stream_defs)
qed

lemma hs_match_state: "hs_match str e c m q = Inr (m', q') \<Longrightarrow> p_state q' = p_state q"
  by (auto simp: hs_match_def hs_trigger_meta_def and_then_eq_Inr split: if_splits)

lemma hs_key_char_state:
  assumes "hs_key_char c q = Inr q'"
  shows "p_state q' = p_state q"
proof -
  define te cl where "te = ''transfer-encoding''" and "cl = ''content-length''"
  obtain m q1 m2 q2 where "hs_match te HS_META_NOT_TRANSFER_ENC c (CHR 0x00) q = Inr (m, q1)"
    "hs_match cl HS_META_NOT_CONTENT_LEN c m q1 = Inr (m2, q2)" "p_state q' = p_state q2"
    using assms by (auto simp: hs_key_char_def te_def [symmetric] cl_def [symmetric] and_then_eq_Inr)
  then show ?thesis by (auto dest!: hs_match_state)
qed

lemma scan_key_rest:
  assumes "key_run k p = Inr p'" "p_state p = HK" "\<forall>c \<in> set k. is_tchar c" "tok_type tok \<noteq> HS_TOK_NONE"
  shows "scan behind (k @ rest) p (stream_at i tok s0) =
    scan behind rest p' (stream_at (i + int (length k)) (tok\<lparr>tok_len := tok_len tok + int (length k)\<rparr>) s0)"
  using assms
proof (induction k arbitrary: p i tok)
  case (Cons c k)
  obtain p1 where p1: "hs_key_char c p = Inr p1" "key_run k p1 = Inr p'"
    using Cons.prems(1) by (auto simp: and_then_eq_Inr)
  have col: "hs_column (char_type c) < length (hs_transitions (p_state p))"
    "hs_transitions (p_state p) ! hs_column (char_type c) = HK" "p_state p \<noteq> HN"
    using Cons.prems(2,3) by (auto simp: is_tchar_def)
  have upd: "p\<lparr>p_state := HK\<rparr> = p" using Cons.prems(2) by simp
  have "parse_char behind c p (stream_at i tok s0) = Inr (no_token, p1, hs_stream_consume (stream_at i tok s0))"
    using p1(1) by (simp add: parse_char_to [OF col] hs_transition_action_def Cons.prems(2) hs_enter_same hs_switch_def upd)
  moreover have "fresh (hs_stream_consume (stream_at i tok s0)) = stream_at (i + 1) (tok\<lparr>tok_len := tok_len tok + 1\<rparr>) s0"
    using Cons.prems(4) by (simp add: stream_defs)
  ultimately have "scan behind ((c # k) @ rest) p (stream_at i tok s0) =
      scan behind (k @ rest) p1 (stream_at (i + 1) (tok\<lparr>tok_len := tok_len tok + 1\<rparr>) s0)"
    by (simp only: append_Cons scan_step) (simp add: no_token_def)
  also have "\<dots> = scan behind rest p' (stream_at (i + int (length (c # k)))
      (tok\<lparr>tok_len := tok_len tok + int (length (c # k))\<rparr>) s0)"
    using Cons.prems hs_key_char_state [OF p1(1)] p1(2) by (subst Cons.IH) (simp_all add: ac_simps)
  finally show ?case .
qed (simp add: stream_at_def)

lemma scan_key:
  assumes "p_state p \<in> {RN, HE}" "key_ok k" "length k \<le> 32767" "0 \<le> p_header_count p" "p_header_count p < 127"
    and "p_meta p \<in> {M_ANY, M_SML, M_CHK}"
  shows "scan behind (k @ rest) p (stream_at i no_token s0) =
    scan behind rest (p\<lparr>p_state := HK, p_header_count := p_header_count p + 1, p_match_index := int (length k),
        p_meta := key_meta (p_meta p) k\<rparr>)
      (stream_at (i + int (length k)) \<lparr>tok_index = i, tok_len = int (length k), tok_type = HS_TOK_HEADER_KEY\<rparr> s0)"
proof -
  obtain c cs where k: "k = c # cs" using assms(2) by (cases k) (auto simp: key_ok_def)
  let ?p = "p\<lparr>p_state := HK, p_header_count := p_header_count p + 1, p_match_index := 0\<rparr>"
  have "key_run k ?p = Inr (?p\<lparr>p_match_index := int (length k), p_meta := key_meta (p_meta p) k\<rparr>)"
    using assms(2,3,6) by (subst key_run_meta) (simp_all add: key_ok_def)
  then obtain p1 where p1: "hs_key_char c ?p = Inr p1"
    "key_run cs p1 = Inr (?p\<lparr>p_match_index := int (length k), p_meta := key_meta (p_meta p) k\<rparr>)"
    by (auto simp: k and_then_eq_Inr)
  have tc: "is_tchar c" "\<forall>c \<in> set cs. is_tchar c" using assms(2) by (auto simp: key_ok_def k)
  have "p_state p1 = HK" using hs_key_char_state [OF p1(1)] by simp
  then show ?thesis
    unfolding k append_Cons scan_key_first [OF assms(1) tc(1) assms(5,4) p1(1)]
    by (subst scan_key_rest [OF p1(2) _ tc(2)]) (simp_all add: k ac_simps)
qed

lemma scan_colon:
  assumes "p_state p = HK" "p_meta p \<noteq> M_ERR" "tok_type tok \<noteq> HS_TOK_NONE"
  shows "scan behind (CHR '':'' # cs) p (stream_at i tok s0) =
    prepend tok (scan behind cs (p\<lparr>p_state := HS, p_meta := hs_meta_transitions (p_meta p) ! HS_META_END_KEY, p_match_index := 0\<rparr>)
      (stream_at (i + 1) no_token s0))"
proof -
  have "hs_trigger_meta 2 (p\<lparr>p_state := HS\<rparr>) = Inr (p\<lparr>p_state := HS, p_meta := hs_meta_transitions (p_meta p) ! 2\<rparr>)"
    using assms(2) hs_meta_rows [of "p_meta p"] by (simp add: hs_trigger_meta_def table_at_def)
  then have "parse_char behind CHR '':'' p (stream_at i tok s0) =
      Inr (tok, p\<lparr>p_state := HS, p_meta := hs_meta_transitions (p_meta p) ! 2, p_match_index := 0\<rparr>,
        hs_stream_consume ((stream_at i tok s0)\<lparr>s_token := no_token\<rparr>))"
    using assms(1)
    by (simp add: parse_char_to [where dst = HS] hs_transition_action_def hs_enter_def hs_switch_other)
      (simp add: stream_defs)
  then show ?thesis using assms(3) by (simp only: scan_step) (simp add: stream_defs)
qed

lemma scan_blank:
  assumes "p_state p = HS"
  shows "scan behind (CHR '' '' # cs) p (stream_at i no_token s0) = scan behind cs p (stream_at (i + 1) no_token s0)"
proof -
  have "parse_char behind CHR '' '' p (stream_at i no_token s0) = Inr (no_token, p, hs_stream_consume (stream_at i no_token s0))"
    using assms by (simp add: parse_char_to [where dst = HS] hs_transition_action_def hs_enter_same hs_switch_other)
  then show ?thesis by (simp only: scan_step) (simp add: stream_defs)
qed

text \<open>A header value that is not looked at.\<close>

lemma scan_value_first:
  assumes "p_state p = HS" "is_vchar c \<or> char_type c \<in> {HS_COLN, HS_SCOLN}" "p_meta p \<in> {M_WFK, M_SML, M_CHK}"
  shows "scan behind (c # cs) p (stream_at i no_token s0) =
    scan behind cs (p\<lparr>p_state := HV, p_match_index := 0\<rparr>)
      (stream_at (i + 1) \<lparr>tok_index = i, tok_len = 1, tok_type = HS_TOK_HEADER_VAL\<rparr> s0)"
proof -
  have col: "hs_column (char_type c) < length (hs_transitions (p_state p))"
    "hs_transitions (p_state p) ! hs_column (char_type c) = HV" "p_state p \<noteq> HN"
    using assms(1,2) by (auto simp: is_vchar_def is_tchar_def)
  have "parse_char behind c p (stream_at i no_token s0) = Inr (no_token, p\<lparr>p_state := HV, p_match_index := 0\<rparr>,
      hs_stream_consume (hs_stream_begin_token HS_TOK_HEADER_VAL (stream_at i no_token s0)))"
    using assms(1,3)
    by (auto simp: parse_char_to [OF col] hs_transition_action_def hs_enter_other hs_switch_def hs_value_char_def)
  then show ?thesis by (simp only: scan_step) (simp add: stream_defs)
qed

lemma scan_value_rest:
  assumes "p_state p = HV" "\<forall>c \<in> set x. is_vchar c \<or> char_type c \<in> {HS_SPC, HS_COLN, HS_TAB, HS_SCOLN}"
    and "p_meta p \<in> {M_WFK, M_SML, M_CHK}" "tok_type tok \<noteq> HS_TOK_NONE"
  shows "scan behind (x @ rest) p (stream_at i tok s0) =
    scan behind rest p (stream_at (i + int (length x)) (tok\<lparr>tok_len := tok_len tok + int (length x)\<rparr>) s0)"
  using assms(2,4)
proof (induction x arbitrary: i tok)
  case (Cons c x)
  have col: "hs_column (char_type c) < length (hs_transitions (p_state p))"
    "hs_transitions (p_state p) ! hs_column (char_type c) = HV" "p_state p \<noteq> HN"
    using assms(1) Cons.prems(1) by (auto simp: is_vchar_def is_tchar_def)
  have upd: "p\<lparr>p_state := HV\<rparr> = p" using assms(1) by simp
  have "parse_char behind c p (stream_at i tok s0) = Inr (no_token, p, hs_stream_consume (stream_at i tok s0))"
    using assms(3)
    by (auto simp: parse_char_to [OF col] hs_transition_action_def assms(1) hs_enter_same hs_switch_def hs_value_char_def upd)
  moreover have "fresh (hs_stream_consume (stream_at i tok s0)) = stream_at (i + 1) (tok\<lparr>tok_len := tok_len tok + 1\<rparr>) s0"
    using Cons.prems(2) by (simp add: stream_defs)
  ultimately have "scan behind ((c # x) @ rest) p (stream_at i tok s0) =
      scan behind (x @ rest) p (stream_at (i + 1) (tok\<lparr>tok_len := tok_len tok + 1\<rparr>) s0)"
    by (simp only: append_Cons scan_step) (simp add: no_token_def)
  also have "\<dots> = scan behind rest p (stream_at (i + int (length (c # x)))
      (tok\<lparr>tok_len := tok_len tok + int (length (c # x))\<rparr>) s0)"
    using Cons.prems by (subst Cons.IH) (simp_all add: ac_simps)
  finally show ?case .
qed (simp add: stream_at_def)

end
