(* ===== verification/HTTP_Request.thy ===== *)
theory HTTP_Request
  imports HTTP_Scan
begin

text \<open>
  The text of a request with a given method, target, version, headers and body, and the proof that the parser of
  \<open>httpserver.h\<close> finds exactly these parts in it. The headers are ordinary ones; one of them may be
  \<open>Content-Length\<close>.
\<close>

section \<open>Definitions\<close>

definition CRLF :: string where
  "CRLF = [CHR 0x0D, CHR 0x0A]"

definition header_line :: "string \<times> string \<Rightarrow> string" where
  "header_line h = fst h @ '': '' @ snd h @ CRLF"

definition header_lines :: "(string \<times> string) list \<Rightarrow> string" where
  "header_lines hs = concat (map header_line hs)"

definition request_line :: "string \<Rightarrow> string \<Rightarrow> string \<Rightarrow> string" where
  "request_line m t v = m @ '' '' @ t @ '' '' @ v @ CRLF"

definition request_head :: "string \<Rightarrow> string \<Rightarrow> string \<Rightarrow> (string \<times> string) list \<Rightarrow> string" where
  "request_head m t v hs = request_line m t v @ header_lines hs @ CRLF"

definition token :: "hs_token \<Rightarrow> int \<Rightarrow> string \<Rightarrow> http_token" where
  "token type i text = \<lparr>tok_index = i, tok_len = int (length text), tok_type = type\<rparr>"

text \<open>A header that the parser does not interpret.\<close>

definition plain_key :: "string \<Rightarrow> bool" where
  "plain_key k \<longleftrightarrow> key_ok k \<and> length k \<le> 32767 \<and> \<not> prefix (map lower k) transfer_name \<and> \<not> prefix (map lower k) length_name"

definition plain_header :: "string \<times> string \<Rightarrow> bool" where
  "plain_header h \<longleftrightarrow> plain_key (fst h) \<and> value_ok (snd h)"

text \<open>The value of a \<open>Content-Length\<close> header.\<close>

definition content_value :: "string \<Rightarrow> int" where
  "content_value ds = foldl (\<lambda>n c. n * 10 + (char_int c - 48)) 0 ds"

definition digits_ok :: "string \<Rightarrow> bool" where
  "digits_ok ds \<longleftrightarrow> ds \<noteq> [] \<and> (\<forall>c \<in> set ds. char_type c = HS_DIGIT)"

definition length_header :: "string \<times> string \<Rightarrow> bool" where
  "length_header h \<longleftrightarrow> map lower (fst h) = ''content-length'' \<and> key_ok (fst h) \<and> digits_ok (snd h) \<and> content_value (snd h) < 2 ^ 31"

text \<open>The tokens of the headers whose lines begin at position \<open>i\<close>.\<close>

fun header_tokens :: "int \<Rightarrow> (string \<times> string) list \<Rightarrow> http_token list" where
  "header_tokens i [] = []"
| "header_tokens i (h # hs) =
     token HS_TOK_HEADER_KEY i (fst h) # token HS_TOK_HEADER_VAL (i + int (length (fst h)) + 2) (snd h) #
     header_tokens (i + int (length (header_line h))) hs"

definition line_tokens :: "string \<Rightarrow> string \<Rightarrow> string \<Rightarrow> http_token list" where
  "line_tokens m t v =
     [token HS_TOK_METHOD 0 m, token HS_TOK_TARGET (int (length m) + 1) t,
      token HS_TOK_VERSION (int (length m) + int (length t) + 2) v]"

definition head_tokens :: "string \<Rightarrow> string \<Rightarrow> string \<Rightarrow> (string \<times> string) list \<Rightarrow> http_token list" where
  "head_tokens m t v hs = line_tokens m t v @ header_tokens (int (length (request_line m t v))) hs"

text \<open>The parser after a header line; the length of the body is that of the first length header.\<close>

definition line_state :: "string \<times> string \<Rightarrow> http_parser \<Rightarrow> http_parser" where
  "line_state h p =
     (let q = p\<lparr>p_state := HE, p_header_count := p_header_count p + 1, p_match_index := 0\<rparr>
      in if length_header h \<and> p_meta p = M_ANY then q\<lparr>p_meta := M_SML, p_content_length := content_value (snd h)\<rparr> else q)"

definition head_length :: "(string \<times> string) list \<Rightarrow> int option" where
  "head_length hs = map_option (\<lambda>h. content_value (snd h)) (find length_header hs)"

definition head_ok :: "string \<Rightarrow> string \<Rightarrow> string \<Rightarrow> (string \<times> string) list \<Rightarrow> bool" where
  "head_ok m t v hs \<longleftrightarrow> method_ok m \<and> target_ok t \<and> version_ok v \<and> hs \<noteq> [] \<and> length hs \<le> 127 \<and>
     (\<forall>h \<in> set hs. plain_header h \<or> length_header h)"

definition body_length :: "(string \<times> string) list \<Rightarrow> int" where
  "body_length hs = (case head_length hs of None \<Rightarrow> 0 | Some n \<Rightarrow> n)"

text \<open>The end of the headers: a request without a body is complete there.\<close>

definition head_parser :: "(string \<times> string) list \<Rightarrow> http_parser" where
  "head_parser hs =
     \<lparr>p_content_length = body_length hs, p_body_consumed = 0, p_match_index = 0, p_header_count = int (length hs),
      p_state = HN, p_meta = (if body_length hs = 0 then M_END else M_BDY)\<rparr>"

text \<open>The head without its last character, and the parser there.\<close>

definition head_front :: "string \<Rightarrow> string \<Rightarrow> string \<Rightarrow> (string \<times> string) list \<Rightarrow> string" where
  "head_front m t v hs = request_line m t v @ header_lines hs @ [CHR 0x0D]"

definition front_parser :: "(string \<times> string) list \<Rightarrow> http_parser" where
  "front_parser hs =
     \<lparr>p_content_length = body_length hs, p_body_consumed = 0, p_match_index = 0, p_header_count = int (length hs),
      p_state = ER, p_meta = (if head_length hs = None then M_ANY else M_SML)\<rparr>"

definition extend ::
    "http_token list \<Rightarrow> (http_token list \<times> http_parser \<times> hs_stream) result \<Rightarrow> (http_token list \<times> http_parser \<times> hs_stream) result" where
  "extend ts r = and_then r (\<lambda>(toks, p, s). Inr (ts @ toks, p, s))"

section \<open>Lemmas\<close>

declare scan.simps(2) [simp del]

lemma prepend_extend: "prepend tok r = extend [tok] r"
  by (simp add: prepend_def extend_def)

lemma extend_extend [simp]: "extend as (extend bs r) = extend (as @ bs) r"
  by (simp add: extend_def and_then_def split: sum.split prod.split)

lemma extend_Inr [simp]: "extend as (Inr (bs, p, s)) = Inr (as @ bs, p, s)"
  by (simp add: extend_def)

lemma extend_Nil [simp]: "extend [] r = r"
  by (auto simp: extend_def and_then_def split: sum.split prod.split)

subsection \<open>Values\<close>

lemma content_value_snoc: "content_value (ds @ [c]) = content_value ds * 10 + (char_int c - 48)"
  by (simp add: content_value_def)

lemma hs_ctype_digit:
  assumes "n < 128" "hs_ctype ! n = HS_DIGIT"
  shows "48 \<le> n \<and> n \<le> 57"
proof -
  have all: "list_all (\<lambda>(n, t). t = HS_DIGIT \<longrightarrow> 48 \<le> n \<and> n \<le> 57) (enumerate 0 hs_ctype)"
    by (simp add: hs_ctype_def)
  have "length hs_ctype = 128" by (simp add: hs_ctype_def)
  then have "(n, hs_ctype ! n) \<in> set (enumerate 0 hs_ctype)"
    using assms(1) by (auto simp: in_set_enumerate_eq)
  then show ?thesis using all assms(2) by (auto simp: list_all_iff)
qed

lemma char_type_digit:
  assumes "char_type c = HS_DIGIT"
  shows "48 \<le> char_int c \<and> char_int c \<le> 57"
proof -
  have "(of_char c :: nat) < 256" by simp
  then have r: "0 \<le> char_int c" "char_int c < 128"
    using assms by (auto simp: char_type_def char_int_def Let_def split: if_splits)
  then have "nat (char_int c) < 128" "hs_ctype ! nat (char_int c) = HS_DIGIT"
    using assms by (simp_all add: char_type_def)
  from hs_ctype_digit [OF this] show ?thesis by linarith
qed

lemma content_value_mono:
  assumes "\<forall>c \<in> set (as @ bs). char_type c = HS_DIGIT"
  shows "0 \<le> content_value as \<and> content_value as \<le> content_value (as @ bs)"
  using assms
proof (induction bs rule: rev_induct)
  case Nil
  then show ?case
  proof (induction as rule: rev_induct)
    case (snoc c as)
    then show ?case using char_type_digit [of c] by (simp add: content_value_snoc)
  qed (simp add: content_value_def)
next
  case (snoc c bs)
  then have "0 \<le> content_value as \<and> content_value as \<le> content_value (as @ bs)" by simp
  moreover have "48 \<le> char_int c" using snoc.prems char_type_digit [of c] by simp
  moreover have "content_value (as @ bs @ [c]) = content_value (as @ bs) * 10 + (char_int c - 48)"
    using content_value_snoc [of "as @ bs" c] by simp
  ultimately show ?case by simp
qed

lemma narrow64_id: "- (2 ^ 63) \<le> x \<Longrightarrow> x < 2 ^ 63 \<Longrightarrow> narrow64 x = x"
  by (simp add: narrow64_def)

subsection \<open>A header line\<close>

lemma scan_crlf:
  assumes "p_state p = VN \<and> dst = RN \<or> p_state p = HV \<and> dst = HE" "tok_type tok \<noteq> HS_TOK_NONE" "p_meta p \<noteq> M_ERR"
  shows "scan behind (CRLF @ rest) p (stream_at i tok s0) =
    prepend tok (scan behind rest (p\<lparr>p_state := dst, p_match_index := 0,
      p_meta := hs_meta_transitions (p_meta p) ! HS_META_END_VALUE\<rparr>) (stream_at (i + 2) no_token s0))"
proof -
  have row: "HS_META_END_VALUE < length (hs_meta_transitions (p_meta p))" using assms(3) hs_meta_rows by simp
  have crlf: "CRLF @ rest = CHR 0x0D # CHR 0x0A # rest" by (simp add: CRLF_def)
  show ?thesis
    using assms(1)
  proof (elim disjE conjE)
    assume "p_state p = VN" "dst = RN"
    then show ?thesis
      using scan_cr [of p RR tok] scan_quiet [of _ _ RN] assms(2) row by (cases p) (simp add: crlf ac_simps)
  next
    assume "p_state p = HV" "dst = HE"
    then show ?thesis
      using scan_cr [of p HR tok] scan_quiet [of _ _ HE] assms(2) row by (cases p) (simp add: crlf ac_simps)
  qed
qed

lemma scan_line:
  assumes "p_state p \<in> {RN, HE}" "key_ok k" "length k \<le> 32767" "0 \<le> p_header_count p" "p_header_count p < 127"
    and "p_meta p \<in> {M_ANY, M_SML, M_CHK}" "key_meta (p_meta p) k \<notin> {M_MTE, M_MCL}" "value_ok x"
  shows "scan behind (header_line (k, x) @ rest) p (stream_at i no_token s0) =
    extend [token HS_TOK_HEADER_KEY i k, token HS_TOK_HEADER_VAL (i + int (length k) + 2) x]
      (scan behind rest (p\<lparr>p_state := HE, p_header_count := p_header_count p + 1, p_match_index := 0\<rparr>)
        (stream_at (i + int (length (header_line (k, x)))) no_token s0))"
proof -
  obtain c cs where x: "x = c # cs" using assms(8) by (cases x) (auto simp: value_ok_def)
  have xc: "is_vchar c \<or> char_type c \<in> {HS_COLN, HS_SCOLN}"
    "\<forall>c \<in> set cs. is_vchar c \<or> char_type c \<in> {HS_SPC, HS_COLN, HS_TAB, HS_SCOLN}"
    using assms(8) by (auto simp: value_ok_def x)
  define m where "m = key_meta (p_meta p) k"
  have m: "m = M_WFK \<and> p_meta p = M_ANY \<or> m \<in> {M_SML, M_CHK} \<and> p_meta p = m"
    using assms(6,7) by (auto simp: m_def key_meta_def split: if_splits)
  have keep: "hs_meta_transitions m ! 2 = m" "m \<in> {M_WFK, M_SML, M_CHK}" "hs_meta_transitions m ! 3 = p_meta p"
    using m by auto
  let ?p = "\<lambda>x. p\<lparr>p_state := x, p_header_count := p_header_count p + 1, p_match_index := 0, p_meta := m\<rparr>"
  have "scan behind (header_line (k, x) @ rest) p (stream_at i no_token s0) =
      scan behind (CHR '':'' # CHR '' '' # x @ CRLF @ rest)
        (p\<lparr>p_state := HK, p_header_count := p_header_count p + 1, p_match_index := int (length k), p_meta := m\<rparr>)
        (stream_at (i + int (length k)) (token HS_TOK_HEADER_KEY i k) s0)"
    using scan_key [OF assms(1-6)] by (simp add: header_line_def token_def m_def)
  also have "\<dots> = prepend (token HS_TOK_HEADER_KEY i k) (scan behind (c # cs @ CRLF @ rest) (?p HS)
        (stream_at (i + int (length k) + 2) no_token s0))"
    using keep by (cases p, subst scan_colon) (auto simp: token_def scan_blank x ac_simps)
  also have "\<dots> = prepend (token HS_TOK_HEADER_KEY i k) (scan behind (CRLF @ rest) (?p HV)
        (stream_at (i + int (length k) + 2 + int (length x)) (token HS_TOK_HEADER_VAL (i + int (length k) + 2) x) s0))"
    using keep(2) xc
    by (cases p, subst scan_value_first, simp_all) (subst scan_value_rest, simp_all add: token_def x ac_simps)
  also have "\<dots> = extend [token HS_TOK_HEADER_KEY i k, token HS_TOK_HEADER_VAL (i + int (length k) + 2) x]
      (scan behind rest (p\<lparr>p_state := HE, p_header_count := p_header_count p + 1, p_match_index := 0\<rparr>)
        (stream_at (i + int (length (header_line (k, x)))) no_token s0))"
    using keep by (cases p, subst scan_crlf [where dst = HE])
      (auto simp: token_def prepend_extend header_line_def CRLF_def algebra_simps)
  finally show ?thesis .
qed

subsection \<open>The length header\<close>

lemma digit_value_ok: "char_type c = HS_DIGIT \<Longrightarrow> is_vchar c"
  by (simp add: is_vchar_def is_tchar_def)

lemma scan_length_rest:
  assumes "p_state p = HV" "p_meta p = M_CLV" "p_content_length p = content_value as"
    and "\<forall>c \<in> set (as @ ds). char_type c = HS_DIGIT" "content_value (as @ ds) < 2 ^ 31" "tok_type tok \<noteq> HS_TOK_NONE"
  shows "scan behind (ds @ rest) p (stream_at i tok s0) =
    scan behind rest (p\<lparr>p_content_length := content_value (as @ ds)\<rparr>)
      (stream_at (i + int (length ds)) (tok\<lparr>tok_len := tok_len tok + int (length ds)\<rparr>) s0)"
  using assms
proof (induction ds arbitrary: p as i tok)
  case Nil
  then show ?case by (cases p) (simp add: stream_at_def)
next
  case (Cons c ds)
  have dig: "char_type c = HS_DIGIT" using Cons.prems(4) by simp
  have col: "hs_column (char_type c) < length (hs_transitions (p_state p))"
    "hs_transitions (p_state p) ! hs_column (char_type c) = HV" "p_state p \<noteq> HN"
    using Cons.prems(1) by (simp_all add: dig)
  have upd: "p\<lparr>p_state := HV\<rparr> = p" using Cons.prems(1) by simp
  define n where "n = content_value (as @ [c])"
  have n: "n = content_value as * 10 + (char_int c - 48)" "0 \<le> n" "0 \<le> content_value as" "n < 2 ^ 31"
    using content_value_mono [of "as @ [c]" ds] content_value_mono [of as "c # ds"] Cons.prems(4,5)
    by (auto simp: n_def content_value_snoc)
  then have "narrow64 (narrow64 (content_value as * 10) + (char_int c - 48)) = n"
    using char_type_digit [OF dig] by (simp add: narrow64_id)
  then have "parse_char behind c p (stream_at i tok s0) =
      Inr (no_token, p\<lparr>p_content_length := n\<rparr>, hs_stream_consume (stream_at i tok s0))"
    using Cons.prems(2,3)
    by (simp add: parse_char_to [OF col] hs_transition_action_def Cons.prems(1) hs_enter_same hs_switch_def hs_value_char_def upd)
  moreover have "fresh (hs_stream_consume (stream_at i tok s0)) = stream_at (i + 1) (tok\<lparr>tok_len := tok_len tok + 1\<rparr>) s0"
    using Cons.prems(6) by (simp add: stream_defs)
  ultimately have "scan behind ((c # ds) @ rest) p (stream_at i tok s0) =
      scan behind (ds @ rest) (p\<lparr>p_content_length := n\<rparr>) (stream_at (i + 1) (tok\<lparr>tok_len := tok_len tok + 1\<rparr>) s0)"
    by (simp only: append_Cons scan_step) (simp add: no_token_def)
  also have "\<dots> = scan behind rest (p\<lparr>p_content_length := content_value (as @ c # ds)\<rparr>)
      (stream_at (i + int (length (c # ds))) (tok\<lparr>tok_len := tok_len tok + int (length (c # ds))\<rparr>) s0)"
    using Cons.prems by (subst Cons.IH [where as = "as @ [c]"]) (simp_all add: n_def ac_simps)
  finally show ?case .
qed

lemma scan_length_first:
  assumes "p_state p = HS" "p_meta p = M_CLV" "p_content_length p = 0" "char_type c = HS_DIGIT"
  shows "scan behind (c # cs) p (stream_at i no_token s0) =
    scan behind cs (p\<lparr>p_state := HV, p_match_index := 0, p_content_length := content_value [c]\<rparr>)
      (stream_at (i + 1) \<lparr>tok_index = i, tok_len = 1, tok_type = HS_TOK_HEADER_VAL\<rparr> s0)"
proof -
  have col: "hs_column (char_type c) < length (hs_transitions (p_state p))"
    "hs_transitions (p_state p) ! hs_column (char_type c) = HV" "p_state p \<noteq> HN"
    using assms(1,4) by simp_all
  have "narrow64 (narrow64 0 + (char_int c - 48)) = content_value [c]"
    using char_type_digit [OF assms(4)] by (simp add: narrow64_id content_value_def)
  then have "parse_char behind c p (stream_at i no_token s0) =
      Inr (no_token, p\<lparr>p_state := HV, p_match_index := 0, p_content_length := content_value [c]\<rparr>,
      hs_stream_consume (hs_stream_begin_token HS_TOK_HEADER_VAL (stream_at i no_token s0)))"
    using assms(1,2,3)
    by (simp add: parse_char_to [OF col] hs_transition_action_def hs_enter_other hs_switch_def hs_value_char_def)
  then show ?thesis by (simp only: scan_step) (simp add: stream_defs)
qed

lemma length_name_prefix: "prefix ''content-length'' length_name"
  by (simp add: length_name_def)

lemma length_name_not_transfer: "\<not> prefix ''content-length'' transfer_name"
  by (simp add: transfer_name_def)

lemma length_header_meta:
  assumes "length_header h"
  shows "key_meta M_ANY (fst h) = M_MCL"
  using assms length_name_prefix length_name_not_transfer by (simp add: length_header_def key_meta_def)

lemma length_header_length:
  assumes "length_header h"
  shows "length (fst h) = 14"
proof -
  have "length (map lower (fst h)) = length ''content-length''" using assms by (simp only: length_header_def)
  then show ?thesis by simp
qed

lemma scan_length_line:
  assumes "p_state p \<in> {RN, HE}" "length_header (k, x)" "0 \<le> p_header_count p" "p_header_count p < 127"
    and "p_meta p = M_ANY" "p_content_length p = 0"
  shows "scan behind (header_line (k, x) @ rest) p (stream_at i no_token s0) =
    extend [token HS_TOK_HEADER_KEY i k, token HS_TOK_HEADER_VAL (i + int (length k) + 2) x]
      (scan behind rest (p\<lparr>p_state := HE, p_header_count := p_header_count p + 1, p_match_index := 0,
          p_meta := M_SML, p_content_length := content_value x\<rparr>)
        (stream_at (i + int (length (header_line (k, x)))) no_token s0))"
proof -
  obtain c cs where x: "x = c # cs" using assms(2) by (cases x) (auto simp: length_header_def digits_ok_def)
  have dig: "char_type c = HS_DIGIT" "\<forall>d \<in> set ([c] @ cs). char_type d = HS_DIGIT" "content_value ([c] @ cs) < 2 ^ 31"
    using assms(2) by (auto simp: length_header_def digits_ok_def x)
  have k: "key_ok k" "length k \<le> 32767" "key_meta M_ANY k = M_MCL"
    using assms(2) length_header_meta [OF assms(2)] length_header_length [OF assms(2)] by (auto simp: length_header_def)
  let ?p = "\<lambda>x m n. p\<lparr>p_state := x, p_header_count := p_header_count p + 1, p_match_index := 0, p_meta := m,
      p_content_length := n\<rparr>"
  have "scan behind (header_line (k, x) @ rest) p (stream_at i no_token s0) =
      scan behind (CHR '':'' # CHR '' '' # x @ CRLF @ rest)
        (p\<lparr>p_state := HK, p_header_count := p_header_count p + 1, p_match_index := int (length k), p_meta := M_MCL\<rparr>)
        (stream_at (i + int (length k)) (token HS_TOK_HEADER_KEY i k) s0)"
    using scan_key [OF assms(1) k(1,2) assms(3,4)] assms(5) k(3) by (simp add: header_line_def token_def)
  also have "\<dots> = prepend (token HS_TOK_HEADER_KEY i k) (scan behind (c # cs @ CRLF @ rest) (?p HS M_CLV 0)
        (stream_at (i + int (length k) + 2) no_token s0))"
    using assms(6) by (cases p, subst scan_colon) (auto simp: token_def scan_blank x ac_simps)
  also have "\<dots> = prepend (token HS_TOK_HEADER_KEY i k) (scan behind (cs @ CRLF @ rest) (?p HV M_CLV (content_value [c]))
        (stream_at (i + int (length k) + 3) (token HS_TOK_HEADER_VAL (i + int (length k) + 2) [c]) s0))"
    using dig(1) by (cases p, subst scan_length_first) (simp_all add: token_def ac_simps)
  also have "\<dots> = prepend (token HS_TOK_HEADER_KEY i k) (scan behind (CRLF @ rest) (?p HV M_CLV (content_value x))
        (stream_at (i + int (length k) + 2 + int (length x)) (token HS_TOK_HEADER_VAL (i + int (length k) + 2) x) s0))"
    using dig(2,3) by (cases p, subst scan_length_rest [where as = "[c]"]) (simp_all add: token_def x ac_simps)
  also have "\<dots> = extend [token HS_TOK_HEADER_KEY i k, token HS_TOK_HEADER_VAL (i + int (length k) + 2) x]
      (scan behind rest (?p HE M_SML (content_value x)) (stream_at (i + int (length (header_line (k, x)))) no_token s0))"
    by (cases p, subst scan_crlf [where dst = HE])
      (auto simp: token_def prepend_extend header_line_def CRLF_def algebra_simps)
  finally show ?thesis .
qed

subsection \<open>All header lines\<close>

lemma length_header_value_ok: "length_header h \<Longrightarrow> value_ok (snd h)"
  by (cases "snd h") (auto simp: length_header_def digits_ok_def value_ok_def digit_value_ok)

lemma plain_header_not_length: "plain_header h \<Longrightarrow> \<not> length_header h"
  using length_name_prefix by (auto simp: plain_header_def plain_key_def length_header_def)

lemma scan_any_line:
  assumes "p_state p \<in> {RN, HE}" "plain_header h \<or> length_header h" "0 \<le> p_header_count p" "p_header_count p < 127"
    and "p_meta p \<in> {M_ANY, M_SML}" "p_meta p = M_ANY \<Longrightarrow> p_content_length p = 0"
  shows "scan behind (header_line h @ rest) p (stream_at i no_token s0) =
    extend [token HS_TOK_HEADER_KEY i (fst h), token HS_TOK_HEADER_VAL (i + int (length (fst h)) + 2) (snd h)]
      (scan behind rest (line_state h p) (stream_at (i + int (length (header_line h))) no_token s0))"
proof (cases "length_header h \<and> p_meta p = M_ANY")
  case True
  then show ?thesis
    using scan_length_line [OF assms(1) _ assms(3,4), of "fst h" "snd h"] assms(6)
    by (simp add: line_state_def)
next
  case False
  have "key_ok (fst h)" "length (fst h) \<le> 32767" "value_ok (snd h)"
    using assms(2) length_header_length [of h] length_header_value_ok [of h]
    by (auto simp: plain_header_def plain_key_def length_header_def)
  moreover have "key_meta (p_meta p) (fst h) \<notin> {M_MTE, M_MCL}"
    using False assms(2,5) by (auto simp: plain_header_def plain_key_def key_meta_def)
  ultimately show ?thesis
    using scan_line [OF assms(1) _ _ assms(3,4), of "fst h" "snd h"] assms(5) False
    by (auto simp: line_state_def Let_def)
qed

lemma line_state_simps [simp]:
  "p_state (line_state h p) = HE" "p_header_count (line_state h p) = p_header_count p + 1"
  "p_match_index (line_state h p) = 0" "p_body_consumed (line_state h p) = p_body_consumed p"
  "p_meta (line_state h p) = (if length_header h \<and> p_meta p = M_ANY then M_SML else p_meta p)"
  "p_content_length (line_state h p) =
    (if length_header h \<and> p_meta p = M_ANY then content_value (snd h) else p_content_length p)"
  by (simp_all add: line_state_def Let_def)

lemma scan_lines:
  assumes "p_state p \<in> {RN, HE}" "\<forall>h \<in> set hs. plain_header h \<or> length_header h" "0 \<le> p_header_count p"
    and "p_header_count p + int (length hs) \<le> 127" "p_meta p \<in> {M_ANY, M_SML}" "p_meta p = M_ANY \<Longrightarrow> p_content_length p = 0"
  shows "scan behind (header_lines hs @ rest) p (stream_at i no_token s0) =
    extend (header_tokens i hs)
      (scan behind rest (fold line_state hs p) (stream_at (i + int (length (header_lines hs))) no_token s0))"
  using assms
proof (induction hs arbitrary: p i)
  case (Cons h hs)
  have "scan behind (header_lines (h # hs) @ rest) p (stream_at i no_token s0) =
      extend [token HS_TOK_HEADER_KEY i (fst h), token HS_TOK_HEADER_VAL (i + int (length (fst h)) + 2) (snd h)]
        (scan behind (header_lines hs @ rest) (line_state h p) (stream_at (i + int (length (header_line h))) no_token s0))"
    using scan_any_line [OF Cons.prems(1) _ Cons.prems(3) _ Cons.prems(5,6), of h] Cons.prems(2,4)
    by (simp add: header_lines_def)
  also have "\<dots> = extend (header_tokens i (h # hs)) (scan behind rest (fold line_state (h # hs) p)
      (stream_at (i + int (length (header_lines (h # hs)))) no_token s0))"
    using Cons.prems by (subst Cons.IH) (auto simp: header_lines_def ac_simps)
  finally show ?case .
qed (simp add: header_lines_def)

lemma fold_line_state_SML:
  "p_meta p = M_SML \<Longrightarrow> hs \<noteq> [] \<Longrightarrow> fold line_state hs p =
    p\<lparr>p_state := HE, p_header_count := p_header_count p + int (length hs), p_match_index := 0\<rparr>"
proof (induction hs arbitrary: p)
  case (Cons h hs)
  have l: "line_state h p = p\<lparr>p_state := HE, p_header_count := p_header_count p + 1, p_match_index := 0\<rparr>"
    using Cons.prems(1) by (simp add: line_state_def)
  show ?case
  proof (cases "hs = []")
    case False
    with Cons.prems Cons.IH [of "line_state h p"] show ?thesis by (cases p) (simp add: l ac_simps)
  qed (simp add: l)
qed simp

lemma fold_line_state:
  assumes "p_meta p = M_ANY" "p_content_length p = 0" "hs \<noteq> []"
  shows "fold line_state hs p =
    (let q = p\<lparr>p_state := HE, p_header_count := p_header_count p + int (length hs), p_match_index := 0\<rparr>
     in case head_length hs of None \<Rightarrow> q | Some n \<Rightarrow> q\<lparr>p_meta := M_SML, p_content_length := n\<rparr>)"
  using assms
proof (induction hs arbitrary: p)
  case (Cons h hs)
  show ?case
  proof (cases "length_header h")
    case True
    let ?q = "p\<lparr>p_state := HE, p_header_count := p_header_count p + 1, p_match_index := 0, p_meta := M_SML,
        p_content_length := content_value (snd h)\<rparr>"
    have q: "line_state h p = ?q"
      using True Cons.prems(1) by (simp add: line_state_def)
    have "fold line_state hs ?q = ?q\<lparr>p_state := HE, p_header_count := p_header_count p + 1 + int (length hs), p_match_index := 0\<rparr>"
      using fold_line_state_SML [of ?q hs] by (cases "hs = []") simp_all
    then show ?thesis using True by (simp add: q head_length_def)
  next
    case False
    then have q: "line_state h p = p\<lparr>p_state := HE, p_header_count := p_header_count p + 1, p_match_index := 0\<rparr>"
      by (simp add: line_state_def)
    show ?thesis
    proof (cases "hs = []")
      case True
      then show ?thesis using False by (simp add: q head_length_def)
    next
      case ne: False
      show ?thesis
        using Cons.IH [of "line_state h p"] Cons.prems ne False
        by (cases p) (simp add: q head_length_def ac_simps Let_def split: option.split)
    qed
  qed
qed simp

subsection \<open>The request line\<close>

lemma scan_word:
  assumes "w \<noteq> []" "p_state p \<notin> {HN, CS, dst}" "dst \<in> {MT, TR, VN}"
    and "hs_column (char_type (hd w)) < length (hs_transitions (p_state p))"
    and "hs_transitions (p_state p) ! hs_column (char_type (hd w)) = dst"
    and "\<forall>c \<in> set (tl w). hs_column (char_type c) < length (hs_transitions dst) \<and>
      hs_transitions dst ! hs_column (char_type c) = dst"
  shows "scan behind (w @ rest) p (stream_at i no_token s0) =
    scan behind rest (p\<lparr>p_state := dst, p_match_index := 0\<rparr>)
      (stream_at (i + int (length w)) (token (hs_token_start_states behind dst) i w) s0)"
proof -
  obtain c cs where w: "w = c # cs" using assms(1) by (cases w) auto
  have type: "hs_token_start_states behind dst \<noteq> HS_TOK_NONE" using assms(3) by auto
  have "scan behind (w @ rest) p (stream_at i no_token s0) = scan behind (cs @ rest) (p\<lparr>p_state := dst, p_match_index := 0\<rparr>)
      (stream_at (i + 1) \<lparr>tok_index = i, tok_len = 1, tok_type = hs_token_start_states behind dst\<rparr> s0)"
    using scan_begin [of c p dst] assms by (simp add: w)
  also have "\<dots> = scan behind rest (p\<lparr>p_state := dst, p_match_index := 0\<rparr>)
      (stream_at (i + int (length w)) (token (hs_token_start_states behind dst) i w) s0)"
    using scan_self [of cs "p\<lparr>p_state := dst, p_match_index := 0\<rparr>"] assms(3,6) type by (simp add: w token_def ac_simps)
  finally show ?thesis .
qed

lemma scan_request_line:
  assumes "method_ok m" "target_ok t" "version_ok v"
  shows "scan behind (request_line m t v @ rest) parser_init (stream_at 0 no_token s0) =
    extend (line_tokens m t v)
      (scan behind rest (parser_init\<lparr>p_state := RN, p_meta := M_ANY\<rparr>)
        (stream_at (int (length (request_line m t v))) no_token s0))"
proof -
  let ?p = "\<lambda>x. parser_init\<lparr>p_state := x\<rparr>"
  have m: "m \<noteq> []" "char_type (hd m) \<in> {HS_HEX, HS_ALPHA, HS_TCHAR}" "\<forall>c \<in> set (tl m). is_tchar c"
    using assms(1) by (cases m, auto simp: method_ok_def is_tchar_def)+
  have t: "t \<noteq> []" "is_vchar (hd t)" "\<forall>c \<in> set (tl t). is_vchar c \<or> char_type c \<in> {HS_COLN, HS_SCOLN}"
    using assms(2) by (cases t, auto simp: target_ok_def)+
  have v: "v \<noteq> []" "is_vchar (hd v)" "\<forall>c \<in> set (tl v). is_vchar c"
    using assms(3) by (cases v, auto simp: version_ok_def)+
  have "scan behind (request_line m t v @ rest) parser_init (stream_at 0 no_token s0) =
      scan behind (CHR '' '' # t @ '' '' @ v @ CRLF @ rest) (?p MT) (stream_at (int (length m)) (token HS_TOK_METHOD 0 m) s0)"
    using m by (simp add: request_line_def) (subst scan_word [where dst = MT], auto simp: is_tchar_def parser_init_def)
  also have "\<dots> = prepend (token HS_TOK_METHOD 0 m)
      (scan behind (t @ '' '' @ v @ CRLF @ rest) (?p MS) (stream_at (int (length m) + 1) no_token s0))"
    by (subst scan_space [where dst = MS]) (simp_all add: token_def parser_init_def)
  also have "\<dots> = prepend (token HS_TOK_METHOD 0 m)
      (scan behind (CHR '' '' # v @ CRLF @ rest) (?p TR)
        (stream_at (int (length m) + 1 + int (length t)) (token HS_TOK_TARGET (int (length m) + 1) t) s0))"
    using t by (subst scan_word [where dst = TR]) (auto simp: is_vchar_def is_tchar_def parser_init_def)
  also have "\<dots> = prepend (token HS_TOK_METHOD 0 m) (prepend (token HS_TOK_TARGET (int (length m) + 1) t)
      (scan behind (v @ CRLF @ rest) (?p TS) (stream_at (int (length m) + int (length t) + 2) no_token s0)))"
    by (subst scan_space [where dst = TS]) (simp_all add: token_def parser_init_def ac_simps)
  also have "\<dots> = prepend (token HS_TOK_METHOD 0 m) (prepend (token HS_TOK_TARGET (int (length m) + 1) t)
      (scan behind (CRLF @ rest) (?p VN) (stream_at (int (length m) + int (length t) + 2 + int (length v))
        (token HS_TOK_VERSION (int (length m) + int (length t) + 2) v) s0)))"
    using v by (subst scan_word [where dst = VN]) (auto simp: is_vchar_def is_tchar_def parser_init_def)
  also have "\<dots> = extend (line_tokens m t v) (scan behind rest (parser_init\<lparr>p_state := RN, p_meta := M_ANY\<rparr>)
        (stream_at (int (length (request_line m t v))) no_token s0))"
    by (subst scan_crlf [where dst = RN])
      (auto simp: token_def parser_init_def prepend_extend line_tokens_def request_line_def CRLF_def algebra_simps)
  finally show ?thesis .
qed

subsection \<open>The end of the headers\<close>

lemma parse_headers_end:
  assumes "p_state p = ER" "p_meta p = M_ANY \<or> p_meta p = M_SML \<and> p_content_length p \<le> HTTP_MAX_REQUEST_BUF_SIZE - i + 1"
  shows "parse_char behind (CHR 0x0A) p (stream_at i no_token s0) =
    Inr (no_token\<lparr>tok_type := (if p_meta p = M_ANY \<or> p_content_length p = 0 then HS_TOK_BODY else HS_TOK_NONE)\<rparr>,
      p\<lparr>p_state := HN, p_match_index := 0,
        p_meta := (if p_meta p = M_ANY \<or> p_content_length p = 0 then M_END else M_BDY)\<rparr>,
      hs_stream_consume (stream_at i no_token s0))"
proof -
  let ?fin = "p_meta p = M_ANY \<or> p_content_length p = 0"
  let ?p = "p\<lparr>p_state := HN, p_match_index := 0, p_meta := (if ?fin then M_END else M_BDY)\<rparr>"
  let ?tok = "no_token\<lparr>tok_type := (if ?fin then HS_TOK_BODY else HS_TOK_NONE)\<rparr>"
  have col: "hs_column (char_type (CHR 0x0A)) < length (hs_transitions (p_state p))"
    "hs_transitions (p_state p) ! hs_column (char_type (CHR 0x0A)) = HN" "p_state p \<noteq> HN"
    using assms(1) by simp_all
  have "hs_headers_end no_token (p\<lparr>p_state := HN, p_match_index := 0\<rparr>) (stream_at i no_token s0) = Inr (?tok, ?p)"
    using assms(2)
    by (cases p) (auto simp: hs_headers_end_def hs_stream_can_contain_def stream_at_def hs_trigger_meta_def table_at_def
        no_token_def Let_def)
  then show ?thesis
    using assms(1) by (simp add: parse_char_to [OF col] hs_transition_action_def hs_enter_other hs_switch_def)
qed

lemma length_header_nonneg: "length_header h \<Longrightarrow> 0 \<le> content_value (snd h)"
  using content_value_mono [of "snd h" "[]"] by (simp add: length_header_def digits_ok_def)

lemma head_length_nonneg: "head_length hs = Some n \<Longrightarrow> 0 \<le> n"
  by (auto simp: head_length_def find_Some_iff dest!: sym [of "(_, _)"] length_header_nonneg)

lemma body_length_nonneg: "0 \<le> body_length hs"
  using head_length_nonneg [of hs] by (simp add: body_length_def split: option.split)

text \<open>
  The head of a request up to its last character is scanned into its parts. With the last character a request without a
  body is complete; otherwise the parser is in front of the body and knows its length.
\<close>

lemma scan_head:
  assumes "head_ok m t v hs"
  shows "scan behind (head_front m t v hs) parser_init (stream_at 0 no_token s0) =
    Inr (head_tokens m t v hs, front_parser hs, stream_at (int (length (head_front m t v hs))) no_token s0)"
proof -
  let ?l = "int (length (request_line m t v))" and ?n = "int (length (request_line m t v @ header_lines hs))"
  let ?p0 = "parser_init\<lparr>p_state := RN, p_meta := M_ANY\<rparr>"
  define p where "p = fold line_state hs ?p0"
  have ok: "method_ok m" "target_ok t" "version_ok v" "hs \<noteq> []" "int (length hs) \<le> 127"
    "\<forall>h \<in> set hs. plain_header h \<or> length_header h"
    using assms by (auto simp: head_ok_def)
  have p: "p = (let q = ?p0\<lparr>p_state := HE, p_header_count := int (length hs), p_match_index := 0\<rparr>
      in case head_length hs of None \<Rightarrow> q | Some n \<Rightarrow> q\<lparr>p_meta := M_SML, p_content_length := n\<rparr>)"
    using fold_line_state [of ?p0 hs] ok(4) by (simp add: p_def parser_init_def)
  have "scan behind (head_front m t v hs) parser_init (stream_at 0 no_token s0) =
      extend (line_tokens m t v) (scan behind (header_lines hs @ [CHR 0x0D]) ?p0 (stream_at ?l no_token s0))"
    using scan_request_line [OF ok(1-3), of behind "header_lines hs @ [CHR 0x0D]"] by (simp add: head_front_def)
  also have "\<dots> = extend (head_tokens m t v hs) (scan behind [CHR 0x0D] p (stream_at ?n no_token s0))"
    using ok(5,6) by (subst scan_lines) (simp_all add: parser_init_def head_tokens_def p_def)
  also have "\<dots> = Inr (head_tokens m t v hs, front_parser hs, stream_at (?n + 1) no_token s0)"
    by (subst scan_quiet [where dst = ER])
      (simp_all add: p Let_def parser_init_def front_parser_def body_length_def split: option.split)
  finally show ?thesis by (simp add: head_front_def ac_simps)
qed

lemma parse_head_end:
  assumes "int (length (head_front m t v hs)) + body_length hs < HTTP_MAX_REQUEST_BUF_SIZE"
  defines "i \<equiv> int (length (head_front m t v hs))"
  shows "parse_char behind (CHR 0x0A) (front_parser hs) (stream_at i no_token s0) =
    Inr (if body_length hs = 0 then token HS_TOK_BODY 0 [] else no_token, head_parser hs,
      (stream_at (i + 1) no_token s0)\<lparr>s_consumed := True\<rparr>)"
  using assms
  by (subst parse_headers_end)
    (auto simp: front_parser_def head_parser_def body_length_def token_def stream_defs split: option.splits)

end
