(* ===== verification/HTTP_Buffer.thy ===== *)
theory HTTP_Buffer
  imports HTTP_Session HTTP_Request
begin

text \<open>
  The parser on the buffer of a session: while it reads the head of a request, \<open>http_parse\<close> returns the tokens of
  \<open>scan\<close> one after the other and does nothing to the buffer, and the loop of the session collects them.
\<close>

section \<open>Definitions\<close>

text \<open>The meta states while the head of a request is read.\<close>

definition head_meta :: "hs_meta_state \<Rightarrow> bool" where
  "head_meta x \<longleftrightarrow> x \<in> {M_WFK, M_ANY, M_MTE, M_MCL, M_CLV, M_MCK, M_SML, M_CHK, M_ERR}"

definition used :: "hs_stream \<Rightarrow> hs_stream" where
  "used s = s\<lparr>s_consumed := True\<rparr>"

text \<open>A step that stays in the head.\<close>

definition keeps_head :: "http_parser \<Rightarrow> http_parser \<Rightarrow> bool" where
  "keeps_head p p' \<longleftrightarrow> p_state p' = p_state p \<and> (head_meta (p_meta p) \<longrightarrow> head_meta (p_meta p'))"

definition next_state :: "char \<Rightarrow> hs_state \<Rightarrow> hs_state" where
  "next_state c x = hs_transitions x ! hs_column (char_type c)"

text \<open>A buffer that is full up to its length with \<open>b\<close>, and the tokens that the session only collects.\<close>

definition holds :: "string \<Rightarrow> hs_stream \<Rightarrow> bool" where
  "holds b s \<longleftrightarrow> s_buf s = Some b \<and> s_length s = int (length b)"

definition collected :: "http_token \<Rightarrow> bool" where
  "collected t \<longleftrightarrow> tok_type t \<in> {HS_TOK_METHOD, HS_TOK_TARGET, HS_TOK_VERSION, HS_TOK_HEADER_KEY, HS_TOK_HEADER_VAL}"

section \<open>Lemmas\<close>

subsection \<open>A character of the head\<close>

lemma hs_enter_frame:
  assumes "src \<noteq> HN"
  shows "hs_enter behind src dst p (stream_at i tok s0) =
    and_then (hs_enter behind src dst p (stream_at i tok stream_init))
      (\<lambda>(e, p', s'). Inr (e, p', stream_at i (s_token s') s0))"
  using assms
  by (auto simp: hs_enter_def Let_def stream_at_def hs_stream_begin_token_def hs_stream_emit_def and_then_def
      split: sum.split)

lemma hs_headers_end_frame: "hs_headers_end e p (stream_at i tok s0) = hs_headers_end e p (stream_at i tok stream_init)"
  by (simp add: hs_headers_end_def hs_stream_can_contain_def stream_at_def)

lemma and_then_cong: "(\<And>x. r = Inr x \<Longrightarrow> f x = g x) \<Longrightarrow> and_then r f = and_then r g"
  by (simp add: and_then_def split: sum.split)

lemma hs_switch_frame:
  assumes "dst \<notin> {CB, BD}"
  shows "hs_switch c dst e p (stream_at i tok s0) =
    and_then (hs_switch c dst e p (stream_at i tok stream_init))
      (\<lambda>(e, p', s'). Inr (e, p', stream_at i (s_token s') s0))"
  using assms
  by (cases dst)
    (simp_all add: hs_switch_def and_then_assoc hs_stream_emit_def case_prod_unfold
      hs_headers_end_frame [of e p i tok s0], (cases s0, simp_all add: stream_at_def)+)

lemma parse_char_frame:
  assumes "head_state (p_state p)"
  shows "parse_char behind c p (stream_at i tok s0) =
    and_then (parse_char behind c p (stream_at i tok stream_init))
      (\<lambda>(t, p', s'). Inr (t, p', used (stream_at (i + 1) (s_token s') s0)))"
proof -
  have src: "p_state p \<noteq> HN" using assms by (auto simp: head_state_def)
  define dst where "dst = hs_transitions (p_state p) ! hs_column (char_type c)"
  have col: "hs_column (char_type c) < length (hs_transitions (p_state p))"
    using assms by (cases "char_type c") (auto simp: head_state_def)
  have dst: "dst \<notin> {CB, BD}"
    using assms unfolding dst_def by (cases "char_type c") (auto simp: head_state_def)
  have consume: "hs_stream_consume (stream_at i tok' s0) =
      used (stream_at (i + 1) (s_token (hs_stream_consume (stream_at i tok' stream_init))) s0)" for tok'
    by (cases s0) (simp add: stream_at_def hs_stream_consume_def set_token_len_def used_def)
  have enter: "s' = stream_at i (s_token s') stream_init"
    if "hs_enter behind (p_state p) dst q (stream_at i tok stream_init) = Inr (e, p', s')" for q e p' s'
    using that hs_enter_frame [OF src, of behind dst q i tok stream_init] by simp
  have switch: "s' = stream_at i (s_token s') stream_init"
    if "hs_switch c dst e q (stream_at i t stream_init) = Inr (e', p', s')" for e q t e' p' s'
    using that hs_switch_frame [OF dst, of c e q i t stream_init] by simp
  have both: "stream_at i (s_token s2) stream_init = s2"
    if "hs_enter behind (p_state p) dst q (stream_at i tok stream_init) = Inr (e, p1, s1)"
      "hs_switch c dst e p1 s1 = Inr (e2, p2, s2)" for q e p1 s1 e2 p2 s2
    using switch [of e p1 "s_token s1"] enter [OF that(1)] that(2) by simp
  show ?thesis
    unfolding parse_char_to [OF col dst_def [symmetric] src] hs_transition_action_def
    by (subst hs_enter_frame [OF src])
      (auto simp: and_then_assoc case_prod_unfold hs_switch_frame [OF dst, of _ _ _ _ _ s0] consume
        enter [symmetric] both intro!: and_then_cong)
qed

lemma keeps_head_trans: "keeps_head p q \<Longrightarrow> keeps_head q r \<Longrightarrow> keeps_head p r"
  by (simp add: keeps_head_def)

lemma keeps_head_updates [simp]:
  "keeps_head p p" "keeps_head p (q\<lparr>p_match_index := n\<rparr>) = keeps_head p q" "keeps_head p (q\<lparr>p_header_count := n\<rparr>) = keeps_head p q"
  "keeps_head p (q\<lparr>p_content_length := x\<rparr>) = keeps_head p q"
  by (simp_all add: keeps_head_def)

lemma hs_trigger_meta_head: "hs_trigger_meta e p = Inr p' \<Longrightarrow> e < 4 \<Longrightarrow> keeps_head p p'"
proof -
  assume a: "hs_trigger_meta e p = Inr p'" "e < 4"
  then have "e = 0 \<or> e = 1 \<or> e = 2 \<or> e = 3" by auto
  then show ?thesis
    using a(1)
    by (elim disjE; cases "p_meta p")
      (auto simp: keeps_head_def hs_trigger_meta_def table_at_def head_meta_def and_then_eq_Inr split: if_splits)
qed

lemma hs_match_head: "hs_match str e c m p = Inr (m', p') \<Longrightarrow> e < 4 \<Longrightarrow> keeps_head p p'"
  by (auto simp: hs_match_def and_then_eq_Inr split: if_splits dest: hs_trigger_meta_head)

lemma hs_key_char_head:
  assumes "hs_key_char c p = Inr p'"
  shows "keeps_head p p'"
proof -
  define te cl where "te = ''transfer-encoding''" and "cl = ''content-length''"
  obtain m q1 m2 q2 where "hs_match te HS_META_NOT_TRANSFER_ENC c (CHR 0x00) p = Inr (m, q1)"
    "hs_match cl HS_META_NOT_CONTENT_LEN c m q1 = Inr (m2, q2)" "p' = q2\<lparr>p_match_index := narrow16 (p_match_index q2 + 1)\<rparr>"
    using assms by (auto simp: hs_key_char_def te_def [symmetric] cl_def [symmetric] and_then_eq_Inr)
  then show ?thesis
    using hs_match_head [of te 1 c "CHR 0x00" p m q1] hs_match_head [of cl 0 c m q1 m2 q2]
    by (auto intro: keeps_head_trans)
qed

lemma hs_value_char_head:
  assumes "hs_value_char c p = Inr p'"
  shows "keeps_head p p'"
proof -
  define ch where "ch = ''chunked''"
  show ?thesis
    using assms by (auto simp: hs_value_char_def ch_def [symmetric] and_then_eq_Inr split: if_splits dest: hs_match_head)
qed

lemma hs_enter_head:
  assumes "hs_enter behind src dst p s = Inr (e, p', s')" "src \<noteq> CS"
  shows "keeps_head p p' \<and> tok_len (s_token s') \<in> {0, tok_len (s_token s)}"
  using assms
  by (auto simp: hs_enter_def Let_def hs_stream_begin_token_def hs_stream_emit_def no_token_def hs_stream_anchor_def
      and_then_eq_Inr split: if_splits dest: hs_trigger_meta_head)

lemma hs_switch_head:
  assumes "hs_switch c dst e p s = Inr (e', p', s')" "head_state dst \<or> dst = BR"
  shows "keeps_head p p' \<and> tok_len (s_token s') \<in> {0, tok_len (s_token s)}"
  using assms
  by (cases dst)
    (auto simp: hs_switch_def head_state_def hs_stream_emit_def no_token_def and_then_eq_Inr
      dest: hs_trigger_meta_head hs_key_char_head hs_value_char_head)

lemma hs_trigger_meta_state: "hs_trigger_meta e p = Inr p' \<Longrightarrow> p_state p' = p_state p"
  by (auto simp: hs_trigger_meta_def and_then_eq_Inr)

lemma hs_enter_state:
  assumes "hs_enter behind src dst p s = Inr (e, p', s')"
  shows "p_state p' = p_state p"
  using assms
  by (auto simp: hs_enter_def Let_def and_then_eq_Inr hs_stream_emit_def split: if_splits dest!: hs_trigger_meta_state)

lemma hs_headers_end_state:
  assumes "hs_headers_end e p s = Inr (e', p')"
  shows "p_state p' = p_state p"
proof -
  obtain p1 p2 where "(if p_meta p = M_SML \<and> \<not> hs_stream_can_contain s (p_content_length p)
      then hs_trigger_meta HS_META_LARGE_BODY p else Inr p) = Inr p1" "hs_trigger_meta HS_META_END_HEADERS p1 = Inr p2"
    "p' = (if p_content_length p2 = 0 \<and> p_meta p2 = M_BDY then p2\<lparr>p_meta := M_END\<rparr> else p2)"
    using assms unfolding hs_headers_end_def and_then_eq_Inr Let_def by (elim exE conjE) simp
  then show ?thesis
    using hs_trigger_meta_state [of 5 p p1] hs_trigger_meta_state [of 4 p1 p2] by (simp split: if_splits)
qed

lemma hs_size_char_state: "hs_size_char c p = Inr p' \<Longrightarrow> p_state p' = p_state p"
  by (auto simp: hs_size_char_def Let_def and_then_eq_Inr split: if_splits option.splits dest: hs_trigger_meta_state)

lemma hs_body_state: "hs_body dst e p s = Inr (e', p', s') \<Longrightarrow> p_state p' \<in> {p_state p, CD}"
  by (auto simp: hs_body_def Let_def and_then_eq_Inr hs_stream_emit_def split: if_splits prod.splits bool.splits
      dest: hs_trigger_meta_state)

lemma hs_switch_state:
  assumes "hs_switch c dst e p s = Inr (e', p', s')"
  shows "p_state p' = p_state p \<or> dst \<in> {CB, BD} \<and> p_state p' = CD"
proof (cases "head_state dst \<or> dst = BR")
  case True
  then show ?thesis using hs_switch_head [OF assms] by (simp add: keeps_head_def)
next
  case False
  then show ?thesis
    using assms
    by (cases dst)
      (auto simp: head_state_def hs_switch_def and_then_eq_Inr
        dest: hs_trigger_meta_state hs_headers_end_state hs_size_char_state hs_body_state)
qed

lemma next_state_head: "head_state x \<Longrightarrow> head_state (next_state c x) \<or> next_state c x \<in> {HN, BR}"
  by (cases "char_type c") (auto simp: head_state_def next_state_def)

lemma next_state_body: "\<not> head_state x \<Longrightarrow> x \<noteq> BR \<Longrightarrow> \<not> head_state (next_state c x)"
  by (cases "char_type c"; cases x) (simp_all add: head_state_def next_state_def)

lemma parse_char_state:
  assumes "parse_char behind c p s = Inr (t, p', s')"
  shows "p_state p \<noteq> BR" "p_state p' \<in> {next_state c (p_state p), CS, CD}"
proof -
  show "p_state p \<noteq> BR" using assms by (auto simp: parse_char_def table_at_def)
  show "p_state p' \<in> {next_state c (p_state p), CS, CD}"
    using assms
    by (auto simp: parse_char_def table_at_def hs_transition_action_def and_then_eq_Inr Let_def next_state_def
        split: if_splits dest!: hs_switch_state hs_enter_state)
qed

lemma parse_char_body: "parse_char behind c p s = Inr (t, p', s') \<Longrightarrow> \<not> head_state (p_state p) \<Longrightarrow> \<not> head_state (p_state p')"
  using parse_char_state [of behind c p s t p' s'] next_state_body [of "p_state p" c] by (auto simp: head_state_def)

lemma scan_body: "scan behind cs p s = Inr (ts, p', s') \<Longrightarrow> \<not> head_state (p_state p) \<Longrightarrow> \<not> head_state (p_state p')"
  by (induction cs arbitrary: p s ts) (auto simp: scan.simps and_then_eq_Inr dest: parse_char_body)

lemma parse_char_head:
  assumes "parse_char behind c p (stream_at i tok s0) = Inr (t, p', s')" "head_state (p_state p)"
  obtains tok' where "s' = used (stream_at (i + 1) tok' s0)"
    "\<And>s1. parse_char behind c p (stream_at i tok s1) = Inr (t, p', used (stream_at (i + 1) tok' s1))"
    "p_state p' = next_state c (p_state p)" "head_state (p_state p') \<Longrightarrow> head_meta (p_meta p) \<Longrightarrow> head_meta (p_meta p')"
    "head_state (p_state p') \<Longrightarrow> tok_len tok \<le> i \<Longrightarrow> 0 \<le> i \<Longrightarrow> tok_len tok' \<le> i + 1"
proof -
  obtain s2 where s2: "parse_char behind c p (stream_at i tok stream_init) = Inr (t, p', s2)"
    "s' = used (stream_at (i + 1) (s_token s2) s0)"
    using assms(1) unfolding parse_char_frame [OF assms(2), of _ _ _ _ s0] by (auto simp: and_then_eq_Inr)
  define dst where "dst = next_state c (p_state p)"
  have src: "p_state p \<noteq> HN" "p_state p \<noteq> CS" using assms(2) by (auto simp: head_state_def)
  have col: "hs_column (char_type c) < length (hs_transitions (p_state p))"
    using assms(2) by (cases "char_type c") (auto simp: head_state_def)
  obtain e p1 s1 s3 where st: "hs_enter behind (p_state p) dst (p\<lparr>p_state := dst\<rparr>) (stream_at i tok stream_init) = Inr (e, p1, s1)"
    "hs_switch c dst e p1 s1 = Inr (t, p', s3)" "s2 = hs_stream_consume s3"
    using s2(1) unfolding parse_char_to [OF col refl src(1)] dst_def next_state_def
    by (auto simp: hs_transition_action_def and_then_eq_Inr)
  have 1: "p_state p1 = dst" "head_meta (p_meta p) \<Longrightarrow> head_meta (p_meta p1)" "tok_len (s_token s1) \<in> {0, tok_len tok}"
    using hs_enter_head [OF st(1) src(2)] by (auto simp: keeps_head_def stream_at_def)
  have "dst \<notin> {CB, BD}" using next_state_head [OF assms(2), of c] by (auto simp: dst_def head_state_def)
  then have state: "p_state p' = dst" using hs_switch_state [OF st(2)] 1(1) by auto
  have 2: "head_meta (p_meta p1) \<Longrightarrow> head_meta (p_meta p')" "tok_len (s_token s3) \<in> {0, tok_len (s_token s1)}"
    if "head_state (p_state p')"
    using hs_switch_head [OF st(2)] that state by (auto simp: keeps_head_def)
  have 3: "tok_len (s_token s2) \<le> max 0 (tok_len (s_token s3) + 1)"
    by (auto simp: st(3) hs_stream_consume_def set_token_len_def)
  show ?thesis
  proof (rule that [of "s_token s2"])
    show "parse_char behind c p (stream_at i tok s1) = Inr (t, p', used (stream_at (i + 1) (s_token s2) s1))" for s1
      by (subst parse_char_frame [OF assms(2)]) (simp add: s2(1))
  qed (use s2(2) state 1 2 3 in \<open>auto simp: dst_def\<close>)
qed

subsection \<open>The head in a buffer\<close>

lemma fresh_simps [simp]: "fresh (stream_at i tok s) = stream_at i tok s" "fresh (used s) = fresh s"
  by (simp_all add: fresh_def used_def stream_at_def)

lemma scan_head_frame:
  assumes "scan behind cs p (stream_at i tok s0) = Inr (ts, p', s')" "head_state (p_state p')"
  obtains tok' where "s' = stream_at (i + int (length cs)) tok' s0"
    "\<And>s1. scan behind cs p (stream_at i tok s1) = Inr (ts, p', stream_at (i + int (length cs)) tok' s1)"
    "head_meta (p_meta p) \<Longrightarrow> head_meta (p_meta p')"
    "tok_len tok \<le> i \<Longrightarrow> 0 \<le> i \<Longrightarrow> tok_len tok' \<le> i + int (length cs)"
  using assms
proof (induction cs arbitrary: p i tok ts thesis)
  case Nil
  then show ?case by auto
next
  case (Cons c cs)
  obtain t p1 s1 ts1 where 1: "parse_char behind c p (stream_at i tok s0) = Inr (t, p1, s1)"
    "scan behind cs p1 (fresh s1) = Inr (ts1, p', s')" "ts = (if tok_type t = HS_TOK_NONE then ts1 else t # ts1)"
    using Cons.prems(2) by (auto simp: scan.simps and_then_eq_Inr)
  have h1: "head_state (p_state p1)" using scan_body [OF 1(2)] Cons.prems(3) by blast
  have h: "head_state (p_state p)" using parse_char_body [OF 1(1)] h1 by blast
  obtain tok1 where 2: "s1 = used (stream_at (i + 1) tok1 s0)"
    "\<And>s1. parse_char behind c p (stream_at i tok s1) = Inr (t, p1, used (stream_at (i + 1) tok1 s1))"
    "head_meta (p_meta p) \<Longrightarrow> head_meta (p_meta p1)" "tok_len tok \<le> i \<Longrightarrow> 0 \<le> i \<Longrightarrow> tok_len tok1 \<le> i + 1"
    using parse_char_head [OF 1(1) h] h1 by metis
  have "scan behind cs p1 (stream_at (i + 1) tok1 s0) = Inr (ts1, p', s')" using 1(2) 2(1) by simp
  then obtain tok' where 3: "s' = stream_at (i + 1 + int (length cs)) tok' s0"
    "\<And>s1. scan behind cs p1 (stream_at (i + 1) tok1 s1) = Inr (ts1, p', stream_at (i + 1 + int (length cs)) tok' s1)"
    "head_meta (p_meta p1) \<Longrightarrow> head_meta (p_meta p')"
    "tok_len tok1 \<le> i + 1 \<Longrightarrow> 0 \<le> i + 1 \<Longrightarrow> tok_len tok' \<le> i + 1 + int (length cs)"
    using Cons.IH [OF _ _ Cons.prems(3)] by blast
  show ?case
    using 2 3 by (intro Cons.prems(1) [of tok']) (auto simp: scan.simps(2) 1(3) ac_simps)
qed

lemma next_at:
  assumes "holds b s0" "drop n b = c # cs"
  shows "hs_stream_next (stream_at (int n) tok s0) = Inr (Some c, stream_at (int n) tok s0)"
proof -
  have "n < length b" using assms(2) by (metis drop_all leI list.distinct(1))
  moreover have "b ! n = c" using assms(2) calculation by (metis Cons_nth_drop_Suc list.inject)
  ultimately show ?thesis
    using assms(1) by (simp add: hs_stream_next_def holds_def stream_at_def byte_at_def)
qed

lemma next_end: "holds b s0 \<Longrightarrow> hs_stream_next (stream_at (int (length b)) tok s0) = Inr (None, stream_at (int (length b)) tok s0)"
  by (simp add: hs_stream_next_def holds_def stream_at_def)

lemma parse_loop_used: "parse_loop n behind p (used s) = parse_loop n behind p s"
  by (cases n) (simp_all add: hs_stream_next_def used_def)

lemma parse_loop_scan:
  assumes "holds b s0" "drop n b = cs @ rest" "head_state (p_state p')"
    and "scan behind cs p (stream_at (int n) tok s0) = Inr (ts, p', s')"
  shows "case ts of
      [] \<Rightarrow> parse_loop (length cs + k) behind p (stream_at (int n) tok s0) = parse_loop k behind p' s'
    | t # ts1 \<Rightarrow> \<exists>m p1 tok1. m \<le> length cs \<and> tok_type t \<noteq> HS_TOK_NONE \<and>
        parse_loop (length cs + k) behind p (stream_at (int n) tok s0) =
          Some (Inr (t, p1, used (stream_at (int (n + m)) tok1 s0))) \<and>
        scan behind (drop m cs) p1 (stream_at (int (n + m)) tok1 s0) = Inr (ts1, p', s') \<and>
        (head_meta (p_meta p) \<longrightarrow> head_meta (p_meta p1))"
  using assms(2,4)
proof (induction cs arbitrary: n p tok ts)
  case Nil
  then show ?case by simp
next
  case (Cons c cs)
  let ?s = "stream_at (int n) tok s0"
  obtain t p1 s1 ts1 where 1: "parse_char behind c p ?s = Inr (t, p1, s1)"
    "scan behind cs p1 (fresh s1) = Inr (ts1, p', s')" "ts = (if tok_type t = HS_TOK_NONE then ts1 else t # ts1)"
    using Cons.prems(2) by (auto simp: scan.simps and_then_eq_Inr)
  have h1: "head_state (p_state p1)" using scan_body [OF 1(2)] assms(3) by blast
  have h: "head_state (p_state p)" using parse_char_body [OF 1(1)] h1 by blast
  obtain tok1 where 2: "s1 = used (stream_at (int (Suc n)) tok1 s0)" "head_meta (p_meta p) \<Longrightarrow> head_meta (p_meta p1)"
    using parse_char_head [OF 1(1) h] h1 by (metis of_nat_Suc add.commute)
  have nxt: "hs_stream_next ?s = Inr (Some c, ?s)" using next_at [OF assms(1)] Cons.prems(1) by simp
  have rest: "drop (Suc n) b = cs @ rest" using Cons.prems(1) by (metis append_Cons drop_Suc list.sel(3) tl_drop)
  have scan1: "scan behind cs p1 (stream_at (int (Suc n)) tok1 s0) = Inr (ts1, p', s')" using 1(2) 2(1) by simp
  show ?case
  proof (cases "tok_type t = HS_TOK_NONE")
    case True
    have step: "parse_loop (length (c # cs) + k) behind p ?s = parse_loop (length cs + k) behind p1 (stream_at (int (Suc n)) tok1 s0)"
      using nxt 1(1) True by (simp add: 2(1) parse_loop_used)
    show ?thesis
    proof (cases ts1)
      case Nil
      then show ?thesis using Cons.IH [OF rest scan1] True 1(3) step by simp
    next
      case (Cons t2 ts2)
      then obtain m p2 tok2 where "m \<le> length cs" "tok_type t2 \<noteq> HS_TOK_NONE"
        "parse_loop (length cs + k) behind p1 (stream_at (int (Suc n)) tok1 s0) =
          Some (Inr (t2, p2, used (stream_at (int (Suc n + m)) tok2 s0)))"
        "scan behind (drop m cs) p2 (stream_at (int (Suc n + m)) tok2 s0) = Inr (ts2, p', s')"
        "head_meta (p_meta p1) \<longrightarrow> head_meta (p_meta p2)"
        using Cons.IH [OF rest scan1] by auto
      then show ?thesis
        using True 1(3) Cons 2(2) unfolding step
        by (auto simp del: parse_loop.simps simp: ac_simps intro!: exI [of _ "Suc m"] exI [of _ p2] exI [of _ tok2])
    qed
  next
    case False
    then show ?thesis
      using nxt 1 2 scan1 by (auto simp: ac_simps intro!: exI [of _ "Suc 0"] exI [of _ p1] exI [of _ tok1])
  qed
qed

lemma http_parse_head:
  assumes "head_meta (p_meta p)"
  shows "http_parse behind p s = parse_loop (Suc (nat (s_length s - s_index s))) behind p s"
  using assms by (auto simp: http_parse_def hs_meta_emit_def head_meta_def no_token_def)

lemma remaining:
  assumes "holds b s0" "drop n b = cs"
  shows "Suc (nat (s_length (stream_at (int n) tok s0) - s_index (stream_at (int n) tok s0))) = length cs + 1"
  using assms by (auto simp: holds_def stream_at_def)

lemma http_parse_used: "head_meta (p_meta p) \<Longrightarrow> http_parse behind p (used s) = http_parse behind p s"
  unfolding http_parse_head parse_loop_used by (simp add: used_def)

text \<open>The next token of the head, or none.\<close>

lemma http_parse_token:
  assumes "holds b s0" "drop n b = cs @ rest" "head_state (p_state p')" "head_meta (p_meta p)"
    and "scan behind cs p (stream_at (int n) tok s0) = Inr (t # ts, p', s')"
  obtains m p1 tok1 where "m \<le> length cs" "tok_type t \<noteq> HS_TOK_NONE" "head_meta (p_meta p1)"
    "http_parse behind p (stream_at (int n) tok s0) = Some (Inr (t, p1, used (stream_at (int (n + m)) tok1 s0)))"
    "scan behind (drop m cs) p1 (stream_at (int (n + m)) tok1 s0) = Inr (ts, p', s')"
  using parse_loop_scan [OF assms(1-3,5), of "length rest + 1"] assms(4) remaining [OF assms(1,2), of tok]
  by (auto simp: http_parse_head add.assoc simp del: parse_loop.simps)

lemma http_parse_none:
  assumes "holds b s0" "drop n b = cs @ rest" "head_state (p_state p')" "head_meta (p_meta p)"
    and "scan behind cs p (stream_at (int n) tok s0) = Inr ([], p', s')"
  shows "http_parse behind p (stream_at (int n) tok s0) = http_parse behind p' s'"
proof -
  obtain tok' where s': "s' = stream_at (int (n + length cs)) tok' s0" "head_meta (p_meta p')"
    using scan_head_frame [OF assms(5,3)] assms(4) by (metis of_nat_add)
  have "drop (n + length cs) b = rest" using assms(2) by (metis append_eq_conv_conj drop_drop add.commute)
  note r = remaining [OF assms(1) this, of tok'] remaining [OF assms(1,2), of tok]
  show ?thesis
    using parse_loop_scan [OF assms(1-3,5), of "length rest + 1"] assms(4) r s'
    by (simp add: http_parse_head add.assoc del: parse_loop.simps)
qed

lemma http_parse_end:
  assumes "holds b s0" "head_state (p_state p)" "head_meta (p_meta p)" "tok_len tok \<le> HTTP_MAX_TOKEN_LENGTH"
  shows "http_parse behind p (stream_at (int (length b)) tok s0) = Some (Inr (no_token, p, stream_at (int (length b)) tok s0))"
proof -
  have "p_state p \<noteq> CB" "p_meta p \<noteq> M_SEN" "p_meta p \<noteq> M_END"
    using assms(2,3) by (auto simp: head_state_def head_meta_def)
  then show ?thesis
    using assms(4) next_end [OF assms(1), of tok]
    by (simp add: http_parse_head [OF assms(3)] parse_end_def hs_meta_emit_def Let_def) (simp add: stream_at_def)
qed

subsection \<open>The session\<close>

lemma dispatch_collected:
  assumes "collected t" "r_tokens r = Some T"
  shows "dispatch_token handler t ((v, r), a) = Inr ((v, r\<lparr>r_tokens := Some (T @ [t])\<rparr>), a)"
  using assms by (auto simp: dispatch_token_def collected_def http_token_dyn_push_def)

lemma process_scan:
  assumes "holds b s0" "head_state (p_state p')"
    and "scan behind cs (r_parser r) (stream_at (int n) tok s0) = Inr (ts, p', s')" "drop n b = cs @ rest"
    and "head_meta (p_meta (r_parser r))" "r_stream r \<in> {stream_at (int n) tok s0, used (stream_at (int n) tok s0)}"
    and "r_state r = HTTP_SESSION_READ" "r_tokens r = Some T" "\<forall>t \<in> set ts. collected t"
  shows "process_loop (length ts + Suc k) behind handler ((v, r), a) =
    process_loop (Suc k) behind handler ((v, r\<lparr>r_parser := p', r_stream := s', r_tokens := Some (T @ ts)\<rparr>), a)"
  using assms(3-)
proof (induction ts arbitrary: cs r n tok T)
  case Nil
  have "http_parse behind (r_parser r) (r_stream r) = http_parse behind p' s'"
    using http_parse_none [OF assms(1) Nil.prems(2) assms(2) Nil.prems(3,1)] http_parse_used [OF Nil.prems(3)] Nil.prems(4)
    by auto
  moreover have "r\<lparr>r_parser := p', r_stream := s', r_tokens := Some T, r_parser := p, r_stream := s\<rparr> =
      r\<lparr>r_parser := p, r_stream := s\<rparr>" for p s
    using Nil.prems(6) by (cases r) simp
  ultimately show ?case by (simp split: option.split sum.split prod.split)
next
  case (Cons t ts)
  obtain m p1 tok1 where m: "m \<le> length cs" "tok_type t \<noteq> HS_TOK_NONE" "head_meta (p_meta p1)"
    "http_parse behind (r_parser r) (stream_at (int n) tok s0) = Some (Inr (t, p1, used (stream_at (int (n + m)) tok1 s0)))"
    "scan behind (drop m cs) p1 (stream_at (int (n + m)) tok1 s0) = Inr (ts, p', s')"
    using http_parse_token [OF assms(1) Cons.prems(2) assms(2) Cons.prems(3,1)] by blast
  let ?r = "r\<lparr>r_parser := p1, r_stream := used (stream_at (int (n + m)) tok1 s0), r_tokens := Some (T @ [t])\<rparr>"
  have "http_parse behind (r_parser r) (r_stream r) = Some (Inr (t, p1, used (stream_at (int (n + m)) tok1 s0)))"
    using m(4) http_parse_used [OF Cons.prems(3)] Cons.prems(4) by auto
  moreover have "dispatch_token handler t
      ((v, r\<lparr>r_parser := p1, r_stream := used (stream_at (int (n + m)) tok1 s0)\<rparr>), a) = Inr ((v, ?r), a)"
    using Cons.prems(6,7) by (subst dispatch_collected) auto
  ultimately have "process_loop (Suc f) behind handler ((v, r), a) = process_loop f behind handler ((v, ?r), a)" for f
    using Cons.prems(5) m(2) by simp
  then have "process_loop (length (t # ts) + Suc k) behind handler ((v, r), a) =
      process_loop (length ts + Suc k) behind handler ((v, ?r), a)"
    by (simp only: length_Cons add_Suc)
  moreover have "drop (n + m) b = drop m cs @ rest"
    using Cons.prems(2) m(1) by (metis add.commute drop_append drop_drop diff_is_0_eq drop_0)
  ultimately show ?case
    using Cons.IH [of "drop m cs" ?r "n + m" tok1 "T @ [t]"] m(3,5) Cons.prems(5-7) by simp
qed

end
