(* ===== verification/HTTP_Serve.thy ===== *)
theory HTTP_Serve
  imports HTTP_Buffer
begin

text \<open>
  A request that arrives at a session in any number of pieces: the session collects its tokens and calls the handler
  once, when the request is complete, with the same request as if it had arrived in one piece.
\<close>

section \<open>Definitions\<close>

definition request_text :: "string \<Rightarrow> string \<Rightarrow> string \<Rightarrow> (string \<times> string) list \<Rightarrow> string \<Rightarrow> string" where
  "request_text m t v hs body = request_head m t v hs @ body"

text \<open>
  The requests we look at: well-formed, the body as long as announced, the head within the limit for a token, and
  the whole small enough for a buffer that still can be doubled.
\<close>

definition request_ok :: "string \<Rightarrow> string \<Rightarrow> string \<Rightarrow> (string \<times> string) list \<Rightarrow> string \<Rightarrow> bool" where
  "request_ok m t v hs body \<longleftrightarrow> head_ok m t v hs \<and> int (length body) = body_length hs \<and>
     length (request_head m t v hs) \<le> 8192 \<and> length (request_text m t v hs body) < 2 ^ 22"

text \<open>The buffer sizes that doubling reaches below the limit.\<close>

definition buffer_size :: "int \<Rightarrow> bool" where
  "buffer_size cap \<longleftrightarrow> (\<exists>e \<le> 12. cap = 1024 * 2 ^ e)"

text \<open>The capacity after \<open>n\<close> bytes: the buffer was doubled whenever it was full.\<close>

definition cap_for :: "nat \<Rightarrow> int \<Rightarrow> bool" where
  "cap_for n cap \<longleftrightarrow> buffer_size cap \<and> int n < cap \<and> (cap = 1024 \<or> cap \<le> 2 * int n)"

text \<open>A stream whose buffer has the bytes \<open>b\<close> and the capacity \<open>cap\<close>.\<close>

definition filled :: "string \<Rightarrow> int \<Rightarrow> int \<Rightarrow> hs_stream \<Rightarrow> hs_stream" where
  "filled b n cap s = s\<lparr>s_buf := Some b, s_length := int (length b), s_total_bytes := n, s_capacity := cap\<rparr>"

text \<open>The token of the body, and the parser, after \<open>k\<close> bytes of it.\<close>

definition body_token :: "nat \<Rightarrow> nat \<Rightarrow> http_token" where
  "body_token h k = \<lparr>tok_index = int h, tok_len = int k, tok_type = HS_TOK_BODY\<rparr>"

definition body_parser :: "(string \<times> string) list \<Rightarrow> nat \<Rightarrow> http_parser" where
  "body_parser hs k = (if k = 0 then head_parser hs else (head_parser hs)\<lparr>p_state := BD, p_body_consumed := int k\<rparr>)"

definition body_stream :: "nat \<Rightarrow> nat \<Rightarrow> hs_stream \<Rightarrow> hs_stream" where
  "body_stream h k s =
     (if k = 0 then stream_at (int h) no_token s else (stream_at (int (h + k)) (body_token h k) s)\<lparr>s_anchor := int h\<rparr>)"

text \<open>The session when the handler is called: all of the request is in the buffer.\<close>

definition done_parser :: "(string \<times> string) list \<Rightarrow> http_parser" where
  "done_parser hs =
     (if body_length hs = 0 then head_parser hs
      else (head_parser hs)\<lparr>p_state := BD, p_meta := M_END, p_content_length := 0\<rparr>)"

definition done_stream :: "string \<Rightarrow> nat \<Rightarrow> nat \<Rightarrow> int \<Rightarrow> hs_stream" where
  "done_stream text h k cap =
     \<lparr>s_buf = Some text, s_total_bytes = int (length text), s_capacity = cap, s_length = int (length text),
      s_index = int (length text), s_anchor = (if k = 0 then 0 else int h), s_token = no_token, s_consumed = True\<rparr>"

definition done_tokens :: "string \<Rightarrow> string \<Rightarrow> string \<Rightarrow> (string \<times> string) list \<Rightarrow> string \<Rightarrow> http_token list" where
  "done_tokens m t v hs body =
     head_tokens m t v hs @ [if body = [] then body_token 0 0 else body_token (length (request_head m t v hs)) (length body)]"

definition done_request ::
    "string \<Rightarrow> string \<Rightarrow> string \<Rightarrow> (string \<times> string) list \<Rightarrow> string \<Rightarrow> int \<Rightarrow> http_socket \<Rightarrow> http_request" where
  "done_request m t v hs body cap k =
     \<lparr>r_stream = done_stream (request_text m t v hs body) (length (request_head m t v hs)) (length body) cap,
      r_parser = done_parser hs, r_state = HTTP_SESSION_NOP, r_timeout = HTTP_REQUEST_TIMEOUT,
      r_tokens = Some (done_tokens m t v hs body), r_flags = HTTP_AUTOMATIC, r_socket = k, r_write_event = False,
      r_live = True\<rparr>"

text \<open>The parser inside of the head, after \<open>n\<close> bytes.\<close>

definition front_at ::
    "hs_token \<Rightarrow> string \<Rightarrow> nat \<Rightarrow> http_token list \<Rightarrow> http_parser \<Rightarrow> http_token \<Rightarrow> bool" where
  "front_at behind front n toks p tok \<longleftrightarrow>
     (\<forall>s0. scan behind (take n front) parser_init (stream_at 0 no_token s0) = Inr (toks, p, stream_at (int n) tok s0)) \<and>
     head_state (p_state p) \<and> head_meta (p_meta p) \<and> tok_len tok \<le> int n \<and> (\<forall>t \<in> set toks. collected t)"

text \<open>
  The result of \<open>http_parse\<close> when the buffer \<open>b\<close> has the head of \<open>h\<close> bytes and some of the body: the token of the body if
  the request is complete.
\<close>

definition tail_result :: "(string \<times> string) list \<Rightarrow> nat \<Rightarrow> string \<Rightarrow> hs_stream \<Rightarrow> http_token \<times> http_parser \<times> hs_stream" where
  "tail_result hs h b s =
     (let k = length b - h; s' = stream_at (int (length b)) no_token s
      in if int k \<noteq> body_length hs then (no_token, body_parser hs k, body_stream h k s)
         else if k = 0 then (body_token 0 0, done_parser hs, used s')
         else (body_token h k, done_parser hs, used (s'\<lparr>s_anchor := int h\<rparr>)))"

text \<open>A handler that has responded when it returns: the session does not go on reading.\<close>

definition responds :: "'a http_handler \<Rightarrow> bool" where
  "responds handler \<longleftrightarrow> (\<forall>st c a. handler st = Inr (c, a) \<longrightarrow> r_state (snd c) \<noteq> HTTP_SESSION_READ)"

text \<open>What the session has after \<open>n\<close> bytes of a request that is not complete; the rest of the stream is that of \<open>s\<close>.\<close>

definition at_pos ::
    "hs_token \<Rightarrow> string \<Rightarrow> string \<Rightarrow> string \<Rightarrow> (string \<times> string) list \<Rightarrow> nat \<Rightarrow> hs_stream \<Rightarrow>
     http_token list \<Rightarrow> http_parser \<Rightarrow> hs_stream \<Rightarrow> bool" where
  "at_pos behind m t v hs n s toks p s' \<longleftrightarrow>
     (let h = length (request_head m t v hs)
      in if n < h then \<exists>tok. front_at behind (head_front m t v hs) n toks p tok \<and> s' = stream_at (int n) tok s
         else toks = head_tokens m t v hs \<and> p = body_parser hs (n - h) \<and> s' = body_stream h (n - h) s)"

text \<open>A session that has received \<open>n\<close> bytes of the request, with a buffer of the given capacity.\<close>

definition waiting_request ::
    "http_token list \<Rightarrow> http_parser \<Rightarrow> hs_stream \<Rightarrow> http_socket \<Rightarrow> http_request" where
  "waiting_request toks p s k =
     \<lparr>r_stream = s, r_parser = p, r_state = HTTP_SESSION_READ, r_timeout = HTTP_REQUEST_TIMEOUT,
      r_tokens = Some toks, r_flags = HTTP_AUTOMATIC, r_socket = k, r_write_event = False, r_live = True\<rparr>"

definition receiving ::
    "hs_token \<Rightarrow> string \<Rightarrow> string \<Rightarrow> string \<Rightarrow> (string \<times> string) list \<Rightarrow> string \<Rightarrow> nat \<Rightarrow> int \<Rightarrow> http_socket \<Rightarrow> http_request \<Rightarrow> bool" where
  "receiving behind m t v hs body n cap k r \<longleftrightarrow> cap_for n cap \<and>
     (\<exists>toks p s. at_pos behind m t v hs n (filled (take n (request_text m t v hs body)) (int n) cap stream_init) toks p s \<and>
        r = waiting_request toks p s k)"

text \<open>
  What a round does that brings the session to \<open>n\<close> bytes: it waits for more, or calls the handler. The capacity of the
  buffer is part of \<open>memused\<close>.
\<close>

definition round_to ::
    "hs_token \<Rightarrow> string \<Rightarrow> string \<Rightarrow> string \<Rightarrow> (string \<times> string) list \<Rightarrow> string \<Rightarrow> 'a http_handler \<Rightarrow> nat \<Rightarrow> int \<Rightarrow>
     http_socket \<Rightarrow> http_server \<Rightarrow> 'a \<Rightarrow> (http_conn \<times> 'a) result option \<Rightarrow> bool" where
  "round_to behind m t v hs body handler n cap k vs a x \<longleftrightarrow>
     (if n < length (request_text m t v hs body)
      then \<exists>r. receiving behind m t v hs body n cap k r \<and> x = Some (Inr ((vs, r), a))
      else x = Some (and_then (handler ((vs, done_request m t v hs body cap k), a)) (\<lambda>st. Inr (end_if_asked st))))"

section \<open>Lemmas\<close>

subsection \<open>Reading from the socket\<close>

declare read_loop.simps [simp del]

lemma buffer_size_double:
  assumes "buffer_size cap" "cap < 2 ^ 22"
  shows "buffer_size (2 * cap)"
proof -
  obtain e where e: "e \<le> 12" "cap = 1024 * 2 ^ e" using assms(1) by (auto simp: buffer_size_def)
  have "e \<noteq> 12" using assms(2) e(2) by auto
  then show ?thesis using e by (auto simp: buffer_size_def intro!: exI [of _ "Suc e"])
qed

lemma buffer_size_bounds: "buffer_size cap \<Longrightarrow> 1024 \<le> cap \<and> cap \<le> 2 ^ 22"
proof -
  assume "buffer_size cap"
  then obtain e where e: "e \<le> 12" "cap = 1024 * 2 ^ e" by (auto simp: buffer_size_def)
  have "(2 :: int) ^ e \<le> 2 ^ 12" using e(1) by (intro power_increasing) simp_all
  then show ?thesis using e(2) one_le_power [of "2 :: int" e] by simp
qed

lemma put_bytes_end:
  assumes "holds b s"
  shows "put_bytes bytes s = s\<lparr>s_buf := Some (b @ bytes), s_length := int (length (b @ bytes)),
    s_total_bytes := s_total_bytes s + int (length bytes)\<rparr>"
  using assms by (simp add: put_bytes_def holds_def)

lemma read_loop_step:
  assumes "holds b s" "cap_for (length b) (s_capacity s)" "k_in k \<noteq> []" "length b + length (k_in k) < 2 ^ 22"
  obtains n cap where "0 < n" "cap_for (length b + min n (length (k_in k))) cap"
    "read_loop k s mem = read_loop (k\<lparr>k_in := drop n (k_in k)\<rparr>)
      (filled (b @ take n (k_in k)) (s_total_bytes s + int (min n (length (k_in k)))) cap s) (mem + cap - s_capacity s)"
proof -
  define n where "n = nat (s_capacity s - s_length s)"
  define bytes where "bytes = take n (k_in k)"
  have size: "buffer_size (s_capacity s)" and fits: "int (length b) < s_capacity s" using assms(2) by (simp_all add: cap_for_def)
  have room: "0 < s_capacity s - s_length s" using assms(1) fits by (simp add: holds_def)
  have lim: "s_capacity s \<noteq> HTTP_MAX_REQUEST_BUF_SIZE" "s_capacity s < HTTP_MAX_REQUEST_BUF_SIZE"
    using buffer_size_bounds [OF size] by (simp_all add: HTTP_MAX_REQUEST_BUF_SIZE_def)
  have nz: "0 < n" "bytes \<noteq> []" using room assms(3) by (simp_all add: n_def bytes_def)
  have fit: "int (length (b @ bytes)) \<le> s_capacity s" using assms(1) fits by (auto simp: bytes_def n_def holds_def min_def)
  define cap where "cap = (if int (length (b @ bytes)) = s_capacity s then 2 * s_capacity s else s_capacity s)"
  have small: "int (length (b @ bytes)) < 2 ^ 22" using assms(4) by (simp add: bytes_def min_def)
  have cap: "buffer_size cap" "int (length (b @ bytes)) < cap"
    using buffer_size_double [OF size] size small fit buffer_size_bounds [OF size] by (auto simp: cap_def)
  have lim': "cap < HTTP_MAX_REQUEST_BUF_SIZE" using buffer_size_bounds [OF cap(1)] by (simp add: HTTP_MAX_REQUEST_BUF_SIZE_def)
  have "grow (put_bytes bytes s, mem) =
      (filled (b @ bytes) (s_total_bytes s + int (length bytes)) cap s, mem + cap - s_capacity s)"
    unfolding put_bytes_end [OF assms(1)]
    using lim lim' by (cases s) (auto simp: grow_def cap_def Let_def filled_def)
  moreover have "sock_read (s_capacity s - s_length s) k = (int (length bytes), bytes, k\<lparr>k_in := drop n (k_in k)\<rparr>)"
    using room assms(3) by (simp add: sock_read_def bytes_def n_def Let_def)
  ultimately have "read_loop k s mem = read_loop (k\<lparr>k_in := drop n (k_in k)\<rparr>)
      (filled (b @ bytes) (s_total_bytes s + int (length bytes)) cap s) (mem + cap - s_capacity s)"
    using nz(2) lim' by (simp add: read_loop.simps [of k]) (simp add: filled_def)
  moreover have "cap_for (length b + min n (length (k_in k))) cap"
    using cap assms(2) by (auto simp: cap_for_def cap_def bytes_def min.commute split: if_splits)
  ultimately show ?thesis using nz(1) by (intro that) (simp_all add: bytes_def min.commute)
qed

lemma read_loop_all:
  assumes "holds b s" "cap_for (length b) (s_capacity s)" "\<not> k_eof k" "length b + length (k_in k) < 2 ^ 22"
  shows "\<exists>cap. cap_for (length b + length (k_in k)) cap \<and>
    read_loop k s mem = (- 1, k\<lparr>k_in := []\<rparr>,
      filled (b @ k_in k) (s_total_bytes s + int (length (k_in k))) cap s, mem + cap - s_capacity s)"
  using assms
proof (induction "length (k_in k)" arbitrary: k s b mem rule: less_induct)
  case less
  show ?case
  proof (cases "k_in k = []")
    case True
    have room: "0 < s_capacity s - s_length s" using less.prems(1,2) by (simp add: holds_def cap_for_def)
    have "filled b (s_total_bytes s) (s_capacity s) s = s"
      using less.prems(1) by (cases s) (simp add: holds_def filled_def)
    moreover have "grow (s, mem) = (s, mem)" using room by (simp add: grow_def)
    moreover have "k\<lparr>k_in := []\<rparr> = k" using True by (cases k) simp
    ultimately show ?thesis
      using less.prems room True by (intro exI [of _ "s_capacity s"]) (simp add: read_loop.simps [of k] sock_read_def)
  next
    case False
    obtain n cap where n: "0 < n" "cap_for (length b + min n (length (k_in k))) cap"
      "read_loop k s mem = read_loop (k\<lparr>k_in := drop n (k_in k)\<rparr>)
        (filled (b @ take n (k_in k)) (s_total_bytes s + int (min n (length (k_in k)))) cap s) (mem + cap - s_capacity s)"
      using read_loop_step [OF less.prems(1,2) False less.prems(4)] by blast
    let ?k = "k\<lparr>k_in := drop n (k_in k)\<rparr>" and ?b = "b @ take n (k_in k)"
    let ?s = "filled ?b (s_total_bytes s + int (min n (length (k_in k)))) cap s"
    have "length (k_in ?k) < length (k_in k)" using n(1) False by simp
    moreover have "holds ?b ?s" "cap_for (length ?b) (s_capacity ?s)" "\<not> k_eof ?k"
      "length ?b + length (k_in ?k) < 2 ^ 22"
      using n(2) less.prems(3,4) by (auto simp: filled_def holds_def min.commute)
    ultimately obtain cap' where c': "cap_for (length ?b + length (k_in ?k)) cap'"
      "read_loop ?k ?s (mem + cap - s_capacity s) = (- 1, ?k\<lparr>k_in := []\<rparr>,
        filled (?b @ k_in ?k) (s_total_bytes ?s + int (length (k_in ?k))) cap' ?s,
        mem + cap - s_capacity s + cap' - s_capacity ?s)"
      using less.hyps [of ?k ?b ?s "mem + cap - s_capacity s"] by blast
    have "length ?b + length (k_in ?k) = length b + length (k_in k)" by simp
    then have "cap_for (length b + length (k_in k)) cap'" using c'(1) by (simp only:)
    moreover have "filled (?b @ k_in ?k) (s_total_bytes ?s + int (length (k_in ?k))) cap' ?s =
        filled (b @ k_in k) (s_total_bytes s + int (length (k_in k))) cap' s"
      by (cases s) (auto simp: filled_def min_def)
    moreover have "mem + cap - s_capacity s + cap' - s_capacity ?s = mem + cap' - s_capacity s" by (simp add: filled_def)
    ultimately show ?thesis using c' n(3) by (intro exI [of _ cap']) simp
  qed
qed

lemma read_more:
  assumes "holds b (r_stream r)" "s_index (r_stream r) = int (length b)" "cap_for (length b) (s_capacity (r_stream r))"
    and "\<not> k_eof (r_socket r)" "length b + length (k_in (r_socket r)) < 2 ^ 22"
  shows "\<exists>cap. cap_for (length b + length (k_in (r_socket r))) cap \<and>
    hs_stream_read_socket (v, r) = (True,
      (v\<lparr>v_memused := v_memused v + cap - s_capacity (r_stream r), v_errno := EAGAIN\<rparr>,
       r\<lparr>r_stream := filled (b @ k_in (r_socket r)) (s_total_bytes (r_stream r) + int (length (k_in (r_socket r)))) cap (r_stream r),
         r_socket := (r_socket r)\<lparr>k_in := []\<rparr>\<rparr>))"
  using read_loop_all [OF assms(1,3-5), of "v_memused v"] assms(1,2)
  by (auto simp: hs_stream_read_socket_def holds_def Let_def)

lemma read_first:
  assumes "r_stream r = stream_init" "\<not> k_eof (r_socket r)" "length (k_in (r_socket r)) < 2 ^ 22"
  shows "\<exists>cap. cap_for (length (k_in (r_socket r))) cap \<and>
    hs_stream_read_socket (v, r) = (True,
      (v\<lparr>v_memused := v_memused v + cap, v_errno := EAGAIN\<rparr>,
       r\<lparr>r_stream := filled (k_in (r_socket r)) (int (length (k_in (r_socket r)))) cap stream_init,
         r_socket := (r_socket r)\<lparr>k_in := []\<rparr>\<rparr>))"
proof -
  let ?s = "stream_init\<lparr>s_buf := Some [], s_capacity := HTTP_REQUEST_BUF_SIZE\<rparr>"
  have "holds [] ?s" "cap_for (length ([] :: string)) (s_capacity ?s)"
    by (auto simp: cap_for_def holds_def stream_init_def HTTP_REQUEST_BUF_SIZE_def buffer_size_def intro!: exI [of _ "0 :: nat"])
  from read_loop_all [OF this assms(2), of "v_memused v + HTTP_REQUEST_BUF_SIZE"] assms(3)
  obtain cap where "cap_for (length (k_in (r_socket r))) cap"
    "read_loop (r_socket r) ?s (v_memused v + HTTP_REQUEST_BUF_SIZE) = (- 1, (r_socket r)\<lparr>k_in := []\<rparr>,
      filled (k_in (r_socket r)) (int (length (k_in (r_socket r)))) cap ?s, v_memused v + cap)"
    by (auto simp: stream_init_def)
  moreover have "filled x n cap ?s = filled x n cap stream_init" for x n by (simp add: filled_def stream_init_def)
  ultimately show ?thesis
    using assms(1) by (intro exI [of _ cap]) (simp add: hs_stream_read_socket_def stream_init_def Let_def)
qed

subsection \<open>The body\<close>

lemma enter_body:
  assumes "0 < body_length hs"
  shows "parse_char behind c (body_parser hs j) (body_stream h j s0) =
    and_then (hs_body BD no_token ((head_parser hs)\<lparr>p_state := BD, p_body_consumed := int j\<rparr>)
        ((stream_at (int (h + j)) (body_token h j) s0)\<lparr>s_anchor := int h\<rparr>))
      (\<lambda>(tok, p', s'). Inr (tok, p', hs_stream_consume s'))"
proof -
  have "hs_enter behind (p_state (body_parser hs j)) BD ((body_parser hs j)\<lparr>p_state := BD\<rparr>) (body_stream h j s0) =
      Inr (no_token, (head_parser hs)\<lparr>p_state := BD, p_body_consumed := int j\<rparr>,
        (stream_at (int (h + j)) (body_token h j) s0)\<lparr>s_anchor := int h\<rparr>)"
    by (cases s0)
      (simp add: hs_enter_def Let_def body_parser_def body_stream_def head_parser_def stream_at_def hs_stream_anchor_def
        hs_stream_begin_token_def body_token_def no_token_def)
  moreover have "table_at (hs_transitions (p_state (body_parser hs j))) (hs_column (char_type c)) = Inr BD"
    by (cases "char_type c") (simp_all add: body_parser_def head_parser_def table_at_def)
  moreover have "p_meta (body_parser hs j) \<noteq> M_ZER" by (simp add: body_parser_def head_parser_def)
  ultimately show ?thesis
    by (simp add: parse_char_def hs_transition_action_def hs_switch_def)
qed

lemma parse_body:
  assumes "holds b s0" "int h + body_length hs < 2 ^ 22" "h + j < length b"
    and "int (length b) \<le> int h + body_length hs" "0 < body_length hs"
  defines "k \<equiv> length b - h"
  shows "parse_char behind c (body_parser hs j) (body_stream h j s0) =
    (if int k = body_length hs
     then Inr (body_token h k, done_parser hs, used ((stream_at (int (length b)) no_token s0)\<lparr>s_anchor := int h\<rparr>))
     else Inr (no_token, body_parser hs k, used (body_stream h k s0)))"
proof -
  let ?p = "(head_parser hs)\<lparr>p_state := BD, p_body_consumed := int j\<rparr>"
  let ?s = "(stream_at (int (h + j)) (body_token h j) s0)\<lparr>s_anchor := int h\<rparr>"
  have k: "int (length b) = int h + int k" "j < k" using assms(3) by (simp_all add: k_def)
  have len: "s_length s0 = int h + int k" using assms(1) k(1) by (simp add: holds_def)
  have left: "narrow32 (body_length hs - int j) = body_length hs - int j"
    using assms(2,3,4) by (intro narrow32_id) simp_all
  have target: "narrow32 (int (h + j) + (body_length hs - int j)) = int h + body_length hs"
    using assms(2,5) by (subst narrow32_id) simp_all
  have tok_len: "narrow32 (int j + (body_length hs - int j)) = body_length hs"
    using assms(2,5) by (subst narrow32_id) simp_all
  have "hs_body BD no_token ?p ?s =
      (if int k = body_length hs
       then Inr (body_token h k, done_parser hs, used ((stream_at (int (length b)) no_token s0)\<lparr>s_anchor := int h\<rparr>))
       else Inr (no_token, body_parser hs k, used (body_stream h k s0)))"
  proof (cases "int k = body_length hs")
    case True
    have "hs_stream_jump (body_length hs - int j) ?s = (True, used ((stream_at (int (h + k)) (body_token h k) s0)\<lparr>s_anchor := int h\<rparr>))"
      using target tok_len len True
      by (cases s0) (simp add: hs_stream_jump_def stream_at_def body_token_def set_token_len_def used_def)
    then show ?thesis
      using True left assms(5) k(1)
      by (cases s0) (simp add: hs_body_def head_parser_def hs_stream_emit_def hs_trigger_meta_def table_at_def
          done_parser_def used_def stream_at_def body_token_def no_token_def)
  next
    case False
    then have less: "int k < body_length hs" using k(1) assms(4) by simp
    have "hs_stream_jump (body_length hs - int j) ?s = (False, used ?s)"
      using target len less by (cases s0) (simp add: hs_stream_jump_def stream_at_def used_def)
    moreover have "hs_stream_jumpall (used ?s) = (int k - int j, used (body_stream h k s0))"
      using len k(2) by (cases s0) (simp add: hs_stream_jumpall_def stream_at_def used_def body_token_def set_token_len_def body_stream_def)
    ultimately show ?thesis
      using False left assms(5) k(2) by (simp add: hs_body_def head_parser_def body_parser_def)
  qed
  then show ?thesis
    by (simp add: enter_body [OF assms(5)] hs_stream_consume_def used_def)
qed

lemma hs_stream_next_used [simp]: "hs_stream_next (used s) = hs_stream_next s"
  by (simp add: hs_stream_next_def used_def)

text \<open>The rest of a request in the buffer, from the end of the head or from inside of the body.\<close>

lemma parse_loop_body:
  assumes "holds b s0" "int h + body_length hs < 2 ^ 22" "h + j < length b"
    and "int (length b) \<le> int h + body_length hs" "0 < body_length hs"
  defines "k \<equiv> length b - h"
  shows "parse_loop (Suc (Suc n)) behind (body_parser hs j) (body_stream h j s0) =
    Some (Inr (if int k = body_length hs
     then (body_token h k, done_parser hs, used ((stream_at (int (length b)) no_token s0)\<lparr>s_anchor := int h\<rparr>))
     else (no_token, body_parser hs k, body_stream h k s0)))"
proof -
  have kz: "0 < k" "h + k = length b" using assms(3) by (auto simp: k_def)
  have "hs_stream_next (body_stream h j s0) = Inr (Some (b ! (h + j)), body_stream h j s0)"
    using assms(1,3) by (cases s0) (auto simp: hs_stream_next_def body_stream_def stream_at_def holds_def byte_at_def nat_int_add)
  moreover have "hs_stream_next (body_stream h k s0) = Inr (None, body_stream h k s0)"
    using assms(1) kz by (cases s0) (simp add: hs_stream_next_def body_stream_def stream_at_def holds_def)
  moreover have "parse_end (body_parser hs k) (body_stream h k s0) = Inr (no_token, body_parser hs k, body_stream h k s0)"
    using kz(1) assms(5)
    by (simp add: parse_end_def body_parser_def head_parser_def hs_meta_emit_def body_stream_def stream_at_def body_token_def)
  moreover have "tok_type (body_token h k) \<noteq> HS_TOK_NONE" "tok_type no_token = HS_TOK_NONE" by (simp_all add: body_token_def no_token_def)
  moreover note parse_body [OF assms(1-5), of behind "b ! (h + j)", folded k_def]
  ultimately show ?thesis by simp
qed

subsection \<open>Prefixes of the head\<close>

lemma scan_tokens_le: "scan behind cs p s = Inr (ts, p', s') \<Longrightarrow> length ts \<le> length cs"
  by (induction cs arbitrary: p s ts) (fastforce simp: scan.simps(2) and_then_eq_Inr)+

lemma head_tokens_collected: "t \<in> set (head_tokens m t1 v hs) \<Longrightarrow> collected t"
proof -
  have "t \<in> set (header_tokens i hs) \<Longrightarrow> collected t" for i
    by (induction i hs rule: header_tokens.induct) (auto simp: collected_def token_def)
  then show "t \<in> set (head_tokens m t1 v hs) \<Longrightarrow> collected t"
    by (auto simp: head_tokens_def line_tokens_def collected_def token_def)
qed

lemma request_head_front: "request_head m t v hs = head_front m t v hs @ [CHR 0x0A]"
  by (simp add: request_head_def head_front_def CRLF_def)

lemma front_prefix:
  assumes "head_ok m t v hs" "n \<le> length (head_front m t v hs)"
  obtains toks p tok where "front_at behind (head_front m t v hs) n toks p tok"
proof -
  let ?f = "head_front m t v hs"
  have er: "head_state (p_state (front_parser hs))" by (simp add: front_parser_def head_state_def)
  have "scan behind (take n ?f @ drop n ?f) parser_init (stream_at 0 no_token stream_init) =
      Inr (head_tokens m t v hs, front_parser hs, stream_at (int (length ?f)) no_token stream_init)"
    using scan_head [OF assms(1)] by simp
  then obtain t1 p1 s1 t2 where 1: "scan behind (take n ?f) parser_init (stream_at 0 no_token stream_init) = Inr (t1, p1, s1)"
    "scan behind (drop n ?f) p1 s1 = Inr (t2, front_parser hs, stream_at (int (length ?f)) no_token stream_init)"
    "head_tokens m t v hs = t1 @ t2"
    unfolding scan_append by (auto simp: and_then_eq_Inr)
  have h: "head_state (p_state p1)" using scan_body [OF 1(2)] er by blast
  obtain tok where "\<And>s0. scan behind (take n ?f) parser_init (stream_at 0 no_token s0) =
      Inr (t1, p1, stream_at (0 + int (length (take n ?f))) tok s0)"
    "head_meta (p_meta parser_init) \<Longrightarrow> head_meta (p_meta p1)"
    "tok_len no_token \<le> 0 \<Longrightarrow> (0 :: int) \<le> 0 \<Longrightarrow> tok_len tok \<le> 0 + int (length (take n ?f))"
    by (rule scan_head_frame [OF 1(1) h]) blast
  then have tok: "\<And>s0. scan behind (take n ?f) parser_init (stream_at 0 no_token s0) = Inr (t1, p1, stream_at (int n) tok s0)"
    "head_meta (p_meta p1)" "tok_len tok \<le> int n"
    using assms(2) by (simp_all add: head_meta_def parser_init_def no_token_def)
  have "\<forall>x \<in> set t1. collected x" using head_tokens_collected [of _ m t v hs] 1(3) by auto
  then show ?thesis using that [of t1 p1 tok] tok h by (simp add: front_at_def)
qed

lemma front_step:
  assumes "front_at behind front n toks p tok" "front_at behind front n' toks' p' tok'" "n \<le> n'"
  obtains ts where "toks' = toks @ ts" "\<forall>t \<in> set ts. collected t" "length ts \<le> n' - n"
    "\<And>s0. scan behind (drop n (take n' front)) p (stream_at (int n) tok s0) = Inr (ts, p', stream_at (int n') tok' s0)"
proof -
  have "take n' front = take n front @ drop n (take n' front)"
    using assms(3) by (metis append_take_drop_id min_def take_take)
  then have split: "and_then (scan behind (drop n (take n' front)) p (stream_at (int n) tok s0))
      (\<lambda>(t2, p2, s2). Inr (toks @ t2, p2, s2)) = Inr (toks', p', stream_at (int n') tok' s0)" for s0
    using assms(1,2) scan_append [of behind "take n front" "drop n (take n' front)" parser_init "stream_at 0 no_token s0"]
    by (simp add: front_at_def)
  obtain ts where ts: "scan behind (drop n (take n' front)) p (stream_at (int n) tok stream_init) =
      Inr (ts, p', stream_at (int n') tok' stream_init)" "toks' = toks @ ts"
    using split [of stream_init] by (auto simp: and_then_eq_Inr)
  have "scan behind (drop n (take n' front)) p (stream_at (int n) tok s0) = Inr (ts, p', stream_at (int n') tok' s0)" for s0
    using split [of s0] ts(2) by (auto simp: and_then_eq_Inr)
  moreover have "length ts \<le> n' - n" using scan_tokens_le [OF ts(1)] by simp
  ultimately show ?thesis using that ts(2) assms(2) by (auto simp: front_at_def)
qed

subsection \<open>The end of a request\<close>

lemma http_parse_body:
  assumes "holds b s0" "int h + body_length hs < 2 ^ 22" "h + j < length b"
    and "int (length b) \<le> int h + body_length hs" "0 < body_length hs"
  shows "http_parse behind (body_parser hs j) (body_stream h j s0) = Some (Inr (tail_result hs h b s0))"
proof -
  have "nat (s_length (body_stream h j s0) - s_index (body_stream h j s0)) = length b - (h + j)"
    using assms(1,3) by (auto simp: holds_def body_stream_def stream_at_def nat_diff_distrib)
  then obtain n where n: "nat (s_length (body_stream h j s0) - s_index (body_stream h j s0)) = Suc n"
    using assms(3) by (metis Suc_diff_Suc)
  have "hs_meta_emit (body_parser hs j) = Inr (no_token, body_parser hs j)"
    using assms(5) by (simp add: hs_meta_emit_def body_parser_def head_parser_def)
  then show ?thesis
    using parse_loop_body [OF assms, of n] n assms(3)
    by (simp add: http_parse_def tail_result_def no_token_def Let_def del: parse_loop.simps)
qed

lemma http_parse_front:
  assumes "holds b s0" "int h + body_length hs < 2 ^ 22" "h = Suc (length (head_front m t v hs))" "h \<le> length b"
    and "b ! length (head_front m t v hs) = CHR 0x0A" "int (length b) \<le> int h + body_length hs"
  shows "http_parse behind (front_parser hs) (stream_at (int (length (head_front m t v hs))) no_token s0) =
    Some (Inr (tail_result hs h b s0))"
proof -
  define F where "F = length (head_front m t v hs)"
  have h: "h = Suc F" using assms(3) by (simp add: F_def)
  have dr: "drop F b = CHR 0x0A # drop h b"
    using assms(4,5) h by (metis Cons_nth_drop_Suc F_def Suc_le_lessD)
  have meta: "head_meta (p_meta (front_parser hs))" by (simp add: front_parser_def head_meta_def)
  have max: "int F + body_length hs < HTTP_MAX_REQUEST_BUF_SIZE"
    using assms(2) h by (simp add: HTTP_MAX_REQUEST_BUF_SIZE_def)
  have pc: "parse_char behind (CHR 0x0A) (front_parser hs) (stream_at (int F) no_token s0) =
      Inr (if body_length hs = 0 then token HS_TOK_BODY 0 [] else no_token, head_parser hs,
        used (stream_at (int h) no_token s0))"
    using parse_head_end [of m t v hs behind s0] max h by (simp add: F_def used_def ac_simps)
  have unfold: "http_parse behind (front_parser hs) (stream_at (int F) no_token s0) =
      (if body_length hs = 0 then Some (Inr (token HS_TOK_BODY 0 [], head_parser hs, used (stream_at (int h) no_token s0)))
       else parse_loop (Suc (length b - h)) behind (head_parser hs) (stream_at (int h) no_token s0))"
    using next_at [OF assms(1) dr, of no_token] pc remaining [OF assms(1) dr, of no_token]
    by (simp add: http_parse_head [OF meta] parse_loop_used token_def no_token_def)
  show ?thesis
  proof (cases "body_length hs = 0")
    case True
    then show ?thesis
      using unfold assms(4,6) by (simp add: F_def tail_result_def token_def body_token_def done_parser_def)
  next
    case False
    then have pos: "0 < body_length hs" using body_length_nonneg [of hs] by simp
    have start: "head_parser hs = body_parser hs 0" "stream_at (int h) no_token s0 = body_stream h 0 s0"
      by (simp_all add: body_parser_def body_stream_def)
    show ?thesis
    proof (cases "length b = h")
      case True
      have "parse_end (body_parser hs 0) (body_stream h 0 s0) = Inr (no_token, body_parser hs 0, body_stream h 0 s0)"
        using False by (simp add: parse_end_def body_parser_def head_parser_def hs_meta_emit_def body_stream_def stream_at_def
            no_token_def HTTP_MAX_TOKEN_LENGTH_def Let_def)
      moreover have "hs_stream_next (body_stream h 0 s0) = Inr (None, body_stream h 0 s0)"
        using next_end [OF assms(1)] True by (simp add: body_stream_def)
      ultimately show ?thesis using unfold False True start by (simp add: F_def tail_result_def)
    next
      case ne: False
      obtain n where "length b - h = Suc n" using assms(4) ne by (metis Suc_diff_Suc le_neq_implies_less)
      then show ?thesis
        using parse_loop_body [OF assms(1,2) _ assms(6) pos, of 0 n] unfold False start assms(4) ne
        by (simp add: F_def tail_result_def Let_def del: parse_loop.simps)
    qed
  qed
qed

lemma process_wait:
  assumes "http_parse behind (r_parser r) (r_stream r) = Some (Inr (no_token, p', s'))"
  shows "process_loop (Suc k) behind handler ((v, r), a) = Some (Inr ((v, r\<lparr>r_parser := p', r_stream := s'\<rparr>), a))"
  using assms by (simp add: dispatch_token_def no_token_def)

lemma respondsD: "responds handler \<Longrightarrow> handler st = Inr ((v, r), a) \<Longrightarrow> r_state r \<noteq> HTTP_SESSION_READ"
  unfolding responds_def by (metis snd_conv)

lemma process_done:
  assumes "http_parse behind (r_parser r) (r_stream r) = Some (Inr (tok, p', s'))" "tok_type tok = HS_TOK_BODY"
    and "r_tokens r = Some T" "responds handler"
  shows "process_loop (Suc k) behind handler ((v, r), a) =
    Some (handler ((v, r\<lparr>r_parser := p', r_stream := s', r_tokens := Some (T @ [tok]), r_state := HTTP_SESSION_NOP\<rparr>), a))"
  using assms
  by (auto simp: dispatch_token_def http_token_dyn_push_def split: sum.split dest: respondsD)

subsection \<open>A round of the session\<close>

declare process_loop.simps [simp del] parse_loop.simps [simp del]

lemma request_ok_facts:
  assumes "request_ok m t v hs body"
  defines "h \<equiv> length (request_head m t v hs)"
  shows "head_ok m t v hs" "h = Suc (length (head_front m t v hs))" "h \<le> 8192"
    "int (length (request_text m t v hs body)) = int h + body_length hs" "int h + body_length hs < 2 ^ 22"
    "request_text m t v hs body = head_front m t v hs @ CHR 0x0A # body"
  using assms by (simp_all add: request_ok_def request_text_def request_head_front)

lemma front_full:
  assumes "head_ok m t v hs"
  shows "front_at behind (head_front m t v hs) (length (head_front m t v hs)) (head_tokens m t v hs) (front_parser hs) no_token"
  using scan_head [OF assms] head_tokens_collected [of _ m t v hs]
  by (simp add: front_at_def front_parser_def head_state_def head_meta_def no_token_def)

text \<open>The round ends inside of the head.\<close>

lemma round_front:
  assumes ok: "request_ok m t v hs body" and n: "n \<le> n'" "n' < length (request_head m t v hs)"
    and holds: "holds (take n' (request_text m t v hs body)) s0"
    and at: "at_pos behind m t v hs n s0 toks (r_parser r) (r_stream r)" "r_tokens r = Some toks" "r_state r = HTTP_SESSION_READ"
  shows "\<exists>toks' p' s'. at_pos behind m t v hs n' s0 toks' p' s' \<and>
    process_loop (n' - n + 2) behind handler ((vs, r), a) =
      Some (Inr ((vs, r\<lparr>r_parser := p', r_stream := s', r_tokens := Some toks'\<rparr>), a))"
proof -
  let ?f = "head_front m t v hs"
  note facts = request_ok_facts [OF ok]
  have le: "n' \<le> length ?f" using n(2) facts(2) by simp
  have b: "take n' (request_text m t v hs body) = take n' ?f" using le by (simp add: facts(6))
  obtain tok where f: "front_at behind ?f n toks (r_parser r) tok" "r_stream r = stream_at (int n) tok s0"
    using at(1) n by (auto simp: at_pos_def Let_def)
  obtain toks' p' tok' where f': "front_at behind ?f n' toks' p' tok'" using front_prefix [OF facts(1) le] by blast
  obtain ts where ts: "toks' = toks @ ts" "\<forall>t \<in> set ts. collected t" "length ts \<le> n' - n"
    "scan behind (drop n (take n' ?f)) (r_parser r) (stream_at (int n) tok s0) = Inr (ts, p', stream_at (int n') tok' s0)"
    using front_step [OF f(1) f' n(1)] by metis
  obtain k where k: "n' - n + 2 = length ts + Suc k" using ts(3) by (metis Suc_leI add_Suc_right le_Suc_ex less_add_Suc1 add_2_eq_Suc' le_SucI)
  have hd: "head_state (p_state p')" "head_meta (p_meta p')" "tok_len tok' \<le> HTTP_MAX_TOKEN_LENGTH"
    using f' n(2) facts(3) by (auto simp: front_at_def HTTP_MAX_TOKEN_LENGTH_def)
  have "process_loop (n' - n + 2) behind handler ((vs, r), a) = process_loop (Suc k) behind handler
      ((vs, r\<lparr>r_parser := p', r_stream := stream_at (int n') tok' s0, r_tokens := Some (toks @ ts)\<rparr>), a)"
    unfolding k using ts(2) f at(2,3)
    by (intro process_scan [OF holds hd(1) ts(4), where rest = "[]"]) (simp_all add: b front_at_def)
  also have "\<dots> = Some (Inr ((vs, r\<lparr>r_parser := p', r_stream := stream_at (int n') tok' s0, r_tokens := Some toks'\<rparr>), a))"
    using http_parse_end [OF holds hd, of behind] le by (subst process_wait) (auto simp: b ts(1))
  finally show ?thesis using f' n(2) by (auto simp: at_pos_def Let_def)
qed

text \<open>The round reaches the end of the head.\<close>

lemma round_tail:
  assumes ok: "request_ok m t v hs body" and n: "n < n'" "length (request_head m t v hs) \<le> n'"
    "n' \<le> length (request_text m t v hs body)"
    and holds: "holds (take n' (request_text m t v hs body)) s0"
    and at: "at_pos behind m t v hs n s0 toks (r_parser r) (r_stream r)" "r_tokens r = Some toks" "r_state r = HTTP_SESSION_READ"
  obtains k q qs where "process_loop (n' - n + 2) behind handler ((vs, r), a) =
      process_loop (Suc k) behind handler ((vs, r\<lparr>r_parser := q, r_stream := qs, r_tokens := Some (head_tokens m t v hs)\<rparr>), a)"
    "http_parse behind q qs =
      Some (Inr (tail_result hs (length (request_head m t v hs)) (take n' (request_text m t v hs body)) s0))"
proof -
  let ?f = "head_front m t v hs" and ?b = "take n' (request_text m t v hs body)" and ?h = "length (request_head m t v hs)"
  note facts = request_ok_facts [OF ok]
  have lb: "length ?b = n'" "int (length ?b) \<le> int ?h + body_length hs" using n(3) facts(4) by simp_all
  show ?thesis
  proof (cases "n < ?h")
    case True
    obtain tok where f: "front_at behind ?f n toks (r_parser r) tok" "r_stream r = stream_at (int n) tok s0"
      using at(1) True by (auto simp: at_pos_def Let_def)
    have nf: "n \<le> length ?f" using True facts(2) by simp
    note full = front_full [OF facts(1), of behind]
    obtain ts where ts: "head_tokens m t v hs = toks @ ts" "\<forall>t \<in> set ts. collected t" "length ts \<le> length ?f - n"
      "scan behind (drop n ?f) (r_parser r) (stream_at (int n) tok s0) = Inr (ts, front_parser hs, stream_at (int (length ?f)) no_token s0)"
      using front_step [OF f(1) full nf] by (metis take_all_iff le_refl)
    obtain k where k: "n' - n + 2 = length ts + Suc k"
      using ts(3) n(2) facts(2) by (metis Suc_leI add_Suc_right le_Suc_ex less_add_Suc1 add_2_eq_Suc' le_SucI diff_le_mono le_trans Suc_leD)
    have "drop n ?b = drop n ?f @ drop (length ?f) ?b"
      using n(2) nf by (simp add: facts(2,6))
    then have "process_loop (n' - n + 2) behind handler ((vs, r), a) = process_loop (Suc k) behind handler
        ((vs, r\<lparr>r_parser := front_parser hs, r_stream := stream_at (int (length ?f)) no_token s0, r_tokens := Some (toks @ ts)\<rparr>), a)"
      unfolding k using ts(2) f at(2,3)
      by (intro process_scan [OF holds _ ts(4)]) (simp_all add: front_at_def front_parser_def head_state_def)
    moreover have "?b ! length ?f = CHR 0x0A" using n(2) facts(2) by (simp add: facts(6) nth_append)
    ultimately show ?thesis
      using http_parse_front [OF holds facts(5,2), of behind] n(2) lb ts(1) by (intro that) auto
  next
    case False
    then have "toks = head_tokens m t v hs" "r_parser r = body_parser hs (n - ?h)" "r_stream r = body_stream ?h (n - ?h) s0"
      using at(1) by (auto simp: at_pos_def Let_def)
    moreover have "r\<lparr>r_parser := r_parser r, r_stream := r_stream r, r_tokens := Some toks\<rparr> = r"
      using at(2) by (cases r) simp
    moreover have "0 < body_length hs" using False n facts(4) by linarith
    ultimately show ?thesis
      using http_parse_body [OF holds facts(5), of "n - ?h" behind] False n lb
      by (intro that [where k = "n' - n + 1" and q = "r_parser r" and qs = "r_stream r"]) auto
  qed
qed

text \<open>A round that does not complete the request, and one that does.\<close>

lemma round_wait:
  assumes ok: "request_ok m t v hs body" and n: "n < n'" "n' < length (request_text m t v hs body)"
    and holds: "holds (take n' (request_text m t v hs body)) s0"
    and at: "at_pos behind m t v hs n s0 toks (r_parser r) (r_stream r)" "r_tokens r = Some toks" "r_state r = HTTP_SESSION_READ"
  shows "\<exists>toks' p' s'. at_pos behind m t v hs n' s0 toks' p' s' \<and>
    process_loop (n' - n + 2) behind handler ((vs, r), a) =
      Some (Inr ((vs, r\<lparr>r_parser := p', r_stream := s', r_tokens := Some toks'\<rparr>), a))"
proof (cases "n' < length (request_head m t v hs)")
  case True
  then show ?thesis using round_front [OF ok _ True holds at] n(1) by simp
next
  case False
  let ?h = "length (request_head m t v hs)"
  have h: "?h \<le> n'" using False by simp
  obtain k q qs where k: "process_loop (n' - n + 2) behind handler ((vs, r), a) =
      process_loop (Suc k) behind handler ((vs, r\<lparr>r_parser := q, r_stream := qs, r_tokens := Some (head_tokens m t v hs)\<rparr>), a)"
    "http_parse behind q qs = Some (Inr (tail_result hs ?h (take n' (request_text m t v hs body)) s0))"
    by (rule round_tail [OF ok n(1) h less_imp_le [OF n(2)] holds at])
  have "int (n' - ?h) \<noteq> body_length hs" using n(2) h request_ok_facts(4) [OF ok] by linarith
  moreover have "length (take n' (request_text m t v hs body)) = n'" using n(2) by simp
  ultimately have "tail_result hs ?h (take n' (request_text m t v hs body)) s0 =
      (no_token, body_parser hs (n' - ?h), body_stream ?h (n' - ?h) s0)"
    unfolding tail_result_def Let_def by simp
  note tail = this
  let ?r = "r\<lparr>r_parser := q, r_stream := qs, r_tokens := Some (head_tokens m t v hs)\<rparr>"
  have "process_loop (Suc k) behind handler ((vs, ?r), a) = Some (Inr ((vs,
      ?r\<lparr>r_parser := body_parser hs (n' - ?h), r_stream := body_stream ?h (n' - ?h) s0\<rparr>), a))"
    by (rule process_wait) (simp add: k(2) tail)
  also have "?r\<lparr>r_parser := body_parser hs (n' - ?h), r_stream := body_stream ?h (n' - ?h) s0\<rparr> =
      r\<lparr>r_parser := body_parser hs (n' - ?h), r_stream := body_stream ?h (n' - ?h) s0, r_tokens := Some (head_tokens m t v hs)\<rparr>"
    by (cases r) simp
  finally show ?thesis unfolding k(1) using h by (auto simp: at_pos_def Let_def)
qed

lemma round_done:
  assumes ok: "request_ok m t v hs body" and n: "n < length (request_text m t v hs body)"
    and holds: "holds (request_text m t v hs body) s0"
    and at: "at_pos behind m t v hs n s0 toks (r_parser r) (r_stream r)" "r_tokens r = Some toks" "r_state r = HTTP_SESSION_READ"
    and leaves: "responds handler"
  shows "process_loop (length (request_text m t v hs body) - n + 2) behind handler ((vs, r), a) =
    Some (handler ((vs, r\<lparr>r_parser := done_parser hs,
      r_stream := snd (snd (tail_result hs (length (request_head m t v hs)) (request_text m t v hs body) s0)),
      r_tokens := Some (done_tokens m t v hs body), r_state := HTTP_SESSION_NOP\<rparr>), a))"
proof -
  let ?h = "length (request_head m t v hs)" and ?text = "request_text m t v hs body"
  have h: "?h \<le> length ?text" "length ?text - ?h = length body" by (simp_all add: request_text_def)
  obtain k q qs where k: "process_loop (length ?text - n + 2) behind handler ((vs, r), a) =
      process_loop (Suc k) behind handler ((vs, r\<lparr>r_parser := q, r_stream := qs, r_tokens := Some (head_tokens m t v hs)\<rparr>), a)"
    "http_parse behind q qs = Some (Inr (tail_result hs ?h ?text s0))"
    by (rule round_tail [OF ok n h(1) le_refl _ at, unfolded take_all [OF le_refl], OF holds])
  obtain tok s' where tail: "tail_result hs ?h ?text s0 = (tok, done_parser hs, s')"
    "tok = (if body = [] then body_token 0 0 else body_token ?h (length body))" "tok_type tok = HS_TOK_BODY"
    using ok h(2) by (cases "body = []") (auto simp: tail_result_def Let_def request_ok_def body_token_def)
  let ?r = "r\<lparr>r_parser := q, r_stream := qs, r_tokens := Some (head_tokens m t v hs)\<rparr>"
  have "process_loop (Suc k) behind handler ((vs, ?r), a) = Some (handler ((vs, ?r\<lparr>r_parser := done_parser hs,
      r_stream := s', r_tokens := Some (head_tokens m t v hs @ [tok]), r_state := HTTP_SESSION_NOP\<rparr>), a))"
    by (rule process_done) (use k(2) tail(1,3) leaves in auto)
  also have "?r\<lparr>r_parser := done_parser hs, r_stream := s', r_tokens := Some (head_tokens m t v hs @ [tok]),
      r_state := HTTP_SESSION_NOP\<rparr> = r\<lparr>r_parser := done_parser hs, r_stream := s',
      r_tokens := Some (done_tokens m t v hs body), r_state := HTTP_SESSION_NOP\<rparr>"
    by (cases r) (simp add: tail(2) done_tokens_def)
  finally show ?thesis unfolding k(1) by (simp add: tail(1))
qed

subsection \<open>All rounds\<close>

lemma filled_filled [simp]: "filled b n cap (filled b' n' cap' s) = filled b n cap s"
  by (simp add: filled_def)

lemma filled_stream_at [simp]: "filled b n cap (stream_at i tok s) = stream_at i tok (filled b n cap s)"
  by (cases s) (simp add: filled_def stream_at_def)

lemma filled_body_stream [simp]: "filled b n cap (body_stream h k s) = body_stream h k (filled b n cap s)"
  by (cases s) (simp add: filled_def body_stream_def stream_at_def)

lemma at_pos_filled: "at_pos behind m t v hs n s toks p s' \<Longrightarrow>
    at_pos behind m t v hs n (filled b j cap s) toks p (filled b j cap s')"
  by (fastforce simp: at_pos_def Let_def)

lemma at_pos_stream:
  assumes "at_pos behind m t v hs n s toks p s'"
  shows "s_index s' = int n" "s_buf s' = s_buf s" "s_length s' = s_length s" "s_total_bytes s' = s_total_bytes s"
    "s_capacity s' = s_capacity s"
  using assms by (auto simp: at_pos_def Let_def body_stream_def stream_at_def split: if_splits)

lemma at_pos_start: "at_pos behind m t v hs 0 s [] parser_init (stream_at 0 no_token s)"
  by (auto simp: at_pos_def Let_def request_head_front front_at_def parser_init_def head_state_def head_meta_def no_token_def
      intro!: exI [of _ no_token])

text \<open>The end of a round: the bytes are in the buffer.\<close>

lemma round_result:
  assumes ok: "request_ok m t v hs body" and n: "n < n'" "n' \<le> length (request_text m t v hs body)"
    and cap: "cap_for n' cap"
    and at: "at_pos behind m t v hs n (filled (take n' (request_text m t v hs body)) (int n') cap stream_init) toks p s"
    and leaves: "responds handler"
  shows "if n' < length (request_text m t v hs body)
    then \<exists>r'. receiving behind m t v hs body n' cap k r' \<and>
      process_loop (n' - n + 2) behind handler ((vs, waiting_request toks p s k), a) = Some (Inr ((vs, r'), a))
    else process_loop (n' - n + 2) behind handler ((vs, waiting_request toks p s k), a) =
      Some (handler ((vs, done_request m t v hs body cap k), a))"
proof -
  let ?text = "request_text m t v hs body" and ?r = "waiting_request toks p s k"
  let ?s0 = "filled (take n' ?text) (int n') cap stream_init"
  have holds: "holds (take n' ?text) ?s0" by (simp add: holds_def filled_def)
  have r: "at_pos behind m t v hs n ?s0 toks (r_parser ?r) (r_stream ?r)" "r_tokens ?r = Some toks" "r_state ?r = HTTP_SESSION_READ"
    using at by (simp_all add: waiting_request_def)
  show ?thesis
  proof (cases "n' < length ?text")
    case True
    obtain toks' p' s' where w: "at_pos behind m t v hs n' ?s0 toks' p' s'"
      "process_loop (n' - n + 2) behind handler ((vs, ?r), a) =
        Some (Inr ((vs, ?r\<lparr>r_parser := p', r_stream := s', r_tokens := Some toks'\<rparr>), a))"
      using round_wait [OF ok n(1) True holds r, where handler = handler and vs = vs and a = a] by (elim exE conjE)
    have "?r\<lparr>r_parser := p', r_stream := s', r_tokens := Some toks'\<rparr> = waiting_request toks' p' s' k"
      by (simp add: waiting_request_def)
    then show ?thesis using True w cap by (auto simp: receiving_def)
  next
    case False
    then have n': "n' = length ?text" using n(2) by simp
    have "snd (snd (tail_result hs (length (request_head m t v hs)) ?text (filled ?text (int n') cap stream_init))) =
        done_stream ?text (length (request_head m t v hs)) (length body) cap"
      using ok n' by (auto simp: tail_result_def Let_def request_ok_def done_stream_def used_def stream_at_def filled_def
          stream_init_def request_text_def)
    moreover have "?r\<lparr>r_parser := done_parser hs, r_stream := s', r_tokens := Some (done_tokens m t v hs body),
        r_state := HTTP_SESSION_NOP\<rparr> = (done_request m t v hs body cap k)\<lparr>r_stream := s'\<rparr>" for s'
      by (simp add: waiting_request_def done_request_def)
    ultimately show ?thesis
      using False n' round_done [OF ok _ _ r leaves, where vs = vs and a = a] n(1) holds by (simp add: done_request_def)
  qed
qed

lemma receiving_not_asked:
  assumes "receiving behind m t v hs body n cap k r"
  shows "end_if_asked ((w, r), a) = ((w, r), a)"
  using assms by (auto simp: receiving_def end_if_asked_def has_flag_def waiting_request_def flag_set_def HTTP_AUTOMATIC_def
      HTTP_END_SESSION_def)

lemma round_to_result:
  assumes "request_ok m t v hs body" "n < n'" "n' \<le> length (request_text m t v hs body)"
    and "cap_for n' cap"
    and "at_pos behind m t v hs n (filled (take n' (request_text m t v hs body)) (int n') cap stream_init) toks p s"
    and "responds handler"
  shows "round_to behind m t v hs body handler n' cap k vs a
    (map_option (\<lambda>x. and_then x (\<lambda>st'. Inr (end_if_asked st')))
      (process_loop (n' - n + 2) behind handler ((vs, waiting_request toks p s k), a)))"
proof (cases "n' < length (request_text m t v hs body)")
  case True
  then obtain r where "receiving behind m t v hs body n' cap k r"
    "process_loop (n' - n + 2) behind handler ((vs, waiting_request toks p s k), a) = Some (Inr ((vs, r), a))"
    using round_result [OF assms, where k = k and vs = vs and a = a] by auto
  then show ?thesis using True receiving_not_asked [of behind m t v hs body n' cap k r vs a] by (auto simp: round_to_def)
next
  case False
  then show ?thesis using round_result [OF assms, where k = k and vs = vs and a = a] by (simp add: round_to_def)
qed

lemma session_round:
  assumes ok: "request_ok m t v hs body" and rec: "receiving behind m t v hs body n cap k r"
    and chunk: "chunk \<noteq> []" "n + length chunk \<le> length (request_text m t v hs body)"
      "take (n + length chunk) (request_text m t v hs body) = take n (request_text m t v hs body) @ chunk"
    and k: "k_in k = []" "\<not> k_eof k" and responds: "responds handler"
  obtains cap' where "cap_for (n + length chunk) cap'"
    "round_to behind m t v hs body handler (n + length chunk) cap' k
      (vs\<lparr>v_memused := v_memused vs + cap' - cap, v_errno := EAGAIN\<rparr>) a (http_session behind handler ((vs, arrive chunk r), a))"
proof -
  let ?text = "request_text m t v hs body" and ?n = "n + length chunk"
  obtain toks p s where s: "at_pos behind m t v hs n (filled (take n ?text) (int n) cap stream_init) toks p s"
    "r = waiting_request toks p s k" "cap_for n cap"
    using rec by (auto simp: receiving_def)
  have len: "length (take n ?text) = n" using chunk(2) by simp
  have str: "holds (take n ?text) s" "s_index s = int (length (take n ?text))" "cap_for (length (take n ?text)) (s_capacity s)"
    "s_capacity s = cap" "s_total_bytes s = int n"
    using at_pos_stream [OF s(1)] s(3) len by (simp_all add: holds_def filled_def)
  let ?r = "arrive chunk r"
  have r: "r_stream ?r = s" "k_in (r_socket ?r) = chunk" "\<not> k_eof (r_socket ?r)" "r_state ?r = HTTP_SESSION_READ"
    "?r\<lparr>r_state := HTTP_SESSION_READ, r_timeout := HTTP_REQUEST_TIMEOUT\<rparr> = ?r"
    using k by (simp_all add: s(2) arrive_def waiting_request_def)
  have small: "length (take n ?text) + length chunk < 2 ^ 22" using ok chunk(2) len by (simp add: request_ok_def)
  obtain cap' where c: "cap_for ?n cap'"
    "hs_stream_read_socket (vs, ?r) = (True, (vs\<lparr>v_memused := v_memused vs + cap' - cap, v_errno := EAGAIN\<rparr>,
      ?r\<lparr>r_stream := filled (take ?n ?text) (int ?n) cap' s, r_socket := (r_socket ?r)\<lparr>k_in := []\<rparr>\<rparr>))"
    using read_more [of "take n ?text" ?r, unfolded r(1,2), OF str(1-3) r(3) small] len str(4,5) chunk(3) by auto
  let ?s = "filled (take ?n ?text) (int ?n) cap' s"
  have at: "at_pos behind m t v hs n (filled (take ?n ?text) (int ?n) cap' stream_init) toks p ?s"
    using at_pos_filled [OF s(1), of "take ?n ?text" "int ?n" cap'] by simp
  have ready: "?r\<lparr>r_stream := ?s, r_socket := (r_socket ?r)\<lparr>k_in := []\<rparr>\<rparr> = waiting_request toks p ?s k"
    using k(1) by (cases k) (simp add: s(2) arrive_def waiting_request_def)
  have fuel: "nat (s_length ?s - s_index ?s) = ?n - n" using chunk(2) str(2) len by (simp add: filled_def)
  have "http_session behind handler ((vs, ?r), a) = map_option (\<lambda>x. and_then x (\<lambda>st'. Inr (end_if_asked st')))
      (process_loop (?n - n + 2) behind handler
        ((vs\<lparr>v_memused := v_memused vs + cap' - cap, v_errno := EAGAIN\<rparr>, waiting_request toks p ?s k), a))"
    using r(4,5) c(2) fuel ready by (simp add: http_session_def hs_read_and_process_request_def) (simp add: waiting_request_def)
  then show ?thesis
    using round_to_result [OF ok _ chunk(2) c(1) at responds] chunk(1) c(1) by (intro that [of cap']) simp_all
qed

lemma session_first:
  assumes ok: "request_ok m t v hs body"
    and chunk: "chunk \<noteq> []" "length chunk \<le> length (request_text m t v hs body)"
      "take (length chunk) (request_text m t v hs body) = chunk"
    and k: "k_in k = []" "\<not> k_eof k" and responds: "responds handler" and mem: "v_memused vs \<le> HTTP_MAX_TOTAL_EST_MEM_USAGE"
  obtains cap where "cap_for (length chunk) cap"
    "round_to behind m t v hs body handler (length chunk) cap k
      (vs\<lparr>v_memused := v_memused vs + cap, v_errno := EAGAIN\<rparr>) a (http_session behind handler ((vs, arrive chunk (new_session k)), a))"
proof -
  let ?text = "request_text m t v hs body" and ?n = "length chunk"
  let ?r = "(hs_init_session (arrive chunk (new_session k)))\<lparr>r_state := HTTP_SESSION_READ\<rparr>"
  have r: "r_stream ?r = stream_init" "k_in (r_socket ?r) = chunk" "\<not> k_eof (r_socket ?r)"
    "?r\<lparr>r_state := HTTP_SESSION_READ, r_timeout := HTTP_REQUEST_TIMEOUT\<rparr> = ?r"
    using k by (simp_all add: hs_init_session_def arrive_def new_session_def)
  have small: "length chunk < 2 ^ 22" using ok chunk(2) by (simp add: request_ok_def)
  obtain cap where c: "cap_for ?n cap"
    "hs_stream_read_socket (vs, ?r) = (True, (vs\<lparr>v_memused := v_memused vs + cap, v_errno := EAGAIN\<rparr>,
      ?r\<lparr>r_stream := filled chunk (int ?n) cap stream_init, r_socket := (r_socket ?r)\<lparr>k_in := []\<rparr>\<rparr>))"
    using read_first [of ?r, unfolded r(2), OF r(1,3) small] by blast
  let ?s = "filled chunk (int ?n) cap stream_init"
  have at: "at_pos behind m t v hs 0 (filled (take ?n ?text) (int ?n) cap stream_init) [] parser_init ?s"
    using at_pos_start [of behind m t v hs ?s] chunk(3) by (simp add: stream_at_def filled_def stream_init_def)
  have ready: "?r\<lparr>r_stream := ?s, r_socket := (r_socket ?r)\<lparr>k_in := []\<rparr>\<rparr> = waiting_request [] parser_init ?s k"
    using k(1) by (cases k) (simp add: hs_init_session_def arrive_def new_session_def waiting_request_def)
  have fuel: "nat (s_length ?s - s_index ?s) = ?n - 0" by (simp add: filled_def stream_init_def)
  have init: "r_state (arrive chunk (new_session k)) = HTTP_SESSION_INIT" by (simp add: arrive_def new_session_def)
  have "http_session behind handler ((vs, arrive chunk (new_session k)), a) = map_option (\<lambda>x. and_then x (\<lambda>st'. Inr (end_if_asked st')))
      (process_loop (?n - 0 + 2) behind handler
        ((vs\<lparr>v_memused := v_memused vs + cap, v_errno := EAGAIN\<rparr>, waiting_request [] parser_init ?s k), a))"
    using r(4) c(2) fuel ready mem init
    by (simp add: http_session_def hs_read_and_process_request_def) (simp add: waiting_request_def)
  then show ?thesis
    using round_to_result [OF ok _ chunk(2) c(1) at responds] chunk(1) c(1) by (intro that [of cap]) simp_all
qed

lemma power_two_between:
  assumes "(2 :: int) ^ d < 2 ^ e * 2" "(2 :: int) ^ e < 2 ^ d * 2"
  shows "d = e"
proof -
  have "(2 :: int) ^ d < 2 ^ Suc e" "(2 :: int) ^ e < 2 ^ Suc d" using assms by simp_all
  then have "d < Suc e" "e < Suc d" using power_strict_increasing_iff [of "2 :: int"] by (metis one_less_numeral_iff semiring_norm(76))+
  then show ?thesis by simp
qed

lemma cap_for_unique:
  assumes "cap_for n c" "cap_for n d"
  shows "c = d"
proof -
  obtain x y where "c = 1024 * 2 ^ x" "d = 1024 * 2 ^ y"
    using assms by (auto simp: cap_for_def buffer_size_def)
  moreover have "c < 2 * d" "d < 2 * c"
    using assms buffer_size_bounds [of c] buffer_size_bounds [of d] by (auto simp: cap_for_def)
  ultimately show ?thesis using power_two_between [of x y] by simp
qed

lemma serve_rest:
  assumes ok: "request_ok m t v hs body" and rec: "receiving behind m t v hs body n cap k r"
    and chunks: "concat chunks = drop n (request_text m t v hs body)" "[] \<notin> set chunks" "n < length (request_text m t v hs body)"
    and k: "k_in k = []" "\<not> k_eof k" and responds: "responds handler"
  obtains cap' where "cap_for (length (request_text m t v hs body)) cap'"
    "serve behind handler chunks ((vs, r), a) =
      Some (and_then (handler ((vs\<lparr>v_memused := v_memused vs + cap' - cap, v_errno := EAGAIN\<rparr>,
        done_request m t v hs body cap' k), a)) (\<lambda>st. Inr (end_if_asked st)))"
  using rec chunks
proof (induction chunks arbitrary: n cap r vs thesis)
  case Nil
  then show ?case by simp
next
  case (Cons chunk chunks)
  let ?text = "request_text m t v hs body" and ?n = "n + length chunk"
  have split: "drop n ?text = chunk @ concat chunks" using Cons.prems(3) by simp
  have "length (drop n ?text) = length chunk + length (concat chunks)" unfolding split by simp
  then have chunk: "chunk \<noteq> []" "?n \<le> length ?text" using Cons.prems(4,5) by auto
  have "take ?n ?text = take n ?text @ take (length chunk) (drop n ?text)" by (rule take_add)
  moreover have "drop ?n ?text = drop (length chunk) (drop n ?text)" by (simp add: add.commute)
  ultimately have split': "take ?n ?text = take n ?text @ chunk" "concat chunks = drop ?n ?text" by (simp_all add: split)
  obtain cap' where c: "cap_for ?n cap'" "round_to behind m t v hs body handler ?n cap' k
      (vs\<lparr>v_memused := v_memused vs + cap' - cap, v_errno := EAGAIN\<rparr>) a (http_session behind handler ((vs, arrive chunk r), a))"
    using session_round [OF ok Cons.prems(2) chunk split'(1) k responds] by blast
  show ?case
  proof (cases "?n < length ?text")
    case True
    then obtain r' where r': "receiving behind m t v hs body ?n cap' k r'" "http_session behind handler ((vs, arrive chunk r), a) =
        Some (Inr ((vs\<lparr>v_memused := v_memused vs + cap' - cap, v_errno := EAGAIN\<rparr>, r'), a))"
      using c(2) by (auto simp: round_to_def)
    let ?vs = "vs\<lparr>v_memused := v_memused vs + cap' - cap, v_errno := EAGAIN\<rparr>"
    have cs: "[] \<notin> set chunks" using Cons.prems(4) by simp
    obtain c2 where "cap_for (length ?text) c2" "serve behind handler chunks ((?vs, r'), a) =
        Some (and_then (handler ((?vs\<lparr>v_memused := v_memused ?vs + c2 - cap', v_errno := EAGAIN\<rparr>,
          done_request m t v hs body c2 k), a)) (\<lambda>st. Inr (end_if_asked st)))"
      by (rule Cons.IH [OF _ r'(1) split'(2) cs True, where vs = ?vs])
    then show ?thesis by (intro Cons.prems(1) [of c2]) (simp_all add: r'(2) add_diff_eq)
  next
    case False
    then have full: "?n = length ?text" using chunk(2) by simp
    then have "chunks = []" using split'(2) Cons.prems(4) by (cases chunks) auto
    then show ?thesis
      using c full Cons.prems(1) [of cap'] by (auto simp: round_to_def and_then_def split: sum.split)
  qed
qed

lemma serve_all:
  assumes ok: "request_ok m t v hs body" and chunks: "concat chunks = request_text m t v hs body" "[] \<notin> set chunks"
    and k: "k_in k = []" "\<not> k_eof k" and responds: "responds handler" and mem: "v_memused vs \<le> HTTP_MAX_TOTAL_EST_MEM_USAGE"
  obtains cap where "cap_for (length (request_text m t v hs body)) cap"
    "serve behind handler chunks ((vs, new_session k), a) =
      Some (and_then (handler ((vs\<lparr>v_memused := v_memused vs + cap, v_errno := EAGAIN\<rparr>,
        done_request m t v hs body cap k), a)) (\<lambda>st. Inr (end_if_asked st)))"
proof -
  let ?text = "request_text m t v hs body"
  have "?text \<noteq> []" by (simp add: request_text_def request_head_def CRLF_def)
  then obtain chunk rest where cs: "chunks = chunk # rest" using chunks(1) by (cases chunks) auto
  have chunk: "chunk \<noteq> []" "length chunk \<le> length ?text" "take (length chunk) ?text = chunk" "concat rest = drop (length chunk) ?text"
    using chunks by (auto simp: cs chunks(1) [symmetric])
  obtain cap where c: "cap_for (length chunk) cap" "round_to behind m t v hs body handler (length chunk) cap k
      (vs\<lparr>v_memused := v_memused vs + cap, v_errno := EAGAIN\<rparr>) a (http_session behind handler ((vs, arrive chunk (new_session k)), a))"
    using session_first [OF ok chunk(1-3) k responds mem] by blast
  let ?vs = "vs\<lparr>v_memused := v_memused vs + cap, v_errno := EAGAIN\<rparr>"
  show ?thesis
  proof (cases "length chunk < length ?text")
    case True
    then obtain r where r: "receiving behind m t v hs body (length chunk) cap k r"
      "http_session behind handler ((vs, arrive chunk (new_session k)), a) = Some (Inr ((?vs, r), a))"
      using c(2) by (auto simp: round_to_def)
    have ne: "[] \<notin> set rest" using chunks(2) by (simp add: cs)
    obtain c2 where "cap_for (length ?text) c2" "serve behind handler rest ((?vs, r), a) =
        Some (and_then (handler ((?vs\<lparr>v_memused := v_memused ?vs + c2 - cap, v_errno := EAGAIN\<rparr>,
          done_request m t v hs body c2 k), a)) (\<lambda>st. Inr (end_if_asked st)))"
      by (rule serve_rest [OF ok r(1) chunk(4) ne True k responds, where vs = ?vs])
    then show ?thesis by (intro that [of c2]) (simp_all add: cs r(2))
  next
    case False
    then have full: "length chunk = length ?text" using chunk(2) by simp
    then have "rest = []" using chunk(4) chunks(2) cs by (cases rest) auto
    then show ?thesis
      using c full by (intro that [of cap]) (auto simp: cs round_to_def and_then_def split: sum.split)
  qed
qed

text \<open>
  C23. How a request is divided into network packets makes no difference: a session that receives the text of a well-formed
  request in any number of non-empty pieces calls the handler once, after the last piece, with a request whose tokens are exactly the
  method, the target, the version, the header names and values and the body, at their places in the buffer that holds
  the text; and the outcome is the same as when the text arrives in one piece. The reading loop, the parser loop and the
  token loop all end.
\<close>

theorem serve_fragments:
  assumes "request_ok m t v hs body" "concat chunks = request_text m t v hs body" "[] \<notin> set chunks"
    and "k_in k = []" "\<not> k_eof k" "responds handler" "v_memused vs \<le> HTTP_MAX_TOTAL_EST_MEM_USAGE"
  shows "serve behind handler chunks ((vs, new_session k), a) =
      serve behind handler [request_text m t v hs body] ((vs, new_session k), a) \<and>
    (\<exists>cap. serve behind handler chunks ((vs, new_session k), a) =
      Some (and_then (handler ((vs\<lparr>v_memused := v_memused vs + cap, v_errno := EAGAIN\<rparr>,
        done_request m t v hs body cap k), a)) (\<lambda>st. Inr (end_if_asked st))))"
proof -
  let ?text = "request_text m t v hs body"
  have one: "concat [?text] = ?text" "[] \<notin> set [?text]" by (simp_all add: request_text_def request_head_def CRLF_def)
  obtain c where c: "cap_for (length ?text) c" "serve behind handler chunks ((vs, new_session k), a) =
      Some (and_then (handler ((vs\<lparr>v_memused := v_memused vs + c, v_errno := EAGAIN\<rparr>,
        done_request m t v hs body c k), a)) (\<lambda>st. Inr (end_if_asked st)))"
    by (rule serve_all [OF assms])
  obtain d where d: "cap_for (length ?text) d" "serve behind handler [?text] ((vs, new_session k), a) =
      Some (and_then (handler ((vs\<lparr>v_memused := v_memused vs + d, v_errno := EAGAIN\<rparr>,
        done_request m t v hs body d k), a)) (\<lambda>st. Inr (end_if_asked st)))"
    by (rule serve_all [OF assms(1) one assms(4-7)])
  show ?thesis using c(2) d(2) cap_for_unique [OF c(1) d(1)] by auto
qed

lemma sample_request_ok: "request_ok ''POST'' ''/'' ''HTTP/1.1'' [(''taskID'', ''7''), (''Content-Length'', ''2'')] ''ok''"
proof -
  have "method_ok ''POST''" "target_ok ''/''" "version_ok ''HTTP/1.1''" by code_simp+
  moreover have "key_ok ''taskID''" "\<not> prefix (map lower ''taskID'') transfer_name" "\<not> prefix (map lower ''taskID'') length_name"
    "value_ok ''7''" by code_simp+
  then have "plain_header (''taskID'', ''7'')" by (simp add: plain_header_def plain_key_def)
  moreover have lh: "length_header (''Content-Length'', ''2'')" "\<not> length_header (''taskID'', ''7'')" by code_simp+
  moreover have "content_value ''2'' = 2" by code_simp
  ultimately show ?thesis
    by (simp add: request_ok_def head_ok_def body_length_def head_length_def request_text_def request_head_def
        request_line_def header_lines_def header_line_def CRLF_def)
qed

theorem serve_fragments_witness:
  "\<exists>cap. serve HS_TOK_NONE (\<lambda>((v, r), a). Inr ((v, r\<lparr>r_state := HTTP_SESSION_INIT\<rparr>), a + 1))
      [''POST / H'', ''TTP/1.1'' @ CRLF @ ''tas'', ''kID: 7'' @ CRLF @ ''Content-Length: 2'' @ CRLF @ CRLF @ ''o'', ''k'']
      ((\<lparr>v_memused = 0, v_date = [], v_errno = NoError\<rparr>,
        new_session \<lparr>k_in = [], k_eof = False, k_room = [], k_broken = False, k_out = []\<rparr>), 0 :: nat) =
    Some (Inr ((\<lparr>v_memused = cap, v_date = [], v_errno = EAGAIN\<rparr>,
      (done_request ''POST'' ''/'' ''HTTP/1.1'' [(''taskID'', ''7''), (''Content-Length'', ''2'')] ''ok'' cap
        \<lparr>k_in = [], k_eof = False, k_room = [], k_broken = False, k_out = []\<rparr>)\<lparr>r_state := HTTP_SESSION_INIT\<rparr>), 1))"
proof -
  let ?handler = "\<lambda>((v, r), a :: nat). Inr ((v, r\<lparr>r_state := HTTP_SESSION_INIT\<rparr>), a + 1)"
  define chunks where "chunks = [''POST / H'', ''TTP/1.1'' @ CRLF @ ''tas'',
    ''kID: 7'' @ CRLF @ ''Content-Length: 2'' @ CRLF @ CRLF @ ''o'', ''k'']"
  let ?k = "\<lparr>k_in = [], k_eof = False, k_room = [], k_broken = False, k_out = []\<rparr>"
  let ?vs = "\<lparr>v_memused = 0, v_date = [], v_errno = NoError\<rparr>"
  let ?hs = "[(''taskID'', ''7''), (''Content-Length'', ''2'')]"
  have h: "responds ?handler" "v_memused ?vs \<le> HTTP_MAX_TOTAL_EST_MEM_USAGE"
    by (auto simp: responds_def HTTP_MAX_TOTAL_EST_MEM_USAGE_def)
  have k: "k_in ?k = []" "\<not> k_eof ?k" by simp_all
  have c: "concat chunks = request_text ''POST'' ''/'' ''HTTP/1.1'' ?hs ''ok''" "[] \<notin> set chunks"
    by (simp_all add: chunks_def request_text_def request_head_def request_line_def header_lines_def header_line_def CRLF_def)
  obtain cap where "serve HS_TOK_NONE ?handler chunks ((?vs, new_session ?k), 0) =
      Some (and_then (?handler ((?vs\<lparr>v_memused := v_memused ?vs + cap, v_errno := EAGAIN\<rparr>,
        done_request ''POST'' ''/'' ''HTTP/1.1'' ?hs ''ok'' cap ?k), 0)) (\<lambda>st. Inr (end_if_asked st)))"
    using serve_fragments [OF sample_request_ok c k h, of HS_TOK_NONE 0] by (elim conjE exE)
  then show ?thesis
    unfolding chunks_def by (intro exI [of _ cap]) (simp add: end_if_asked_def has_flag_def flag_set_def done_request_def
        HTTP_AUTOMATIC_def HTTP_END_SESSION_def)
qed

end
