(* ===== verification/HTTP_Reply.thy ===== *)
theory HTTP_Reply
  imports HTTP_Serve
begin

text \<open>
  Complete requests and their responses: a handler that asks for a header gets the value that was sent, and
  \<open>http_respond\<close> writes exactly the response to the socket, gives its memory back and keeps the connection or ends it.
\<close>

section \<open>Definitions\<close>

text \<open>Names of headers are compared without regard to case.\<close>

definition same_name :: "string \<Rightarrow> string \<Rightarrow> bool" where
  "same_name a b \<longleftrightarrow> map lower a = map lower b"

definition header_value :: "(string \<times> string) list \<Rightarrow> string \<Rightarrow> string option" where
  "header_value hs key = map_option snd (find (\<lambda>h. same_name (fst h) key) hs)"

text \<open>The bytes of \<open>b\<close> at a position.\<close>

definition at_bytes :: "string \<Rightarrow> int \<Rightarrow> string \<Rightarrow> bool" where
  "at_bytes b i x \<longleftrightarrow> 0 \<le> i \<and> i + int (length x) \<le> int (length b) \<and> take (length x) (drop (nat i) b) = x"

text \<open>The decision whether the connection is kept.\<close>

definition keep_alive :: "string \<Rightarrow> (string \<times> string) list \<Rightarrow> bool" where
  "keep_alive v hs =
     (case header_value hs ''Connection'' of
        None \<Rightarrow> last v = CHR ''1''
      | Some x \<Rightarrow> \<not> same_name x ''close'')"

text \<open>The text of a response.\<close>

definition reply_headers :: "(string \<times> string) list \<Rightarrow> string" where
  "reply_headers hs = concat (map (\<lambda>(key, val). key @ '': '' @ val @ eol) hs)"

definition reply_head :: "string \<Rightarrow> bool \<Rightarrow> http_response \<Rightarrow> string" where
  "reply_head date keep x =
     ''HTTP/1.1 '' @ to_string (x_status x) @ '' '' @ (hs_status_text ! nat (x_status x)) @ eol @ ''Date: '' @ date @ eol @
     reply_headers ((''Connection'', if keep then ''keep-alive'' else ''close'') # x_headers x) @
     ''Content-Length: '' @ to_string (x_content_length x) @ eol @ eol"

definition reply_text :: "string \<Rightarrow> bool \<Rightarrow> http_response \<Rightarrow> string" where
  "reply_text date keep x = reply_head date keep x @ (case x_body x of None \<Rightarrow> [] | Some body \<Rightarrow> body)"

definition buffered :: "http_request \<Rightarrow> int" where
  "buffered r = (case s_buf (r_stream r) of None \<Rightarrow> 0 | Some _ \<Rightarrow> s_capacity (r_stream r))"

section \<open>Lemmas\<close>

subsection \<open>Headers\<close>

lemma cmp_same_name:
  "length a = n \<Longrightarrow> length b = n \<Longrightarrow> hs_case_insensitive_cmp a b n = same_name a b"
  by (induction a b n rule: hs_case_insensitive_cmp.induct) (auto simp: same_name_def)

lemma same_name_length: "same_name a b \<Longrightarrow> length a = length b"
  unfolding same_name_def by (metis length_map)

lemma string_bytes_at:
  assumes "s_buf (r_stream r) = Some b" "at_bytes b i x"
  shows "string_bytes r (Some (i, int (length x))) = Inr x"
  using assms by (simp add: string_bytes_def at_bytes_def)

lemma at_bytes_append: "at_bytes (as @ x @ bs) (int (length as)) x"
  by (simp add: at_bytes_def)

lemma at_bytes_shift: "at_bytes b i x \<Longrightarrow> at_bytes (as @ b) (int (length as) + i) x"
  by (auto simp: at_bytes_def nat_add_distrib)

lemma at_bytes_more: "at_bytes b i x \<Longrightarrow> at_bytes (b @ bs) i x"
  by (auto simp: at_bytes_def)

lemma find_header_value:
  assumes "s_buf (r_stream r) = Some (as @ header_lines hs @ bs)"
    and "\<forall>t \<in> set rest. tok_type t \<noteq> HS_TOK_HEADER_KEY"
  shows "\<exists>str. find_header r (header_tokens (int (length as)) hs @ rest) key = Inr str \<and>
      (case header_value hs key of
         None \<Rightarrow> str = None
       | Some x \<Rightarrow> string_bytes r str = Inr x \<and> string_len str = int (length x))"
  using assms(1)
proof (induction hs arbitrary: as)
  case Nil
  have "find_header r rest key = Inr None" using assms(2) by (induction rest) auto
  then show ?case by (simp add: header_value_def)
next
  case (Cons h hs)
  obtain k x where h: "h = (k, x)" by (cases h)
  define tail where "tail = header_lines hs @ bs"
  have buf: "s_buf (r_stream r) = Some (as @ k @ '': '' @ x @ CRLF @ tail)"
    using Cons.prems by (simp add: h header_lines_def header_line_def tail_def)
  have key: "string_bytes r (Some (int (length as), int (length k))) = Inr k"
    using string_bytes_at [OF buf at_bytes_append] .
  have "at_bytes ((as @ k @ '': '') @ x @ (CRLF @ tail)) (int (length (as @ k @ '': ''))) x" by (rule at_bytes_append)
  then have val: "string_bytes r (Some (int (length as) + int (length k) + 2, int (length x))) = Inr x"
    using string_bytes_at [OF buf, of _ x] by (simp add: ac_simps)
  have next_as: "int (length as) + int (length (header_line h)) = int (length (as @ header_line h))" by simp
  have IH: "\<exists>str. find_header r (header_tokens (int (length (as @ header_line h))) hs @ rest) key = Inr str \<and>
      (case header_value hs key of None \<Rightarrow> str = None
       | Some x \<Rightarrow> string_bytes r str = Inr x \<and> string_len str = int (length x))"
    using Cons.IH [of "as @ header_line h"] Cons.prems by (simp add: header_lines_def)
  show ?case
  proof (cases "same_name k key")
    case True
    then have "length k = length key" by (rule same_name_length)
    then show ?thesis
      using True key val by (simp add: h token_def token_string_def cmp_same_name header_value_def string_len_def)
  next
    case False
    have "find_header r (header_tokens (int (length as)) (h # hs) @ rest) key =
        find_header r (header_tokens (int (length as) + int (length (header_line h))) hs @ rest) key"
      using False key cmp_same_name [of k "length key" key] by (auto simp: h token_def token_string_def)
    then show ?thesis
      using IH False unfolding next_as by (simp add: h header_value_def)
  qed
qed

lemma find_header_skip:
  "\<forall>t \<in> set ts. tok_type t \<noteq> HS_TOK_HEADER_KEY \<Longrightarrow> find_header r (ts @ rest) key = find_header r rest key"
  by (induction ts) auto

lemma done_header:
  "\<exists>str. http_request_header (done_request m t v hs body cap k) key = Inr str \<and>
      (case header_value hs key of
         None \<Rightarrow> str = None
       | Some x \<Rightarrow> string_bytes (done_request m t v hs body cap k) str = Inr x \<and> string_len str = int (length x))"
proof -
  let ?r = "done_request m t v hs body cap k" and ?l = "request_line m t v"
  define tail where "tail = [if body = [] then body_token 0 0 else body_token (length (request_head m t v hs)) (length body)]"
  have "s_buf (r_stream ?r) = Some (?l @ header_lines hs @ CRLF @ body)"
    by (simp add: done_request_def done_stream_def request_text_def request_head_def)
  moreover have "\<forall>t \<in> set tail. tok_type t \<noteq> HS_TOK_HEADER_KEY" by (simp add: tail_def body_token_def)
  moreover have "\<forall>x \<in> set (line_tokens m t v). tok_type x \<noteq> HS_TOK_HEADER_KEY" by (simp add: line_tokens_def token_def)
  moreover have "r_tokens ?r = Some (line_tokens m t v @ header_tokens (int (length ?l)) hs @ tail)"
    by (simp add: done_request_def done_tokens_def head_tokens_def tail_def)
  ultimately show ?thesis
    using find_header_value [of ?r ?l hs "CRLF @ body" tail key] by (simp add: http_request_header_def find_header_skip)
qed

lemma done_keep_alive:
  assumes "v \<noteq> []" "\<forall>h \<in> set hs. snd h \<noteq> []"
  shows "hs_auto_detect_keep_alive (done_request m t v hs body cap k) =
    Inr (if keep_alive v hs then set_flag HTTP_KEEP_ALIVE (done_request m t v hs body cap k)
         else clear_flag HTTP_KEEP_ALIVE (done_request m t v hs body cap k))"
proof -
  let ?r = "done_request m t v hs body cap k"
  let ?i = "int (length m) + int (length t) + 2"
  have ver: "http_get_token_string ?r HS_TOK_VERSION = Some (?i, int (length v))"
    by (simp add: http_get_token_string_def done_request_def done_tokens_def head_tokens_def line_tokens_def token_def
        token_string_def)
  have "(m @ '' '' @ t @ '' '' @ v @ CRLF @ x) ! (length m + length t + 2 + (length v - 1)) = last v" for x
    using assms(1) by (simp add: nth_append last_conv_nth)
  then have last: "byte_at (r_stream ?r) (?i + int (length v) - 1) = Inr (last v)"
    using assms(1)
    by (auto simp: byte_at_def done_request_def done_stream_def request_text_def request_head_def request_line_def
        nat_add_distrib nat_diff_distrib of_nat_diff Suc_leI add.assoc)
  obtain str where str: "http_request_header ?r ''Connection'' = Inr str"
    "case header_value hs ''Connection'' of None \<Rightarrow> str = None
     | Some x \<Rightarrow> string_bytes ?r str = Inr x \<and> string_len str = int (length x)"
    using done_header by blast
  show ?thesis
  proof (cases "header_value hs ''Connection''")
    case None
    then show ?thesis
      using ver last str by (simp add: hs_auto_detect_keep_alive_def keep_alive_def string_len_def)
  next
    case (Some x)
    then have "x \<noteq> []" using assms(2) by (auto simp: header_value_def find_Some_iff) (metis nth_mem snd_conv)
    moreover have "same_name x ''close'' \<Longrightarrow> length x = 5" using same_name_length [of x "''close''"] by simp
    ultimately show ?thesis
      using ver last str Some cmp_same_name [of x 5 "''close''"]
      by (auto simp: hs_auto_detect_keep_alive_def keep_alive_def)
  qed
qed

subsection \<open>Responses\<close>

lemma grwprintf_fits:
  "int (length (g_buf g) + length text) < g_capacity g \<Longrightarrow> grwprintf text (g, mem) = Inr (g\<lparr>g_buf := g_buf g @ text\<rparr>, mem)"
  by (simp add: grwprintf_def Let_def)

lemma print_headers_fits:
  "int (length (g_buf g) + length (reply_headers hs)) < g_capacity g \<Longrightarrow>
    print_headers hs (g, mem) = Inr (g\<lparr>g_buf := g_buf g @ reply_headers hs\<rparr>, mem)"
proof (induction hs arbitrary: g)
  case (Cons h hs)
  then show ?case by (cases h) (simp add: reply_headers_def grwprintf_fits)
qed (simp add: reply_headers_def)

lemma buffer_headers_fits:
  assumes "\<not> has_flag r HTTP_CHUNKED_RESPONSE" "cl = ''Content-Length: '' @ to_string (x_content_length x) @ eol"
    and "int (length (g_buf g) + length (reply_headers (x_headers x)) + length cl + length eol) < g_capacity g"
  shows "http_buffer_headers r x (g, mem) = Inr (g\<lparr>g_buf := g_buf g @ reply_headers (x_headers x) @ cl @ eol\<rparr>, mem)"
  unfolding http_buffer_headers_def assms(2) [symmetric]
  using assms(1,3) by (simp add: print_headers_fits grwprintf_fits)

lemma respond_headers_fits:
  assumes "hs_auto_detect_keep_alive r = Inr r1" "has_flag r HTTP_AUTOMATIC" "\<not> has_flag r1 HTTP_CHUNKED_RESPONSE"
    and "0 \<le> x_status x" "x_status x < 599"
    and "length (reply_head date (has_flag r1 HTTP_KEEP_ALIVE) x) < 1024"
  shows "http_respond_headers date r x (grwprintf_init HTTP_RESPONSE_BUF_SIZE mem) =
    Inr (r1, http_response_header ''Connection'' (if has_flag r1 HTTP_KEEP_ALIVE then ''keep-alive'' else ''close'') x,
      \<lparr>g_buf = reply_head date (has_flag r1 HTTP_KEEP_ALIVE) x, g_capacity = 1024\<rparr>, mem + 1024)"
proof -
  have "length hs_status_text = 599" by (simp add: hs_status_text_def)
  then have "table_at hs_status_text (nat (x_status x)) = Inr (hs_status_text ! nat (x_status x))"
    using assms(4,5) by (simp add: table_at_def)
  moreover define line where "line = ''HTTP/1.1 '' @ to_string (x_status x) @ '' '' @ (hs_status_text ! nat (x_status x)) @ eol @
      ''Date: '' @ date @ eol"
  moreover define cl where "cl = ''Content-Length: '' @ to_string (x_content_length x) @ eol"
  define keep where "keep = has_flag r1 HTTP_KEEP_ALIVE"
  define conn where "conn = (if keep then ''keep-alive'' else ''close'')"
  define hs where "hs = (''Connection'', conn) # x_headers x"
  have head: "reply_head date keep x = line @ reply_headers hs @ cl @ eol"
    by (simp add: reply_head_def line_def cl_def hs_def conn_def)
  have x1: "http_response_header ''Connection'' conn x = x\<lparr>x_headers := hs\<rparr>" by (simp add: http_response_header_def hs_def)
  have small: "length line + length (reply_headers hs) + length cl + length eol < 1024"
    using assms(6) by (simp add: head keep_def [symmetric])
  have "grwprintf line (\<lparr>g_buf = [], g_capacity = 1024\<rparr>, mem + 1024) = Inr (\<lparr>g_buf = line, g_capacity = 1024\<rparr>, mem + 1024)"
    using small by (subst grwprintf_fits) simp_all
  moreover have "http_buffer_headers r1 (x\<lparr>x_headers := hs\<rparr>) (\<lparr>g_buf = line, g_capacity = 1024\<rparr>, mem + 1024) =
      Inr (\<lparr>g_buf = line @ reply_headers hs @ cl @ eol, g_capacity = 1024\<rparr>, mem + 1024)"
    using small assms(3) by (subst buffer_headers_fits [where cl = cl]) (simp_all add: cl_def)
  ultimately show ?thesis
    using assms(1,2) unfolding keep_def [symmetric] conn_def [symmetric] head x1
    by (simp add: http_respond_headers_def grwprintf_init_def HTTP_RESPONSE_BUF_SIZE_def keep_def [symmetric]
        conn_def [symmetric] x1 line_def [symmetric])
qed

lemma or_absorb: "(x OR y) AND y = (y :: 8 word)"
  by (rule bit_word_eqI) (auto simp: bit_simps)

lemma and_not_absorb: "(x AND NOT y) AND y = (0 :: 8 word)"
  by (rule bit_word_eqI) (auto simp: bit_simps)

lemma has_clear_flag: "\<not> has_flag (clear_flag f r) f"
  by (simp add: has_flag_def clear_flag_def flag_set_def and_not_absorb)

lemma flags:
  "has_flag (set_flag HTTP_KEEP_ALIVE r) HTTP_KEEP_ALIVE"
  "r_flags r = HTTP_AUTOMATIC \<Longrightarrow> has_flag r HTTP_AUTOMATIC"
  "r_flags r = HTTP_AUTOMATIC \<Longrightarrow> \<not> has_flag (set_flag HTTP_KEEP_ALIVE r) HTTP_CHUNKED_RESPONSE"
  "r_flags r = HTTP_AUTOMATIC \<Longrightarrow> \<not> has_flag (clear_flag HTTP_KEEP_ALIVE r) HTTP_CHUNKED_RESPONSE"
  "r_flags r = HTTP_AUTOMATIC \<Longrightarrow> \<not> has_flag (set_flag HTTP_KEEP_ALIVE r) HTTP_END_SESSION"
  "has_flag (set_flag HTTP_END_SESSION r) HTTP_END_SESSION"
  by (simp_all add: has_flag_def set_flag_def clear_flag_def flag_set_def HTTP_KEEP_ALIVE_def HTTP_AUTOMATIC_def
      HTTP_CHUNKED_RESPONSE_def HTTP_END_SESSION_def or_absorb)

text \<open>The whole response is printed.\<close>

lemma respond_prints:
  assumes "hs_auto_detect_keep_alive r = Inr r1" "has_flag r HTTP_AUTOMATIC" "\<not> has_flag r1 HTTP_CHUNKED_RESPONSE"
    and "0 \<le> x_status x" "x_status x < 599" "x_body x = Some b" "x_content_length x = int (length b)"
    and "length (reply_head (v_date vs) (has_flag r1 HTTP_KEEP_ALIVE) x) < 1024"
  defines "reply \<equiv> reply_text (v_date vs) (has_flag r1 HTTP_KEEP_ALIVE) x"
  defines "gcap \<equiv> (if int (length reply) > 1024 then int (length reply) else 1024)"
  shows "http_respond x (vs, r) = http_end_response \<lparr>g_buf = reply, g_capacity = gcap\<rparr> (vs\<lparr>v_memused := v_memused vs + gcap\<rparr>, r1)"
proof -
  define rhead where "rhead = reply_head (v_date vs) (has_flag r1 HTTP_KEEP_ALIVE) x"
  define x1 where "x1 = http_response_header ''Connection'' (if has_flag r1 HTTP_KEEP_ALIVE then ''keep-alive'' else ''close'') x"
  have reply: "reply = rhead @ b" using assms(6) by (simp add: reply_def reply_text_def rhead_def)
  have "http_respond_headers (v_date vs) r x (grwprintf_init HTTP_RESPONSE_BUF_SIZE (v_memused vs)) =
      Inr (r1, x1, \<lparr>g_buf = rhead, g_capacity = 1024\<rparr>, v_memused vs + 1024)"
    using respond_headers_fits [OF assms(1-5,8), of "v_memused vs"] by (simp add: rhead_def x1_def)
  moreover have "x_body x1 = Some b" "x_content_length x1 = int (length b)"
    using assms(6,7) by (simp_all add: x1_def http_response_header_def)
  moreover have "grwmemcpy b (int (length b)) (\<lparr>g_buf = rhead, g_capacity = 1024\<rparr>, v_memused vs + 1024) =
      Inr (\<lparr>g_buf = reply, g_capacity = gcap\<rparr>, v_memused vs + gcap)"
    by (simp add: grwmemcpy_def gcap_def reply Let_def)
  ultimately show ?thesis by (simp add: http_respond_def)
qed

text \<open>A response that is written at once.\<close>

lemma write_all:
  assumes "s_buf (r_stream r) = Some b" "s_length (r_stream r) = int (length b)" "s_total_bytes (r_stream r) = 0" "b \<noteq> []"
    and "k_room (r_socket r) = []" "\<not> k_broken (r_socket r)" "v_errno v \<noteq> EPIPE" "\<not> has_flag r HTTP_CHUNKED_RESPONSE"
  shows "hs_write_response (v, r) =
    (let r1 = r\<lparr>r_socket := (r_socket r)\<lparr>k_out := k_out (r_socket r) @ b\<rparr>, r_stream := (r_stream r)\<lparr>s_total_bytes := int (length b)\<rparr>\<rparr>
     in if has_flag r HTTP_KEEP_ALIVE
        then Inr (v\<lparr>v_memused := v_memused v - s_capacity (r_stream r)\<rparr>,
          r1\<lparr>r_state := HTTP_SESSION_INIT, r_stream := (r_stream r1)\<lparr>s_buf := None\<rparr>, r_timeout := HTTP_KEEP_ALIVE_TIMEOUT\<rparr>)
        else Inr (v, set_flag HTTP_END_SESSION r1))"
proof -
  let ?r1 = "r\<lparr>r_socket := (r_socket r)\<lparr>k_out := k_out (r_socket r) @ b\<rparr>, r_stream := (r_stream r)\<lparr>s_total_bytes := int (length b)\<rparr>\<rparr>"
  have "hs_write_client_socket (v, r) = (True, (v, ?r1))"
    using assms by (simp add: hs_write_client_socket_def sock_write_def Let_def)
  moreover have "has_flag ?r1 f = has_flag r f" for f by (simp add: has_flag_def)
  ultimately show ?thesis
    using assms(1,2,8) by (simp add: hs_write_response_def hs_free_buffer_def)
qed

lemma respond_done:
  assumes "v \<noteq> []" "\<forall>h \<in> set hs. snd h \<noteq> []" "0 \<le> x_status x" "x_status x < 599"
    and "x_body x = Some b" "x_content_length x = int (length b)" "length (reply_head (v_date vs) (keep_alive v hs) x) < 1024"
    and "k_room k = []" "\<not> k_broken k" "v_errno vs \<noteq> EPIPE"
  obtains c r' where "http_respond x (vs, done_request m t v hs body cap k) = Inr c" "r_state (snd c) \<noteq> HTTP_SESSION_READ"
    "\<And>a. end_if_asked (c, a) = ((vs\<lparr>v_memused := v_memused vs - cap\<rparr>, r'), a)"
    "r_socket r' = k\<lparr>k_out := k_out k @ reply_text (v_date vs) (keep_alive v hs) x\<rparr>" "r_live r' = keep_alive v hs"
    "s_buf (r_stream r') = None" "keep_alive v hs \<Longrightarrow> r_state r' = HTTP_SESSION_INIT"
proof -
  let ?r = "done_request m t v hs body cap k" and ?keep = "keep_alive v hs"
  define r1 where "r1 = (if ?keep then set_flag HTTP_KEEP_ALIVE ?r else clear_flag HTTP_KEEP_ALIVE ?r)"
  define reply where "reply = reply_text (v_date vs) ?keep x"
  define gcap where "gcap = (if int (length reply) > 1024 then int (length reply) else 1024)"
  have fl: "r_flags ?r = HTTP_AUTOMATIC" by (simp add: done_request_def)
  have r1: "has_flag r1 HTTP_KEEP_ALIVE = ?keep" "\<not> has_flag r1 HTTP_CHUNKED_RESPONSE" "?keep \<Longrightarrow> \<not> has_flag r1 HTTP_END_SESSION"
    "hs_auto_detect_keep_alive ?r = Inr r1"
    using flags(1) [of ?r] has_clear_flag [of HTTP_KEEP_ALIVE ?r] flags(3,4,5) [OF fl] done_keep_alive [OF assms(1,2), of m t body cap k] by (simp_all add: r1_def)
  have k: "r_socket r1 = k" "r_live r1" "s_buf (r_stream r1) \<noteq> None" "s_capacity (r_stream r1) = cap"
    by (simp_all add: r1_def set_flag_def clear_flag_def done_request_def done_stream_def)
  have ne: "reply \<noteq> []" by (simp add: reply_def reply_text_def reply_head_def)
  let ?r2 = "r1\<lparr>r_stream := (r_stream r1)\<lparr>s_buf := Some reply, s_total_bytes := 0, s_length := int (length reply), s_capacity := gcap\<rparr>,
        r_state := HTTP_SESSION_WRITE\<rparr>"
  let ?v2 = "vs\<lparr>v_memused := v_memused vs + gcap - cap\<rparr>"
  have "http_respond x (vs, ?r) = http_end_response \<lparr>g_buf = reply, g_capacity = gcap\<rparr> (vs\<lparr>v_memused := v_memused vs + gcap\<rparr>, r1)"
    using respond_prints [OF r1(4) flags(2) [OF fl] r1(2) assms(3-6), of vs] assms(7) r1(1)
    by (simp only: reply_def gcap_def)
  also have "\<dots> = hs_write_response (?v2, ?r2)"
    using k by (cases "s_buf (r_stream r1)") (simp_all add: http_end_response_def hs_free_buffer_def)
  finally have res: "http_respond x (vs, ?r) = hs_write_response (?v2, ?r2)" .
  have hf: "has_flag (r1\<lparr>r_stream := s, r_state := y\<rparr>) f = has_flag r1 f" for s y f by (simp add: has_flag_def)
  let ?r3 = "?r2\<lparr>r_socket := k\<lparr>k_out := k_out k @ reply\<rparr>, r_stream := (r_stream ?r2)\<lparr>s_total_bytes := int (length reply)\<rparr>\<rparr>"
  have wr: "hs_write_response (?v2, ?r2) = (if ?keep
      then Inr (?v2\<lparr>v_memused := v_memused ?v2 - gcap\<rparr>,
        ?r3\<lparr>r_state := HTTP_SESSION_INIT, r_stream := (r_stream ?r3)\<lparr>s_buf := None\<rparr>, r_timeout := HTTP_KEEP_ALIVE_TIMEOUT\<rparr>)
      else Inr (?v2, set_flag HTTP_END_SESSION ?r3))"
    using write_all [of ?r2 reply ?v2] ne assms(8-10) r1(1,2) k(1) hf by (simp add: Let_def)
  show ?thesis
  proof (cases ?keep)
    case True
    let ?r4 = "?r3\<lparr>r_state := HTTP_SESSION_INIT, r_stream := (r_stream ?r3)\<lparr>s_buf := None\<rparr>, r_timeout := HTTP_KEEP_ALIVE_TIMEOUT\<rparr>"
    have "\<not> has_flag ?r4 HTTP_END_SESSION" using r1(3) [OF True] by (simp add: has_flag_def)
    then show ?thesis
      using True res wr k(2)
      by (intro that [of "(?v2\<lparr>v_memused := v_memused ?v2 - gcap\<rparr>, ?r4)" ?r4]) (simp_all add: end_if_asked_def reply_def)
  next
    case False
    let ?r4 = "set_flag HTTP_END_SESSION ?r3"
    have "hs_end_session (?v2, ?r4) = (vs\<lparr>v_memused := v_memused vs - cap\<rparr>,
        ?r4\<lparr>r_stream := (r_stream ?r4)\<lparr>s_buf := None\<rparr>, r_tokens := None, r_live := False\<rparr>)"
      by (simp add: hs_end_session_def hs_free_buffer_def set_flag_def)
    then show ?thesis
      using False res wr flags(6) [of ?r3]
      by (intro that [of "(?v2, ?r4)" "?r4\<lparr>r_stream := (r_stream ?r4)\<lparr>s_buf := None\<rparr>, r_tokens := None, r_live := False\<rparr>"])
        (simp_all add: end_if_asked_def, simp_all add: set_flag_def reply_def)
  qed
qed

end
