(* ===== verification/HTTP_Total.thy ===== *)
theory HTTP_Total
  imports HTTP_Reply
begin

text \<open>
  The loops of the HTTP server end whatever bytes arrive: the loop of the parser, the loop over the tokens
  of a session, and so the handling of every event. The contract of a request handler is the locale
  \<open>http_application\<close>.
\<close>

section \<open>Definitions\<close>

text \<open>The bytes of the buffer that have not been parsed.\<close>

definition unread :: "hs_stream \<Rightarrow> nat" where
  "unread s = nat (s_length s - s_index s)"

text \<open>Tokens after which the session does not go on reading.\<close>

definition stop_token :: "http_token \<Rightarrow> bool" where
  "stop_token t \<longleftrightarrow> tok_type t \<in> {HS_TOK_BODY, HS_TOK_BODY_STREAM, HS_TOK_CHUNK_BODY, HS_TOK_ERROR}"

text \<open>A body that is being read has a token with a type, so its end is reported.\<close>

definition body_open :: "http_parser \<Rightarrow> hs_stream \<Rightarrow> bool" where
  "body_open p s \<longleftrightarrow> tok_type (s_token s) \<in> {HS_TOK_BODY, HS_TOK_CHUNK_BODY} \<or> p_meta p = M_STR"

definition parse_inv :: "http_parser \<Rightarrow> hs_stream \<Rightarrow> bool" where
  "parse_inv p s \<longleftrightarrow>
     (p_state p \<in> {BD, CB} \<longrightarrow> body_open p s) \<and> (head_state (p_state p) \<longrightarrow> head_meta (p_meta p))"

text \<open>What decreases with every token that does not stop the session: the end of a request takes no character.\<close>

definition parse_work :: "http_parser \<Rightarrow> hs_stream \<Rightarrow> nat" where
  "parse_work p s = unread s + (if p_meta p = M_END then 1 else 0)"

text \<open>A result of the parser in a state with the invariant.\<close>

definition parse_ok :: "http_parser \<Rightarrow> hs_stream \<Rightarrow> (http_token \<times> http_parser \<times> hs_stream) result \<Rightarrow> bool" where
  "parse_ok p s x \<longleftrightarrow>
     (case x of
        Inl _ \<Rightarrow> True
      | Inr (tok, p', s') \<Rightarrow>
          stop_token tok \<or> parse_inv p' s' \<and> (tok_type tok = HS_TOK_NONE \<or> parse_work p' s' < parse_work p s))"

definition session_inv :: "http_request \<Rightarrow> bool" where
  "session_inv r \<longleftrightarrow> (r_state r = HTTP_SESSION_READ \<longrightarrow> parse_inv (r_parser r) (r_stream r))"

text \<open>
  The memory that is charged to other sessions than this one. Every operation of a session leaves it alone.
\<close>

definition mem_rest :: "http_conn \<Rightarrow> int" where
  "mem_rest c = v_memused (fst c) - buffered (snd c)"

definition time_ok :: "http_request \<Rightarrow> bool" where
  "time_ok r \<longleftrightarrow> 0 < r_timeout r \<and> r_timeout r \<le> HTTP_KEEP_ALIVE_TIMEOUT"

definition kept :: "http_conn \<Rightarrow> http_conn \<Rightarrow> bool" where
  "kept c c' \<longleftrightarrow> mem_rest c' = mem_rest c \<and> r_live (snd c') = r_live (snd c) \<and> (time_ok (snd c) \<longrightarrow> time_ok (snd c'))"

text \<open>A session that waits for the next request has no buffer: the stream is overwritten when it comes.\<close>

definition init_ok :: "http_request \<Rightarrow> bool" where
  "init_ok r \<longleftrightarrow> (r_state r = HTTP_SESSION_INIT \<longrightarrow> s_buf (r_stream r) = None)"

text \<open>A session between two events, and a step that its memory is accounted for in.\<close>

definition session_ok :: "http_request \<Rightarrow> bool" where
  "session_ok r \<longleftrightarrow> time_ok r \<and> init_ok r \<and> session_inv r"

definition session_step :: "http_conn \<Rightarrow> http_conn \<Rightarrow> bool" where
  "session_step c c' \<longleftrightarrow> mem_rest c' = mem_rest c \<and>
     (if r_live (snd c') then session_ok (snd c') else s_buf (r_stream (snd c')) = None)"

definition same_place :: "hs_stream \<Rightarrow> hs_stream \<Rightarrow> bool" where
  "same_place s s' \<longleftrightarrow> s_index s' = s_index s \<and> s_length s' = s_length s \<and> s_consumed s' = s_consumed s"

text \<open>The parser does not give the buffer away or change its capacity.\<close>

definition same_buf :: "hs_stream \<Rightarrow> hs_stream \<Rightarrow> bool" where
  "same_buf s s' \<longleftrightarrow> (s_buf s' = None \<longleftrightarrow> s_buf s = None) \<and> s_capacity s' = s_capacity s"

section \<open>Lemmas\<close>

subsection \<open>A character\<close>

lemma same_place_simps:
  "same_place s s" "same_place s (if b then x else y) \<longleftrightarrow> (if b then same_place s x else same_place s y)"
  "same_place s (hs_stream_anchor x) = same_place s x" "same_place s (hs_stream_begin_token type x) = same_place s x"
  "same_place s (x\<lparr>s_token := tok\<rparr>) = same_place s x"
  by (auto simp: same_place_def hs_stream_anchor_def hs_stream_begin_token_def)

lemma enter_place:
  assumes "hs_enter behind src dst p s = Inr (e, p', s')"
  shows "same_place s s'"
  using assms
  by (cases "src = dst"; cases "dst = HK"; cases "dst = HS")
    (auto simp: hs_enter_def Let_def and_then_eq_Inr hs_stream_emit_def same_place_simps)

lemma enter_token:
  "hs_enter behind src dst p s = Inr (e, p', s') \<Longrightarrow> dst \<notin> {HK, HS} \<Longrightarrow> e = no_token"
  by (auto simp: hs_enter_def Let_def and_then_eq_Inr split: if_splits)

lemma enter_body_open:
  assumes "hs_enter behind src dst p s = Inr (e, p', s')" "dst \<in> {BD, CB}" "src = dst \<Longrightarrow> body_open p s"
  shows "body_open p' s'"
proof (cases "src = dst")
  case True
  then show ?thesis
    using assms by (auto simp: hs_enter_def Let_def body_open_def hs_stream_anchor_def split: if_splits)
next
  case False
  then have "tok_type (s_token s') = hs_token_start_states behind dst"
    using assms(1,2) by (auto simp: hs_enter_def Let_def and_then_eq_Inr hs_stream_begin_token_def)
  then show ?thesis using assms(2) by (auto simp: body_open_def)
qed

lemma switch_place:
  assumes "hs_switch c dst e p s = Inr (e', p', s')" "dst \<notin> {BD, CB}"
  shows "same_place s s'"
  using assms by (cases dst) (auto simp: hs_switch_def and_then_eq_Inr hs_stream_emit_def same_place_simps)

lemma headers_end_token:
  assumes "hs_headers_end e p s = Inr (e', p')"
  shows "e' = e \<or> stop_token e'"
proof -
  obtain a b where "e' = (let e1 = (if a then e\<lparr>tok_type := HS_TOK_BODY_STREAM\<rparr> else e)
      in if b then e1\<lparr>tok_type := HS_TOK_BODY\<rparr> else e1)"
    using assms unfolding hs_headers_end_def and_then_eq_Inr Let_def by (elim exE conjE) blast
  then show ?thesis by (auto simp: stop_token_def)
qed

lemma switch_tail_token:
  assumes "hs_switch c dst no_token p s = Inr (e', p', s')" "dst \<notin> {BD, CB}" "\<not> head_state dst"
  shows "tok_type e' = HS_TOK_NONE \<or> stop_token e'"
  using assms
  by (cases dst) (auto simp: hs_switch_def head_state_def and_then_eq_Inr stop_token_def no_token_def
      dest!: headers_end_token)

lemma body_step:
  assumes "hs_body dst e p s = Inr (e', p', s')" "body_open p s"
  shows "stop_token e' \<or> e' = e \<and> s_index s' = s_length s' \<and> s_length s' = s_length s \<and> s_consumed s' \<and>
    p_state p' = p_state p \<and> body_open p' s'"
  using assms
  by (auto simp: hs_body_def Let_def and_then_eq_Inr hs_stream_emit_def hs_stream_jump_def hs_stream_jumpall_def
      set_token_len_def hs_stream_begin_token_def body_open_def stop_token_def split: if_splits)

lemma consume_index:
  "s_index (hs_stream_consume s) = (if s_consumed s then s_index s else s_index s + 1)"
  "s_length (hs_stream_consume s) = s_length s" "tok_type (s_token (hs_stream_consume s)) = tok_type (s_token s)"
  by (simp_all add: hs_stream_consume_def set_token_len_def)

lemma parse_char_parts:
  assumes "parse_char behind c p s = Inr (tok, p', s')"
  obtains dst e p1 s1 s2 where "hs_enter behind (p_state p) dst (p\<lparr>p_state := dst\<rparr>) s = Inr (e, p1, s1)"
    "hs_switch c dst e p1 s1 = Inr (tok, p', s2)" "s' = hs_stream_consume s2"
proof -
  obtain d r where d: "and_then (hs_transition_action behind c (p_state p) d (p\<lparr>p_state := d\<rparr>) s)
      (\<lambda>(tok, p', s'). Inr (tok, p', hs_stream_consume s')) = Inr (tok, p', s')"
    using assms unfolding parse_char_def Let_def and_then_eq_Inr [of "table_at _ _"] by (elim exE conjE) (rule that)
  show ?thesis
    using d unfolding hs_transition_action_def and_then_assoc and_then_eq_Inr [of "hs_enter _ _ _ _ _"] case_prod_unfold
    by (elim exE conjE) (force simp: and_then_eq_Inr intro: that)
qed

lemma parse_char_step:
  assumes "parse_char behind c p s = Inr (tok, p', s')" "parse_inv p s" "s_index s < s_length s" "\<not> s_consumed s"
  shows "stop_token tok \<or> unread s' < unread s \<and> parse_inv p' s' \<and> (tok_type tok \<noteq> HS_TOK_NONE \<longrightarrow> p_meta p' \<noteq> M_END)"
proof -
  obtain dst e p1 s1 s2 where st: "hs_enter behind (p_state p) dst (p\<lparr>p_state := dst\<rparr>) s = Inr (e, p1, s1)"
    "hs_switch c dst e p1 s1 = Inr (tok, p', s2)" "s' = hs_stream_consume s2"
    by (rule parse_char_parts [OF assms(1)])
  have p1: "p_state p1 = dst" using hs_enter_state [OF st(1)] by simp
  show ?thesis
  proof (cases "dst \<in> {BD, CB}")
    case True
    then have "body_open p1 s1"
      using enter_body_open [OF st(1)] assms(2) by (auto simp: parse_inv_def body_open_def)
    moreover have "hs_body dst e p1 s1 = Inr (tok, p', s2)" "e = no_token"
      using True st(2) enter_token [OF st(1)] by (auto simp: hs_switch_def)
    ultimately consider (stop) "stop_token tok" | (all) "tok = no_token" "s_index s2 = s_length s2" "s_consumed s2"
        "p_state p' = dst" "body_open p' s2"
      using body_step [of dst e p1 s1 tok p' s2] p1 by blast
    then show ?thesis
    proof cases
      case stop
      then show ?thesis by simp
    next
      case all
      then have "s' = s2" by (simp add: st(3) hs_stream_consume_def)
      moreover have "\<not> head_state dst" using True by (auto simp: head_state_def)
      ultimately show ?thesis using all assms(3) by (simp add: unread_def parse_inv_def no_token_def)
    qed
  next
    case False
    have less: "unread s' < unread s"
      using switch_place [OF st(2) False] enter_place [OF st(1)] assms(3,4) by (simp add: st(3) consume_index unread_def same_place_def)
    have state: "p_state p' = dst" using hs_switch_state [OF st(2)] False p1 by auto
    show ?thesis
    proof (cases "head_state dst")
      case True
      then have src: "head_state (p_state p)" using parse_char_body [OF assms(1)] state by blast
      then have "head_meta (p_meta p1)"
        using hs_enter_head [OF st(1)] assms(2) by (auto simp: keeps_head_def parse_inv_def head_state_def)
      then have "head_meta (p_meta p')" using hs_switch_head [OF st(2)] True by (auto simp: keeps_head_def)
      then show ?thesis using less state False by (auto simp: parse_inv_def head_meta_def)
    next
      case tail: False
      then have "e = no_token" using enter_token [OF st(1)] by (auto simp: head_state_def)
      then have "tok_type tok = HS_TOK_NONE \<or> stop_token tok" using switch_tail_token [OF _ False tail] st(2) by blast
      then show ?thesis using less state False tail by (auto simp: parse_inv_def)
    qed
  qed
qed

subsection \<open>The buffer\<close>

lemma same_buf_simps:
  "same_buf s s" "same_buf s (if b then x else y) \<longleftrightarrow> (if b then same_buf s x else same_buf s y)"
  "same_buf s (hs_stream_anchor x) = same_buf s x" "same_buf s (hs_stream_begin_token type x) = same_buf s x"
  "same_buf s (x\<lparr>s_token := tok\<rparr>) = same_buf s x" "same_buf s (x\<lparr>s_consumed := b\<rparr>) = same_buf s x"
  "same_buf s (hs_stream_consume x) = same_buf s x"
  "same_buf s (snd (hs_stream_jump n x)) = same_buf s x" "same_buf s (snd (hs_stream_jumpall x)) = same_buf s x"
  by (auto simp: same_buf_def hs_stream_anchor_def hs_stream_begin_token_def hs_stream_consume_def set_token_len_def
      hs_stream_jump_def hs_stream_jumpall_def Let_def)

lemma same_buf_trans: "same_buf s s' \<Longrightarrow> same_buf s' s'' \<Longrightarrow> same_buf s s''"
  by (simp add: same_buf_def)

lemma shift_buf: "hs_stream_shift s = Inr s' \<Longrightarrow> same_buf s s'"
  by (auto simp: hs_stream_shift_def Let_def and_then_eq_Inr same_buf_def copy_within_def split: if_splits option.splits)

lemma enter_buf:
  assumes "hs_enter behind src dst p s = Inr (e, p', s')"
  shows "same_buf s s'"
  using assms
  by (cases "src = dst"; cases "dst = HK"; cases "dst = HS")
    (auto simp: hs_enter_def Let_def and_then_eq_Inr hs_stream_emit_def same_buf_simps)

lemma body_buf:
  assumes "hs_body dst e p s = Inr (e', p', s')"
  shows "same_buf s s'"
proof -
  define s1 where "s1 = (if p_meta p = M_STR then hs_stream_begin_token HS_TOK_CHUNK_BODY s else s)"
  obtain b s2 where j: "hs_stream_jump (narrow32 (p_content_length p - p_body_consumed p)) s1 = (b, s2)" by (metis prod.exhaust)
  obtain n s3 where a: "hs_stream_jumpall s2 = (n, s3)" by (metis prod.exhaust)
  have "same_buf s s1" by (simp add: s1_def same_buf_simps)
  then have s2: "same_buf s s2" using same_buf_simps(8) [of s "narrow32 (p_content_length p - p_body_consumed p)" s1] by (simp add: j)
  then have s3: "same_buf s s3" using same_buf_simps(9) [of s s2] by (simp add: a)
  have "same_buf s s'" if "hs_stream_shift (s3\<lparr>s_token := no_token\<rparr>) = Inr s'"
    using shift_buf [OF that] s3 by (simp add: same_buf_def)
  then show ?thesis
    using assms s2 s3
    by (auto simp: hs_body_def Let_def s1_def [symmetric] j a and_then_eq_Inr hs_stream_emit_def same_buf_simps
        split: bool.splits if_splits)
qed

lemma switch_buf:
  assumes "hs_switch c dst e p s = Inr (e', p', s')"
  shows "same_buf s s'"
  using assms
  by (cases dst) (auto simp: hs_switch_def and_then_eq_Inr hs_stream_emit_def same_buf_simps dest: body_buf)

lemma parse_char_buf:
  assumes "parse_char behind c p s = Inr (tok, p', s')"
  shows "same_buf s s'"
proof -
  obtain dst e p1 s1 s2 where st: "hs_enter behind (p_state p) dst (p\<lparr>p_state := dst\<rparr>) s = Inr (e, p1, s1)"
    "hs_switch c dst e p1 s1 = Inr (tok, p', s2)" "s' = hs_stream_consume s2"
    by (rule parse_char_parts [OF assms])
  show ?thesis
    using same_buf_trans [OF enter_buf [OF st(1)] switch_buf [OF st(2)]] by (simp add: st(3) same_buf_simps)
qed

lemma parse_loop_buf: "parse_loop n behind p s = Some (Inr (tok, p', s')) \<Longrightarrow> same_buf s s'"
proof (induction n arbitrary: p s)
  case 0
  then show ?case by (simp add: parse_loop.simps)
next
  case (Suc n)
  note parse_loop.simps [simp]
  let ?s = "s\<lparr>s_consumed := False\<rparr>"
  have s: "same_buf ?s x = same_buf s x" for x by (simp add: same_buf_def)
  consider (fin) "parse_end p ?s = Inr (tok, p', s')"
    | (char) c tok2 p2 s2 where "parse_char behind c p ?s = Inr (tok2, p2, s2)"
      "(if tok_type tok2 \<noteq> HS_TOK_NONE then Some (Inr (tok2, p2, s2)) else parse_loop n behind p2 s2) = Some (Inr (tok, p', s'))"
    using Suc.prems by (auto simp: hs_stream_next_def Let_def and_then_def split: sum.splits if_splits)
  then show ?case
  proof cases
    case fin
    then show ?thesis
      by (auto simp: parse_end_def and_then_eq_Inr Let_def same_buf_simps s [symmetric] split: if_splits dest: shift_buf)
  next
    case char
    then show ?thesis
      using parse_char_buf [OF char(1)] Suc.IH [of p2 s2] same_buf_trans [of s s2 s'] by (auto simp: s split: if_splits)
  qed
qed

lemma http_parse_buf: "http_parse behind p s = Some (Inr (tok, p', s')) \<Longrightarrow> same_buf s s'"
  by (auto simp: http_parse_def same_buf_simps split: sum.splits if_splits dest: parse_loop_buf)

subsection \<open>The loop of the parser\<close>

lemma shift_token: "hs_stream_shift s = Inr s' \<Longrightarrow> tok_type (s_token s') = tok_type (s_token s) \<and> (unread s = 0 \<longrightarrow> unread s' = 0)"
  by (auto simp: hs_stream_shift_def Let_def and_then_eq_Inr unread_def split: if_splits)

lemma meta_emit_work:
  assumes "hs_meta_emit p = Inr (tok, p')" "parse_inv p s"
  shows "stop_token tok \<or> parse_inv p' s \<and> (if tok_type tok = HS_TOK_NONE then p' = p else parse_work p' s < parse_work p s)"
  using assms
  by (auto simp: hs_meta_emit_def and_then_eq_Inr stop_token_def parse_inv_def parser_init_def head_meta_def parse_work_def
      no_token_def split: if_splits)

lemma parse_end_work:
  assumes "parse_end p s = Inr (tok, p', s')" "parse_inv p s" "unread s = 0"
  shows "stop_token tok \<or> parse_inv p' s' \<and> (tok_type tok = HS_TOK_NONE \<or> parse_work p' s' < parse_work p s)"
proof -
  obtain t q where t: "(if p_state p = CB then hs_stream_shift s else Inr s) = Inr s'" "hs_meta_emit p = Inr (t, q)" "p' = q"
    "tok = t \<or> stop_token tok"
    using assms(1) by (auto simp: parse_end_def and_then_eq_Inr Let_def stop_token_def)
  have s': "tok_type (s_token s') = tok_type (s_token s)" "unread s' = 0"
    using t(1) shift_token [of s s'] assms(3) by (auto split: if_splits)
  have "parse_inv p s'" using assms(2) s'(1) by (simp add: parse_inv_def body_open_def)
  then show ?thesis
    using meta_emit_work [OF t(2), of s'] t(3,4) s'(2) assms(3) by (auto simp: parse_work_def split: if_splits)
qed

lemma parse_loop_work:
  assumes "parse_inv p s" "unread s < n"
  shows "\<exists>x. parse_loop n behind p s = Some x \<and> parse_ok p s x"
  using assms
proof (induction n arbitrary: p s)
  case 0
  then show ?case by simp
next
  case (Suc n)
  note parse_loop.simps [simp]
  let ?s = "s\<lparr>s_consumed := False\<rparr>"
  have inv: "parse_inv p ?s" "unread ?s = unread s" "parse_work p ?s = parse_work p s"
    using Suc.prems(1) by (simp_all add: parse_inv_def body_open_def unread_def parse_work_def)
  consider (fin) "s_index s \<ge> s_length s" | (bad) e where "s_index s < s_length s" "byte_at ?s (s_index s) = Inl e"
    | (char) c where "s_index s < s_length s" "byte_at ?s (s_index s) = Inr c"
    by (cases "byte_at ?s (s_index s)") force+
  then show ?case
  proof cases
    case fin
    then have "unread ?s = 0" by (simp add: unread_def)
    then have "parse_ok p s (parse_end p ?s)"
      using parse_end_work [OF _ inv(1)] inv(3) by (auto simp: parse_ok_def split: sum.split prod.split)
    then show ?thesis using fin by (simp add: hs_stream_next_def)
  next
    case bad
    then show ?thesis by (simp add: hs_stream_next_def parse_ok_def)
  next
    case char
    show ?thesis
    proof (cases "parse_char behind c p ?s")
      case (Inl e)
      then show ?thesis using char by (simp add: hs_stream_next_def parse_ok_def)
    next
      case (Inr r)
      obtain tok p2 s2 where r: "r = (tok, p2, s2)" by (cases r)
      have eq: "parse_loop (Suc n) behind p s =
          (if tok_type tok \<noteq> HS_TOK_NONE then Some (Inr (tok, p2, s2)) else parse_loop n behind p2 s2)"
        using char Inr by (simp add: hs_stream_next_def r)
      have step: "stop_token tok \<or> unread s2 < unread s \<and> parse_inv p2 s2 \<and> (tok_type tok \<noteq> HS_TOK_NONE \<longrightarrow> p_meta p2 \<noteq> M_END)"
        using parse_char_step [OF Inr [unfolded r] inv(1)] char(1) inv(2) by simp
      show ?thesis
      proof (cases "tok_type tok = HS_TOK_NONE")
        case False
        then have "parse_ok p s (Inr (tok, p2, s2))" using step by (auto simp: parse_ok_def parse_work_def)
        then show ?thesis using False unfolding eq by simp
      next
        case True
        then have s2: "unread s2 < unread s" "parse_inv p2 s2" using step by (auto simp: stop_token_def)
        then have "parse_work p2 s2 \<le> parse_work p s" by (auto simp: parse_work_def)
        then have "parse_ok p2 s2 x \<Longrightarrow> parse_ok p s x" for x by (auto simp: parse_ok_def split: sum.splits)
        then show ?thesis using Suc.IH [OF s2(2)] s2(1) Suc.prems(2) True unfolding eq by fastforce
      qed
    qed
  qed
qed

lemma http_parse_work:
  assumes "parse_inv p s"
  shows "\<exists>x. http_parse behind p s = Some x \<and> parse_ok p s x"
proof (cases "hs_meta_emit p")
  case (Inl e)
  then show ?thesis by (simp add: http_parse_def parse_ok_def)
next
  case (Inr r)
  obtain tok p1 where r: "r = (tok, p1)" by (cases r)
  show ?thesis
  proof (cases "tok_type tok = HS_TOK_NONE")
    case True
    then have "p1 = p" using meta_emit_work [OF Inr [unfolded r] assms] by (auto simp: stop_token_def)
    then show ?thesis
      using True Inr r parse_loop_work [OF assms, of "Suc (nat (s_length s - s_index s))" behind]
      by (simp add: http_parse_def unread_def)
  next
    case False
    then show ?thesis
      using meta_emit_work [OF Inr [unfolded r] assms] Inr r by (auto simp: http_parse_def parse_ok_def)
  qed
qed

subsection \<open>Memory\<close>

lemma buffered_updates [simp]:
  "buffered (r\<lparr>r_state := st\<rparr>) = buffered r" "buffered (r\<lparr>r_timeout := n\<rparr>) = buffered r" "buffered (r\<lparr>r_tokens := toks\<rparr>) = buffered r"
  "buffered (r\<lparr>r_flags := fl\<rparr>) = buffered r" "buffered (r\<lparr>r_write_event := b\<rparr>) = buffered r" "buffered (r\<lparr>r_parser := p\<rparr>) = buffered r"
  "buffered (r\<lparr>r_socket := k\<rparr>) = buffered r" "buffered (r\<lparr>r_live := b\<rparr>) = buffered r"
  by (simp_all add: buffered_def split: option.split)

lemma kept_refl [simp]: "kept c c"
  by (simp add: kept_def)

lemma kept_trans: "kept c c' \<Longrightarrow> kept c' c'' \<Longrightarrow> kept c c''"
  by (simp add: kept_def)

lemma free_buffer_kept: "kept c (hs_free_buffer c)"
  by (auto simp: kept_def mem_rest_def hs_free_buffer_def buffered_def time_ok_def split: prod.split option.split)

lemma free_buffer_none: "s_buf (r_stream (snd (hs_free_buffer c))) = None"
  by (auto simp: hs_free_buffer_def split: prod.split option.split)

lemma free_buffer_state: "r_state (snd (hs_free_buffer c)) = r_state (snd c)"
  by (auto simp: hs_free_buffer_def split: prod.split option.split)

lemma write_client_kept:
  "kept c (snd (hs_write_client_socket c)) \<and> r_state (snd (snd (hs_write_client_socket c))) = r_state (snd c) \<and>
   s_buf (r_stream (snd (snd (hs_write_client_socket c)))) = s_buf (r_stream (snd c))"
  by (auto simp: hs_write_client_socket_def Let_def kept_def mem_rest_def buffered_def time_ok_def split: prod.split option.split)

lemma write_response_kept:
  assumes "hs_write_response c = Inr c'"
  shows "kept c c'" "init_ok (snd c) \<Longrightarrow> init_ok (snd c')" "r_state (snd c) \<noteq> HTTP_SESSION_READ \<Longrightarrow> r_state (snd c') \<noteq> HTTP_SESSION_READ"
proof -
  obtain b v r where w: "hs_write_client_socket c = (b, (v, r))" by (metis prod.exhaust)
  have k: "kept c (v, r)" "r_state r = r_state (snd c)" "s_buf (r_stream r) = s_buf (r_stream (snd c))"
    using write_client_kept [of c] by (simp_all add: w)
  let ?r = "r\<lparr>r_state := HTTP_SESSION_INIT\<rparr>"
  obtain v2 r2 where f: "hs_free_buffer (v, ?r) = (v2, r2)" by (metis prod.exhaust)
  have f': "kept (v, ?r) (v2, r2)" "s_buf (r_stream r2) = None" "r_state r2 = HTTP_SESSION_INIT"
    using free_buffer_kept [of "(v, ?r)"] free_buffer_none [of "(v, ?r)"] free_buffer_state [of "(v, ?r)"] by (simp_all add: f)
  have base: "kept (v, r) (v, set_flag HTTP_END_SESSION r)" "kept (v, r) (v2, r2\<lparr>r_timeout := HTTP_KEEP_ALIVE_TIMEOUT\<rparr>)"
    "kept (v, r) (v, r\<lparr>r_write_event := True, r_state := HTTP_SESSION_WRITE, r_timeout := HTTP_REQUEST_TIMEOUT\<rparr>)"
    using f'(1) by (simp_all add: kept_def mem_rest_def time_ok_def set_flag_def HTTP_KEEP_ALIVE_TIMEOUT_def HTTP_REQUEST_TIMEOUT_def)
  consider (fin) "c' = (v, set_flag HTTP_END_SESSION r)"
    | (more) "c' = (v, r\<lparr>r_write_event := True, r_state := HTTP_SESSION_WRITE, r_timeout := HTTP_REQUEST_TIMEOUT\<rparr>)"
    | (again) "c' = (v2, r2\<lparr>r_timeout := HTTP_KEEP_ALIVE_TIMEOUT\<rparr>)"
    using assms by (auto simp: hs_write_response_def w f split: bool.splits if_splits)
  note cases = this
  show "kept c c'" using cases k(1) base by cases (auto intro: kept_trans)
  show "init_ok (snd c')" if "init_ok (snd c)"
    using cases that k f'(2,3) by cases (auto simp: init_ok_def set_flag_def)
  show "r_state (snd c') \<noteq> HTTP_SESSION_READ" if "r_state (snd c) \<noteq> HTTP_SESSION_READ"
    using cases that k f'(2,3) by cases (auto simp: set_flag_def)
qed

lemma grwprintf_mem: "grwprintf text (g, mem) = Inr (g', mem') \<Longrightarrow> mem' - g_capacity g' = mem - g_capacity g"
  by (auto simp: grwprintf_def Let_def split: if_splits)

lemma print_headers_mem: "print_headers hs (g, mem) = Inr (g', mem') \<Longrightarrow> mem' - g_capacity g' = mem - g_capacity g"
proof (induction hs arbitrary: g mem)
  case (Cons h hs)
  obtain g1 mem1 where "grwprintf (fst h @ '': '' @ snd h @ eol) (g, mem) = Inr (g1, mem1)" "print_headers hs (g1, mem1) = Inr (g', mem')"
    using Cons.prems by (cases h) (auto simp: and_then_eq_Inr)
  then show ?case using Cons.IH grwprintf_mem by metis
qed simp

lemma buffer_headers_mem:
  assumes "http_buffer_headers r x (g, mem) = Inr (g', mem')"
  shows "mem' - g_capacity g' = mem - g_capacity g"
proof -
  obtain g1 m1 g2 m2 where "print_headers (x_headers x) (g, mem) = Inr (g1, m1)"
    "(if has_flag r HTTP_CHUNKED_RESPONSE then Inr (g1, m1)
      else grwprintf (''Content-Length: '' @ to_string (x_content_length x) @ eol) (g1, m1)) = Inr (g2, m2)"
    "grwprintf eol (g2, m2) = Inr (g', mem')"
    using assms unfolding http_buffer_headers_def and_then_eq_Inr by (metis prod.exhaust)
  then show ?thesis
    using print_headers_mem [of "x_headers x" g mem g1 m1] grwprintf_mem [of _ g1 m1 g2 m2] grwprintf_mem [of eol g2 m2 g' mem']
    by (auto split: if_splits)
qed

lemma memcpy_mem: "grwmemcpy src n (g, mem) = Inr (g', mem') \<Longrightarrow> mem' - g_capacity g' = mem - g_capacity g"
  by (auto simp: grwmemcpy_def Let_def split: if_splits)

text \<open>The headers only change the flags of the request.\<close>

lemma keep_alive_flags: "hs_auto_detect_keep_alive r = Inr r' \<Longrightarrow> \<exists>fl. r' = r\<lparr>r_flags := fl\<rparr>"
proof -
  assume "hs_auto_detect_keep_alive r = Inr r'"
  then have "r' = r \<or> r' = clear_flag HTTP_KEEP_ALIVE r \<or> r' = set_flag HTTP_KEEP_ALIVE r"
    by (auto simp: hs_auto_detect_keep_alive_def and_then_eq_Inr split: option.splits)
  moreover have "r = r\<lparr>r_flags := r_flags r\<rparr>" by (cases r) simp
  ultimately show ?thesis unfolding set_flag_def clear_flag_def by blast
qed

lemma respond_headers_mem:
  assumes "http_respond_headers date r x (grwprintf_init n mem) = Inr (r', x', g, mem')"
  shows "mem' - g_capacity g = mem" "\<exists>fl. r' = r\<lparr>r_flags := fl\<rparr>"
proof -
  obtain r1 x1 g1 m1 line where h: "(if has_flag r HTTP_AUTOMATIC then hs_auto_detect_keep_alive r else Inr r) = Inr r1"
    "grwprintf line (grwprintf_init n mem) = Inr (g1, m1)" "http_buffer_headers r1 x1 (g1, m1) = Inr (g, mem')" "r' = r1"
    using assms unfolding http_respond_headers_def Let_def and_then_eq_Inr by auto
  show "mem' - g_capacity g = mem"
    using grwprintf_mem [OF h(2) [unfolded grwprintf_init_def]] buffer_headers_mem [OF h(3)] by simp
  show "\<exists>fl. r' = r\<lparr>r_flags := fl\<rparr>"
    using h(1,4) keep_alive_flags [of r r1] by (cases "has_flag r HTTP_AUTOMATIC") (auto intro!: exI [of _ "r_flags r"])
qed

lemma end_response_kept:
  assumes "http_end_response g (v\<lparr>v_memused := v_memused v + g_capacity g\<rparr>, r) = Inr c"
  shows "kept (v, r) c" "init_ok (snd c)" "r_state (snd c) \<noteq> HTTP_SESSION_READ"
proof -
  let ?v = "v\<lparr>v_memused := v_memused v + g_capacity g\<rparr>"
  obtain v1 r1 where f: "hs_free_buffer (?v, r) = (v1, r1)" by (metis prod.exhaust)
  let ?r = "r1\<lparr>r_stream := (r_stream r1)\<lparr>s_buf := Some (g_buf g), s_total_bytes := 0, s_length := int (length (g_buf g)),
      s_capacity := g_capacity g\<rparr>, r_state := HTTP_SESSION_WRITE\<rparr>"
  have w: "hs_write_response (v1, ?r) = Inr c" using assms by (simp add: http_end_response_def f)
  have "kept (?v, r) (v1, r1)" "s_buf (r_stream r1) = None"
    using free_buffer_kept [of "(?v, r)"] free_buffer_none [of "(?v, r)"] by (simp_all add: f)
  then have "kept (v, r) (v1, ?r)" by (simp add: kept_def mem_rest_def buffered_def time_ok_def)
  then show "kept (v, r) c" using write_response_kept(1) [OF w] by (rule kept_trans)
  show "init_ok (snd c)" using write_response_kept(2) [OF w] by (simp add: init_ok_def)
  show "r_state (snd c) \<noteq> HTTP_SESSION_READ" using write_response_kept(3) [OF w] by simp
qed

lemma respond_kept:
  assumes "http_respond x (v, r) = Inr c"
  shows "kept (v, r) c" "init_ok (snd c)" "r_state (snd c) \<noteq> HTTP_SESSION_READ"
proof -
  obtain r1 x1 g1 m1 g m where h: "http_respond_headers (v_date v) r x (grwprintf_init HTTP_RESPONSE_BUF_SIZE (v_memused v)) = Inr (r1, x1, g1, m1)"
    "(case x_body x1 of None \<Rightarrow> Inr (g1, m1) | Some body \<Rightarrow> grwmemcpy body (x_content_length x1) (g1, m1)) = Inr (g, m)"
    "http_end_response g (v\<lparr>v_memused := m\<rparr>, r1) = Inr c"
    using assms by (auto simp: http_respond_def and_then_eq_Inr)
  obtain fl where fl: "r1 = r\<lparr>r_flags := fl\<rparr>" using respond_headers_mem(2) [OF h(1)] by blast
  have "m - g_capacity g = m1 - g_capacity g1" using h(2) by (auto split: option.splits dest: memcpy_mem)
  then have m: "m = v_memused v + g_capacity g" using respond_headers_mem(1) [OF h(1)] by simp
  have "kept (v, r) (v, r1)" by (simp add: fl kept_def mem_rest_def time_ok_def)
  then show "kept (v, r) c" using end_response_kept(1) [OF h(3) [unfolded m]] by (rule kept_trans)
  show "init_ok (snd c)" "r_state (snd c) \<noteq> HTTP_SESSION_READ" using end_response_kept(2,3) [OF h(3) [unfolded m]] by simp_all
qed

lemma error_response_kept:
  assumes "hs_error_response code message c = Inr c'"
  shows "kept c c'" "init_ok (snd c')" "r_state (snd c') \<noteq> HTTP_SESSION_READ"
proof -
  obtain x c1 where h: "http_respond x (fst c, snd c) = Inr c1" "hs_write_response c1 = Inr c'"
    using assms unfolding hs_error_response_def and_then_eq_Inr by auto
  show "kept c c'" using kept_trans [OF respond_kept(1) [OF h(1)] write_response_kept(1) [OF h(2)]] by simp
  show "init_ok (snd c')" using respond_kept(2) [OF h(1)] write_response_kept(2) [OF h(2)] by simp
  show "r_state (snd c') \<noteq> HTTP_SESSION_READ" using respond_kept(3) [OF h(1)] write_response_kept(3) [OF h(2)] by simp
qed

subsection \<open>Reading\<close>

lemma read_loop_mem:
  "read_loop k s mem = (b, k', s', mem') \<Longrightarrow>
    mem' - s_capacity s' = mem - s_capacity s \<and> (s_buf s' = None \<longleftrightarrow> s_buf s = None) \<and> s_token s' = s_token s"
proof (induction k s mem rule: read_loop.induct)
  case (1 k s mem)
  obtain n bytes k1 where r: "sock_read (s_capacity s - s_length s) k = (n, bytes, k1)" by (metis prod.exhaust)
  let ?s = "if n > 0 then put_bytes bytes s else s"
  obtain s1 m1 where g: "grow (?s, mem) = (s1, m1)" by (metis prod.exhaust)
  have "m1 - s_capacity s1 = mem - s_capacity s" "s_buf s1 = None \<longleftrightarrow> s_buf s = None" "s_token s1 = s_token s"
    using g by (auto simp: grow_def put_bytes_def Let_def split: if_splits)
  moreover have "read_loop k s mem = (if n > 0 \<and> s_capacity s1 < HTTP_MAX_REQUEST_BUF_SIZE then read_loop k1 s1 m1 else (n, k1, s1, m1))"
    using r g by (simp add: read_loop.simps [of k s mem])
  ultimately show ?case using 1 r g by (simp split: if_splits)
qed

lemma read_socket_kept:
  assumes "hs_stream_read_socket c = (b, c')"
  shows "kept c c'" "r_state (snd c') = r_state (snd c)" "r_parser (snd c') = r_parser (snd c)"
    "tok_type (s_token (r_stream (snd c'))) = tok_type (s_token (r_stream (snd c)))"
proof -
  obtain v r where c: "c = (v, r)" by (cases c)
  obtain s1 mem where sm: "(s1, mem) = (case s_buf (r_stream r) of
      None \<Rightarrow> ((r_stream r)\<lparr>s_buf := Some [], s_capacity := HTTP_REQUEST_BUF_SIZE\<rparr>, v_memused v + HTTP_REQUEST_BUF_SIZE)
    | Some _ \<Rightarrow> (r_stream r, v_memused v))"
    by (metis prod.exhaust)
  have s1: "s_buf s1 \<noteq> None" "mem - s_capacity s1 = v_memused v - buffered r" "s_token s1 = s_token (r_stream r)"
    using sm by (auto simp: buffered_def split: option.splits)
  obtain n k s2 mem2 where rl: "read_loop (r_socket r) s1 mem = (n, k, s2, mem2)" by (metis prod.exhaust)
  have s2: "s_buf s2 \<noteq> None" "mem2 - s_capacity s2 = v_memused v - buffered r" "s_token s2 = s_token (r_stream r)"
    using read_loop_mem [OF rl] s1 by simp_all
  have c': "c' = c \<or> (\<exists>v'. v_memused v' = mem2 \<and> c' = (v', r\<lparr>r_stream := s2, r_socket := k\<rparr>))"
    using assms rl by (auto simp: hs_stream_read_socket_def c Let_def sm [symmetric] split: if_splits)
  have "buffered (r\<lparr>r_stream := s2, r_socket := k\<rparr>) = s_capacity s2" using s2(1) by (auto simp: buffered_def)
  then have "kept c (v', r\<lparr>r_stream := s2, r_socket := k\<rparr>)" if "v_memused v' = mem2" for v'
    using s2(2) that by (simp add: c kept_def mem_rest_def time_ok_def)
  then show "kept c c'" using c' by auto
  show "r_state (snd c') = r_state (snd c)" "r_parser (snd c') = r_parser (snd c)"
    "tok_type (s_token (r_stream (snd c'))) = tok_type (s_token (r_stream (snd c)))"
    using c' s2(3) by (auto simp: c)
qed

subsection \<open>Sessions\<close>

lemma end_session_step: "session_step c (hs_end_session c)"
proof -
  obtain v r where f: "hs_free_buffer c = (v, r)" by (metis prod.exhaust)
  then show ?thesis
    using free_buffer_kept [of c] free_buffer_none [of c]
    by (simp add: hs_end_session_def session_step_def kept_def mem_rest_def)
qed

lemma end_if_asked_step:
  assumes "kept c c'" "r_live (snd c)" "time_ok (snd c)" "init_ok (snd c')" "session_inv (snd c')"
  shows "session_step c (fst (end_if_asked (c', a)))"
proof -
  have "session_step c c'" using assms by (simp add: session_step_def session_ok_def kept_def)
  moreover have "session_step c (hs_end_session c')"
    using end_session_step [of c'] assms(1) by (simp add: session_step_def kept_def)
  ultimately show ?thesis by (simp add: end_if_asked_def)
qed

text \<open>What the server needs of the function that handles a request.\<close>

locale http_application =
  fixes handler :: "'a http_handler"
  assumes handler_kept: "handler (c, a) = Inr (c', a') \<Longrightarrow> kept c c'"
    and handler_responds: "handler (c, a) = Inr (c', a') \<Longrightarrow> r_state (snd c') \<noteq> HTTP_SESSION_READ"
    and handler_init: "handler (c, a) = Inr (c', a') \<Longrightarrow> r_state (snd c) = HTTP_SESSION_NOP \<Longrightarrow> init_ok (snd c')"
begin

lemma dispatch_step:
  assumes "dispatch_token handler tok ((v, r), a) = Inr (c', a')" "r_state r = HTTP_SESSION_READ"
  shows "kept (v, r) c'" "init_ok (snd c')"
    "stop_token tok \<Longrightarrow> r_state (snd c') \<noteq> HTTP_SESSION_READ"
    "\<not> stop_token tok \<Longrightarrow> r_parser (snd c') = r_parser r \<and> r_stream (snd c') = r_stream r"
proof -
  obtain r1 where r1: "(if tok_type tok \<noteq> HS_TOK_NONE then http_token_dyn_push tok r else Inr r) = Inr r1"
    using assms(1) by (auto simp: dispatch_token_def and_then_eq_Inr)
  have k1: "kept (v, r) (v, r1)" "r_state r1 = HTTP_SESSION_READ" "r_parser r1 = r_parser r" "r_stream r1 = r_stream r"
    using r1 assms(2) by (auto simp: http_token_dyn_push_def kept_def mem_rest_def time_ok_def split: if_splits option.splits)
  let ?r2 = "(if tok_type tok = HS_TOK_BODY_STREAM then set_flag HTTP_FLG_STREAMED r1 else r1)\<lparr>r_state := HTTP_SESSION_NOP\<rparr>"
  have k2: "kept (v, r) (v, ?r2)" using k1(1) by (simp add: kept_def mem_rest_def time_ok_def set_flag_def)
  consider (err) "tok_type tok = HS_TOK_ERROR" "hs_error_response 400 ''Bad Request'' (v, r1) = Inr c'"
    | (call) "tok_type tok = HS_TOK_BODY \<or> tok_type tok = HS_TOK_BODY_STREAM" "handler ((v, ?r2), a) = Inr (c', a')"
    | (more) "\<not> stop_token tok" "c' = (v, r1)"
    using assms(1) r1 by (auto simp: dispatch_token_def and_then_eq_Inr Let_def stop_token_def split: if_splits)
  note cases = this
  show "kept (v, r) c'"
    using cases by cases (use k1(1) k2 kept_trans error_response_kept(1) handler_kept in blast)+
  show "init_ok (snd c')"
    using cases by cases (use k1(2) error_response_kept(2) handler_init in \<open>auto simp: init_ok_def\<close>)
  show "r_state (snd c') \<noteq> HTTP_SESSION_READ" if "stop_token tok"
    using cases that by cases (use error_response_kept(3) handler_responds in blast)+
  show "r_parser (snd c') = r_parser r \<and> r_stream (snd c') = r_stream r" if "\<not> stop_token tok"
    using cases that k1 by cases (auto simp: stop_token_def)
qed

lemma process_work:
  assumes "r_state r = HTTP_SESSION_READ" "parse_inv (r_parser r) (r_stream r)" "parse_work (r_parser r) (r_stream r) < n"
  shows "\<exists>x. process_loop n behind handler ((v, r), a) = Some x \<and>
    (\<forall>c' a'. x = Inr (c', a') \<longrightarrow> kept (v, r) c' \<and> init_ok (snd c') \<and> session_inv (snd c'))"
  using assms
proof (induction n arbitrary: v r a)
  case 0
  then show ?case by simp
next
  case (Suc n)
  obtain x where x: "http_parse behind (r_parser r) (r_stream r) = Some x" "parse_ok (r_parser r) (r_stream r) x"
    using http_parse_work [OF Suc.prems(2)] by blast
  show ?case
  proof (cases x)
    case (Inl e)
    then show ?thesis using x(1) by (simp add: process_loop.simps)
  next
    case (Inr y)
    obtain tok p s where y: "y = (tok, p, s)" by (cases y)
    let ?r = "r\<lparr>r_parser := p, r_stream := s\<rparr>"
    have "same_buf (r_stream r) s" using x(1) Inr y by (auto intro: http_parse_buf)
    then have buf: "kept (v, r) (v, ?r)"
      by (auto simp: kept_def mem_rest_def time_ok_def same_buf_def buffered_def split: option.splits)
    show ?thesis
    proof (cases "dispatch_token handler tok ((v, ?r), a)")
      case (Inl e)
      then show ?thesis using x(1) Inr y by (simp add: process_loop.simps)
    next
      case d: (Inr z)
      obtain v' r' a' where z: "z = ((v', r'), a')" by (metis prod.exhaust)
      have read: "r_state ?r = HTTP_SESSION_READ" using Suc.prems(1) by simp
      note step = dispatch_step [OF d [unfolded z] read, simplified]
      have kept: "kept (v, r) (v', r')" using buf step(1) by (rule kept_trans)
      have eq: "process_loop (Suc n) behind handler ((v, r), a) =
          (if tok_type tok \<noteq> HS_TOK_NONE \<and> r_state r' = HTTP_SESSION_READ then process_loop n behind handler ((v', r'), a')
           else Some (Inr ((v', r'), a')))"
        using x(1) Inr y d z by (simp add: process_loop.simps)
      have ok: "r_state r' = HTTP_SESSION_READ \<Longrightarrow> r_parser r' = p \<and> r_stream r' = s \<and> parse_inv p s \<and>
          (tok_type tok = HS_TOK_NONE \<or> parse_work p s < parse_work (r_parser r) (r_stream r))"
        using step(3,4) x(2) Inr y by (auto simp: parse_ok_def)
      show ?thesis
      proof (cases "tok_type tok \<noteq> HS_TOK_NONE \<and> r_state r' = HTTP_SESSION_READ")
        case True
        then show ?thesis
          using Suc.IH [of r' v' a'] ok Suc.prems(3) kept unfolding eq by (auto intro: kept_trans)
      next
        case False
        then show ?thesis using kept step(2) ok unfolding eq by (auto simp: session_inv_def)
      qed
    qed
  qed
qed

lemma read_and_process_step:
  assumes "parse_inv (r_parser r) (r_stream r)"
  shows "\<exists>x. hs_read_and_process_request behind handler ((v, r), a) = Some x \<and>
    (\<forall>c' a'. x = Inr (c', a') \<longrightarrow> kept (v, r) c' \<and> init_ok (snd c') \<and> session_inv (snd c'))"
proof -
  let ?r = "r\<lparr>r_state := HTTP_SESSION_READ, r_timeout := HTTP_REQUEST_TIMEOUT\<rparr>"
  obtain b v1 r1 where rd: "hs_stream_read_socket (v, ?r) = (b, (v1, r1))" by (metis prod.exhaust)
  note k = read_socket_kept [OF rd, simplified]
  have "kept (v, r) (v, ?r)" by (simp add: kept_def mem_rest_def time_ok_def HTTP_REQUEST_TIMEOUT_def HTTP_KEEP_ALIVE_TIMEOUT_def)
  then have kept: "kept (v, r) (v1, r1)" using k(1) by (rule kept_trans)
  have inv: "parse_inv (r_parser r1) (r_stream r1)" using assms k(3,4) by (simp add: parse_inv_def body_open_def)
  show ?thesis
  proof (cases b)
    case True
    have "parse_work (r_parser r1) (r_stream r1) < nat (s_length (r_stream r1) - s_index (r_stream r1)) + 2"
      by (simp add: parse_work_def unread_def)
    then show ?thesis
      using process_work [OF k(2) inv, of _ behind v1 a] rd True kept
      by (fastforce simp: hs_read_and_process_request_def intro: kept_trans)
  next
    case False
    have "kept (v, r) (v1, set_flag HTTP_END_SESSION r1)"
      using kept by (simp add: kept_def mem_rest_def time_ok_def set_flag_def)
    then show ?thesis
      using rd False inv k(2) by (simp add: hs_read_and_process_request_def init_ok_def session_inv_def set_flag_def)
  qed
qed

text \<open>An event of a session is handled to its end, whatever has arrived.\<close>

lemma http_session_step:
  assumes "r_live r" "session_ok r"
  shows "\<exists>x. http_session behind handler ((v, r), a) = Some x \<and> (\<forall>c' a'. x = Inr (c', a') \<longrightarrow> session_step (v, r) c')"
proof -
  have ok: "time_ok r" "init_ok r" "session_inv r" using assms(2) by (simp_all add: session_ok_def)
  have fin: "session_step (v, r) (fst (end_if_asked (c', a')))"
    if "kept (v, r) c'" "init_ok (snd c')" "session_inv (snd c')" for c' a'
    using end_if_asked_step [of "(v, r)" c' a'] that assms(1) ok(1) by simp
  have map_fin: "\<exists>x. map_option (\<lambda>x. and_then x (\<lambda>st'. Inr (end_if_asked st'))) y = Some x \<and>
      (\<forall>c' a'. x = Inr (c', a') \<longrightarrow> session_step (v, r) c')"
    if y: "\<exists>x. y = Some x \<and> (\<forall>c' a'. x = Inr (c', a') \<longrightarrow> kept (v, r) c' \<and> init_ok (snd c') \<and> session_inv (snd c'))" for y
  proof -
    obtain z where z: "y = Some z" "\<And>c' a'. z = Inr (c', a') \<Longrightarrow> kept (v, r) c' \<and> init_ok (snd c') \<and> session_inv (snd c')"
      using y by blast
    have "session_step (v, r) c'" if eq: "and_then z (\<lambda>st'. Inr (end_if_asked st')) = Inr (c', a')" for c' a'
    proof -
      obtain c1 a1 where "z = Inr (c1, a1)" "end_if_asked (c1, a1) = (c', a')" using eq by (auto simp: and_then_eq_Inr)
      then show ?thesis using z(2) [of c1 a1] fin [of c1 a1] by simp
    qed
    then show ?thesis using z(1) by (intro exI conjI allI impI) (simp, blast)
  qed
  show ?thesis
  proof (cases "r_state r")
    case HTTP_SESSION_INIT
    let ?r = "(hs_init_session r)\<lparr>r_state := HTTP_SESSION_READ\<rparr>"
    have kept: "kept (v, r) (v, ?r)"
      using ok(2) HTTP_SESSION_INIT
      by (simp add: init_ok_def hs_init_session_def kept_def mem_rest_def time_ok_def buffered_def stream_init_def)
    have "parse_inv (r_parser ?r) (r_stream ?r)"
      by (simp add: hs_init_session_def parse_inv_def parser_init_def head_meta_def)
    then have rd: "\<exists>x. hs_read_and_process_request behind handler ((v, ?r), a) = Some x \<and>
        (\<forall>c' a'. x = Inr (c', a') \<longrightarrow> kept (v, r) c' \<and> init_ok (snd c') \<and> session_inv (snd c'))"
      using read_and_process_step [of ?r behind v a] kept by (fastforce intro: kept_trans)
    have err: "session_step (v, r) c'" if "hs_error_response 503 ''Service Unavailable'' (v, ?r) = Inr c'" for c'
      using error_response_kept [OF that] kept assms(1) ok(1)
      by (auto simp: session_step_def session_ok_def session_inv_def kept_def)
    show ?thesis
      using HTTP_SESSION_INIT map_fin [OF rd] err by (auto simp: http_session_def Let_def and_then_eq_Inr)
  next
    case HTTP_SESSION_READ
    then show ?thesis
      using map_fin [OF read_and_process_step [of r behind v a]] ok(3) by (simp add: http_session_def session_inv_def)
  next
    case HTTP_SESSION_WRITE
    have "session_step (v, r) (fst (end_if_asked (c', a)))" if "hs_write_response (v, r) = Inr c'" for c'
      using write_response_kept [OF that] fin [of c' a] ok(2) HTTP_SESSION_WRITE by (simp add: session_inv_def)
    then show ?thesis
      using HTTP_SESSION_WRITE by (auto simp: http_session_def and_then_eq_Inr)
  next
    case HTTP_SESSION_NOP
    then show ?thesis using fin [of "(v, r)" a] ok by (simp add: http_session_def) (metis fst_conv)
  qed
qed

end

end
