(* ===== verification/HTTP_Endpoint.thy ===== *)
theory HTTP_Endpoint
  imports HTTP_Worker HTTP_Total
begin

text \<open>
  \<open>MockHTTPWorker\<close> on its HTTP server: the bytes of a request come in, the task is completed in the database, the response
  goes out.
\<close>

section \<open>Definitions\<close>

definition hello_response :: http_response where
  "hello_response =
     http_response_body ''Hello, World!'' 13
       (http_response_header ''Content-Type'' ''text/plain'' (http_response_status 200 http_response_init))"

text \<open>\<open>handle_request\<close> with the request it is given: the response is sent before the task is completed.\<close>

definition HTTP_handle :: "env \<Rightarrow> MockHTTPWorker \<Rightarrow> (64 word \<times> world) http_handler" where
  "HTTP_handle env h st =
     (case st of ((v, r), s) \<Rightarrow>
        and_then (http_request_header r ''taskID'')
          (\<lambda>taskIdRaw. and_then (string_bytes r taskIdRaw)
             (\<lambda>taskIdStr. and_then (stoi taskIdStr)
                (\<lambda>_. and_then (http_respond hello_response (v, r))
                   (\<lambda>c. case HTTP_handle_request env h taskIdStr s of (Inl e, _) \<Rightarrow> Inl e | (Inr _, s') \<Rightarrow> Inr (c, s'))))))"

definition task_header :: "(string \<times> string) list \<Rightarrow> string" where
  "task_header hs = (case header_value hs ''taskID'' of None \<Rightarrow> [] | Some x \<Rightarrow> x)"

definition hello_text :: "string \<Rightarrow> bool \<Rightarrow> string" where
  "hello_text date keep =
     ''HTTP/1.1 200 OK'' @ eol @ ''Date: '' @ date @ eol @
     ''Connection: '' @ (if keep then ''keep-alive'' else ''close'') @ eol @
     ''Content-Type: text/plain'' @ eol @ ''Content-Length: 13'' @ eol @ eol @ ''Hello, World!''"

section \<open>Lemmas\<close>

lemma HTTP_handle_answers:
  assumes "HTTP_handle env h ((v, r), s) = Inr (c, a)"
  shows "http_respond hello_response (v, r) = Inr c"
proof -
  obtain str where "and_then (stoi str) (\<lambda>_. and_then (http_respond hello_response (v, r))
      (\<lambda>c. case HTTP_handle_request env h str s of (Inl e, _) \<Rightarrow> Inl e | (Inr _, s') \<Rightarrow> Inr (c, s'))) = Inr (c, a)"
    using assms by (auto simp: HTTP_handle_def and_then_eq_Inr [of "http_request_header r x" for x]
        and_then_eq_Inr [of "string_bytes r x" for x])
  then show ?thesis
    by (cases "stoi str") (auto simp: and_then_eq_Inr HTTP_handle_request_def split: prod.splits sum.splits)
qed

interpretation worker_app: http_application "HTTP_handle env h" for env h
proof unfold_locales
  fix c c' :: http_conn and a a' :: "64 word \<times> world"
  assume eq: "HTTP_handle env h (c, a) = Inr (c', a')"
  have c': "http_respond hello_response (fst c, snd c) = Inr c'" using HTTP_handle_answers [of env h "fst c" "snd c"] eq by simp
  show "kept c c'" "r_state (snd c') \<noteq> HTTP_SESSION_READ" using respond_kept(1,3) [OF c'] by simp_all
  show "init_ok (snd c')" using respond_kept(2) [OF c'] .
qed

lemma HTTP_handle_responds: "responds (HTTP_handle env h)"
  unfolding responds_def by (auto dest: worker_app.handler_responds)

lemma hello_fields:
  "x_status hello_response = 200" "x_body hello_response = Some ''Hello, World!''" "x_content_length hello_response = 13"
  "x_headers hello_response = [(''Content-Type'', ''text/plain'')]"
  by (simp_all add: hello_response_def http_response_body_def http_response_header_def http_response_status_def http_response_init_def)

lemma hello_reply: "reply_text date keep hello_response = hello_text date keep"
proof -
  have "hs_status_text ! nat 200 = ''OK''" "to_string 200 = ''200''" "to_string 13 = ''13''" by code_simp+
  then show ?thesis
    by (simp add: reply_text_def reply_head_def hello_text_def hello_fields reply_headers_def)
qed

lemma hello_small: "length date \<le> 31 \<Longrightarrow> length (reply_head date keep hello_response) < 1024"
proof -
  assume "length date \<le> 31"
  then have "length (hello_text date keep) < 1024" by (simp add: hello_text_def eol_def)
  moreover have "length (reply_head date keep hello_response) \<le> length (reply_text date keep hello_response)"
    by (simp add: reply_text_def)
  ultimately show ?thesis by (simp add: hello_reply)
qed

lemma HTTP_handle_task:
  "HTTP_handle env h ((v, done_request m t ver hs body cap k), (n, w)) =
    (case stoi (task_header hs) of
       Inl e \<Rightarrow> Inl e
     | Inr taskId \<Rightarrow>
         and_then (http_respond hello_response (v, done_request m t ver hs body cap k))
           (\<lambda>c. Inr (c, (n + 1, invoke_void env ''WorkerUpdateTask''
              [WInt (h_pkey h), WInt (h_workerId h), WInt taskId, WInt COMPLETE] w))))"
proof -
  let ?r = "done_request m t ver hs body cap k"
  obtain str where "http_request_header ?r ''taskID'' = Inr str" "string_bytes ?r str = Inr (task_header hs)"
    using done_header [of m t ver hs body cap k "''taskID''"]
    by (auto simp: task_header_def string_bytes_def split: option.splits)
  then show ?thesis
    by (cases "stoi (task_header hs)") (simp_all add: HTTP_handle_def HTTP_handle_request_def)
qed

lemma head_ok_parts: "head_ok m t v hs \<Longrightarrow> v \<noteq> [] \<and> (\<forall>h \<in> set hs. snd h \<noteq> [])"
  by (auto simp: head_ok_def version_ok_def plain_header_def value_ok_def length_header_def digits_ok_def)

text \<open>
  C22. From bytes to the database: however the text of a well-formed request is divided into packets, a worker that receives it on a new
  connection answers it with exactly one response, completes exactly the task that the header \<open>taskID\<close> names
  (in any spelling of its letters), gives all of its buffers back and keeps or closes the connection as the request asked.
  If the header is missing or is no number, the exception of \<open>std::stoi\<close> ends the whole process.
\<close>

theorem HTTP_worker_serves:
  assumes "request_ok m t v hs body" "concat chunks = request_text m t v hs body" "[] \<notin> set chunks"
    and "k_in k = []" "\<not> k_eof k" "k_room k = []" "\<not> k_broken k"
    and "v_memused vs \<le> HTTP_MAX_TOTAL_EST_MEM_USAGE" "length (v_date vs) \<le> 31"
  shows "\<exists>r. serve behind (HTTP_handle env h) chunks ((vs, new_session k), (n, w)) =
      Some (case stoi (task_header hs) of
        Inl e \<Rightarrow> Inl e
      | Inr taskId \<Rightarrow> Inr ((vs\<lparr>v_errno := EAGAIN\<rparr>, r), (n + 1, invoke_void env ''WorkerUpdateTask''
          [WInt (h_pkey h), WInt (h_workerId h), WInt taskId, WInt COMPLETE] w))) \<and>
    r_socket r = k\<lparr>k_out := k_out k @ hello_text (v_date vs) (keep_alive v hs)\<rparr> \<and>
    r_live r = keep_alive v hs \<and> s_buf (r_stream r) = None \<and> (keep_alive v hs \<longrightarrow> r_state r = HTTP_SESSION_INIT)"
proof -
  obtain cap where sv: "serve behind (HTTP_handle env h) chunks ((vs, new_session k), (n, w)) =
      Some (and_then (HTTP_handle env h ((vs\<lparr>v_memused := v_memused vs + cap, v_errno := EAGAIN\<rparr>,
        done_request m t v hs body cap k), (n, w))) (\<lambda>st. Inr (end_if_asked st)))"
    by (rule serve_all [OF assms(1-5) HTTP_handle_responds assms(8)])
  let ?vs = "vs\<lparr>v_memused := v_memused vs + cap, v_errno := EAGAIN\<rparr>"
  have parts: "v \<noteq> []" "\<forall>h \<in> set hs. snd h \<noteq> []" using assms(1) head_ok_parts [of m t v hs] unfolding request_ok_def by blast+
  have hello: "0 \<le> x_status hello_response" "x_status hello_response < 599" "x_body hello_response = Some ''Hello, World!''"
    "x_content_length hello_response = int (length ''Hello, World!'')"
    by (simp_all add: hello_fields)
  have small: "length (reply_head (v_date ?vs) (keep_alive v hs) hello_response) < 1024"
    using hello_small [OF assms(9)] by simp
  have errno: "v_errno ?vs \<noteq> EPIPE" by simp
  obtain c r where c: "http_respond hello_response (?vs, done_request m t v hs body cap k) = Inr c"
    "\<And>a :: 64 word \<times> world. end_if_asked (c, a) = ((?vs\<lparr>v_memused := v_memused ?vs - cap\<rparr>, r), a)"
    "r_socket r = k\<lparr>k_out := k_out k @ reply_text (v_date ?vs) (keep_alive v hs) hello_response\<rparr>" "r_live r = keep_alive v hs"
    "s_buf (r_stream r) = None" "keep_alive v hs \<Longrightarrow> r_state r = HTTP_SESSION_INIT"
    by (rule respond_done [OF parts hello small assms(6,7) errno]) blast
  have "end_if_asked (c, s) = ((vs\<lparr>v_errno := EAGAIN\<rparr>, r), s)" for s :: "64 word \<times> world"
    using c(2) by simp
  then show ?thesis
    using sv c(1,3-6) by (intro exI [of _ r]) (auto simp: HTTP_handle_task hello_reply split: sum.split)
qed

theorem HTTP_worker_serves_witness:
  "\<exists>r. serve HS_TOK_NONE (HTTP_handle quiet_env (MockHTTPWorker_new 3 1))
      [''POST / H'', ''TTP/1.1'' @ CRLF @ ''tas'', ''kID: 7'' @ CRLF @ ''Content-Length: 2'' @ CRLF @ CRLF @ ''o'', ''k'']
      ((\<lparr>v_memused = 0, v_date = ''now'', v_errno = NoError\<rparr>,
        new_session \<lparr>k_in = [], k_eof = False, k_room = [], k_broken = False, k_out = []\<rparr>), (5, world_with empty_tables)) =
    Some (Inr ((\<lparr>v_memused = 0, v_date = ''now'', v_errno = EAGAIN\<rparr>, r),
      (6, invoke_void quiet_env ''WorkerUpdateTask'' [WInt 1, WInt 3, WInt 7, WInt COMPLETE] (world_with empty_tables)))) \<and>
    k_out (r_socket r) = hello_text ''now'' True \<and> r_live r"
proof -
  define chunks where "chunks = [''POST / H'', ''TTP/1.1'' @ CRLF @ ''tas'',
    ''kID: 7'' @ CRLF @ ''Content-Length: 2'' @ CRLF @ CRLF @ ''o'', ''k'']"
  let ?k = "\<lparr>k_in = [], k_eof = False, k_room = [], k_broken = False, k_out = []\<rparr>"
  let ?vs = "\<lparr>v_memused = 0, v_date = ''now'', v_errno = NoError\<rparr>"
  define hs where "hs = [(''taskID'', ''7''), (''Content-Length'', ''2'')]"
  have task: "stoi (task_header hs) = Inr 7" "keep_alive ''HTTP/1.1'' hs" unfolding hs_def by code_simp+
  have vs: "v_memused ?vs \<le> HTTP_MAX_TOTAL_EST_MEM_USAGE" "length (v_date ?vs) \<le> 31"
    by (simp_all add: HTTP_MAX_TOTAL_EST_MEM_USAGE_def)
  have k: "k_in ?k = []" "\<not> k_eof ?k" "k_room ?k = []" "\<not> k_broken ?k" by simp_all
  have c: "concat chunks = request_text ''POST'' ''/'' ''HTTP/1.1'' hs ''ok''" "[] \<notin> set chunks"
    by (simp_all add: chunks_def hs_def request_text_def request_head_def request_line_def header_lines_def header_line_def CRLF_def)
  have h: "h_pkey (MockHTTPWorker_new 3 1) = 1" "h_workerId (MockHTTPWorker_new 3 1) = 3" by (simp_all add: MockHTTPWorker_new_def)
  obtain r where "serve HS_TOK_NONE (HTTP_handle quiet_env (MockHTTPWorker_new 3 1)) chunks ((?vs, new_session ?k), (5, world_with empty_tables)) =
      Some (Inr ((?vs\<lparr>v_errno := EAGAIN\<rparr>, r), (5 + 1, invoke_void quiet_env ''WorkerUpdateTask''
        [WInt 1, WInt 3, WInt 7, WInt COMPLETE] (world_with empty_tables))))"
    "r_socket r = ?k\<lparr>k_out := k_out ?k @ hello_text (v_date ?vs) True\<rparr>" "r_live r"
    using HTTP_worker_serves [OF sample_request_ok [folded hs_def] c k vs, of HS_TOK_NONE quiet_env "MockHTTPWorker_new 3 1" 5
        "world_with empty_tables"] task
    unfolding h by auto
  then show ?thesis unfolding chunks_def by (intro exI [of _ r]) simp
qed

end
