(* ===== verification/HTTP_Server.thy ===== *)
theory HTTP_Server
  imports HTTP_Endpoint
begin

text \<open>
  The event loop of \<open>httpserver.h\<close> on epoll, and \<open>MockHTTPWorker::dispatch\<close>, which polls it: connections are
  accepted, sessions get events of their sockets and of their timers, and the application is called. The
  memory that the server counts is exactly what its sessions hold, every event is handled to its end, and a session
  that nothing happens to is ended by its timer.
\<close>

section \<open>Definitions\<close>

text \<open>
  The server with its sessions, and the state of the application. A session keeps its place in the list when it
  has ended; it then is not \<open>r_live\<close>.
\<close>

type_synonym 'a http_world = "(http_server \<times> http_request list) \<times> 'a"

definition http_server_init :: "string \<Rightarrow> http_server" where
  "http_server_init date = \<lparr>v_memused = 0, v_date = date, v_errno = NoError\<rparr>"

text \<open>
  What a poll can find: connections on the listening socket; a session whose socket is readable, writable or
  broken; the timers. \<open>Peer\<close> is no event of the server: the kernel's side of a socket changes.
\<close>

datatype http_event =
    Listen "http_socket list" | Readable nat | Writable nat | Hangup nat
  | Server_timer string | Request_timer nat | Peer nat http_socket

text \<open>\<open>accept\<close> returns one connection after the other until there is none.\<close>

fun hs_accept_connections ::
    "hs_token \<Rightarrow> 'a http_handler \<Rightarrow> http_socket list \<Rightarrow> 'a http_world \<Rightarrow> 'a http_world result option" where
  "hs_accept_connections behind handler [] w = Some (Inr w)"
| "hs_accept_connections behind handler (k # ks) w =
     (case w of ((v, rs), a) \<Rightarrow>
        (case http_session behind handler ((v, new_session k), a) of
           None \<Rightarrow> None
         | Some (Inl e) \<Rightarrow> Some (Inl e)
         | Some (Inr ((v', r), a')) \<Rightarrow> hs_accept_connections behind handler ks ((v', rs @ [r]), a')))"

definition hs_session_io_cb ::
    "hs_token \<Rightarrow> 'a http_handler \<Rightarrow> nat \<Rightarrow> 'a http_world \<Rightarrow> 'a http_world result option" where
  "hs_session_io_cb behind handler i w =
     (case w of ((v, rs), a) \<Rightarrow>
        (case http_session behind handler ((v, rs ! i), a) of
           None \<Rightarrow> None
         | Some (Inl e) \<Rightarrow> Some (Inl e)
         | Some (Inr ((v', r), a')) \<Rightarrow> Some (Inr ((v', rs[i := r]), a'))))"

definition hs_server_timer_cb :: "string \<Rightarrow> 'a http_world \<Rightarrow> 'a http_world" where
  "hs_server_timer_cb date w = (case w of ((v, rs), a) \<Rightarrow> ((v\<lparr>v_date := date\<rparr>, rs), a))"

definition session_timer :: "nat \<Rightarrow> 'a http_world \<Rightarrow> 'a http_world" where
  "session_timer i w =
     (case w of ((v, rs), a) \<Rightarrow> (case hs_request_timer_cb (v, rs ! i) of (v', r) \<Rightarrow> ((v', rs[i := r]), a)))"

text \<open>The sockets that epoll watches: a session that waited for room to write is no longer watched for input.\<close>

definition watches_input :: "http_request \<Rightarrow> bool" where
  "watches_input r \<longleftrightarrow> \<not> r_write_event r"

definition reported :: "http_event \<Rightarrow> http_request list \<Rightarrow> bool" where
  "reported ev rs =
     (case ev of
        Readable i \<Rightarrow> i < length rs \<and> r_live (rs ! i) \<and> watches_input (rs ! i)
      | Writable i \<Rightarrow> i < length rs \<and> r_live (rs ! i) \<and> \<not> watches_input (rs ! i)
      | Hangup i \<Rightarrow> i < length rs \<and> r_live (rs ! i)
      | Request_timer i \<Rightarrow> i < length rs \<and> r_live (rs ! i)
      | Peer i k \<Rightarrow> i < length rs \<and> r_live (rs ! i)
      | _ \<Rightarrow> True)"

text \<open>\<open>http_server_poll\<close>: an event that epoll does not report is no event.\<close>

definition http_server_poll ::
    "hs_token \<Rightarrow> 'a http_handler \<Rightarrow> http_event option \<Rightarrow> 'a http_world \<Rightarrow> 'a http_world result option" where
  "http_server_poll behind handler found w =
     (case found of
        None \<Rightarrow> Some (Inr w)
      | Some ev \<Rightarrow>
          (if \<not> reported ev (snd (fst w)) then Some (Inr w)
           else case ev of
                  Listen ks \<Rightarrow> hs_accept_connections behind handler ks w
                | Readable i \<Rightarrow> hs_session_io_cb behind handler i w
                | Writable i \<Rightarrow> hs_session_io_cb behind handler i w
                | Hangup i \<Rightarrow> hs_session_io_cb behind handler i w
                | Server_timer date \<Rightarrow> Some (Inr (hs_server_timer_cb date w))
                | Request_timer i \<Rightarrow> Some (Inr (session_timer i w))
                | Peer i k \<Rightarrow>
                    (case w of ((v, rs), a) \<Rightarrow>
                       Some (Inr ((v, rs[i := (rs ! i)\<lparr>r_socket := k\<lparr>k_out := k_out (r_socket (rs ! i))\<rparr>\<rparr>]), a)))))"

text \<open>\<open>do { http_server_poll } while (!stopDispatch_)\<close>; each poll comes with the flag as it is read after it.\<close>

fun poll_loop ::
    "hs_token \<Rightarrow> 'a http_handler \<Rightarrow> (http_event option \<times> bool) list \<Rightarrow> 'a http_world \<Rightarrow> 'a http_world result option" where
  "poll_loop behind handler [] w = Some (Inr w)"
| "poll_loop behind handler ((found, stop) # polls) w =
     (case http_server_poll behind handler found w of
        None \<Rightarrow> None
      | Some (Inl e) \<Rightarrow> Some (Inl e)
      | Some (Inr w') \<Rightarrow> (if stop then Some (Inr w') else poll_loop behind handler polls w'))"

definition worker_dispatch ::
    "hs_token \<Rightarrow> env \<Rightarrow> MockHTTPWorker \<Rightarrow> string \<Rightarrow> (http_event option \<times> bool) list \<Rightarrow> 64 word \<times> world \<Rightarrow>
     (64 word \<times> world) http_world result option" where
  "worker_dispatch behind env h date polls s = poll_loop behind (HTTP_handle env h) polls ((http_server_init date, []), s)"

text \<open>The sessions are in order, and the memory that is counted is that of their buffers.\<close>

definition server_ok :: "http_server \<times> http_request list \<Rightarrow> bool" where
  "server_ok sv \<longleftrightarrow> v_memused (fst sv) = sum_list (map buffered (snd sv)) \<and>
     (\<forall>r \<in> set (snd sv). if r_live r then session_ok r else s_buf (r_stream r) = None)"

text \<open>A worker to which a client has connected that has not sent anything yet.\<close>

definition idle_socket :: http_socket where
  "idle_socket = \<lparr>k_in = [], k_eof = False, k_room = [], k_broken = False, k_out = []\<rparr>"

definition idle_session :: http_request where
  "idle_session = waiting_request [] parser_init (stream_init\<lparr>s_buf := Some [], s_capacity := 1024\<rparr>) idle_socket"

section \<open>Lemmas\<close>

lemma sum_list_update_int:
  "i < length xs \<Longrightarrow> sum_list (map f (xs[i := x])) = sum_list (map f xs) - f (xs ! i) + (f x :: int)"
  by (induction xs arbitrary: i) (auto split: nat.split)

lemma server_ok_update:
  assumes "server_ok (v, rs)" "i < length rs" "session_step (v, rs ! i) (v', r)"
  shows "server_ok (v', rs[i := r])"
  using assms set_update_subset_insert [of rs i r]
  by (auto simp: server_ok_def session_step_def mem_rest_def sum_list_update_int)

lemma server_ok_append:
  assumes "server_ok (v, rs)" "session_step (v, new_session k) (v', r)"
  shows "server_ok (v', rs @ [r])"
  using assms by (auto simp: server_ok_def session_step_def mem_rest_def new_session_def buffered_def stream_init_def)

lemma new_session_ok: "r_live (new_session k) \<and> session_ok (new_session k)"
  by (simp add: new_session_def session_ok_def time_ok_def init_ok_def session_inv_def stream_init_def HTTP_REQUEST_TIMEOUT_def
      HTTP_KEEP_ALIVE_TIMEOUT_def)

lemma timer_step:
  assumes "r_live r" "session_ok r"
  shows "session_step (v, r) (hs_request_timer_cb (v, r))"
proof (cases "r_timeout r = 1")
  case True
  then show ?thesis
    using end_session_step [of "(v, r\<lparr>r_timeout := 0\<rparr>)"] by (simp add: hs_request_timer_cb_def session_step_def mem_rest_def)
next
  case False
  then show ?thesis
    using assms
    by (simp add: hs_request_timer_cb_def session_step_def mem_rest_def session_ok_def time_ok_def init_ok_def session_inv_def)
qed

lemma server_ok_session: "server_ok (v, rs) \<Longrightarrow> i < length rs \<Longrightarrow> r_live (rs ! i) \<Longrightarrow> session_ok (rs ! i)"
  by (auto simp: server_ok_def dest!: nth_mem split: if_splits)

context http_application
begin

lemma accept_ok:
  "server_ok (fst w) \<Longrightarrow> \<exists>x. hs_accept_connections behind handler ks w = Some x \<and> (\<forall>w'. x = Inr w' \<longrightarrow> server_ok (fst w'))"
proof (induction ks arbitrary: w)
  case Nil
  then show ?case by auto
next
  case (Cons k ks)
  obtain v rs a where w: "w = ((v, rs), a)" by (metis prod.exhaust)
  obtain x where x: "http_session behind handler ((v, new_session k), a) = Some x"
    "\<And>c' a'. x = Inr (c', a') \<Longrightarrow> session_step (v, new_session k) c'"
    using http_session_step [of "new_session k" behind v a] new_session_ok by blast
  show ?case
  proof (cases x)
    case (Inl e)
    then show ?thesis using x(1) by (simp add: w)
  next
    case (Inr y)
    obtain v' r a' where y: "y = ((v', r), a')" by (metis prod.exhaust)
    have "server_ok (v', rs @ [r])" using server_ok_append x(2) Cons.prems Inr y w by auto
    then show ?thesis using Cons.IH [of "((v', rs @ [r]), a')"] x(1) Inr y by (simp add: w)
  qed
qed

lemma session_io_ok:
  assumes "server_ok (v, rs)" "i < length rs" "r_live (rs ! i)"
  shows "\<exists>x. hs_session_io_cb behind handler i ((v, rs), a) = Some x \<and> (\<forall>w'. x = Inr w' \<longrightarrow> server_ok (fst w'))"
proof -
  obtain x where x: "http_session behind handler ((v, rs ! i), a) = Some x" "\<And>c' a'. x = Inr (c', a') \<Longrightarrow> session_step (v, rs ! i) c'"
    using http_session_step [of "rs ! i" behind v a] server_ok_session [OF assms] assms(3) by blast
  show ?thesis
    using x server_ok_update [OF assms(1,2)] by (cases x) (auto simp: hs_session_io_cb_def)
qed

lemma poll_ok:
  assumes "server_ok (fst w)"
  shows "\<exists>x. http_server_poll behind handler found w = Some x \<and> (\<forall>w'. x = Inr w' \<longrightarrow> server_ok (fst w'))"
proof -
  obtain v rs a where w: "w = ((v, rs), a)" by (metis prod.exhaust)
  have ok: "server_ok (v, rs)" using assms by (simp add: w)
  have timer: "server_ok (fst (session_timer i ((v, rs), a)))" if "i < length rs" "r_live (rs ! i)" for i
    using server_ok_update [OF ok that(1)] timer_step [OF that(2) server_ok_session [OF ok that], of v]
    by (auto simp: session_timer_def split: prod.split)
  have peer: "server_ok (v, rs[i := (rs ! i)\<lparr>r_socket := k\<rparr>])" if "i < length rs" "r_live (rs ! i)" for i k
    using server_ok_update [OF ok that(1), of v "(rs ! i)\<lparr>r_socket := k\<rparr>"] server_ok_session [OF ok that] that(2)
    by (simp add: session_step_def mem_rest_def session_ok_def time_ok_def init_ok_def session_inv_def)
  have date: "server_ok (fst (hs_server_timer_cb d ((v, rs), a)))" for d
    using ok by (simp add: hs_server_timer_cb_def server_ok_def)
  have fine: "\<exists>x. Some (Inr y) = Some x \<and> (\<forall>w'. x = Inr w' \<longrightarrow> server_ok (fst w'))" if "server_ok (fst y)" for y
    using that by auto
  show ?thesis
  proof (cases found)
    case None
    then show ?thesis using assms by (auto simp: http_server_poll_def)
  next
    case (Some ev)
    show ?thesis
    proof (cases "reported ev rs")
      case False
      then show ?thesis using Some ok by (auto simp: http_server_poll_def w)
    next
      case True
      then show ?thesis
        using Some ok accept_ok [of "((v, rs), a)" behind] session_io_ok [OF ok, of _ behind a] fine timer peer date
        by (cases ev) (simp_all add: http_server_poll_def w reported_def del: split_paired_All)
    qed
  qed
qed

lemma poll_loop_ok:
  "server_ok (fst w) \<Longrightarrow> \<exists>x. poll_loop behind handler polls w = Some x \<and> (\<forall>w'. x = Inr w' \<longrightarrow> server_ok (fst w'))"
proof (induction polls arbitrary: w)
  case (Cons poll polls)
  obtain x where x: "http_server_poll behind handler (fst poll) w = Some x" "\<And>w'. x = Inr w' \<Longrightarrow> server_ok (fst w')"
    using poll_ok [OF Cons.prems] by blast
  then show ?case using Cons.IH by (cases poll; cases x) auto
qed auto

end

lemma server_ok_start: "server_ok (http_server_init date, [])"
  by (simp add: server_ok_def http_server_init_def)

lemma poll_loop_append:
  assumes "poll_loop behind handler polls w = Some (Inr w')" "\<forall>p \<in> set polls. \<not> snd p"
  shows "poll_loop behind handler (polls @ rest) w = poll_loop behind handler rest w'"
  using assms by (induction polls arbitrary: w) (auto split: option.splits sum.splits)

text \<open>The timer of a session runs out.\<close>

lemma timer_runs_out:
  assumes "i < length rs" "r_live (rs ! i)" "0 < r_timeout (rs ! i)" "r_timeout (rs ! i) \<le> int n"
  shows "\<exists>v' r. poll_loop behind handler (replicate n (Some (Request_timer i), False)) ((v, rs), a) = Some (Inr ((v', rs[i := r]), a)) \<and>
    \<not> r_live r \<and> v_memused v' = v_memused v - buffered (rs ! i)"
  using assms
proof (induction n arbitrary: v rs)
  case 0
  then show ?case by simp
next
  case (Suc n)
  let ?r = "rs ! i"
  obtain v1 r1 where t: "hs_request_timer_cb (v, ?r) = (v1, r1)" by (metis prod.exhaust)
  have step: "poll_loop behind handler (replicate (Suc n) (Some (Request_timer i), False)) ((v, rs), a) =
      poll_loop behind handler (replicate n (Some (Request_timer i), False)) ((v1, rs[i := r1]), a)"
    using Suc.prems(1,2) t by (simp add: http_server_poll_def reported_def session_timer_def)
  show ?case
  proof (cases "r_timeout ?r = 1")
    case True
    then have e: "(v1, r1) = hs_end_session (v, ?r\<lparr>r_timeout := 0\<rparr>)" using t by (simp add: hs_request_timer_cb_def)
    have idle: "poll_loop behind handler (replicate m (Some (Request_timer i), False)) ((v1, rs[i := r1]), a) = Some (Inr ((v1, rs[i := r1]), a))"
      if "\<not> r_live r1" for m
      using that Suc.prems(1) by (induction m) (simp_all add: http_server_poll_def reported_def)
    have "\<not> r_live r1 \<and> v_memused v1 = v_memused v - buffered ?r"
      using e by (auto simp: hs_end_session_def hs_free_buffer_def buffered_def split: option.splits)
    then show ?thesis using idle unfolding step by blast
  next
    case False
    then have r1: "v1 = v" "r1 = ?r\<lparr>r_timeout := r_timeout ?r - 1\<rparr>" using t by (auto simp: hs_request_timer_cb_def Let_def)
    then show ?thesis using Suc.IH [of "rs[i := r1]" v] Suc.prems False unfolding step by auto
  qed
qed

lemma idle_dispatch:
  "worker_dispatch HS_TOK_NONE quiet_env (MockHTTPWorker_new 3 1) ''now'' [(Some (Listen [idle_socket]), False)] (5, world_with empty_tables) =
    Some (Inr ((\<lparr>v_memused = 1024, v_date = ''now'', v_errno = EAGAIN\<rparr>, [idle_session]), (5, world_with empty_tables)))"
proof -
  let ?r = "(hs_init_session (new_session idle_socket))\<lparr>r_state := HTTP_SESSION_READ, r_timeout := HTTP_REQUEST_TIMEOUT\<rparr>"
  let ?v = "\<lparr>v_memused = 1024, v_date = ''now'', v_errno = EAGAIN\<rparr>"
  have r: "?r = waiting_request [] parser_init stream_init idle_socket"
    by (simp add: hs_init_session_def new_session_def waiting_request_def)
  have read: "hs_stream_read_socket (http_server_init ''now'', ?r) = (True, (?v, idle_session))"
    unfolding r by (simp add: hs_stream_read_socket_def waiting_request_def stream_init_def read_loop.simps sock_read_def idle_socket_def
        idle_session_def grow_def http_server_init_def HTTP_REQUEST_BUF_SIZE_def)
  have "http_parse HS_TOK_NONE (r_parser idle_session) (r_stream idle_session) = Some (Inr (no_token, r_parser idle_session, r_stream idle_session))"
    by (simp add: http_parse_def hs_meta_emit_def idle_session_def waiting_request_def parser_init_def stream_init_def parse_loop.simps
        hs_stream_next_def parse_end_def no_token_def HTTP_MAX_TOKEN_LENGTH_def Let_def)
  then have process: "process_loop (Suc n) HS_TOK_NONE f ((?v, idle_session), a) = Some (Inr ((?v, idle_session), a))" for n f and a :: "64 word \<times> world"
    by (simp add: process_loop.simps dispatch_token_def no_token_def)
  have asked: "end_if_asked ((?v, idle_session), a) = ((?v, idle_session), a)" for a :: "64 word \<times> world"
    by (simp add: end_if_asked_def idle_session_def waiting_request_def has_flag_def flag_set_def HTTP_AUTOMATIC_def HTTP_END_SESSION_def)
  have "http_session HS_TOK_NONE f ((http_server_init ''now'', new_session idle_socket), a) = Some (Inr ((?v, idle_session), a))" for f and a :: "64 word \<times> world"
    using read
    by (simp add: process asked http_session_def new_session_def http_server_init_def HTTP_MAX_TOTAL_EST_MEM_USAGE_def hs_read_and_process_request_def)
  then show ?thesis by (simp add: worker_dispatch_def http_server_poll_def reported_def)
qed

section \<open>Properties\<close>

text \<open>
  C24. Every event is handled to its end: whatever connections are made, whatever bytes arrive in whatever pieces, whenever
  sockets break or have no room, and whenever timers run, the loop of the parser, the loop over the tokens and the
  loop that accepts connections end, so the dispatch thread of the worker comes back to its flag or the process ends with a crash.
\<close>

theorem worker_dispatch_total: "\<exists>x. worker_dispatch behind env h date polls s = Some x"
  using worker_app.poll_loop_ok [of "((http_server_init date, []), s)" behind env h polls] server_ok_start [of date]
  by (auto simp: worker_dispatch_def)

text \<open>
  C25. The memory that the server counts is exactly the sum of the buffers that its sessions hold, so the limit of
  \<open>HTTP_MAX_TOTAL_EST_MEM_USAGE\<close> is compared with the truth: no event leaks a buffer or counts one twice. A session that has
  ended holds none, and the timeout of a session that has not is positive and at most that of a kept connection.
\<close>

theorem worker_dispatch_accounts:
  assumes "worker_dispatch behind env h date polls s = Some (Inr ((v, rs), s'))"
  shows "v_memused v = sum_list (map buffered rs) \<and>
    (\<forall>r \<in> set rs. (r_live r \<longrightarrow> 0 < r_timeout r \<and> r_timeout r \<le> HTTP_KEEP_ALIVE_TIMEOUT) \<and>
       (\<not> r_live r \<longrightarrow> s_buf (r_stream r) = None))"
  using worker_app.poll_loop_ok [of "((http_server_init date, []), s)" behind env h polls] server_ok_start [of date] assms
  by (fastforce simp: worker_dispatch_def server_ok_def session_ok_def time_ok_def)

theorem worker_dispatch_accounts_witness:
  "\<exists>v rs s'. worker_dispatch HS_TOK_NONE quiet_env (MockHTTPWorker_new 3 1) ''now'' [(Some (Listen [idle_socket]), False)]
      (5, world_with empty_tables) = Some (Inr ((v, rs), s')) \<and> v_memused v = sum_list (map buffered rs) \<and> v_memused v = 1024"
  using worker_dispatch_accounts [OF idle_dispatch] by (simp add: idle_dispatch)

text \<open>
  C26. No connection stays open without traffic: from every state the worker reaches, 120 ticks of the timer of a session end it, and
  give exactly its buffer back.
\<close>

theorem worker_session_times_out:
  assumes "worker_dispatch behind env h date polls s = Some (Inr ((v, rs), s'))" "\<forall>p \<in> set polls. \<not> snd p"
    and "i < length rs" "r_live (rs ! i)"
  shows "\<exists>v' r. worker_dispatch behind env h date (polls @ replicate 120 (Some (Request_timer i), False)) s =
      Some (Inr ((v', rs[i := r]), s')) \<and> \<not> r_live r \<and> v_memused v' = v_memused v - buffered (rs ! i)"
proof -
  have "server_ok (v, rs)"
    using worker_app.poll_loop_ok [of "((http_server_init date, []), s)" behind env h polls] server_ok_start [of date] assms(1)
    by (auto simp: worker_dispatch_def)
  then have "session_ok (rs ! i)" using assms(3,4) by (rule server_ok_session)
  then have "0 < r_timeout (rs ! i)" "r_timeout (rs ! i) \<le> int 120"
    by (simp_all add: session_ok_def time_ok_def HTTP_KEEP_ALIVE_TIMEOUT_def)
  then show ?thesis
    unfolding worker_dispatch_def poll_loop_append [OF assms(1) [unfolded worker_dispatch_def] assms(2)]
    by (rule timer_runs_out [OF assms(3,4)])
qed

theorem worker_session_times_out_witness:
  "\<exists>v' r s'. worker_dispatch HS_TOK_NONE quiet_env (MockHTTPWorker_new 3 1) ''now''
      ([(Some (Listen [idle_socket]), False)] @ replicate 120 (Some (Request_timer 0), False)) (5, world_with empty_tables) =
      Some (Inr ((v', [r]), s')) \<and> \<not> r_live r \<and> v_memused v' = 0"
proof -
  have "buffered idle_session = 1024" "r_live idle_session"
    by (simp_all add: idle_session_def waiting_request_def buffered_def)
  then show ?thesis using worker_session_times_out [OF idle_dispatch, of 0] by auto
qed

end
