(* ===== verification/Comm_Bench.thy ===== *)
theory Comm_Bench
  imports Bench_Async
begin

text \<open>
  \<open>CommunicationBench.cc\<close>: threads insert messages into the database by asynchronous requests and nobody receives them. The
  responses that have arrived are handled in the event loop of the client, as in \<open>Bench_Async\<close>. With \<open>-b\<close> a message is a
  row of a replicated table. Without it the program calls a method of the base class that no procedure of the
  database accepts, so it never reports anything.
\<close>

section \<open>Definitions\<close>

subsection \<open>Options\<close>

record comm_options = sched_params +
  co_numSenders :: int
  co_measureIntervalMsec :: int
  co_totalExecTimeMsec :: int
  co_arrivalDelay :: int
  co_scheduleAlgo :: string
  co_maxOutstanding :: int
  co_cleanDB :: bool
  co_noSetupDB :: bool
  co_broadcast :: bool
  co_serverAddr :: string
  co_outputFile :: string

definition comm_defaults :: comm_options where
  "comm_defaults = \<lparr>sp_partitions = 8, sp_numTasks = 8, sp_workerCapacity = 2 ^ 27, sp_numWorkers = 1, sp_probMultiTx = 0,
     co_numSenders = 1, co_measureIntervalMsec = 2000, co_totalExecTimeMsec = 10000, co_arrivalDelay = 0,
     co_scheduleAlgo = ''fifo'', co_maxOutstanding = 1, co_cleanDB = False, co_noSetupDB = False, co_broadcast = False,
     co_serverAddr = ''localhost'', co_outputFile = ''message_results.csv''\<rparr>"

definition comm_switch :: "char \<times> string \<Rightarrow> comm_options \<Rightarrow> comm_options option" where
  "comm_switch x c =
     (case x of (opt, optarg) \<Rightarrow>
      if opt = CHR ''o'' then Some (c\<lparr>co_outputFile := optarg\<rparr>)
      else if opt = CHR ''s'' then Some (c\<lparr>co_serverAddr := optarg\<rparr>)
      else if opt = CHR ''i'' then Some (c\<lparr>co_measureIntervalMsec := atoi optarg\<rparr>)
      else if opt = CHR ''t'' then Some (c\<lparr>co_totalExecTimeMsec := atoi optarg\<rparr>)
      else if opt = CHR ''N'' then Some (c\<lparr>co_numSenders := atoi optarg\<rparr>)
      else if opt = CHR ''P'' then Some (c\<lparr>sp_partitions := atoi optarg\<rparr>)
      else if opt = CHR ''d'' then Some (c\<lparr>co_arrivalDelay := atoi optarg\<rparr>)
      else if opt = CHR ''x'' then Some (c\<lparr>co_cleanDB := True\<rparr>)
      else if opt = CHR ''X'' then Some (c\<lparr>co_noSetupDB := True\<rparr>)
      else if opt = CHR ''m'' then Some (c\<lparr>co_maxOutstanding := atoi optarg\<rparr>)
      else if opt = CHR ''b'' then Some (c\<lparr>co_broadcast := True\<rparr>)
      else None)"

definition comm_args :: "string list \<Rightarrow> comm_options option" where
  "comm_args argv = option_loop comm_switch (getopt ''hxXbo:s:i:t:N:P:d:m:'' argv) comm_defaults"

definition comm_constructScheduler :: "platform \<Rightarrow> comm_options \<Rightarrow> string \<Rightarrow> scheduler option result" where
  "comm_constructScheduler nu c algo =
     (let new = connected (n_accepts nu) (co_serverAddr c) in
      if algo = ''fifo'' then new (new_Fifo c)
      else if algo = ''fifo-task'' then new (new_FifoTask c)
      else if algo = ''single-partitioned-fifo-task'' then new (new_SinglePartitioned c (sp_probMultiTx c))
      else if algo = ''spark'' then new (new_Spark c)
      else if algo = ''scan-task'' then new (new_ScanTask c)
      else if algo = ''push-fifo'' then new (new_PushFifo c)
      else Inr None)"

subsection \<open>Threads\<close>

datatype comm_pc =
    CStart
  | CLoop
  | CEvents bool                  \<comment> \<open>in the event loop, of \<open>drain\<close> or not\<close>
  | CTaken bool "32 word"         \<comment> \<open>in the callback with an index, about to check it\<close>
  | CHold bool "32 word"          \<comment> \<open>in the callback with an entry, about to record\<close>
  | CCond
  | CEnd

text \<open>\<open>ct_sent\<close> counts the requests sent; the program has no such variable.\<close>

record comm_thread =
  ct_pc :: comm_pc
  ct_world :: world
  ct_outCnt :: int
  ct_sent :: nat

record comm = recorder +
  cm_threads :: "comm_thread list"
  cm_mainFinished :: bool
  cm_endTime :: "64 word"

definition set_comm :: "nat \<Rightarrow> comm_thread \<Rightarrow> comm \<Rightarrow> comm" where
  "set_comm k th s = s\<lparr>cm_threads := (cm_threads s)[k := th]\<rparr>"

text \<open>The body of the loop of \<open>SenderThread\<close> up to the event loop.\<close>

definition comm_send :: "env \<Rightarrow> comm_options \<Rightarrow> comm_thread \<Rightarrow> comm_thread option" where
  "comm_send env c th =
     (case (if co_broadcast c then asyncBroadcastMessage env (ct_world th)
            else asyncSendMessage env 0 (sp_partitions c) (ct_world th)) of
        (False, w) \<Rightarrow> None
      | (True, w) \<Rightarrow>
          (let out = ct_outCnt th + 1;
               events = out \<ge> co_maxOutstanding c \<or> out > c_div (co_maxOutstanding c) 2
           in Some (th\<lparr>ct_world := w, ct_outCnt := out,
                ct_sent := ct_sent th + (length (pending w) - length (pending (ct_world th))),
                ct_pc := (if events then CEvents False else CCond)\<rparr>)))"

text \<open>\<open>SenderCallback::callback\<close>: up to the counter, and from the entry of the array to the end.\<close>

definition comm_callback :: "bool \<Rightarrow> nat \<Rightarrow> comm \<Rightarrow> comm option" where
  "comm_callback drain k s =
     (let th = cm_threads s ! k in
      case pending (ct_world th) of
        [] \<Rightarrow> None
      | Failure # rs \<Rightarrow> Some (s\<lparr>exited := True\<rparr>)
      | Results rows # rs \<Rightarrow>
          Some (set_comm k (th\<lparr>ct_world := (ct_world th)\<lparr>pending := rs\<rparr>, ct_pc := CTaken drain (arrayIndex s)\<rparr>) (rec_take k s)))"

definition comm_record :: "platform \<Rightarrow> comm_options \<Rightarrow> nat \<Rightarrow> int \<Rightarrow> bool \<Rightarrow> 32 word \<Rightarrow> comm \<Rightarrow> comm" where
  "comm_record nu c k roundTrip drain ix s =
     (let th = cm_threads s ! k; out = ct_outCnt th - 1
      in set_comm k (th\<lparr>ct_outCnt := out,
             ct_pc := (if out \<le> c_div (co_maxOutstanding c) 2 \<and> \<not> drain then CCond else CEvents drain)\<rparr>)
           (rec_write k ix (n_dbl nu (of_int roundTrip * 1000)) s))"

definition comm_thread_step ::
    "platform \<Rightarrow> env \<Rightarrow> comm_options \<Rightarrow> nat \<Rightarrow> int \<Rightarrow> bool \<Rightarrow> comm \<Rightarrow> comm option" where
  "comm_thread_step nu env c k roundTrip arrived s =
     (let th = cm_threads s ! k in
      case ct_pc th of
        CStart \<Rightarrow>
          (case comm_constructScheduler nu c (co_scheduleAlgo c) of
             Inr (Some sch) \<Rightarrow> Some (set_comm k (th\<lparr>ct_outCnt := 0, ct_pc := CLoop\<rparr>) s)
           | _ \<Rightarrow> Some (s\<lparr>exited := True\<rparr>))
      | CLoop \<Rightarrow>
          (case comm_send env c th of
             None \<Rightarrow> Some (s\<lparr>exited := True\<rparr>)
           | Some th' \<Rightarrow> Some (set_comm k th' s))
      | CEvents drain \<Rightarrow>
          (if arrived then comm_callback drain k s
           else if \<not> drain then Some (set_comm k (th\<lparr>ct_pc := CCond\<rparr>) s)
           else if pending (ct_world th) = [] then Some (set_comm k (th\<lparr>ct_pc := CEnd\<rparr>) (rec_end k s))
           else None)
      | CTaken drain ix \<Rightarrow>
          (if unat ix \<ge> kMaxEntries then Some (rec_check k ix s)
           else Some (set_comm k (th\<lparr>ct_pc := CHold drain ix\<rparr>) (rec_check k ix s)))
      | CHold drain ix \<Rightarrow> Some (comm_record nu c k roundTrip drain ix s)
      | CCond \<Rightarrow> Some (set_comm k (th\<lparr>ct_pc := (if cm_mainFinished s then CEvents True else CLoop)\<rparr>) s)
      | CEnd \<Rightarrow> None)"

definition comm_main_step :: "platform \<Rightarrow> bool \<Rightarrow> 64 word \<Rightarrow> comm \<Rightarrow> comm option" where
  "comm_main_step nu file_ok now s =
     (case main_at s of
        Measuring \<Rightarrow>
          (let up = \<not> now < cm_endTime s
           in Some ((rec_mark now up s)\<lparr>cm_mainFinished := up\<rparr>))
      | Joining \<Rightarrow>
          (if \<forall>x \<in> set (tickets s). x = Gone then Some (rec_process (n_dbl nu) file_ok s) else None)
      | Finished _ \<Rightarrow> None)"

definition new_comm_thread :: "world \<Rightarrow> comm_thread" where
  "new_comm_thread w = \<lparr>ct_pc = CStart, ct_world = w, ct_outCnt = 0, ct_sent = 0\<rparr>"

definition comm_start :: "comm_options \<Rightarrow> 64 word \<Rightarrow> 64 word \<Rightarrow> world \<Rightarrow> comm" where
  "comm_start c t0 now w =
     recorder.extend (rec_start (nat (co_numSenders c)) t0)
       \<lparr>cm_threads = replicate (nat (co_numSenders c)) (new_comm_thread w), cm_mainFinished = False,
        cm_endTime = now + of_int (narrow32 (co_totalExecTimeMsec c * 1000))\<rparr>"

inductive comm_step :: "platform \<Rightarrow> (nat \<Rightarrow> env) \<Rightarrow> comm_options \<Rightarrow> bool \<Rightarrow> comm \<Rightarrow> comm \<Rightarrow> bool"
  for nu envs c file_ok where
  thread: "\<not> exited s \<Longrightarrow> k < length (cm_threads s) \<Longrightarrow>
    comm_thread_step nu (envs k) c k roundTrip arrived s = Some s' \<Longrightarrow> comm_step nu envs c file_ok s s'"
| main: "\<not> exited s \<Longrightarrow> comm_main_step nu file_ok now s = Some s' \<Longrightarrow> comm_step nu envs c file_ok s s'"

subsection \<open>The program\<close>

definition comm_setup :: "platform \<Rightarrow> env \<Rightarrow> comm_options \<Rightarrow> sched_state \<Rightarrow> bool result \<times> sched_state" where
  "comm_setup nu env c s =
     (case comm_constructScheduler nu c (co_scheduleAlgo c) of
        Inl e \<Rightarrow> (Inl e, s)
      | Inr None \<Rightarrow> (Inl AssertFailed, s)
      | Inr (Some sch) \<Rightarrow> scheduler_setup env sch s)"

definition comm_teardown :: "platform \<Rightarrow> env \<Rightarrow> comm_options \<Rightarrow> sched_state \<Rightarrow> bool result \<times> sched_state" where
  "comm_teardown nu env c s =
     (case comm_constructScheduler nu c (co_scheduleAlgo c) of
        Inl e \<Rightarrow> (Inl e, s)
      | Inr None \<Rightarrow> (Inl AssertFailed, s)
      | Inr (Some sch) \<Rightarrow> (case scheduler_teardown env sch s of (r, s') \<Rightarrow> (Inr r, s')))"

definition comm_main ::
    "platform \<Rightarrow> env \<Rightarrow> string list \<Rightarrow> (comm_options \<Rightarrow> sched_state \<Rightarrow> bool result \<times> sched_state) \<Rightarrow>
     sched_state \<Rightarrow> int result \<times> sched_state" where
  "comm_main nu env argv run s =
     (case comm_args argv of
        None \<Rightarrow> (Inr 1, s)
      | Some c \<Rightarrow>
          (case (if co_noSetupDB c then (Inr True, s) else comm_setup nu env c s) of
             (Inl e, s1) \<Rightarrow> (Inl e, s1)
           | (Inr False, s1) \<Rightarrow> (Inr 1, s1)
           | (Inr True, s1) \<Rightarrow>
               (case run c s1 of
                  (Inl e, s2) \<Rightarrow> (Inl e, s2)
                | (Inr False, s2) \<Rightarrow> (Inr 1, s2)
                | (Inr True, s2) \<Rightarrow>
                    (if co_cleanDB c
                     then (case comm_teardown nu env c s2 of
                             (Inl e, s3) \<Rightarrow> (Inl e, s3)
                           | (Inr ok, s3) \<Rightarrow> (Inr (if ok then 0 else 1), s3))
                     else (Inr 0, s2)))))"

subsection \<open>Invariants\<close>

fun ticket_comm :: "comm_pc \<Rightarrow> ticket" where
  "ticket_comm (CTaken d ix) = Taken ix"
| "ticket_comm (CHold d ix) = Holding ix"
| "ticket_comm CEnd = Gone"
| "ticket_comm _ = Idle"

definition comm_wf :: "comm \<Rightarrow> bool" where
  "comm_wf s \<longleftrightarrow> tickets s = map (\<lambda>th. ticket_comm (ct_pc th)) (cm_threads s)"

definition unanswered :: "comm_thread \<Rightarrow> nat" where
  "unanswered th = length (pending (ct_world th))"

text \<open>
  Every request sent is unanswered or has taken an index, and a thread ends with none unanswered.
\<close>

definition comm_inv :: "comm \<Rightarrow> bool" where
  "comm_inv s \<longleftrightarrow> (\<forall>th \<in> set (cm_threads s). ct_pc th = CEnd \<longrightarrow> unanswered th = 0) \<and>
     unat (arrayIndex s) + (\<Sum>th\<leftarrow>cm_threads s. unanswered th) = (\<Sum>th\<leftarrow>cm_threads s. ct_sent th)"

text \<open>Without \<open>-b\<close>: every response is a failure, and a thread that has been through its loop has one.\<close>

fun before_callback :: "comm_pc \<Rightarrow> bool" where
  "before_callback CStart = True"
| "before_callback CLoop = True"
| "before_callback CCond = True"
| "before_callback (CEvents d) = True"
| "before_callback _ = False"

definition comm_failing :: "comm_thread \<Rightarrow> bool" where
  "comm_failing th \<longleftrightarrow> (\<forall>r \<in> set (pending (ct_world th)). r = Failure) \<and> before_callback (ct_pc th) \<and>
     (ct_pc th \<noteq> CStart \<and> ct_pc th \<noteq> CLoop \<longrightarrow> pending (ct_world th) \<noteq> [])"

definition comm_hopeless :: "comm \<Rightarrow> bool" where
  "comm_hopeless s \<longleftrightarrow> (\<forall>th \<in> set (cm_threads s). comm_failing th) \<and> arrayIndex s = 0 \<and> cm_threads s \<noteq> [] \<and>
     (\<forall>R. main_at s \<noteq> Finished R)"

section \<open>Lemmas\<close>

lemma comm_fields [simp]:
  "recorder.truncate (set_comm k th s) = recorder.truncate s" "recorder.truncate (s\<lparr>cm_mainFinished := b\<rparr>) = recorder.truncate s"
  "tickets (set_comm k th s) = tickets s" "cm_threads (set_comm k th s) = (cm_threads s)[k := th]"
  "arrayIndex (set_comm k th s) = arrayIndex s" "main_at (set_comm k th s) = main_at s"
  "cm_threads (rec_take k s) = cm_threads s" "cm_threads (rec_check k ix s) = cm_threads s"
  "cm_threads (rec_write k ix x s) = cm_threads s" "cm_threads (rec_end k s) = cm_threads s"
  "cm_threads (rec_mark now up s) = cm_threads s" "cm_threads (rec_process dbl file_ok s) = cm_threads s"
  by (simp_all add: set_comm_def recorder.truncate_def rec_take_def rec_check_def rec_write_def rec_end_def rec_mark_def rec_process_def)

lemmas comm_step_defs = comm_thread_step_def comm_callback_def comm_record_def comm_main_step_def Let_def

lemma comm_send_pc: "comm_send env c th = Some th' \<Longrightarrow> ticket_comm (ct_pc th') = Idle \<and> ct_pc th' \<noteq> CEnd"
  by (auto simp: comm_send_def Let_def split: prod.splits bool.splits if_splits)

lemma comm_step_wf: "comm_wf s \<Longrightarrow> comm_step nu envs c file_ok s s' \<Longrightarrow> comm_wf s'"
  by (auto elim!: comm_step.cases simp: comm_wf_def comm_step_defs map_update comm_send_pc intro!: update_same_map
      split: comm_pc.splits main_pc.splits option.splits sum.splits if_splits list.splits response.splits)

lemma comm_thread_view:
  assumes "comm_wf s" "k < length (cm_threads s)" "comm_thread_step nu env c k rt arrived s = Some s'"
  shows "recorder.truncate s' = recorder.truncate s \<or>
    rec_step (n_dbl nu) file_ok (recorder.truncate s) (recorder.truncate s')"
proof -
  have t: "k < length (tickets s)" "tickets s ! k = ticket_comm (ct_pc (cm_threads s ! k))"
    using assms(1,2) by (simp_all add: comm_wf_def)
  note die = rec_step.die [of _ _ "recorder.truncate s"]
  show ?thesis
  proof (cases "ct_pc (cm_threads s ! k)")
    case (CEvents d)
    then show ?thesis using assms(3) t die rec_step.grab [of k "recorder.truncate s"] rec_step.stop [of k "recorder.truncate s"]
      by (auto simp: comm_step_defs split: if_splits list.splits response.splits)
  next
    case (CTaken d ix)
    then show ?thesis using assms(3) t rec_step.test [of k "recorder.truncate s" ix]
      by (auto simp: comm_step_defs split: if_splits)
  next
    case (CHold d ix)
    then show ?thesis using assms(3) t rec_step.fill [of k "recorder.truncate s" ix] by (auto simp: comm_step_defs)
  qed (use assms(3) die in \<open>auto simp: comm_step_defs split: sum.splits option.splits\<close>)
qed

lemma comm_main_view:
  assumes "comm_main_step nu file_ok now s = Some s'"
  shows "rec_step (n_dbl nu) file_ok (recorder.truncate s) (recorder.truncate s')"
  using assms rec_step.mark [of "recorder.truncate s"] rec_step.results [of "recorder.truncate s"]
  by (auto simp: comm_main_step_def Let_def split: main_pc.splits if_splits)

interpretation comm_rec: recording_program "comm_step nu envs c file_ok" comm_wf "recorder.truncate" "n_dbl nu" file_ok
  for nu envs c file_ok
proof
  fix s s'
  assume "comm_wf s" "comm_step nu envs c file_ok s s'"
  then show "comm_wf s'" by (rule comm_step_wf)
next
  fix s s'
  assume wf: "comm_wf s" and "comm_step nu envs c file_ok s s'"
  from this(2) show "recorder.truncate s' = recorder.truncate s \<or>
      rec_step (n_dbl nu) file_ok (recorder.truncate s) (recorder.truncate s')"
    by (cases rule: comm_step.cases) (use comm_thread_view [OF wf] comm_main_view in blast)+
qed

lemma comm_start_wf: "comm_wf (comm_start c t0 now w)"
  "recorder.truncate (comm_start c t0 now w) = rec_start (nat (co_numSenders c)) t0"
  by (simp_all add: comm_wf_def comm_start_def recorder.extend_def recorder.truncate_def rec_start_def new_comm_thread_def)

lemma comm_reach_wf: "(comm_step nu envs c file_ok)\<^sup>*\<^sup>* (comm_start c t0 now w) s \<Longrightarrow> comm_wf s"
  by (induction rule: rtranclp_induct) (use comm_start_wf(1) comm_step_wf in blast)+

subsection \<open>Requests\<close>

lemma invoke_pending: "invoke env name ps w = (r, w') \<Longrightarrow> pending w' = pending w"
  by (auto simp: invoke_def tick_def split: if_splits option.splits prod.splits)

lemma broadcast_pending: "asyncBroadcastMessage env w = (ok, w') \<Longrightarrow> \<exists>r. pending w' = pending w @ [r]"
  by (auto simp: asyncBroadcastMessage_def invoke_async_def split: prod.splits dest: invoke_pending)

lemma send_loop_pending:
  "pending (snd (for_loop n i (\<lambda>i w. (None :: unit option, invoke_async env ''SendMessage'' [WInt i] w)) w)) =
     pending w @ replicate n Failure"
proof (induction n arbitrary: i w)
  case (Suc n)
  have "pending (invoke_async env ''SendMessage'' [WInt i] w) = pending w @ [Failure]"
    by (simp add: invoke_async_def invoke_SendMessage_one tick_def)
  then show ?case by (simp add: Suc.IH)
qed simp

lemma send_pending: "asyncSendMessage env 0 n w = (ok, w') \<Longrightarrow> pending w' = pending w @ replicate (nat n) Failure"
  using send_loop_pending [of "nat n" 0 env w] by (auto simp: asyncSendMessage_def for_range_def)

text \<open>What a round of the loop adds.\<close>

lemma comm_send_adds:
  assumes "comm_send env c th = Some th'"
  shows "\<exists>rs. pending (ct_world th') = pending (ct_world th) @ rs \<and> ct_sent th' = ct_sent th + length rs"
    "\<not> co_broadcast c \<Longrightarrow> pending (ct_world th') = pending (ct_world th) @ replicate (nat (sp_partitions c)) Failure"
    "ct_pc th' = CCond \<or> ct_pc th' = CEvents False"
  using assms
  by (auto simp: comm_send_def Let_def split: prod.splits bool.splits if_splits dest!: broadcast_pending send_pending)

lemma comm_inv_replace:
  assumes "comm_inv s" "k < length (cm_threads s)" "cm_threads s' = (cm_threads s)[k := th]"
    and "ct_pc th = CEnd \<Longrightarrow> unanswered th = 0"
    and "unat (arrayIndex s') + unanswered th + ct_sent (cm_threads s ! k) =
      unat (arrayIndex s) + unanswered (cm_threads s ! k) + ct_sent th"
  shows "comm_inv s'"
proof -
  have "unanswered x = 0" if "x \<in> set (cm_threads s')" "ct_pc x = CEnd" for x
    using that assms(1,3,4) set_update_subset_insert [of "cm_threads s" k th] by (auto simp: comm_inv_def)
  moreover have "unat (arrayIndex s') + (\<Sum>x\<leftarrow>cm_threads s'. unanswered x) = (\<Sum>x\<leftarrow>cm_threads s'. ct_sent x)"
    using sum_list_replace [OF assms(2), where f = unanswered and y = th] sum_list_replace [OF assms(2), where f = ct_sent and y = th]
      assms(1,3,5) by (simp add: comm_inv_def)
  ultimately show ?thesis by (simp add: comm_inv_def)
qed

lemma comm_inv_exit: "comm_inv s \<Longrightarrow> comm_inv (s\<lparr>exited := True\<rparr>)"
  by (simp add: comm_inv_def)

lemma comm_thread_inv:
  assumes inv: "comm_inv s" and k: "k < length (cm_threads s)" and top: "unat (arrayIndex s) < 2 ^ 32 - 1"
    and run: "comm_thread_step nu env c k rt arrived s = Some s'"
  shows "comm_inv s'"
proof -
  let ?th = "cm_threads s ! k"
  have up: "unat (arrayIndex s + 1) = unat (arrayIndex s) + 1" using top by (simp add: unat_word_ariths)
  note replace = comm_inv_replace [OF inv k]
  show ?thesis
  proof (cases "ct_pc ?th")
    case CLoop
    show ?thesis
    proof (cases "comm_send env c ?th")
      case (Some th')
      then have s': "s' = set_comm k th' s" using run CLoop by (simp add: comm_step_defs)
      show ?thesis using comm_send_adds [OF Some] by (intro replace [of s' th']) (auto simp: s' unanswered_def)
    qed (use run CLoop inv in \<open>auto simp: comm_step_defs intro: comm_inv_exit\<close>)
  next
    case (CEvents d)
    then show ?thesis using run up
      by (auto simp: comm_step_defs unanswered_def
          split: if_splits list.splits response.splits intro!: comm_inv_exit [OF inv] replace)
  next
    case (CTaken d ix)
    then show ?thesis using run inv
      by (auto simp: comm_step_defs rec_check_def unanswered_def split: if_splits intro!: comm_inv_exit replace)
  qed (use run inv in \<open>auto simp: comm_step_defs unanswered_def split: sum.splits option.splits if_splits intro!: comm_inv_exit replace\<close>)
qed

lemma comm_main_inv: "comm_inv s \<Longrightarrow> comm_main_step nu file_ok now s = Some s' \<Longrightarrow> comm_inv s'"
  by (auto simp: comm_main_step_def comm_inv_def Let_def split: main_pc.splits if_splits)

lemma comm_reach_inv:
  assumes "(comm_step nu envs c file_ok)\<^sup>*\<^sup>* (comm_start c t0 now w) s" "nat (co_numSenders c) \<le> 2 ^ 31" "pending w = []"
  shows "comm_inv s"
  using assms(1)
proof (induction rule: rtranclp_induct)
  case base
  then show ?case using assms(3)
    by (simp add: comm_inv_def comm_start_def recorder.extend_def rec_start_def new_comm_thread_def unanswered_def map_replicate_const)
next
  case (step s s')
  have inv: "rec_inv (recorder.truncate s)" "length (tickets s) = nat (co_numSenders c)"
    using comm_rec.reach_inv [OF step.hyps(1) comm_start_wf assms(2)] by simp_all
  have "unat (arrayIndex s) \<le> kMaxEntries + beyond (recorder.truncate s)" using inv(1) by (simp add: rec_inv_def)
  also have "\<dots> \<le> 2 ^ 26 + 2 ^ 31"
    using beyond_le [of "recorder.truncate s"] inv(2) assms(2) by (simp add: kMaxEntries_def)
  finally have top: "unat (arrayIndex s) < 2 ^ 32 - 1" by simp
  from step.hyps(2) show ?case
    by (cases rule: comm_step.cases) (use step.IH top comm_thread_inv comm_main_inv in blast)+
qed

text \<open>
  C34. The communication benchmark loses no message, under every interleaving of the threads, every arrival of
  responses and every behaviour of the database: every request sent is unanswered or has been given one index of the
  latency array; when the benchmark has finished, every request was answered and recorded, and the results exist
  and account for the requests up to the last interval boundary.
\<close>

theorem comm_benchmark_accounts:
  assumes "(comm_step nu envs c True)\<^sup>*\<^sup>* (comm_start c t0 now w) s" "co_numSenders c \<le> 2 ^ 31" "pending w = []"
  shows "unat (arrayIndex s) + (\<Sum>th\<leftarrow>cm_threads s. unanswered th) = (\<Sum>th\<leftarrow>cm_threads s. ct_sent th) \<and>
    (\<forall>R. main_at s = Finished R \<longrightarrow> unat (arrayIndex s) = (\<Sum>th\<leftarrow>cm_threads s. ct_sent th) \<and>
      (\<exists>res. R = Inr (Some res) \<and> accounts (n_dbl nu) (recorder.truncate s) res))"
proof -
  have n: "nat (co_numSenders c) \<le> 2 ^ 31" using assms(2) by simp
  have inv: "comm_inv s" using comm_reach_inv [OF assms(1) n assms(3)] .
  have zero: "(\<Sum>th\<leftarrow>cm_threads s. unanswered th) = 0" if "main_at s = Finished R" for R
  proof -
    have wf: "comm_wf s" "rec_done (n_dbl nu) True (recorder.truncate s)"
      using comm_rec.reach_inv [OF assms(1) comm_start_wf n] by simp_all
    have "unanswered th = 0" if "th \<in> set (cm_threads s)" for th
    proof -
      have "ticket_comm (ct_pc th) = Gone" using wf \<open>main_at s = Finished R\<close> that by (auto simp: comm_wf_def rec_done_def)
      then have "ct_pc th = CEnd" by (cases "ct_pc th") simp_all
      then show ?thesis using inv that by (auto simp: comm_inv_def)
    qed
    then show ?thesis by (simp add: sum_list_eq_0_iff)
  qed
  have "unat (arrayIndex s) + (\<Sum>th\<leftarrow>cm_threads s. unanswered th) = (\<Sum>th\<leftarrow>cm_threads s. ct_sent th)"
    using inv by (simp add: comm_inv_def)
  then have "unat (arrayIndex s) = (\<Sum>th\<leftarrow>cm_threads s. ct_sent th)" if "main_at s = Finished R" for R
    using zero [OF that] by linarith
  then show ?thesis using inv comm_rec.reach_accounts [OF assms(1) comm_start_wf n TrueI] by (simp add: comm_inv_def)
qed

subsection \<open>Without broadcast\<close>

lemma comm_failing_replace:
  assumes "comm_hopeless s" "k < length (cm_threads s)" "cm_threads s' = (cm_threads s)[k := th]" "comm_failing th"
    and "arrayIndex s' = arrayIndex s" "main_at s' = main_at s"
  shows "comm_hopeless s'"
proof -
  have "comm_failing x" if "x \<in> set (cm_threads s')" for x
    using that assms(1,3,4) set_update_subset_insert [of "cm_threads s" k th] by (auto simp: comm_hopeless_def)
  moreover have "cm_threads s' \<noteq> []" using assms(2,3) by auto
  ultimately show ?thesis using assms(1,5,6) by (simp add: comm_hopeless_def)
qed

lemma comm_thread_hopeless:
  assumes h: "comm_hopeless s" and k: "k < length (cm_threads s)" and c: "\<not> co_broadcast c" "0 < sp_partitions c"
    and run: "comm_thread_step nu env c k rt arrived s = Some s'"
  shows "comm_hopeless s'"
proof -
  let ?th = "cm_threads s ! k"
  have th: "comm_failing ?th" using h k by (simp add: comm_hopeless_def)
  have exit: "comm_hopeless (s\<lparr>exited := True\<rparr>)" using h by (simp add: comm_hopeless_def)
  note replace = comm_failing_replace [OF h k]
  show ?thesis
  proof (cases "ct_pc ?th")
    case CLoop
    show ?thesis
    proof (cases "comm_send env c ?th")
      case (Some th')
      then have s': "s' = set_comm k th' s" using run CLoop by (simp add: comm_step_defs)
      have "comm_failing th'" using th comm_send_adds(2,3) [OF Some] c by (auto simp: comm_failing_def)
      then show ?thesis by (intro replace [of s' th']) (auto simp: s')
    qed (use run CLoop exit in \<open>auto simp: comm_step_defs\<close>)
  next
    case (CEvents d)
    then obtain rs where "pending (ct_world ?th) = Failure # rs"
      using th by (cases "pending (ct_world ?th)") (auto simp: comm_failing_def)
    then show ?thesis using run CEvents th exit
      by (auto simp: comm_step_defs comm_failing_def split: if_splits intro!: replace)
  qed (use run th exit in \<open>auto simp: comm_step_defs comm_failing_def split: sum.splits option.splits intro!: replace\<close>)
qed

text \<open>
  C35. Without \<open>-b\<close> the benchmark cannot report anything: \<open>asyncSendMessage\<close> passes one parameter to a procedure that
  takes four, so every response is a failure, the first one that is handled ends the program, and no
  run gets an entry of the array or reaches the results, whatever the database and the threads do.
\<close>

theorem comm_send_never_reports:
  assumes "(comm_step nu envs c file_ok)\<^sup>*\<^sup>* (comm_start c t0 now w) s" "pending w = []"
    and "\<not> co_broadcast c" "0 < sp_partitions c" "0 < co_numSenders c"
  shows "arrayIndex s = 0 \<and> (\<forall>R. main_at s \<noteq> Finished R) \<and> (\<forall>th \<in> set (cm_threads s). \<forall>r \<in> set (pending (ct_world th)). r = Failure)"
proof -
  have "comm_hopeless s" using assms(1)
  proof (induction rule: rtranclp_induct)
    case base
    then show ?case using assms(2,5)
      by (simp add: comm_hopeless_def comm_start_def recorder.extend_def rec_start_def new_comm_thread_def comm_failing_def)
  next
    case (step s s')
    have wf: "comm_wf s" using comm_reach_wf [OF step.hyps(1)] .
    from step.hyps(2) show ?case
    proof (cases rule: comm_step.cases)
      case (main now)
      obtain th where "th \<in> set (cm_threads s)" "comm_failing th"
        using step.IH by (cases "cm_threads s") (auto simp: comm_hopeless_def)
      then have "Idle \<in> set (tickets s)"
        using wf by (cases "ct_pc th") (force simp: comm_wf_def comm_failing_def)+
      then show ?thesis using main step.IH by (auto simp: comm_step_defs comm_hopeless_def rec_mark_def split: main_pc.splits if_splits)
    qed (use step.IH assms(3,4) comm_thread_hopeless in blast)
  qed
  then show ?thesis by (auto simp: comm_hopeless_def comm_failing_def)
qed

subsection \<open>Examples\<close>

theorem comm_send_never_reports_witness:
  "arrayIndex (comm_start comm_defaults 5 6 (world_with empty_tables)) = 0 \<and> \<not> co_broadcast comm_defaults"
  using comm_send_never_reports [OF rtranclp.rtrancl_refl, of "world_with empty_tables" comm_defaults 5 6]
  by (simp add: comm_defaults_def world_with_def)

theorem comm_benchmark_accounts_witness:
  "let c = comm_defaults\<lparr>co_broadcast := True\<rparr>;
       nu = \<lparr>n_dbl = (\<lambda>x. x), n_flt = (\<lambda>x. x), n_exp = (\<lambda>_ _. 1), n_unif = (\<lambda>_ _. 1), n_accepts = (\<lambda>_. True)\<rparr>
   in \<exists>s th. (comm_step nu (\<lambda>_. quiet_env) c True)\<^sup>*\<^sup>* (comm_start c 5 6 (world_with empty_tables)) s \<and> cm_threads s = [th] \<and>
     ct_sent th = 1 \<and> unanswered th = 1 \<and> arrayIndex s = 0"
proof -
  let ?c = "comm_defaults\<lparr>co_broadcast := True\<rparr>" and ?w = "world_with empty_tables"
  let ?nu = "\<lparr>n_dbl = (\<lambda>x. x), n_flt = (\<lambda>x. x), n_exp = (\<lambda>_ _. 1), n_unif = (\<lambda>_ _. 1), n_accepts = (\<lambda>_. True)\<rparr>"
  let ?R = "comm_step ?nu (\<lambda>_. quiet_env) ?c True"
  let ?s0 = "comm_start ?c 5 6 ?w"
  let ?th = "(new_comm_thread ?w)\<lparr>ct_outCnt := 0, ct_pc := CLoop\<rparr>"
  let ?s1 = "set_comm 0 ?th ?s0"
  have opts: "co_broadcast ?c" "co_scheduleAlgo ?c = ''fifo''" "co_numSenders ?c = 1" "co_maxOutstanding ?c = 1"
    by (simp_all add: comm_defaults_def)
  have facts: "\<not> exited ?s0" "cm_threads ?s0 = [new_comm_thread ?w]" "arrayIndex ?s0 = 0"
    using opts by (simp_all add: comm_start_def recorder.extend_def rec_start_def)
  have 1: "?R ?s0 ?s1"
    using facts opts by (intro comm_step.thread [where k = 0])
      (simp_all add: comm_step_defs new_comm_thread_def comm_constructScheduler_def connected_def VoltdbSchedulerUtil_init_def)
  obtain w' where w': "asyncBroadcastMessage quiet_env ?w = (True, w')" by (simp add: asyncBroadcastMessage_def)
  obtain r where "pending w' = pending ?w @ [r]" using broadcast_pending [OF w'] by blast
  then have p: "length (pending w') = 1" "pending ?w = []" by (simp_all add: world_with_def)
  let ?th2 = "?th\<lparr>ct_world := w', ct_outCnt := 1, ct_sent := 1, ct_pc := CEvents False\<rparr>"
  have "comm_send quiet_env ?c ?th = Some ?th2"
    using opts w' p by (simp add: comm_send_def new_comm_thread_def Let_def)
  then have 2: "?R ?s1 (set_comm 0 ?th2 ?s1)"
    using facts by (intro comm_step.thread [where k = 0]) (simp_all add: comm_step_defs set_comm_def)
  have reach: "?R\<^sup>*\<^sup>* ?s0 (set_comm 0 ?th2 ?s1)" using 1 2 by (meson rtranclp.rtrancl_into_rtrancl rtranclp.rtrancl_refl)
  have s: "cm_threads (set_comm 0 ?th2 ?s1) = [?th2]" "arrayIndex (set_comm 0 ?th2 ?s1) = 0" "ct_sent ?th2 = 1"
    using facts by simp_all
  have "co_numSenders ?c \<le> 2 ^ 31" "pending ?w = []" using opts p by simp_all
  then have "unanswered ?th2 = 1" using comm_benchmark_accounts [OF reach] s by simp
  with reach s show ?thesis
    unfolding Let_def by (intro exI [of _ "set_comm 0 ?th2 ?s1"] exI [of _ ?th2]) blast
qed

end
