(* ===== verification/Ping_Pong.thy ===== *)
theory Ping_Pong
  imports Prelude
begin

text \<open>
  The protocol that the communication benchmarks measure: in each round a client sends a batch of \<open>M\<close> units
  (messages, or bytes of a stream), the server waits for the whole batch and replies with a batch of the same size, and
  the client waits for all of it. The units travel in two channels that deliver any part of what they hold. The
  locale \<open>ping_pong_program\<close> is the contract of a program that follows the protocol on several connections.
\<close>

section \<open>Definitions\<close>

text \<open>Completed rounds of both sides, and how far each is in its current one.\<close>

record ping_pong =
  c_round :: nat
  c_sent :: nat
  c_back :: nat
  s_round :: nat
  s_got :: nat
  s_replied :: nat

definition pp_start :: ping_pong where
  "pp_start = \<lparr>c_round = 0, c_sent = 0, c_back = 0, s_round = 0, s_got = 0, s_replied = 0\<rparr>"

text \<open>All units sent, received by the server, sent back, and received by the client.\<close>

definition all_sent :: "nat \<Rightarrow> ping_pong \<Rightarrow> nat" where
  "all_sent M x = M * c_round x + c_sent x"

definition all_got :: "nat \<Rightarrow> ping_pong \<Rightarrow> nat" where
  "all_got M x = M * s_round x + s_got x"

definition all_replied :: "nat \<Rightarrow> ping_pong \<Rightarrow> nat" where
  "all_replied M x = M * s_round x + s_replied x"

definition all_back :: "nat \<Rightarrow> ping_pong \<Rightarrow> nat" where
  "all_back M x = M * c_round x + c_back x"

inductive pp_step :: "nat \<Rightarrow> ping_pong \<Rightarrow> ping_pong \<Rightarrow> bool" for M where
  send: "c_back x = 0 \<Longrightarrow> 0 < n \<Longrightarrow> c_sent x + n \<le> M \<Longrightarrow> pp_step M x (x\<lparr>c_sent := c_sent x + n\<rparr>)"
| get: "s_got x < M \<Longrightarrow> s_replied x = 0 \<Longrightarrow> 0 < n \<Longrightarrow> all_got M x + n \<le> all_sent M x \<Longrightarrow> pp_step M x (x\<lparr>s_got := s_got x + n\<rparr>)"
| reply: "M \<le> s_got x \<Longrightarrow> 0 < n \<Longrightarrow> s_replied x + n \<le> M \<Longrightarrow> pp_step M x (x\<lparr>s_replied := s_replied x + n\<rparr>)"
| again: "s_replied x = M \<Longrightarrow> pp_step M x (x\<lparr>s_round := Suc (s_round x), s_got := 0, s_replied := 0\<rparr>)"
| take: "c_sent x = M \<Longrightarrow> c_back x < M \<Longrightarrow> 0 < n \<Longrightarrow> all_back M x + n \<le> all_replied M x \<Longrightarrow> pp_step M x (x\<lparr>c_back := c_back x + n\<rparr>)"
| finish: "c_sent x = M \<Longrightarrow> M \<le> c_back x \<Longrightarrow> pp_step M x (x\<lparr>c_round := Suc (c_round x), c_sent := 0, c_back := 0\<rparr>)"

definition pp_inv :: "nat \<Rightarrow> ping_pong \<Rightarrow> bool" where
  "pp_inv M x \<longleftrightarrow> all_back M x \<le> all_replied M x \<and> s_replied x \<le> s_got x \<and> all_got M x \<le> all_sent M x \<and>
     c_sent x \<le> M \<and> c_back x \<le> M \<and> s_got x \<le> M \<and>
     (0 < c_back x \<longrightarrow> c_sent x = M) \<and> (0 < s_replied x \<longrightarrow> s_got x = M)"

text \<open>Both sides wait for units and none is on the way.\<close>

definition pp_stuck :: "nat \<Rightarrow> ping_pong \<Rightarrow> bool" where
  "pp_stuck M x \<longleftrightarrow> c_sent x = M \<and> c_back x < M \<and> s_got x < M \<and> all_got M x = all_sent M x \<and> all_back M x = all_replied M x"

section \<open>Lemmas\<close>

lemmas totals = all_sent_def all_got_def all_replied_def all_back_def

lemma pp_start_inv: "pp_inv M pp_start"
  by (simp add: pp_inv_def pp_start_def totals)

lemma pp_step_inv:
  assumes "pp_step M x y" "pp_inv M x" "0 < M"
  shows "pp_inv M y"
  using assms(1)
proof (cases rule: pp_step.cases)
  case (get n)
  then show ?thesis using assms(2) unfolding pp_inv_def totals by simp
next
  case again
  then show ?thesis using assms(2) unfolding pp_inv_def totals by simp
next
  case (take n)
  then show ?thesis using assms(2) unfolding pp_inv_def totals by simp
next
  case finish
  then show ?thesis using assms(2) unfolding pp_inv_def totals by simp
qed (use assms(2) in \<open>auto simp: pp_inv_def totals\<close>)

text \<open>Between two rounds of the client nothing is on the way, and the server has answered all rounds.\<close>

lemma pp_calm:
  assumes "pp_inv M x" "c_sent x = 0"
  shows "all_got M x = all_sent M x \<and> all_back M x = all_replied M x \<and> all_back M x = all_sent M x"
  using assms unfolding pp_inv_def totals by simp

lemma pp_not_stuck:
  assumes "pp_inv M x"
  shows "\<not> pp_stuck M x"
proof
  assume stuck: "pp_stuck M x"
  then have eq: "M * s_round x + s_got x = M * Suc (c_round x)" "s_got x < M" by (auto simp: pp_stuck_def totals)
  have "s_got x = (M * s_round x + s_got x) mod M" using eq(2) by simp
  then have "s_got x = 0" using eq(1) by simp
  moreover have "M * c_round x + c_back x = M * s_round x + s_replied x" "s_replied x \<le> s_got x" "c_back x < M"
    using stuck assms by (simp_all add: pp_stuck_def pp_inv_def totals)
  ultimately show False using eq(1) unfolding mult_Suc_right by linarith
qed

text \<open>While the client has not sent its whole batch, no reply is on the way.\<close>

lemma pp_writing:
  assumes "pp_inv M x" "c_sent x < M"
  shows "all_back M x = all_replied M x"
proof -
  have le: "M * a \<le> M * b" if "a \<le> b" for a b :: nat using that by simp
  have c: "c_back x = 0" "M * c_round x \<le> M * s_round x + s_replied x" "M * s_round x + s_got x \<le> M * c_round x + c_sent x"
    "0 < s_replied x \<Longrightarrow> s_got x = M" "s_replied x \<le> s_got x" "s_got x \<le> M"
    using assms by (auto simp: pp_inv_def totals)
  have less: "a \<le> b" if "M * a < M * b + M" for a b :: nat
    using that by (metis less_Suc_eq_le mult_Suc_right mult_less_cancel1 add.commute)
  have "M * s_round x + s_replied x \<le> M * c_round x"
  proof (cases "s_replied x = 0")
    case True
    then show ?thesis using le [OF less [of "s_round x" "c_round x"]] c(3) assms(2) by linarith
  next
    case False
    then have "M * Suc (s_round x) < M * c_round x + M" using c(3,4) assms(2) unfolding mult_Suc_right by linarith
    then have "M * Suc (s_round x) \<le> M * c_round x" by (intro le less)
    then show ?thesis using c(5,6) unfolding mult_Suc_right by linarith
  qed
  then show ?thesis using c(1,2) by (simp add: totals)
qed

locale ping_pong_program =
  fixes step :: "'p \<Rightarrow> 'p \<Rightarrow> bool"
    and wf :: "'p \<Rightarrow> bool"
    and view :: "nat \<Rightarrow> 'p \<Rightarrow> ping_pong"
    and M :: nat
  assumes M_pos: "wf s \<Longrightarrow> 0 < M"
    and step_wf: "wf s \<Longrightarrow> (\<And>k. pp_inv M (view k s)) \<Longrightarrow> step s s' \<Longrightarrow> wf s'"
    and step_view: "wf s \<Longrightarrow> (\<And>k. pp_inv M (view k s)) \<Longrightarrow> step s s' \<Longrightarrow>
      view k s' = view k s \<or> pp_step M (view k s) (view k s')"
begin

lemma reach_inv:
  assumes "step\<^sup>*\<^sup>* s0 s" "wf s0" "\<And>k. view k s0 = pp_start"
  shows "wf s \<and> (\<forall>k. pp_inv M (view k s))"
  using assms(1)
proof (induction rule: rtranclp_induct)
  case base
  then show ?case using assms(2,3) pp_start_inv by simp
next
  case (step s s')
  then have s: "wf s" "\<And>k. pp_inv M (view k s)" by simp_all
  have "pp_inv M (view k s')" for k
    using step_view [OF s step.hyps(2), of k] s(2) [of k] pp_step_inv M_pos [OF s(1)] by metis
  then show ?case using step_wf [OF s step.hyps(2)] by simp
qed

end

end
