(* ===== verification/DB_Bench.thy ===== *)
theory DB_Bench
  imports Bench_Sync Ping_Pong
begin

text \<open>
  \<open>DBCommBenchClient.cc\<close> and \<open>DBCommBenchServer.cc\<close>: messages through the database. Each sender thread sends a batch of messages
  to the receiver thread of the other process that has its number plus 100, by asynchronous invocations of
  \<open>SendMessage\<close>, and polls \<open>ReceiveMessage\<close> until the batch has come back. Both processes are one step relation over
  the tables of the database, which executes the requests of a connection at any later moment.
\<close>

section \<open>Definitions\<close>

subsection \<open>Options\<close>

record db_options =
  do_numSenders :: int
  do_numMessages :: int
  do_msg_size :: int
  do_measureIntervalMsec :: int
  do_totalExecTimeMsec :: int
  do_cleanDB :: bool
  do_broadcast :: bool
  do_serverAddr :: string
  do_outputFile :: string

definition db_defaults :: db_options where
  "db_defaults = \<lparr>do_numSenders = 1, do_numMessages = 1, do_msg_size = 2048, do_measureIntervalMsec = 2000,
     do_totalExecTimeMsec = 10000, do_cleanDB = False, do_broadcast = False, do_serverAddr = ''localhost'',
     do_outputFile = ''dbos_ipc_results.csv''\<rparr>"

definition db_switch :: "char \<times> string \<Rightarrow> db_options \<Rightarrow> db_options option" where
  "db_switch x c =
     (case x of (opt, optarg) \<Rightarrow>
      if opt = CHR ''o'' then Some (c\<lparr>do_outputFile := optarg\<rparr>)
      else if opt = CHR ''s'' then Some (c\<lparr>do_serverAddr := optarg\<rparr>)
      else if opt = CHR ''i'' then Some (c\<lparr>do_measureIntervalMsec := atoi optarg\<rparr>)
      else if opt = CHR ''t'' then Some (c\<lparr>do_totalExecTimeMsec := atoi optarg\<rparr>)
      else if opt = CHR ''M'' then Some (c\<lparr>do_numMessages := atoi optarg\<rparr>)
      else if opt = CHR ''N'' then Some (c\<lparr>do_numSenders := atoi optarg\<rparr>)
      else if opt = CHR ''m'' then Some (c\<lparr>do_msg_size := atoi optarg\<rparr>)
      else if opt = CHR ''x'' then Some (c\<lparr>do_cleanDB := True\<rparr>)
      else if opt = CHR ''b'' then Some (c\<lparr>do_broadcast := True\<rparr>)
      else None)"

definition db_args :: "string list \<Rightarrow> db_options option" where
  "db_args argv = option_loop db_switch (getopt ''hxbo:s:i:t:N:M:m:'' argv) db_defaults"

text \<open>The options of the server.\<close>

record db_server_options =
  ds_numReceivers :: int
  ds_numMessages :: int
  ds_msg_size :: int
  ds_serverAddr :: string

definition db_server_defaults :: db_server_options where
  "db_server_defaults = \<lparr>ds_numReceivers = 1, ds_numMessages = 1, ds_msg_size = 2048, ds_serverAddr = ''localhost''\<rparr>"

definition db_server_switch :: "char \<times> string \<Rightarrow> db_server_options \<Rightarrow> db_server_options option" where
  "db_server_switch x c =
     (case x of (opt, optarg) \<Rightarrow>
      if opt = CHR ''s'' then Some (c\<lparr>ds_serverAddr := optarg\<rparr>)
      else if opt = CHR ''N'' then Some (c\<lparr>ds_numReceivers := atoi optarg\<rparr>)
      else if opt = CHR ''M'' then Some (c\<lparr>ds_numMessages := atoi optarg\<rparr>)
      else if opt = CHR ''m'' then Some (c\<lparr>ds_msg_size := atoi optarg\<rparr>)
      else None)"

definition db_server_args :: "string list \<Rightarrow> db_server_options option" where
  "db_server_args argv = option_loop db_server_switch (getopt ''h:s:N:M:m:'' argv) db_server_defaults"

subsection \<open>Connections\<close>

text \<open>
  The client object of a thread: parameters of invocations that the database has not executed, the number of
  responses that have not been handled, and \<open>m_count\<close> of the callback.
\<close>

record db_port =
  dp_flight :: "wire list list"
  dp_responses :: nat
  dp_count :: int

text \<open>\<open>SendCallback::callback\<close>: true ends the event loop.\<close>

definition SendCallback_callback :: "int \<Rightarrow> db_port \<Rightarrow> bool \<times> db_port" where
  "SendCallback_callback o_count q =
     (let q' = q\<lparr>dp_responses := dp_responses q - 1, dp_count := dp_count q - 1\<rparr>
      in if dp_count q' = 0 then (True, q'\<lparr>dp_count := o_count\<rparr>) else (False, q'))"

text \<open>One round of the loop of \<open>dbos_send\<close>.\<close>

definition dbos_send :: "int \<Rightarrow> int \<Rightarrow> int \<Rightarrow> int \<Rightarrow> db_port \<Rightarrow> db_port" where
  "dbos_send receiver sender now msg_size q =
     q\<lparr>dp_flight := dp_flight q @ [[WInt receiver, WInt sender, WInt now, WStr (replicate (nat msg_size) (CHR ''0''))]]\<rparr>"

text \<open>The database executes one of the invocations, or fails to.\<close>

definition db_execute :: "env \<Rightarrow> nat \<Rightarrow> bool \<Rightarrow> db_port \<times> tables \<Rightarrow> (db_port \<times> tables) option" where
  "db_execute env j failed qt =
     (case qt of (q, t) \<Rightarrow>
        if j < length (dp_flight q)
        then Some (q\<lparr>dp_flight := take j (dp_flight q) @ drop (Suc j) (dp_flight q), dp_responses := Suc (dp_responses q)\<rparr>,
                   if failed then t
                   else case run_procedure env 0 ''SendMessage'' (dp_flight q ! j) t of None \<Rightarrow> t | Some (rows, t') \<Rightarrow> t')
        else None)"

text \<open>\<open>dbos_recv\<close>: the sender of the first row and the number of rows; \<open>None\<close> is \<open>exit(-1)\<close>.\<close>

definition dbos_recv :: "env \<Rightarrow> nat \<Rightarrow> bool \<Rightarrow> int \<Rightarrow> tables \<Rightarrow> (int option \<times> nat \<times> tables) option" where
  "dbos_recv env n failed receiverID t =
     (if failed then None
      else case run_procedure env n ''ReceiveMessage'' [WInt receiverID] t of
             None \<Rightarrow> None
           | Some (rows, t') \<Rightarrow> Some (case first_int64 rows of Inl e \<Rightarrow> None | Inr v \<Rightarrow> Some v, length rows, t'))"

subsection \<open>Threads\<close>

datatype db_sender_pc =
    DStart
  | DSend nat          \<comment> \<open>in the loop of \<open>dbos_send\<close>\<close>
  | DRun               \<comment> \<open>in the event loop\<close>
  | DRecv nat          \<comment> \<open>has received so many messages of the batch\<close>
  | DBarrier
  | DTop
  | DTake              \<comment> \<open>about to take an index\<close>
  | DTaken "32 word"
  | DHold "32 word"
  | DCond
  | DEnd

text \<open>\<open>sd_rounds\<close> counts completed rounds; the program has no such variable.\<close>

record db_sender =
  sd_pc :: db_sender_pc
  sd_port :: db_port
  sd_warm :: bool
  sd_startTime :: "64 word"
  sd_endTime :: "64 word"
  sd_rounds :: nat

datatype db_receiver_pc = RStart | RRecv nat | RSend nat | RRun | RBarrier

record db_receiver =
  rv_pc :: db_receiver_pc
  rv_port :: db_port
  rv_warm :: bool
  rv_clientId :: int
  rv_rounds :: nat

record db_bench = recorder +
  db_tables :: tables
  db_senders :: "db_sender list"
  db_receivers :: "db_receiver list"
  db_mainFinished :: bool
  db_endTime :: "64 word"
  db_server_exited :: bool

definition set_sender :: "nat \<Rightarrow> db_sender \<Rightarrow> db_bench \<Rightarrow> db_bench" where
  "set_sender k th s = s\<lparr>db_senders := (db_senders s)[k := th]\<rparr>"

definition set_receiver :: "nat \<Rightarrow> db_receiver \<Rightarrow> db_bench \<Rightarrow> db_bench" where
  "set_receiver k th s = s\<lparr>db_receivers := (db_receivers s)[k := th]\<rparr>"

text \<open>
  One step of \<open>SenderThread\<close>; \<open>None\<close> when it cannot step. \<open>failed\<close> says that the call of the database in
  this step fails. A message size below zero is an exception of \<open>std::string\<close>.
\<close>

definition db_sender_step ::
    "platform \<Rightarrow> env \<Rightarrow> db_options \<Rightarrow> nat \<Rightarrow> 64 word \<Rightarrow> nat \<Rightarrow> bool \<Rightarrow> db_bench \<Rightarrow> db_bench option" where
  "db_sender_step nu env c k now n failed s =
     (let th = db_senders s ! k in
      case sd_pc th of
        DStart \<Rightarrow>
          (if failed \<or> do_msg_size c < 0 then Some (s\<lparr>exited := True\<rparr>)
           else Some (set_sender k (th\<lparr>sd_pc := DSend 0, sd_port := (sd_port th)\<lparr>dp_count := do_numMessages c\<rparr>\<rparr>) s))
      | DSend i \<Rightarrow>
          (if int i < do_numMessages c
           then Some (set_sender k (th\<lparr>sd_pc := DSend (Suc i),
                  sd_port := dbos_send (int k + 100 + (if do_broadcast c then int i else 0)) (int k) (sint now) (do_msg_size c)
                               (sd_port th)\<rparr>) s)
           else Some (set_sender k (th\<lparr>sd_pc := DRun\<rparr>) s))
      | DRun \<Rightarrow>
          (if dp_responses (sd_port th) = 0 then None
           else case SendCallback_callback (do_numMessages c) (sd_port th) of (finished, q) \<Rightarrow>
                  Some (set_sender k (th\<lparr>sd_pc := (if finished then DRecv 0 else DRun), sd_port := q\<rparr>) s))
      | DRecv r \<Rightarrow>
          (if int r < do_numMessages c
           then (case dbos_recv env n failed (int k) (db_tables s) of
                   None \<Rightarrow> Some (s\<lparr>exited := True\<rparr>)
                 | Some (_, rows, t) \<Rightarrow> Some (set_sender k (th\<lparr>sd_pc := DRecv (r + rows)\<rparr>) (s\<lparr>db_tables := t\<rparr>)))
           else Some (set_sender k (th\<lparr>sd_pc := (if sd_warm th then DBarrier else DTake), sd_warm := False, sd_endTime := now,
                        sd_rounds := Suc (sd_rounds th)\<rparr>) s))
      | DBarrier \<Rightarrow>
          (if \<exists>x \<in> set (db_senders s). sd_warm x then None else Some (set_sender k (th\<lparr>sd_pc := DTop\<rparr>) s))
      | DTop \<Rightarrow> Some (set_sender k (th\<lparr>sd_pc := DSend 0, sd_startTime := now\<rparr>) s)
      | DTake \<Rightarrow> Some (set_sender k (th\<lparr>sd_pc := DTaken (arrayIndex s)\<rparr>) (rec_take k s))
      | DTaken ix \<Rightarrow>
          (if unat ix \<ge> kMaxEntries then Some (rec_check k ix s)
           else Some (set_sender k (th\<lparr>sd_pc := DHold ix\<rparr>) (rec_check k ix s)))
      | DHold ix \<Rightarrow>
          Some (set_sender k (th\<lparr>sd_pc := DCond\<rparr>)
                  (rec_write k ix (n_dbl nu (of_nat (unat (sd_endTime th - sd_startTime th)))) s))
      | DCond \<Rightarrow>
          (if db_mainFinished s then Some (set_sender k (th\<lparr>sd_pc := DEnd\<rparr>) (rec_end k s))
           else Some (set_sender k (th\<lparr>sd_pc := DTop\<rparr>) s))
      | DEnd \<Rightarrow> None)"

text \<open>One step of \<open>ReceiverThread\<close> of the server.\<close>

definition db_receiver_step ::
    "env \<Rightarrow> db_server_options \<Rightarrow> nat \<Rightarrow> 64 word \<Rightarrow> nat \<Rightarrow> bool \<Rightarrow> db_bench \<Rightarrow> db_bench option" where
  "db_receiver_step env c k now n failed s =
     (let th = db_receivers s ! k; threadId = int k + 100 in
      case rv_pc th of
        RStart \<Rightarrow>
          (if failed \<or> ds_msg_size c < 0 then Some (s\<lparr>db_server_exited := True\<rparr>)
           else Some (set_receiver k (th\<lparr>rv_pc := RRecv 0, rv_port := (rv_port th)\<lparr>dp_count := ds_numMessages c\<rparr>\<rparr>) s))
      | RRecv r \<Rightarrow>
          (if int r < ds_numMessages c
           then (case dbos_recv env n failed threadId (db_tables s) of
                   None \<Rightarrow> Some (s\<lparr>db_server_exited := True\<rparr>)
                 | Some (sender, rows, t) \<Rightarrow>
                     Some (set_receiver k (th\<lparr>rv_pc := RRecv (r + rows),
                             rv_clientId := (case sender of None \<Rightarrow> rv_clientId th | Some v \<Rightarrow> v)\<rparr>) (s\<lparr>db_tables := t\<rparr>)))
           else Some (set_receiver k (th\<lparr>rv_pc := RSend 0\<rparr>) s))
      | RSend i \<Rightarrow>
          (if int i < ds_numMessages c
           then Some (set_receiver k (th\<lparr>rv_pc := RSend (Suc i),
                  rv_port := dbos_send (rv_clientId th) threadId (sint now) (ds_msg_size c) (rv_port th)\<rparr>) s)
           else Some (set_receiver k (th\<lparr>rv_pc := RRun\<rparr>) s))
      | RRun \<Rightarrow>
          (if dp_responses (rv_port th) = 0 then None
           else case SendCallback_callback (ds_numMessages c) (rv_port th) of (finished, q) \<Rightarrow>
                  Some (set_receiver k
                    (if finished
                     then th\<lparr>rv_pc := (if rv_warm th then RBarrier else RRecv 0), rv_port := q, rv_warm := False,
                             rv_rounds := Suc (rv_rounds th)\<rparr>
                     else th\<lparr>rv_port := q\<rparr>) s))
      | RBarrier \<Rightarrow>
          (if \<exists>x \<in> set (db_receivers s). rv_warm x then None else Some (set_receiver k (th\<lparr>rv_pc := RRecv 0\<rparr>) s)))"

text \<open>The main thread of the client.\<close>

definition db_main_step :: "platform \<Rightarrow> bool \<Rightarrow> 64 word \<Rightarrow> db_bench \<Rightarrow> db_bench option" where
  "db_main_step nu file_ok now s =
     (case main_at s of
        Measuring \<Rightarrow>
          (let up = \<not> now < db_endTime s
           in Some ((rec_mark now up s)\<lparr>db_mainFinished := up\<rparr>))
      | Joining \<Rightarrow>
          (if \<forall>x \<in> set (tickets s). x = Gone then Some (rec_process (n_dbl nu) file_ok s) else None)
      | Finished _ \<Rightarrow> None)"

definition new_port :: db_port where
  "new_port = \<lparr>dp_flight = [], dp_responses = 0, dp_count = 0\<rparr>"

definition new_sender :: db_sender where
  "new_sender = \<lparr>sd_pc = DStart, sd_port = new_port, sd_warm = True, sd_startTime = 0, sd_endTime = 0, sd_rounds = 0\<rparr>"

definition new_receiver :: db_receiver where
  "new_receiver = \<lparr>rv_pc = RStart, rv_port = new_port, rv_warm = True, rv_clientId = - 1, rv_rounds = 0\<rparr>"

definition db_start :: "db_options \<Rightarrow> db_server_options \<Rightarrow> 64 word \<Rightarrow> 64 word \<Rightarrow> tables \<Rightarrow> db_bench" where
  "db_start c sc t0 now t =
     recorder.extend (rec_start (nat (do_numSenders c)) t0)
       \<lparr>db_tables = t, db_senders = replicate (nat (do_numSenders c)) new_sender,
        db_receivers = replicate (nat (ds_numReceivers sc)) new_receiver, db_mainFinished = False,
        db_endTime = now + of_int (narrow32 (do_totalExecTimeMsec c * 1000)), db_server_exited = False\<rparr>"

text \<open>Both processes and the database; calls of the database only fail where \<open>fails\<close> allows it.\<close>

inductive db_step :: "platform \<Rightarrow> env \<Rightarrow> db_options \<Rightarrow> db_server_options \<Rightarrow> bool \<Rightarrow> bool \<Rightarrow> db_bench \<Rightarrow> db_bench \<Rightarrow> bool"
  for nu env c sc fails file_ok where
  sender: "\<not> exited s \<Longrightarrow> k < length (db_senders s) \<Longrightarrow> (failed \<Longrightarrow> fails) \<Longrightarrow>
    db_sender_step nu env c k now n failed s = Some s' \<Longrightarrow> db_step nu env c sc fails file_ok s s'"
| receiver: "\<not> db_server_exited s \<Longrightarrow> k < length (db_receivers s) \<Longrightarrow> (failed \<Longrightarrow> fails) \<Longrightarrow>
    db_receiver_step env sc k now n failed s = Some s' \<Longrightarrow> db_step nu env c sc fails file_ok s s'"
| sender_request: "k < length (db_senders s) \<Longrightarrow> (failed \<Longrightarrow> fails) \<Longrightarrow>
    db_execute env j failed (sd_port (db_senders s ! k), db_tables s) = Some (q, t) \<Longrightarrow>
    db_step nu env c sc fails file_ok s (set_sender k ((db_senders s ! k)\<lparr>sd_port := q\<rparr>) (s\<lparr>db_tables := t\<rparr>))"
| receiver_request: "k < length (db_receivers s) \<Longrightarrow> (failed \<Longrightarrow> fails) \<Longrightarrow>
    db_execute env j failed (rv_port (db_receivers s ! k), db_tables s) = Some (q, t) \<Longrightarrow>
    db_step nu env c sc fails file_ok s (set_receiver k ((db_receivers s ! k)\<lparr>rv_port := q\<rparr>) (s\<lparr>db_tables := t\<rparr>))"
| main: "\<not> exited s \<Longrightarrow> db_main_step nu file_ok now s = Some s' \<Longrightarrow> db_step nu env c sc fails file_ok s s'"

text \<open>\<open>teardown\<close> does nothing; \<open>main\<close> with the exit status, \<open>run\<close> is the interleaved run of \<open>runBenchmark\<close>.\<close>

definition db_teardown :: "tables \<Rightarrow> bool \<times> tables" where
  "db_teardown t = (True, t)"

definition db_main :: "string list \<Rightarrow> (db_options \<Rightarrow> tables \<Rightarrow> bool \<times> tables) \<Rightarrow> tables \<Rightarrow> int \<times> tables" where
  "db_main argv run t =
     (case db_args argv of
        None \<Rightarrow> (1, t)
      | Some c \<Rightarrow>
          (case run c t of
             (False, t1) \<Rightarrow> (1, t1)
           | (True, t1) \<Rightarrow>
               (if do_cleanDB c then (case db_teardown t1 of (ok, t2) \<Rightarrow> (if ok then 0 else 1, t2)) else (0, t1))))"

subsection \<open>The protocol\<close>

fun ticket_db :: "db_sender_pc \<Rightarrow> ticket" where
  "ticket_db (DTaken ix) = Taken ix"
| "ticket_db (DHold ix) = Holding ix"
| "ticket_db DEnd = Gone"
| "ticket_db _ = Idle"

fun sent_at :: "nat \<Rightarrow> db_sender_pc \<Rightarrow> nat" where
  "sent_at M (DSend i) = i"
| "sent_at M DRun = M"
| "sent_at M (DRecv r) = M"
| "sent_at M _ = 0"

fun back_at :: "db_sender_pc \<Rightarrow> nat" where
  "back_at (DRecv r) = r"
| "back_at _ = 0"

fun got_at :: "nat \<Rightarrow> db_receiver_pc \<Rightarrow> nat" where
  "got_at M (RRecv r) = r"
| "got_at M (RSend i) = M"
| "got_at M RRun = M"
| "got_at M _ = 0"

fun replied_at :: "nat \<Rightarrow> db_receiver_pc \<Rightarrow> nat" where
  "replied_at M (RSend i) = i"
| "replied_at M RRun = M"
| "replied_at M _ = 0"

text \<open>A sender and its receiver as a run of the protocol with messages as units.\<close>

definition pair_view :: "nat \<Rightarrow> db_sender \<Rightarrow> db_receiver \<Rightarrow> ping_pong" where
  "pair_view M th rv =
     \<lparr>c_round = sd_rounds th, c_sent = sent_at M (sd_pc th), c_back = back_at (sd_pc th),
      s_round = rv_rounds rv, s_got = got_at M (rv_pc rv), s_replied = replied_at M (rv_pc rv)\<rparr>"

definition db_view :: "nat \<Rightarrow> nat \<Rightarrow> db_bench \<Rightarrow> ping_pong" where
  "db_view M k s =
     (if k < length (db_senders s) then pair_view M (db_senders s ! k) (db_receivers s ! k) else pp_start)"

definition rows_for :: "int \<Rightarrow> tables \<Rightarrow> message list" where
  "rows_for i t = filter (\<lambda>m. m_ReceiverID m = i) (Message t)"

text \<open>The requests of a thread that have not been answered are those of its current batch.\<close>

definition port_ok :: "nat \<Rightarrow> int \<Rightarrow> int \<Rightarrow> nat option \<Rightarrow> bool \<Rightarrow> db_port \<Rightarrow> bool" where
  "port_ok M receiver sender sending running q \<longleftrightarrow>
     (\<forall>ps \<in> set (dp_flight q). \<exists>m d. ps = [WInt receiver, WInt sender, WInt m, WStr d] \<and> int (length d) \<le> 1048576) \<and>
     (case sending of
        Some i \<Rightarrow> i \<le> M \<and> length (dp_flight q) + dp_responses q = i \<and> dp_count q = int M
      | None \<Rightarrow>
          (if running then 0 < dp_count q \<and> dp_count q = int (length (dp_flight q) + dp_responses q)
           else dp_flight q = [] \<and> dp_responses q = 0 \<and> dp_count q = int M))"

definition sender_ok :: "nat \<Rightarrow> nat \<Rightarrow> db_sender \<Rightarrow> bool" where
  "sender_ok M k th \<longleftrightarrow>
     (if sd_pc th = DStart then dp_flight (sd_port th) = [] \<and> dp_responses (sd_port th) = 0
      else port_ok M (int k + 100) (int k) (case sd_pc th of DSend i \<Rightarrow> Some i | _ \<Rightarrow> None) (sd_pc th = DRun) (sd_port th))"

definition receiver_ok :: "nat \<Rightarrow> nat \<Rightarrow> db_receiver \<Rightarrow> bool" where
  "receiver_ok M k rv \<longleftrightarrow>
     (if rv_pc rv = RStart then dp_flight (rv_port rv) = [] \<and> dp_responses (rv_port rv) = 0
      else port_ok M (int k) (int k + 100) (case rv_pc rv of RSend i \<Rightarrow> Some i | _ \<Rightarrow> None) (rv_pc rv = RRun) (rv_port rv)) \<and>
     (0 < got_at M (rv_pc rv) \<longrightarrow> rv_clientId rv = int k)"

text \<open>The messages on their way are those in requests and in the table.\<close>

definition pair_ok :: "nat \<Rightarrow> nat \<Rightarrow> db_sender \<Rightarrow> db_receiver \<Rightarrow> tables \<Rightarrow> bool" where
  "pair_ok M k th rv t \<longleftrightarrow> sender_ok M k th \<and> receiver_ok M k rv \<and>
     (\<forall>m \<in> set (rows_for (int k + 100) t). m_SenderID m = int k) \<and>
     all_got M (pair_view M th rv) + length (rows_for (int k + 100) t) + length (dp_flight (sd_port th)) =
       all_sent M (pair_view M th rv) \<and>
     all_back M (pair_view M th rv) + length (rows_for (int k) t) + length (dp_flight (rv_port rv)) =
       all_replied M (pair_view M th rv)"

definition db_tickets :: "db_bench \<Rightarrow> bool" where
  "db_tickets s \<longleftrightarrow> tickets s = map (\<lambda>th. ticket_db (sd_pc th)) (db_senders s)"

definition db_wf :: "nat \<Rightarrow> nat \<Rightarrow> db_bench \<Rightarrow> bool" where
  "db_wf M N s \<longleftrightarrow> length (db_senders s) = N \<and> length (db_receivers s) = N \<and>
     (\<forall>k < N. pair_ok M k (db_senders s ! k) (db_receivers s ! k) (db_tables s))"

text \<open>Client and server are started with the same numbers, at most 100 pairs, and a message fits into the table.\<close>

definition db_agree :: "nat \<Rightarrow> nat \<Rightarrow> db_options \<Rightarrow> db_server_options \<Rightarrow> bool" where
  "db_agree M N c sc \<longleftrightarrow> 0 < M \<and> N \<le> 100 \<and> do_numMessages c = int M \<and> ds_numMessages sc = int M \<and>
     do_numSenders c = int N \<and> ds_numReceivers sc = int N \<and> \<not> do_broadcast c \<and>
     0 \<le> do_msg_size c \<and> do_msg_size c \<le> 1048576 \<and> 0 \<le> ds_msg_size sc \<and> ds_msg_size sc \<le> 1048576"

text \<open>The barriers: nobody is behind one while another thread has not finished its first round.\<close>

definition sender_sync :: "db_sender \<Rightarrow> bool" where
  "sender_sync th \<longleftrightarrow> (sd_warm th \<longleftrightarrow> sd_rounds th = 0) \<and>
     (sd_warm th \<longrightarrow> (case sd_pc th of DStart \<Rightarrow> True | DSend i \<Rightarrow> True | DRun \<Rightarrow> True | DRecv r \<Rightarrow> True | _ \<Rightarrow> False))"

definition receiver_sync :: "db_receiver \<Rightarrow> bool" where
  "receiver_sync rv \<longleftrightarrow> (rv_warm rv \<longleftrightarrow> rv_rounds rv = 0) \<and> (rv_pc rv = RBarrier \<longrightarrow> \<not> rv_warm rv)"

definition db_sync :: "db_bench \<Rightarrow> bool" where
  "db_sync s \<longleftrightarrow> (\<forall>th \<in> set (db_senders s). sender_sync th) \<and> (\<forall>rv \<in> set (db_receivers s). receiver_sync rv) \<and>
     (\<forall>th \<in> set (db_senders s). sd_warm th \<or> sd_pc th = DBarrier \<or> (\<forall>x \<in> set (db_senders s). \<not> sd_warm x))"

text \<open>A step that does more than to poll an empty table: a thread or a message moves, or the client gives up.\<close>

definition db_progress :: "db_bench \<Rightarrow> db_bench \<Rightarrow> bool" where
  "db_progress s s' \<longleftrightarrow>
     db_senders s' \<noteq> db_senders s \<or> db_receivers s' \<noteq> db_receivers s \<or> db_tables s' \<noteq> db_tables s \<or> exited s'"

fun in_round :: "db_sender_pc \<Rightarrow> bool" where
  "in_round (DSend i) = True"
| "in_round DRun = True"
| "in_round (DRecv r) = True"
| "in_round _ = False"

text \<open>Sender and receiver of the only pair wait for each other, and nothing is on the way.\<close>

definition db_lost :: "nat \<Rightarrow> db_bench \<Rightarrow> bool" where
  "db_lost M s \<longleftrightarrow>
     (case (db_senders s, db_receivers s) of
        ([th], [rv]) \<Rightarrow>
          (case (sd_pc th, rv_pc rv) of (DRecv r, RRecv r') \<Rightarrow> r < M \<and> r' < M | _ \<Rightarrow> False) \<and>
          dp_flight (sd_port th) = [] \<and> dp_flight (rv_port rv) = [] \<and>
          rows_for 0 (db_tables s) = [] \<and> rows_for 100 (db_tables s) = []
      | _ \<Rightarrow> False) \<and>
     tickets s = [Idle] \<and> main_at s \<in> {Measuring, Joining}"

text \<open>A step that changes the sender of pair \<open>k\<close>, or its receiver, and the rows of this pair.\<close>

definition pair_moves :: "nat \<Rightarrow> nat \<Rightarrow> db_bench \<Rightarrow> db_bench \<Rightarrow> bool" where
  "pair_moves M k s s' \<longleftrightarrow>
     (\<exists>th rv. db_senders s' = (db_senders s)[k := th] \<and> db_receivers s' = (db_receivers s)[k := rv] \<and>
        pair_ok M k th rv (db_tables s') \<and>
        (pair_view M th rv = pair_view M (db_senders s ! k) (db_receivers s ! k) \<or>
         pp_step M (pair_view M (db_senders s ! k) (db_receivers s ! k)) (pair_view M th rv)) \<and>
        (\<forall>i. i \<notin> {int k, int k + 100} \<longrightarrow> rows_for i (db_tables s') = rows_for i (db_tables s)))"

section \<open>Lemmas\<close>

subsection \<open>Calls of the database\<close>

lemma rows_SendMessage:
  assumes "int (length d) \<le> 1048576"
  shows "\<exists>t' m'. run_procedure env n ''SendMessage'' [WInt r, WInt s, WInt m, WStr d] t = Some ([[WInt SUCCESS]], t') \<and>
    m_SenderID m' = s \<and> (\<forall>i. rows_for i t' = rows_for i t @ (if i = r then [m'] else []))"
  using assms
  by (intro exI [of _ "t\<lparr>Message := Message t @ [\<lparr>m_ReceiverID = r, m_SenderID = s, m_MessageID = m, m_Data = d\<rparr>]\<rparr>"]
      exI [of _ "\<lparr>m_ReceiverID = r, m_SenderID = s, m_MessageID = m, m_Data = d\<rparr>"])
    (simp add: run_procedure_def Let_def SendMessage_def long_result_def rows_for_def)

lemma run_ReceiveMessage:
  "run_procedure env n ''ReceiveMessage'' [WInt i] t =
    (case ReceiveMessage (pick_row env n) i t of (ms, t') \<Rightarrow>
       Some (map (\<lambda>m. [WInt (m_SenderID m), WInt (m_MessageID m), WStr (m_Data m)]) ms, t'))"
  by (simp add: run_procedure_def Let_def)

lemma dbos_recv_rows:
  assumes "dbos_recv env n False i t = Some (x, rows, t')"
  shows "rows = length (rows_for i t)" "rows_for i t' = []" "\<And>j. j \<noteq> i \<Longrightarrow> rows_for j t' = rows_for j t"
    "case x of None \<Rightarrow> rows_for i t = [] | Some v \<Rightarrow> \<exists>m \<in> set (rows_for i t). m_SenderID m = v"
proof -
  let ?ms = "rows_for i t"
  define r where "r = sql_limit (pick_row env n 0) (length ?ms) ?ms"
  have r: "length r = length ?ms" "set r \<subseteq> set ?ms" by (simp_all add: r_def set_sql_limit)
  have t': "t' = (if r = [] then t else t\<lparr>Message := filter (\<lambda>m. m_ReceiverID m \<noteq> i) (Message t)\<rparr>)" and rows: "rows = length r"
    and x: "x = (case r of [] \<Rightarrow> None | m # _ \<Rightarrow> Some (m_SenderID m))"
    using assms by (auto simp: dbos_recv_def run_ReceiveMessage ReceiveMessage_def Let_def rows_for_def [symmetric] r_def [symmetric]
        first_int64_def split: list.splits if_splits)
  show "rows = length ?ms" using rows r(1) by simp
  show "rows_for i t' = []" using t' r(1) by (auto simp: rows_for_def)
  show "rows_for j t' = rows_for j t" if "j \<noteq> i" for j
    using t' that by (auto simp: rows_for_def intro: filter_cong)
  show "case x of None \<Rightarrow> ?ms = [] | Some v \<Rightarrow> \<exists>m \<in> set ?ms. m_SenderID m = v"
    using x r by (cases r) auto
qed

lemma execute_row:
  assumes "db_execute env j False (q, t) = Some (q', t')" "port_ok M r a sending running q"
  obtains m where "m_SenderID m = a" "\<And>i. rows_for i t' = rows_for i t @ (if i = r then [m] else [])"
    "port_ok M r a sending running q'" "length (dp_flight q) = Suc (length (dp_flight q'))"
proof -
  have j: "j < length (dp_flight q)" using assms(1) by (auto simp: db_execute_def split: if_splits)
  have q': "q' = q\<lparr>dp_flight := take j (dp_flight q) @ drop (Suc j) (dp_flight q), dp_responses := Suc (dp_responses q)\<rparr>"
    and t': "t' = (case run_procedure env 0 ''SendMessage'' (dp_flight q ! j) t of None \<Rightarrow> t | Some (rows, t') \<Rightarrow> t')"
    using assms(1) j by (auto simp: db_execute_def)
  obtain m d where ps: "dp_flight q ! j = [WInt r, WInt a, WInt m, WStr d]" "int (length d) \<le> 1048576"
    using assms(2) nth_mem [OF j] unfolding port_ok_def by blast
  obtain t2 m' where t2: "run_procedure env 0 ''SendMessage'' [WInt r, WInt a, WInt m, WStr d] t = Some ([[WInt SUCCESS]], t2)"
    "m_SenderID m' = a" "\<forall>i. rows_for i t2 = rows_for i t @ (if i = r then [m'] else [])"
    using rows_SendMessage [OF ps(2), of env 0 r a m t] by blast
  have sub: "set (take j (dp_flight q) @ drop (Suc j) (dp_flight q)) \<subseteq> set (dp_flight q)"
    by (auto dest: in_set_takeD in_set_dropD)
  have "port_ok M r a sending running q'"
    using assms(2) j sub by (auto simp: port_ok_def q' split: option.splits if_splits)
  then show ?thesis
    using t2 j by (intro that [of m']) (auto simp: q' t' ps(1))
qed

lemma callback_port:
  assumes "port_ok M r a None True q" "0 < dp_responses q" "0 < M" "SendCallback_callback (int M) q = (b, q')"
  shows "dp_flight q' = dp_flight q" "port_ok M r a None (\<not> b) q'"
proof -
  have "int (length (dp_flight q)) + int (dp_responses q) = 1 \<Longrightarrow> length (dp_flight q) = 0" using assms(2) by linarith
  then show "dp_flight q' = dp_flight q" "port_ok M r a None (\<not> b) q'"
    using assms by (auto simp: SendCallback_callback_def Let_def port_ok_def split: if_splits)
qed

lemma send_port:
  assumes "port_ok M r a (Some i) running q" "i < M" "0 \<le> size_of" "size_of \<le> 1048576"
  shows "port_ok M r a (Some (Suc i)) running (dbos_send r a now size_of q)"
    "length (dp_flight (dbos_send r a now size_of q)) = Suc (length (dp_flight q))"
  using assms by (auto simp: port_ok_def dbos_send_def)

subsection \<open>A pair\<close>

lemma bench_fields [simp]:
  "db_senders (rec_take k s) = db_senders s" "db_senders (rec_check k ix s) = db_senders s"
  "db_senders (rec_write k ix x s) = db_senders s" "db_senders (rec_end k s) = db_senders s"
  "db_receivers (rec_take k s) = db_receivers s" "db_receivers (rec_check k ix s) = db_receivers s"
  "db_receivers (rec_write k ix x s) = db_receivers s" "db_receivers (rec_end k s) = db_receivers s"
  "db_tables (rec_take k s) = db_tables s" "db_tables (rec_check k ix s) = db_tables s"
  "db_tables (rec_write k ix x s) = db_tables s" "db_tables (rec_end k s) = db_tables s"
  "db_senders (set_sender k th s) = (db_senders s)[k := th]" "db_receivers (set_sender k th s) = db_receivers s"
  "db_tables (set_sender k th s) = db_tables s" "db_receivers (set_receiver k rv s) = (db_receivers s)[k := rv]"
  "db_senders (set_receiver k rv s) = db_senders s" "db_tables (set_receiver k rv s) = db_tables s"
  "tickets (set_sender k th s) = tickets s" "tickets (set_receiver k rv s) = tickets s"
  "recorder.truncate (set_sender k th s) = recorder.truncate s" "recorder.truncate (set_receiver k rv s) = recorder.truncate s"
  "recorder.truncate (s\<lparr>db_tables := t\<rparr>) = recorder.truncate s" "recorder.truncate (s\<lparr>db_mainFinished := b\<rparr>) = recorder.truncate s"
  "recorder.truncate (s\<lparr>db_server_exited := b\<rparr>) = recorder.truncate s"
  by (simp_all add: rec_take_def rec_check_def rec_write_def rec_end_def set_sender_def set_receiver_def recorder.truncate_def)

text \<open>The sender moves and the tables stay.\<close>

lemma sender_moves:
  assumes "pair_ok M k (db_senders s ! k) (db_receivers s ! k) (db_tables s)" "db_senders s' = (db_senders s)[k := th]"
    and "db_receivers s' = db_receivers s" "db_tables s' = db_tables s" "sender_ok M k th"
    and "pair_view M th (db_receivers s ! k) = x" "x = pair_view M (db_senders s ! k) (db_receivers s ! k) \<or>
      pp_step M (pair_view M (db_senders s ! k) (db_receivers s ! k)) x"
    and "all_sent M x + length (dp_flight (sd_port (db_senders s ! k))) =
      all_sent M (pair_view M (db_senders s ! k) (db_receivers s ! k)) + length (dp_flight (sd_port th))"
    and "all_back M x = all_back M (pair_view M (db_senders s ! k) (db_receivers s ! k))"
  shows "pair_moves M k s s'"
proof -
  let ?th = "db_senders s ! k" and ?rv = "db_receivers s ! k"
  have "all_got M (pair_view M th ?rv) = all_got M (pair_view M ?th ?rv)"
    "all_replied M (pair_view M th ?rv) = all_replied M (pair_view M ?th ?rv)"
    by (simp_all add: pair_view_def totals)
  moreover have "all_got M (pair_view M ?th ?rv) + length (rows_for (int k + 100) (db_tables s)) + length (dp_flight (sd_port ?th)) =
      all_sent M (pair_view M ?th ?rv)"
    "all_back M (pair_view M ?th ?rv) + length (rows_for (int k) (db_tables s)) + length (dp_flight (rv_port ?rv)) =
      all_replied M (pair_view M ?th ?rv)"
    "receiver_ok M k ?rv" "\<forall>m \<in> set (rows_for (int k + 100) (db_tables s)). m_SenderID m = int k"
    using assms(1) by (simp_all add: pair_ok_def)
  ultimately have "pair_ok M k th ?rv (db_tables s)"
    using assms(5,8,9) unfolding pair_ok_def assms(6) by linarith
  then show ?thesis
    unfolding pair_moves_def using assms(2-4,6,7) by (intro exI [of _ th] exI [of _ "db_receivers s ! k"]) auto
qed

lemma receiver_moves:
  assumes "pair_ok M k (db_senders s ! k) (db_receivers s ! k) (db_tables s)" "db_senders s' = db_senders s"
    and "db_receivers s' = (db_receivers s)[k := rv]" "db_tables s' = db_tables s" "receiver_ok M k rv"
    and "pair_view M (db_senders s ! k) rv = x" "x = pair_view M (db_senders s ! k) (db_receivers s ! k) \<or>
      pp_step M (pair_view M (db_senders s ! k) (db_receivers s ! k)) x"
    and "all_replied M x + length (dp_flight (rv_port (db_receivers s ! k))) =
      all_replied M (pair_view M (db_senders s ! k) (db_receivers s ! k)) + length (dp_flight (rv_port rv))"
    and "all_got M x = all_got M (pair_view M (db_senders s ! k) (db_receivers s ! k))"
  shows "pair_moves M k s s'"
proof -
  let ?th = "db_senders s ! k" and ?rv = "db_receivers s ! k"
  have "all_sent M (pair_view M ?th rv) = all_sent M (pair_view M ?th ?rv)"
    "all_back M (pair_view M ?th rv) = all_back M (pair_view M ?th ?rv)"
    by (simp_all add: pair_view_def totals)
  moreover have "all_got M (pair_view M ?th ?rv) + length (rows_for (int k + 100) (db_tables s)) + length (dp_flight (sd_port ?th)) =
      all_sent M (pair_view M ?th ?rv)"
    "all_back M (pair_view M ?th ?rv) + length (rows_for (int k) (db_tables s)) + length (dp_flight (rv_port ?rv)) =
      all_replied M (pair_view M ?th ?rv)"
    "sender_ok M k ?th" "\<forall>m \<in> set (rows_for (int k + 100) (db_tables s)). m_SenderID m = int k"
    using assms(1) by (simp_all add: pair_ok_def)
  ultimately have "pair_ok M k ?th rv (db_tables s)"
    using assms(5,8,9) unfolding pair_ok_def assms(6) by linarith
  then show ?thesis
    unfolding pair_moves_def using assms(2-4,6,7) by (intro exI [of _ ?th] exI [of _ rv]) auto
qed

lemma pair_idle:
  assumes "pair_ok M k (db_senders s ! k) (db_receivers s ! k) (db_tables s)" "db_senders s' = db_senders s"
    and "db_receivers s' = db_receivers s" "db_tables s' = db_tables s"
  shows "pair_moves M k s s'"
  unfolding pair_moves_def using assms
  by (intro exI [of _ "db_senders s ! k"] exI [of _ "db_receivers s ! k"]) auto

lemma sender_step_moves:
  assumes ok: "pair_ok M k (db_senders s ! k) (db_receivers s ! k) (db_tables s)"
    and inv: "pp_inv M (pair_view M (db_senders s ! k) (db_receivers s ! k))"
    and c: "do_numMessages c = int M" "0 < M" "\<not> do_broadcast c" "0 \<le> do_msg_size c" "do_msg_size c \<le> 1048576"
    and step: "db_sender_step nu env c k now n False s = Some s'"
  shows "pair_moves M k s s'"
proof -
  let ?th = "db_senders s ! k" and ?rv = "db_receivers s ! k"
  have sok: "sender_ok M k ?th" using ok by (simp add: pair_ok_def)
  note move = sender_moves [OF ok, of s', OF _ _ _ _ refl]
  have nonneg: "\<not> do_msg_size c < 0" using c(4) by simp
  note defs = db_sender_step_def Let_def c nonneg sender_ok_def pair_view_def totals
  show ?thesis
  proof (cases "sd_pc ?th")
    case DStart
    then have "s' = set_sender k (?th\<lparr>sd_pc := DSend 0, sd_port := (sd_port ?th)\<lparr>dp_count := int M\<rparr>\<rparr>) s"
      using step by (simp add: defs)
    then show ?thesis using DStart sok by (intro move) (auto simp: defs port_ok_def)
  next
    case (DSend i)
    have q: "port_ok M (int k + 100) (int k) (Some i) False (sd_port ?th)" using sok DSend by (simp add: sender_ok_def)
    then have le: "i \<le> M" by (simp add: port_ok_def)
    show ?thesis
    proof (cases "i < M")
      case True
      let ?q = "dbos_send (int k + 100) (int k) (sint now) (do_msg_size c) (sd_port ?th)"
      have s': "s' = set_sender k (?th\<lparr>sd_pc := DSend (Suc i), sd_port := ?q\<rparr>) s" using step DSend True by (simp add: defs)
      have "pp_step M (pair_view M ?th ?rv) ((pair_view M ?th ?rv)\<lparr>c_sent := c_sent (pair_view M ?th ?rv) + 1\<rparr>)"
        using DSend True by (intro pp_step.send) (simp_all add: pair_view_def)
      then show ?thesis
        using send_port [OF q True c(4,5)] DSend by (intro move) (auto simp: s' defs)
    next
      case False
      then have "s' = set_sender k (?th\<lparr>sd_pc := DRun\<rparr>) s" using step DSend by (simp add: defs)
      moreover have "port_ok M (int k + 100) (int k) None True (sd_port ?th)" using q False le c(2) by (auto simp: port_ok_def)
      ultimately show ?thesis using DSend False le by (intro move) (auto simp: defs)
    qed
  next
    case DRun
    have q: "port_ok M (int k + 100) (int k) None True (sd_port ?th)" using sok DRun by (simp add: sender_ok_def)
    obtain b q' where cb: "SendCallback_callback (int M) (sd_port ?th) = (b, q')" by (metis prod.exhaust)
    have s': "0 < dp_responses (sd_port ?th)" "s' = set_sender k (?th\<lparr>sd_pc := (if b then DRecv 0 else DRun), sd_port := q'\<rparr>) s"
      using step DRun cb by (auto simp: defs split: if_splits)
    show ?thesis
      using callback_port [OF q s'(1) c(2) cb] DRun by (intro move) (auto simp: s'(2) defs split: if_splits)
  next
    case (DRecv r)
    have q: "port_ok M (int k + 100) (int k) None False (sd_port ?th)" using sok DRecv by (simp add: sender_ok_def)
    show ?thesis
    proof (cases "r < M")
      case True
      have "dbos_recv env n False (int k) (db_tables s) \<noteq> None"
        by (simp add: dbos_recv_def run_ReceiveMessage split: prod.split)
      then obtain x rows t where rcv: "dbos_recv env n False (int k) (db_tables s) = Some (x, rows, t)" by auto
      have s': "s' = set_sender k (?th\<lparr>sd_pc := DRecv (r + rows)\<rparr>) (s\<lparr>db_tables := t\<rparr>)" using step DRecv True rcv by (simp add: defs)
      note rw = dbos_recv_rows [OF rcv]
      have "rows_for (int k + 100) t = rows_for (int k + 100) (db_tables s)" by (rule rw(3)) simp
      then have "pair_ok M k (?th\<lparr>sd_pc := DRecv (r + rows)\<rparr>) ?rv t"
        using ok DRecv rw(1,2) by (simp add: pair_ok_def sender_ok_def pair_view_def totals)
      moreover have "pp_step M (pair_view M ?th ?rv) (pair_view M (?th\<lparr>sd_pc := DRecv (r + rows)\<rparr>) ?rv)" if "rows \<noteq> 0"
        using pp_step.take [of "pair_view M ?th ?rv" M rows] that DRecv True ok rw(1) by (simp add: pair_view_def pair_ok_def totals)
      ultimately show ?thesis
        unfolding pair_moves_def using s' rw(3) DRecv
        by (intro exI [of _ "?th\<lparr>sd_pc := DRecv (r + rows)\<rparr>"] exI [of _ ?rv]) (auto simp: pair_view_def)
    next
      case False
      then have s': "s' = set_sender k (?th\<lparr>sd_pc := (if sd_warm ?th then DBarrier else DTake), sd_warm := False, sd_endTime := now,
          sd_rounds := Suc (sd_rounds ?th)\<rparr>) s" using step DRecv by (simp add: defs)
      have r: "r = M" using inv False DRecv by (simp add: pp_inv_def pair_view_def)
      have "pp_step M (pair_view M ?th ?rv)
          ((pair_view M ?th ?rv)\<lparr>c_round := Suc (c_round (pair_view M ?th ?rv)), c_sent := 0, c_back := 0\<rparr>)"
        using DRecv False by (intro pp_step.finish) (simp_all add: pair_view_def)
      then show ?thesis
        using DRecv q r by (cases "sd_warm ?th"; intro move) (auto simp: s' defs)
    qed
  next
    case DBarrier
    then show ?thesis using step sok by (intro move [where th = "?th\<lparr>sd_pc := DTop\<rparr>"]) (auto simp: defs split: if_splits)
  next
    case DTop
    then show ?thesis using step sok
      by (intro move [where th = "?th\<lparr>sd_pc := DSend 0, sd_startTime := now\<rparr>"]) (auto simp: defs port_ok_def)
  next
    case DTake
    then show ?thesis using step sok
      by (intro move [where th = "?th\<lparr>sd_pc := DTaken (arrayIndex s)\<rparr>"]) (auto simp: defs)
  next
    case (DTaken ix)
    show ?thesis
    proof (cases "unat ix \<ge> kMaxEntries")
      case True
      then have "s' = rec_check k ix s" using step DTaken by (simp add: defs)
      then show ?thesis using ok by (intro pair_idle) simp_all
    next
      case False
      then show ?thesis using step sok DTaken by (intro move [where th = "?th\<lparr>sd_pc := DHold ix\<rparr>"]) (auto simp: defs)
    qed
  next
    case (DHold ix)
    then show ?thesis using step sok by (intro move [where th = "?th\<lparr>sd_pc := DCond\<rparr>"]) (auto simp: defs)
  next
    case DCond
    then show ?thesis using step sok
      by (intro move [where th = "?th\<lparr>sd_pc := (if db_mainFinished s then DEnd else DTop)\<rparr>"]) (auto simp: defs split: if_splits)
  next
    case DEnd
    then show ?thesis using step by (simp add: defs)
  qed
qed

lemma receiver_step_moves:
  assumes ok: "pair_ok M k (db_senders s ! k) (db_receivers s ! k) (db_tables s)"
    and inv: "pp_inv M (pair_view M (db_senders s ! k) (db_receivers s ! k))"
    and c: "ds_numMessages c = int M" "0 < M" "0 \<le> ds_msg_size c" "ds_msg_size c \<le> 1048576"
    and step: "db_receiver_step env c k now n False s = Some s'"
  shows "pair_moves M k s s'"
proof -
  let ?th = "db_senders s ! k" and ?rv = "db_receivers s ! k"
  have rok: "receiver_ok M k ?rv" using ok by (simp add: pair_ok_def)
  note move = receiver_moves [OF ok, of s', OF _ _ _ _ refl]
  have nonneg: "\<not> ds_msg_size c < 0" using c(3) by simp
  note defs = db_receiver_step_def Let_def c nonneg receiver_ok_def pair_view_def totals
  show ?thesis
  proof (cases "rv_pc ?rv")
    case RStart
    then have "s' = set_receiver k (?rv\<lparr>rv_pc := RRecv 0, rv_port := (rv_port ?rv)\<lparr>dp_count := int M\<rparr>\<rparr>) s"
      using step by (simp add: defs)
    then show ?thesis using RStart rok by (intro move) (auto simp: defs port_ok_def)
  next
    case (RRecv r)
    have q: "port_ok M (int k) (int k + 100) None False (rv_port ?rv)" using rok RRecv by (simp add: receiver_ok_def)
    show ?thesis
    proof (cases "r < M")
      case True
      have "dbos_recv env n False (int k + 100) (db_tables s) \<noteq> None"
        by (simp add: dbos_recv_def run_ReceiveMessage split: prod.split)
      then obtain x rows t where rcv: "dbos_recv env n False (int k + 100) (db_tables s) = Some (x, rows, t)" by auto
      define rv where "rv = ?rv\<lparr>rv_pc := RRecv (r + rows), rv_clientId := (case x of None \<Rightarrow> rv_clientId ?rv | Some v \<Rightarrow> v)\<rparr>"
      have s': "s' = set_receiver k rv (s\<lparr>db_tables := t\<rparr>)" using step RRecv True rcv by (simp add: defs rv_def)
      note rw = dbos_recv_rows [OF rcv]
      have id: "rv_clientId rv = int k" if "0 < r + rows"
        using rw(1,4) rok ok RRecv that by (auto simp: rv_def receiver_ok_def pair_ok_def split: option.splits)
      have other: "rows_for (int k) t = rows_for (int k) (db_tables s)" by (rule rw(3)) simp
      have "receiver_ok M k rv" using id q by (simp add: receiver_ok_def rv_def)
      then have "pair_ok M k ?th rv t"
        using ok RRecv rw(1,2) other by (simp add: pair_ok_def pair_view_def totals rv_def)
      moreover have "pp_step M (pair_view M ?th ?rv) (pair_view M ?th rv)" if "rows \<noteq> 0"
        using pp_step.get [of "pair_view M ?th ?rv" M rows] that RRecv True ok rw(1) by (simp add: pair_view_def pair_ok_def totals rv_def)
      ultimately show ?thesis
        unfolding pair_moves_def using s' rw(3) RRecv
        by (intro exI [of _ ?th] exI [of _ rv]) (auto simp: pair_view_def rv_def)
    next
      case False
      then have "s' = set_receiver k (?rv\<lparr>rv_pc := RSend 0\<rparr>) s" using step RRecv by (simp add: defs)
      moreover have "r = M" using inv False RRecv by (simp add: pp_inv_def pair_view_def)
      ultimately show ?thesis using RRecv q rok c(2) by (intro move) (auto simp: defs port_ok_def)
    qed
  next
    case (RSend i)
    have q: "port_ok M (int k) (int k + 100) (Some i) False (rv_port ?rv)" "rv_clientId ?rv = int k"
      using rok RSend c(2) by (simp_all add: receiver_ok_def)
    then have le: "i \<le> M" by (simp add: port_ok_def)
    show ?thesis
    proof (cases "i < M")
      case True
      let ?q = "dbos_send (int k) (int k + 100) (sint now) (ds_msg_size c) (rv_port ?rv)"
      have s': "s' = set_receiver k (?rv\<lparr>rv_pc := RSend (Suc i), rv_port := ?q\<rparr>) s" using step RSend True q(2) by (simp add: defs)
      have "pp_step M (pair_view M ?th ?rv) ((pair_view M ?th ?rv)\<lparr>s_replied := s_replied (pair_view M ?th ?rv) + 1\<rparr>)"
        using RSend True by (intro pp_step.reply) (simp_all add: pair_view_def)
      then show ?thesis
        using send_port [OF q(1) True c(3,4)] q(2) RSend by (intro move) (auto simp: s' defs)
    next
      case False
      then have "s' = set_receiver k (?rv\<lparr>rv_pc := RRun\<rparr>) s" using step RSend by (simp add: defs)
      moreover have "port_ok M (int k) (int k + 100) None True (rv_port ?rv)" using q False le c(2) by (auto simp: port_ok_def)
      ultimately show ?thesis using RSend False le q(2) by (intro move) (auto simp: defs)
    qed
  next
    case RRun
    have q: "port_ok M (int k) (int k + 100) None True (rv_port ?rv)" "rv_clientId ?rv = int k"
      using rok RRun c(2) by (simp_all add: receiver_ok_def)
    obtain b q' where cb: "SendCallback_callback (int M) (rv_port ?rv) = (b, q')" by (metis prod.exhaust)
    have s': "0 < dp_responses (rv_port ?rv)" "s' = set_receiver k
        (if b then ?rv\<lparr>rv_pc := (if rv_warm ?rv then RBarrier else RRecv 0), rv_port := q', rv_warm := False,
                     rv_rounds := Suc (rv_rounds ?rv)\<rparr>
         else ?rv\<lparr>rv_port := q'\<rparr>) s"
      using step RRun cb by (auto simp: defs split: if_splits)
    note cp = callback_port [OF q(1) s'(1) c(2) cb]
    have "pp_step M (pair_view M ?th ?rv)
        ((pair_view M ?th ?rv)\<lparr>s_round := Suc (s_round (pair_view M ?th ?rv)), s_got := 0, s_replied := 0\<rparr>)"
      using RRun by (intro pp_step.again) (simp_all add: pair_view_def)
    then show ?thesis
      using cp q(2) RRun by (cases b; cases "rv_warm ?rv"; intro move) (auto simp: s'(2) defs port_ok_def)
  next
    case RBarrier
    then show ?thesis using step rok by (intro move [where rv = "?rv\<lparr>rv_pc := RRecv 0\<rparr>"]) (auto simp: defs split: if_splits)
  qed
qed

text \<open>The database executes a request of one of the two.\<close>

lemma sender_request_moves:
  assumes ok: "pair_ok M k (db_senders s ! k) (db_receivers s ! k) (db_tables s)"
    and ex: "db_execute env j False (sd_port (db_senders s ! k), db_tables s) = Some (q, t)"
    and s': "s' = set_sender k ((db_senders s ! k)\<lparr>sd_port := q\<rparr>) (s\<lparr>db_tables := t\<rparr>)"
  shows "pair_moves M k s s'"
proof -
  let ?th = "db_senders s ! k" and ?rv = "db_receivers s ! k"
  have sok: "sender_ok M k ?th" using ok by (simp add: pair_ok_def)
  have "sd_pc ?th \<noteq> DStart" using ex sok by (auto simp: db_execute_def sender_ok_def)
  then have port: "port_ok M (int k + 100) (int k) (case sd_pc ?th of DSend i \<Rightarrow> Some i | _ \<Rightarrow> None) (sd_pc ?th = DRun) (sd_port ?th)"
    using sok by (simp add: sender_ok_def)
  obtain m where m: "m_SenderID m = int k" "\<And>i. rows_for i t = rows_for i (db_tables s) @ (if i = int k + 100 then [m] else [])"
    "port_ok M (int k + 100) (int k) (case sd_pc ?th of DSend i \<Rightarrow> Some i | _ \<Rightarrow> None) (sd_pc ?th = DRun) q"
    "length (dp_flight (sd_port ?th)) = Suc (length (dp_flight q))"
    by (rule execute_row [OF ex port]) blast
  have "sender_ok M k (?th\<lparr>sd_port := q\<rparr>)" using m(3) \<open>sd_pc ?th \<noteq> DStart\<close> by (simp add: sender_ok_def)
  then have "pair_ok M k (?th\<lparr>sd_port := q\<rparr>) ?rv t" using ok m(1,2,4) by (auto simp: pair_ok_def pair_view_def totals)
  then show ?thesis unfolding pair_moves_def using m(2)
    by (intro exI [of _ "?th\<lparr>sd_port := q\<rparr>"] exI [of _ ?rv]) (simp add: s' pair_view_def)
qed

lemma receiver_request_moves:
  assumes ok: "pair_ok M k (db_senders s ! k) (db_receivers s ! k) (db_tables s)"
    and ex: "db_execute env j False (rv_port (db_receivers s ! k), db_tables s) = Some (q, t)"
    and s': "s' = set_receiver k ((db_receivers s ! k)\<lparr>rv_port := q\<rparr>) (s\<lparr>db_tables := t\<rparr>)"
  shows "pair_moves M k s s'"
proof -
  let ?th = "db_senders s ! k" and ?rv = "db_receivers s ! k"
  have rok: "receiver_ok M k ?rv" using ok by (simp add: pair_ok_def)
  have "rv_pc ?rv \<noteq> RStart" using ex rok by (auto simp: db_execute_def receiver_ok_def)
  then have port: "port_ok M (int k) (int k + 100) (case rv_pc ?rv of RSend i \<Rightarrow> Some i | _ \<Rightarrow> None) (rv_pc ?rv = RRun) (rv_port ?rv)"
    using rok by (simp add: receiver_ok_def)
  obtain m where m: "\<And>i. rows_for i t = rows_for i (db_tables s) @ (if i = int k then [m] else [])"
    "port_ok M (int k) (int k + 100) (case rv_pc ?rv of RSend i \<Rightarrow> Some i | _ \<Rightarrow> None) (rv_pc ?rv = RRun) q"
    "length (dp_flight (rv_port ?rv)) = Suc (length (dp_flight q))"
    by (rule execute_row [OF ex port]) blast
  have "receiver_ok M k (?rv\<lparr>rv_port := q\<rparr>)" using m(2) rok \<open>rv_pc ?rv \<noteq> RStart\<close> by (simp add: receiver_ok_def)
  then have "pair_ok M k ?th (?rv\<lparr>rv_port := q\<rparr>) t" using ok m(1,3) by (auto simp: pair_ok_def pair_view_def totals)
  then show ?thesis unfolding pair_moves_def using m(1)
    by (intro exI [of _ ?th] exI [of _ "?rv\<lparr>rv_port := q\<rparr>"]) (simp add: s' pair_view_def)
qed

subsection \<open>All pairs\<close>

text \<open>A client with up to 100 senders and a server that agree on the batch; nothing fails.\<close>

lemma pair_moves_all:
  assumes "pair_moves M k s s'" "k < N" "N \<le> 100" "length (db_senders s) = N" "length (db_receivers s) = N"
    and "\<forall>i < N. pair_ok M i (db_senders s ! i) (db_receivers s ! i) (db_tables s)"
  shows "length (db_senders s') = N" "length (db_receivers s') = N"
    "\<forall>i < N. pair_ok M i (db_senders s' ! i) (db_receivers s' ! i) (db_tables s')"
    "db_view M i s' = db_view M i s \<or> pp_step M (db_view M i s) (db_view M i s')"
proof -
  obtain th rv where mv: "db_senders s' = (db_senders s)[k := th]" "db_receivers s' = (db_receivers s)[k := rv]"
    "pair_ok M k th rv (db_tables s')"
    "pair_view M th rv = pair_view M (db_senders s ! k) (db_receivers s ! k) \<or>
     pp_step M (pair_view M (db_senders s ! k) (db_receivers s ! k)) (pair_view M th rv)"
    "\<forall>i. i \<notin> {int k, int k + 100} \<longrightarrow> rows_for i (db_tables s') = rows_for i (db_tables s)"
    using assms(1) unfolding pair_moves_def by blast
  show len: "length (db_senders s') = N" "length (db_receivers s') = N" using mv(1,2) assms(4,5) by simp_all
  show "\<forall>i < N. pair_ok M i (db_senders s' ! i) (db_receivers s' ! i) (db_tables s')"
  proof (intro allI impI)
    fix i assume i: "i < N"
    show "pair_ok M i (db_senders s' ! i) (db_receivers s' ! i) (db_tables s')"
    proof (cases "i = k")
      case True
      then show ?thesis using mv(1-3) assms(2,4,5) by simp
    next
      case False
      have "rows_for (int i) (db_tables s') = rows_for (int i) (db_tables s)"
        "rows_for (int i + 100) (db_tables s') = rows_for (int i + 100) (db_tables s)"
        using mv(5) False i assms(2,3) by auto
      then show ?thesis using assms(6) i False mv(1,2) by (simp add: pair_ok_def)
    qed
  qed
  show "db_view M i s' = db_view M i s \<or> pp_step M (db_view M i s) (db_view M i s')"
    using mv(1,2,4) assms(2,4,5) by (cases "i = k") (auto simp: db_view_def)
qed

subsection \<open>Recording\<close>

lemma bench_main_fields [simp]:
  "db_senders (rec_mark now up s) = db_senders s" "db_senders (rec_process dbl file_ok s) = db_senders s"
  "db_receivers (rec_mark now up s) = db_receivers s" "db_receivers (rec_process dbl file_ok s) = db_receivers s"
  "db_tables (rec_mark now up s) = db_tables s" "db_tables (rec_process dbl file_ok s) = db_tables s"
  by (simp_all add: rec_mark_def rec_process_def)

lemmas db_step_defs = db_sender_step_def db_receiver_step_def db_main_step_def Let_def

lemma sender_step_tickets:
  assumes "db_tickets s" "k < length (db_senders s)" "db_sender_step nu env c k now n failed s = Some s'"
  shows "db_tickets s'"
  using assms
  by (auto simp: db_tickets_def db_step_defs map_update intro!: update_same_map
      split: db_sender_pc.splits option.splits prod.splits if_splits)

lemma receiver_step_recorder:
  assumes "db_receiver_step env c k now n failed s = Some s'"
  shows "recorder.truncate s' = recorder.truncate s" "db_senders s' = db_senders s"
  using assms by (auto simp: db_step_defs split: db_receiver_pc.splits option.splits prod.splits if_splits)

lemma db_step_tickets: "db_tickets s \<Longrightarrow> db_step nu env c sc fails file_ok s s' \<Longrightarrow> db_tickets s'"
proof (erule db_step.cases, goal_cases)
  case (1 s1 k failed now n s2)
  then show ?case using sender_step_tickets by blast
next
  case (2 s1 k failed now n s2)
  then show ?case using receiver_step_recorder [of env sc k now n failed s s'] truncate_fields(1) unfolding db_tickets_def by metis
next
  case (5 s1 now s2)
  then show ?case by (auto simp: db_tickets_def db_step_defs split: main_pc.splits if_splits)
qed (auto simp: db_tickets_def map_update intro!: update_same_map)

lemma sender_step_view:
  assumes "db_tickets s" "k < length (db_senders s)" "db_sender_step nu env c k now n failed s = Some s'"
  shows "recorder.truncate s' = recorder.truncate s \<or>
    rec_step (n_dbl nu) file_ok (recorder.truncate s) (recorder.truncate s')"
proof -
  have t: "k < length (tickets s)" "tickets s ! k = ticket_db (sd_pc (db_senders s ! k))"
    using assms(1,2) by (simp_all add: db_tickets_def)
  note die = rec_step.die [of _ _ "recorder.truncate s"]
  show ?thesis
  proof (cases "sd_pc (db_senders s ! k)")
    case DTake
    then show ?thesis using assms(3) t rec_step.grab [of k "recorder.truncate s"] by (auto simp: db_step_defs)
  next
    case (DTaken ix)
    then show ?thesis using assms(3) t rec_step.test [of k "recorder.truncate s" ix]
      by (auto simp: db_step_defs split: if_splits)
  next
    case (DHold ix)
    then show ?thesis using assms(3) t rec_step.fill [of k "recorder.truncate s" ix] by (auto simp: db_step_defs)
  next
    case DCond
    then show ?thesis using assms(3) t rec_step.stop [of k "recorder.truncate s"]
      by (auto simp: db_step_defs split: if_splits)
  qed (use assms(3) die in \<open>auto simp: db_step_defs split: option.splits prod.splits if_splits\<close>)
qed

lemma db_main_view:
  assumes "db_main_step nu file_ok now s = Some s'"
  shows "rec_step (n_dbl nu) file_ok (recorder.truncate s) (recorder.truncate s')"
  using assms rec_step.mark [of "recorder.truncate s"] rec_step.results [of "recorder.truncate s"]
  by (auto simp: db_step_defs split: main_pc.splits if_splits)

interpretation db_rec: recording_program "db_step nu env c sc fails file_ok" db_tickets "recorder.truncate" "n_dbl nu" file_ok
  for nu env c sc fails file_ok
proof
  fix s s'
  assume "db_tickets s" "db_step nu env c sc fails file_ok s s'"
  then show "db_tickets s'" by (rule db_step_tickets)
next
  fix s s'
  assume wf: "db_tickets s" and "db_step nu env c sc fails file_ok s s'"
  from this(2) show "recorder.truncate s' = recorder.truncate s \<or>
      rec_step (n_dbl nu) file_ok (recorder.truncate s) (recorder.truncate s')"
  proof (cases rule: db_step.cases)
    case (sender k failed now n)
    then show ?thesis using sender_step_view [OF wf] by blast
  next
    case (receiver k failed now n)
    then show ?thesis using receiver_step_recorder(1) by blast
  next
    case (main now)
    then show ?thesis using db_main_view by blast
  qed simp_all
qed

subsection \<open>Rounds\<close>

lemma db_step_moves:
  assumes agree: "db_agree M N c sc" and wf: "db_wf M N s" and inv: "\<And>i. pp_inv M (db_view M i s)"
    and step: "db_step nu env c sc False file_ok s s'"
  shows "(\<exists>k < N. pair_moves M k s s') \<or>
    db_senders s' = db_senders s \<and> db_receivers s' = db_receivers s \<and> db_tables s' = db_tables s"
proof -
  have len: "length (db_senders s) = N" "length (db_receivers s) = N"
    and ok: "\<And>k. k < N \<Longrightarrow> pair_ok M k (db_senders s ! k) (db_receivers s ! k) (db_tables s)"
    using wf by (simp_all add: db_wf_def)
  have pinv: "pp_inv M (pair_view M (db_senders s ! k) (db_receivers s ! k))" if "k < N" for k
    using inv [of k] that len by (simp add: db_view_def)
  note a = agree [unfolded db_agree_def]
  from step show ?thesis
  proof (cases rule: db_step.cases)
    case (sender k failed now n)
    then show ?thesis using sender_step_moves [OF ok pinv, of k c nu env now n s'] a len by (cases failed) auto
  next
    case (receiver k failed now n)
    then show ?thesis using receiver_step_moves [OF ok pinv, of k sc env now n s'] a len by (cases failed) auto
  next
    case (sender_request k failed j q t)
    then show ?thesis using sender_request_moves [OF ok, of k env j q t s'] len by (cases failed) auto
  next
    case (receiver_request k failed j q t)
    then show ?thesis using receiver_request_moves [OF ok, of k env j q t s'] len by (cases failed) auto
  next
    case (main now)
    then show ?thesis by (auto simp: db_main_step_def Let_def split: main_pc.splits if_splits)
  qed
qed

interpretation db_rounds: ping_pong_program "db_step nu env c sc False file_ok" "\<lambda>s. db_agree M N c sc \<and> db_wf M N s" "db_view M" M
  for nu env c sc file_ok M N
proof
  fix s
  show "db_agree M N c sc \<and> db_wf M N s \<Longrightarrow> 0 < M" by (simp add: db_agree_def)
next
  fix s s' k
  assume "db_agree M N c sc \<and> db_wf M N s" and inv: "\<And>k. pp_inv M (db_view M k s)"
    and step: "db_step nu env c sc False file_ok s s'"
  then have agree: "db_agree M N c sc" and wf: "db_wf M N s" by simp_all
  then have 100: "N \<le> 100" by (simp add: db_agree_def)
  note all = wf [unfolded db_wf_def]
  from db_step_moves [OF agree wf inv step]
  have "db_wf M N s' \<and> (db_view M k s' = db_view M k s \<or> pp_step M (db_view M k s) (db_view M k s'))"
  proof (elim disjE exE conjE)
    fix l assume "l < N" "pair_moves M l s s'"
    then show ?thesis using pair_moves_all [of M l s s' N] 100 all unfolding db_wf_def by blast
  next
    assume "db_senders s' = db_senders s" "db_receivers s' = db_receivers s" "db_tables s' = db_tables s"
    then show ?thesis using all by (simp add: db_wf_def db_view_def)
  qed
  then show "db_agree M N c sc \<and> db_wf M N s'" "db_view M k s' = db_view M k s \<or> pp_step M (db_view M k s) (db_view M k s')"
    using agree by simp_all
qed

lemma db_start_ok:
  assumes "db_agree M N c sc" "Message t = []"
  shows "db_wf M N (db_start c sc t0 now t)" "db_view M k (db_start c sc t0 now t) = pp_start"
  using assms
  by (auto simp: db_agree_def db_wf_def db_start_def recorder.extend_def db_view_def pair_ok_def sender_ok_def receiver_ok_def
      new_sender_def new_receiver_def new_port_def rows_for_def pair_view_def pp_start_def totals)

lemma db_start_recorder:
  "db_tickets (db_start c sc t0 now t)"
  "recorder.truncate (db_start c sc t0 now t) = rec_start (nat (do_numSenders c)) t0"
  by (simp_all add: db_tickets_def db_start_def recorder.extend_def recorder.truncate_def rec_start_def new_sender_def)

subsection \<open>Barriers\<close>

lemma db_sync_sender:
  assumes "db_sync s" "k < length (db_senders s)" "db_senders s' = (db_senders s)[k := th]" "db_receivers s' = db_receivers s"
    and "sender_sync th" "sd_warm th \<Longrightarrow> sd_warm (db_senders s ! k)"
    and "sd_warm th \<or> sd_pc th = DBarrier \<or> (\<forall>x \<in> set (db_senders s). \<not> sd_warm x)"
  shows "db_sync s'"
proof -
  have sub: "x \<in> set (db_senders s)" if "x \<in> set (db_senders s')" "x \<noteq> th" for x
    using that set_update_subset_insert [of "db_senders s" k th] unfolding assms(3) by blast
  have warm: "\<not> sd_warm x" if "\<forall>x \<in> set (db_senders s). \<not> sd_warm x" "x \<in> set (db_senders s')" for x
    using that sub [of x] assms(2,6) nth_mem [of k "db_senders s"] by (cases "x = th") auto
  show ?thesis unfolding db_sync_def
  proof (intro conjI ballI)
    fix x assume x: "x \<in> set (db_senders s')"
    show "sender_sync x" using assms(1,5) sub [OF x] by (cases "x = th") (auto simp: db_sync_def)
    show "sd_warm x \<or> sd_pc x = DBarrier \<or> (\<forall>y \<in> set (db_senders s'). \<not> sd_warm y)"
      using assms(1,7) sub [OF x] warm by (cases "x = th") (auto simp: db_sync_def)
  qed (use assms(1,4) in \<open>simp add: db_sync_def\<close>)
qed

lemma sender_step_sync:
  assumes "db_sync s" "k < length (db_senders s)" "db_sender_step nu env c k now n failed s = Some s'"
  shows "db_sync s'"
proof -
  let ?th = "db_senders s ! k"
  have th: "sender_sync ?th" "sd_warm ?th \<or> sd_pc ?th = DBarrier \<or> (\<forall>x \<in> set (db_senders s). \<not> sd_warm x)"
    using assms(1,2) unfolding db_sync_def by simp_all
  define open_all where "open_all \<longleftrightarrow> (\<forall>x \<in> set (db_senders s). \<not> sd_warm x)"
  have bar: "(\<exists>x \<in> set (db_senders s). sd_warm x) \<longleftrightarrow> \<not> open_all" by (simp add: open_all_def)
  have sync: "sd_warm ?th \<or> sd_pc ?th = DBarrier \<or> open_all" "(sd_warm ?th \<longleftrightarrow> sd_rounds ?th = 0)"
    "sd_warm ?th \<longrightarrow> (case sd_pc ?th of DStart \<Rightarrow> True | DSend i \<Rightarrow> True | DRun \<Rightarrow> True | DRecv r \<Rightarrow> True | _ \<Rightarrow> False)"
    using th by (simp_all add: open_all_def sender_sync_def)
  let ?th' = "db_senders s' ! k"
  have "db_senders s' = (db_senders s)[k := ?th'] \<and> db_receivers s' = db_receivers s \<and> sender_sync ?th' \<and>
      (sd_warm ?th' \<longrightarrow> sd_warm ?th) \<and> (sd_warm ?th' \<or> sd_pc ?th' = DBarrier \<or> open_all)"
    using assms(2,3) sync
    by (cases "sd_pc ?th") (auto simp: db_step_defs sender_sync_def bar split: option.splits prod.splits if_splits)
  then show ?thesis
    using db_sync_sender [OF assms(1,2), of s' ?th'] by (simp add: open_all_def)
qed

lemma db_sync_receiver:
  assumes "db_sync s" "db_senders s' = db_senders s" "db_receivers s' = (db_receivers s)[k := rv]" "receiver_sync rv"
  shows "db_sync s'"
  using assms set_update_subset_insert [of "db_receivers s" k rv] by (auto simp: db_sync_def)

lemma receiver_step_sync:
  assumes "db_sync s" "k < length (db_receivers s)" "db_receiver_step env c k now n failed s = Some s'"
  shows "db_sync s'"
proof -
  have rv: "receiver_sync (db_receivers s ! k)" using assms(1,2) unfolding db_sync_def by simp
  have "\<exists>rv. db_receivers s' = (db_receivers s)[k := rv] \<and> receiver_sync rv"
    using assms(3) rv
    by (cases "rv_pc (db_receivers s ! k)")
      (auto simp: db_step_defs receiver_sync_def split: option.splits prod.splits if_splits
        intro: exI [of _ "db_receivers s ! k"])
  then show ?thesis using db_sync_receiver [OF assms(1) receiver_step_recorder(2) [OF assms(3)]] by blast
qed

lemma db_step_sync:
  assumes "db_sync s" "db_step nu env c sc fails file_ok s s'"
  shows "db_sync s'"
  using assms(2)
proof (cases rule: db_step.cases)
  case (sender k failed now n)
  then show ?thesis using sender_step_sync [OF assms(1)] by blast
next
  case (receiver k failed now n)
  then show ?thesis using receiver_step_sync [OF assms(1)] by blast
next
  case (sender_request k failed j q t)
  then have "sender_sync (db_senders s ! k)"
    "sd_warm (db_senders s ! k) \<or> sd_pc (db_senders s ! k) = DBarrier \<or> (\<forall>x \<in> set (db_senders s). \<not> sd_warm x)"
    using assms(1) unfolding db_sync_def by simp_all
  then show ?thesis
    using sender_request by (intro db_sync_sender [OF assms(1), of k s' "(db_senders s ! k)\<lparr>sd_port := q\<rparr>"]) (simp_all add: sender_sync_def)
next
  case (receiver_request k failed j q t)
  then have "receiver_sync (db_receivers s ! k)" using assms(1) unfolding db_sync_def by simp
  then show ?thesis
    using receiver_request
    by (intro db_sync_receiver [OF assms(1), of s' k "(db_receivers s ! k)\<lparr>rv_port := q\<rparr>"]) (auto simp: receiver_sync_def)
next
  case (main now)
  then show ?thesis using assms(1) by (auto simp: db_step_defs db_sync_def split: main_pc.splits if_splits)
qed

text \<open>The server does not exit when nothing fails.\<close>

lemma db_step_server:
  assumes "db_step nu env c sc False file_ok s s'" "db_agree M N c sc" "\<not> db_server_exited s"
  shows "\<not> db_server_exited s'"
  using assms(1)
proof (cases rule: db_step.cases)
  case (sender k failed now n)
  then show ?thesis using assms(3) by (auto simp: db_step_defs set_sender_def rec_take_def rec_check_def rec_write_def rec_end_def
      split: db_sender_pc.splits option.splits prod.splits if_splits)
next
  case (receiver k failed now n)
  moreover have "dbos_recv env n False (int k + 100) (db_tables s) \<noteq> None"
    by (simp add: dbos_recv_def run_ReceiveMessage split: prod.split)
  ultimately show ?thesis using assms(2,3)
    by (cases failed) (auto simp: db_step_defs db_agree_def set_receiver_def split: db_receiver_pc.splits option.splits prod.splits if_splits)
next
  case (main now)
  then show ?thesis using assms(3) by (auto simp: db_step_defs rec_mark_def rec_process_def split: main_pc.splits if_splits)
qed (use assms(3) in \<open>simp_all add: set_sender_def set_receiver_def\<close>)

lemma db_reach:
  assumes "(db_step nu env c sc False file_ok)\<^sup>*\<^sup>* (db_start c sc t0 now t) s" "db_agree M N c sc" "Message t = []"
  shows "db_wf M N s" "pp_inv M (db_view M k s)" "db_sync s" "\<not> db_server_exited s"
proof -
  have "db_agree M N c sc \<and> db_wf M N s \<and> (\<forall>k. pp_inv M (db_view M k s))"
    using db_rounds.reach_inv [OF assms(1), of M N] assms(2,3) db_start_ok by blast
  then show "db_wf M N s" "pp_inv M (db_view M k s)" by simp_all
  have "db_sync (db_start c sc t0 now t)" "\<not> db_server_exited (db_start c sc t0 now t)"
    by (auto simp: db_sync_def db_start_def recorder.extend_def sender_sync_def receiver_sync_def new_sender_def new_receiver_def)
  with assms(1) have "db_sync s \<and> \<not> db_server_exited s"
    by (induction rule: rtranclp_induct) (use db_step_sync db_step_server [OF _ assms(2)] in blast)+
  then show "db_sync s" "\<not> db_server_exited s" by simp_all
qed

subsection \<open>Progress\<close>

lemma dbos_recv_works: "\<exists>x t'. dbos_recv env n False i t = Some (x, length (rows_for i t), t')"
proof -
  have "dbos_recv env n False i t \<noteq> None" by (simp add: dbos_recv_def run_ReceiveMessage split: prod.split)
  then show ?thesis using dbos_recv_rows(1) by (metis option.exhaust prod_cases3)
qed

lemma callback_differs:
  assumes "0 < dp_responses q" "SendCallback_callback m q = (b, q')"
  shows "q' \<noteq> q"
proof -
  have "dp_responses q' = dp_responses q - 1" using assms(2) by (auto simp: SendCallback_callback_def Let_def split: if_splits)
  then show ?thesis using assms(1) by auto
qed

lemma sender_progress:
  assumes s: "\<not> exited s" "k < length (db_senders s)" and c: "do_numMessages c = int M" "0 \<le> do_msg_size c"
    and pc: "sd_pc (db_senders s ! k) \<noteq> DEnd"
    and bar: "sd_pc (db_senders s ! k) = DBarrier \<Longrightarrow> \<forall>x \<in> set (db_senders s). \<not> sd_warm x"
    and run: "sd_pc (db_senders s ! k) = DRun \<Longrightarrow> 0 < dp_responses (sd_port (db_senders s ! k))"
    and rcv: "\<And>r. sd_pc (db_senders s ! k) = DRecv r \<Longrightarrow> r < M \<Longrightarrow> rows_for (int k) (db_tables s) \<noteq> []"
  shows "\<exists>s'. db_step nu env c sc False file_ok s s' \<and> db_progress s s'"
proof -
  let ?th = "db_senders s ! k"
  have differs: "db_progress s s'" if "db_senders s' = (db_senders s)[k := th]" "th \<noteq> ?th" for s' th
    using that update_differs [OF s(2)] by (simp add: db_progress_def)
  have pcs: "db_progress s s'" if "db_senders s' = (db_senders s)[k := th]" "sd_pc th \<noteq> sd_pc ?th" for s' th
    using that differs by metis
  have nonneg: "\<not> do_msg_size c < 0" using c(2) by simp
  have "\<exists>s'. db_sender_step nu env c k 0 0 False s = Some s' \<and> db_progress s s'"
  proof (cases "sd_pc ?th")
    case (DTaken ix)
    have "exited (rec_check k ix s)" if "unat ix \<ge> kMaxEntries" using that by (simp add: rec_check_def)
    then have "db_progress s (rec_check k ix s)" if "unat ix \<ge> kMaxEntries" using that by (simp add: db_progress_def)
    then show ?thesis using DTaken by (cases "unat ix \<ge> kMaxEntries") (auto simp: db_step_defs intro!: pcs)
  next
    case DRun
    obtain b q' where cb: "SendCallback_callback (int M) (sd_port ?th) = (b, q')" by (metis prod.exhaust)
    then have "q' \<noteq> sd_port ?th" using run [OF DRun] callback_differs by metis
    then have ne: "?th\<lparr>sd_pc := x, sd_port := q'\<rparr> \<noteq> ?th" for x by (metis db_sender.select_convs(2) db_sender.surjective db_sender.update_convs(1,2))
    show ?thesis using DRun run cb c(1) ne by (auto simp: db_step_defs intro!: differs)
  next
    case (DRecv r)
    obtain x t' where "dbos_recv env 0 False (int k) (db_tables s) = Some (x, length (rows_for (int k) (db_tables s)), t')"
      using dbos_recv_works by blast
    then show ?thesis using DRecv rcv [OF DRecv] c(1) by (auto simp: db_step_defs intro!: pcs)
  qed (use pc bar c(1) nonneg in \<open>auto simp: db_step_defs intro!: pcs\<close>)
  then show ?thesis using db_step.sender [OF s, of False False nu env c 0 0] by blast
qed

lemma receiver_progress:
  assumes s: "\<not> db_server_exited s" "k < length (db_receivers s)" and c: "ds_numMessages sc = int M" "0 \<le> ds_msg_size sc"
    and bar: "rv_pc (db_receivers s ! k) = RBarrier \<Longrightarrow> \<forall>x \<in> set (db_receivers s). \<not> rv_warm x"
    and run: "rv_pc (db_receivers s ! k) = RRun \<Longrightarrow> 0 < dp_responses (rv_port (db_receivers s ! k))"
    and rcv: "\<And>r. rv_pc (db_receivers s ! k) = RRecv r \<Longrightarrow> r < M \<Longrightarrow> rows_for (int k + 100) (db_tables s) \<noteq> []"
  shows "\<exists>s'. db_step nu env c sc False file_ok s s' \<and> db_progress s s'"
proof -
  let ?rv = "db_receivers s ! k"
  have differs: "db_progress s s'" if "db_receivers s' = (db_receivers s)[k := rv]" "rv \<noteq> ?rv" for s' rv
    using that update_differs [OF s(2)] by (simp add: db_progress_def)
  have pcs: "db_progress s s'" if "db_receivers s' = (db_receivers s)[k := rv]" "rv_pc rv \<noteq> rv_pc ?rv" for s' rv
    using that differs by metis
  have nonneg: "\<not> ds_msg_size sc < 0" using c(2) by simp
  have "\<exists>s'. db_receiver_step env sc k 0 0 False s = Some s' \<and> db_progress s s'"
  proof (cases "rv_pc ?rv")
    case RRun
    obtain b q' where cb: "SendCallback_callback (int M) (rv_port ?rv) = (b, q')" by (metis prod.exhaust)
    then have "q' \<noteq> rv_port ?rv" using run [OF RRun] callback_differs by metis
    then have ne: "rv_port rv = q' \<Longrightarrow> rv \<noteq> ?rv" for rv by auto
    show ?thesis using RRun run cb c(1) by (auto simp: db_step_defs intro!: differs ne)
  next
    case (RRecv r)
    obtain x t' where "dbos_recv env 0 False (int k + 100) (db_tables s) = Some (x, length (rows_for (int k + 100) (db_tables s)), t')"
      using dbos_recv_works by blast
    then show ?thesis using RRecv rcv [OF RRecv] c(1) by (auto simp: db_step_defs intro!: pcs)
  qed (use bar c(1) nonneg in \<open>auto simp: db_step_defs intro!: pcs\<close>)
  then show ?thesis using db_step.receiver [OF s, of False False env sc 0 0] by blast
qed

lemma request_progress:
  assumes "k < length (db_senders s) \<and> dp_flight (sd_port (db_senders s ! k)) \<noteq> [] \<or>
    k < length (db_receivers s) \<and> dp_flight (rv_port (db_receivers s ! k)) \<noteq> []"
  shows "\<exists>s'. db_step nu env c sc False file_ok s s' \<and> db_progress s s'"
proof -
  have run: "\<exists>q' t'. db_execute env 0 False (q, db_tables s) = Some (q', t') \<and> q' \<noteq> q" if "dp_flight q \<noteq> []" for q
  proof -
    have "\<exists>q' t'. db_execute env 0 False (q, db_tables s) = Some (q', t') \<and> dp_responses q' \<noteq> dp_responses q"
      using that by (cases "dp_flight q") (auto simp: db_execute_def)
    then show ?thesis by fastforce
  qed
  show ?thesis
    using assms
  proof (elim disjE conjE)
    let ?th = "db_senders s ! k"
    assume k: "k < length (db_senders s)" and "dp_flight (sd_port ?th) \<noteq> []"
    then obtain q' t' where q': "db_execute env 0 False (sd_port ?th, db_tables s) = Some (q', t')" "q' \<noteq> sd_port ?th" using run by blast
    then have "?th\<lparr>sd_port := q'\<rparr> \<noteq> ?th" by (metis db_sender.select_convs(2) db_sender.surjective db_sender.update_convs(2))
    then have "(db_senders s)[k := ?th\<lparr>sd_port := q'\<rparr>] \<noteq> db_senders s" using update_differs [OF k] by blast
    then show ?thesis using db_step.sender_request [OF k _ q'(1), of False] by (force simp: db_progress_def)
  next
    let ?rv = "db_receivers s ! k"
    assume k: "k < length (db_receivers s)" and "dp_flight (rv_port ?rv) \<noteq> []"
    then obtain q' t' where q': "db_execute env 0 False (rv_port ?rv, db_tables s) = Some (q', t')" "q' \<noteq> rv_port ?rv" using run by blast
    then have "?rv\<lparr>rv_port := q'\<rparr> \<noteq> ?rv" by (metis db_receiver.select_convs(2) db_receiver.surjective db_receiver.update_convs(2))
    then have "(db_receivers s)[k := ?rv\<lparr>rv_port := q'\<rparr>] \<noteq> db_receivers s" using update_differs [OF k] by blast
    then show ?thesis using db_step.receiver_request [OF k _ q'(1), of False] by (force simp: db_progress_def)
  qed
qed

text \<open>A pair whose sender is not behind a closed barrier.\<close>

lemma run_port_progress: "port_ok M r a None True q \<Longrightarrow> dp_flight q \<noteq> [] \<or> 0 < dp_responses q"
  by (cases "dp_flight q") (auto simp: port_ok_def)

lemma pair_progress:
  assumes agree: "db_agree M N c sc" and wf: "db_wf M N s" and inv: "\<And>i. pp_inv M (db_view M i s)" and sync: "db_sync s"
    and run: "\<not> exited s" "\<not> db_server_exited s" and k: "k < N" "sd_pc (db_senders s ! k) \<noteq> DEnd"
    and bar: "sd_pc (db_senders s ! k) = DBarrier \<Longrightarrow> \<forall>x \<in> set (db_senders s). \<not> sd_warm x"
  shows "\<exists>s'. db_step nu env c sc False file_ok s s' \<and> db_progress s s'"
proof (rule ccontr)
  assume no: "\<not> ?thesis"
  let ?th = "db_senders s ! k" and ?rv = "db_receivers s ! k" and ?x = "pair_view M (db_senders s ! k) (db_receivers s ! k)"
  have len: "length (db_senders s) = N" "length (db_receivers s) = N"
    and ok: "\<And>i. i < N \<Longrightarrow> pair_ok M i (db_senders s ! i) (db_receivers s ! i) (db_tables s)"
    using wf by (simp_all add: db_wf_def)
  have a: "do_numMessages c = int M" "0 \<le> do_msg_size c" "ds_numMessages sc = int M" "0 \<le> ds_msg_size sc" "0 < M"
    using agree by (simp_all add: db_agree_def)
  have idle: "dp_flight (sd_port (db_senders s ! i)) = []" "dp_flight (rv_port (db_receivers s ! i)) = []" if "i < N" for i
    using request_progress [of i s nu env c sc file_ok] no that len by auto
  have "sd_pc ?th \<noteq> DRun \<or> 0 < dp_responses (sd_port ?th)"
    using ok [OF k(1)] run_port_progress [of M "int k + 100" "int k" "sd_port ?th"] idle [OF k(1)]
    by (auto simp: pair_ok_def sender_ok_def)
  then obtain r where r: "sd_pc ?th = DRecv r" "r < M" "rows_for (int k) (db_tables s) = []"
    using sender_progress [of s k c M nu env sc file_ok] no run(1) k len a(1,2) bar by blast
  have running: "rv_pc (db_receivers s ! i) \<noteq> RRun \<or> 0 < dp_responses (rv_port (db_receivers s ! i))" if "i < N" for i
    using ok [OF that] run_port_progress [of M "int i" "int i + 100" "rv_port (db_receivers s ! i)"] idle [OF that]
    by (auto simp: pair_ok_def receiver_ok_def)
  have stay: "rv_pc (db_receivers s ! i) = RBarrier \<and> (\<exists>x \<in> set (db_receivers s). rv_warm x) \<or>
      (\<exists>j. rv_pc (db_receivers s ! i) = RRecv j \<and> j < M \<and> rows_for (int i + 100) (db_tables s) = [])" (is ?stay) if "i < N" for i
  proof (rule ccontr)
    assume "\<not> ?stay"
    then have "\<exists>s'. db_step nu env c sc False file_ok s s' \<and> db_progress s s'"
      using that len running [OF that] by (intro receiver_progress [OF run(2) _ a(3,4), of i]) auto
    then show False using no by blast
  qed
  have x: "all_back M ?x = all_replied M ?x" "pp_inv M ?x"
    using ok [OF k(1)] r(3) idle [OF k(1)] inv [of k] k(1) len by (simp_all add: pair_ok_def db_view_def)
  from stay [OF k(1)] show False
  proof (elim disjE exE conjE)
    fix j assume j: "rv_pc ?rv = RRecv j" "j < M" "rows_for (int k + 100) (db_tables s) = []"
    then have "all_got M ?x = all_sent M ?x" using ok [OF k(1)] idle [OF k(1)] by (simp add: pair_ok_def)
    then have "pp_stuck M ?x" using x(1) r j by (simp add: pp_stuck_def pair_view_def)
    then show False using pp_not_stuck x(2) by blast
  next
    assume rb: "rv_pc ?rv = RBarrier" and "\<exists>y \<in> set (db_receivers s). rv_warm y"
    then obtain i where i: "i < N" "rv_warm (db_receivers s ! i)" using len by (auto simp: in_set_conv_nth)
    have syn: "receiver_sync ?rv" "receiver_sync (db_receivers s ! i)" "sender_sync ?th" "sender_sync (db_senders s ! i)"
      using sync k(1) i(1) len by (simp_all add: db_sync_def)
    have "M * sd_rounds ?th + r = M * rv_rounds ?rv" using x(1) r rb by (simp add: pair_view_def totals)
    then have "0 < sd_rounds ?th" using syn(1) rb r(2) by (cases "sd_rounds ?th") (auto simp: receiver_sync_def)
    then have "\<not> sd_warm ?th" using syn(3) by (simp add: sender_sync_def)
    then have "\<not> sd_warm (db_senders s ! i)" using sync k(1) i(1) r(1) len by (fastforce simp: db_sync_def)
    then have "0 < sd_rounds (db_senders s ! i)" "rv_rounds (db_receivers s ! i) = 0"
      using syn i(2) by (simp_all add: sender_sync_def receiver_sync_def)
    moreover have "M * sd_rounds (db_senders s ! i) \<le> M * rv_rounds (db_receivers s ! i) + replied_at M (rv_pc (db_receivers s ! i))"
      using inv [of i] i(1) len by (simp add: db_view_def pair_view_def pp_inv_def totals)
    ultimately have "0 < replied_at M (rv_pc (db_receivers s ! i))" using a(5) by (metis add_0 gr0I mult_0_right mult_is_0 not_gr0 le_zero_eq)
    then show False using stay [OF i(1)] by auto
  qed
qed

lemma db_no_deadlock:
  assumes "db_agree M N c sc" "db_wf M N s" "\<And>i. pp_inv M (db_view M i s)" "db_sync s"
    and "\<not> exited s" "\<not> db_server_exited s" "k < N" "sd_pc (db_senders s ! k) \<noteq> DEnd"
  shows "\<exists>s'. db_step nu env c sc False file_ok s s' \<and> db_progress s s'"
proof (cases "sd_pc (db_senders s ! k) = DBarrier \<and> (\<exists>x \<in> set (db_senders s). sd_warm x)")
  case True
  then obtain j where j: "j < N" "sd_warm (db_senders s ! j)" using assms(2) by (auto simp: in_set_conv_nth db_wf_def)
  then have "sender_sync (db_senders s ! j)" using assms(2,4) by (simp add: db_sync_def db_wf_def)
  then have "sd_pc (db_senders s ! j) \<noteq> DEnd" "sd_pc (db_senders s ! j) \<noteq> DBarrier" using j(2) by (auto simp: sender_sync_def)
  then show ?thesis using pair_progress [OF assms(1-6) j(1)] by blast
next
  case False
  then show ?thesis using pair_progress [OF assms(1-8)] by blast
qed

subsection \<open>The benchmark\<close>

text \<open>
  C31. The benchmark measures complete rounds, under every interleaving of the threads of both programs and
  of the executions of their requests by the database, which answers them all: while a sender is not inside of a round, no
  message of its pair is in the table and no request of it is under way, and its receiver has sent
  exactly the replies to all rounds so far; inside of a round a sender never receives more messages
  than belong to it. When the program has finished, the results account for every round counted.
\<close>

theorem db_benchmark_rounds:
  assumes "(db_step nu env c sc False True)\<^sup>*\<^sup>* (db_start c sc t0 now t) s" "db_agree M N c sc" "Message t = []" "k < N"
  shows "(\<forall>r. sd_pc (db_senders s ! k) = DRecv r \<longrightarrow> r \<le> M) \<and>
    (\<not> in_round (sd_pc (db_senders s ! k)) \<longrightarrow>
       rows_for (int k) (db_tables s) = [] \<and> rows_for (int k + 100) (db_tables s) = [] \<and>
       dp_flight (sd_port (db_senders s ! k)) = [] \<and> dp_flight (rv_port (db_receivers s ! k)) = [] \<and>
       M * rv_rounds (db_receivers s ! k) + replied_at M (rv_pc (db_receivers s ! k)) = M * sd_rounds (db_senders s ! k)) \<and>
    (\<forall>R. main_at s = Finished R \<longrightarrow> (\<exists>res. R = Inr (Some res) \<and> accounts (n_dbl nu) (recorder.truncate s) res))"
proof -
  let ?x = "pair_view M (db_senders s ! k) (db_receivers s ! k)"
  note reach = db_reach [OF assms(1-3)]
  have ok: "pair_ok M k (db_senders s ! k) (db_receivers s ! k) (db_tables s)" and x: "pp_inv M ?x"
    using reach(1) reach(2) [of k] assms(4) by (simp_all add: db_wf_def db_view_def)
  have r: "r \<le> M" if "sd_pc (db_senders s ! k) = DRecv r" for r using x that by (simp add: pp_inv_def pair_view_def)
  have calm: "all_got M ?x = all_sent M ?x \<and> all_back M ?x = all_replied M ?x \<and> all_back M ?x = all_sent M ?x"
    if "\<not> in_round (sd_pc (db_senders s ! k))"
    using that by (intro pp_calm [OF x]) (cases "sd_pc (db_senders s ! k)"; simp add: pair_view_def)
  have sent: "all_sent M ?x = M * sd_rounds (db_senders s ! k)" if "\<not> in_round (sd_pc (db_senders s ! k))"
    using that by (cases "sd_pc (db_senders s ! k)") (simp_all add: pair_view_def totals)
  have n: "nat (do_numSenders c) \<le> 2 ^ 31" using assms(2) by (simp add: db_agree_def)
  have "all_replied M ?x = M * rv_rounds (db_receivers s ! k) + replied_at M (rv_pc (db_receivers s ! k))"
    by (simp add: pair_view_def totals)
  then show ?thesis
    using r calm sent ok db_rec.reach_accounts [OF assms(1) db_start_recorder n TrueI] unfolding pair_ok_def by auto
qed

text \<open>
  C32. No deadlock: as long as a sender has not ended and the client has not exited because its array is full, a
  step is possible in which a thread moves on or a message moves, and not only the polling of an empty
  table. The barriers of both programs, which all threads pass after their first round, are included.
\<close>

theorem db_benchmark_no_deadlock:
  assumes "(db_step nu env c sc False file_ok)\<^sup>*\<^sup>* (db_start c sc t0 now t) s" "db_agree M N c sc" "Message t = []"
    and "k < N" "sd_pc (db_senders s ! k) \<noteq> DEnd" "\<not> exited s"
  shows "\<exists>s'. db_step nu env c sc False file_ok s s' \<and> db_progress s s'"
  using db_no_deadlock [OF assms(2)] db_reach [OF assms(1-3)] assms(4-6) by blast

lemma db_lost_step:
  assumes "db_lost M s" "db_step nu env c sc False file_ok s s'" "do_numMessages c = int M" "ds_numMessages sc = int M"
  shows "db_lost M s'"
proof -
  obtain th rv r r' where s: "db_senders s = [th]" "db_receivers s = [rv]" "sd_pc th = DRecv r" "rv_pc rv = RRecv r'"
    "r < M" "r' < M" "dp_flight (sd_port th) = []" "dp_flight (rv_port rv) = []"
    "rows_for 0 (db_tables s) = []" "rows_for 100 (db_tables s) = []" "tickets s = [Idle]" "main_at s \<in> {Measuring, Joining}"
    using assms(1) by (auto simp: db_lost_def split: list.splits db_sender_pc.splits db_receiver_pc.splits)
  show ?thesis
    using assms(2)
  proof (cases rule: db_step.cases)
    case (sender k failed now n)
    obtain x t' where rcv: "dbos_recv env n False 0 (db_tables s) = Some (x, 0, t')"
      using dbos_recv_works [of env n 0 "db_tables s"] s(9) by auto
    then have "rows_for 0 t' = []" "rows_for 100 t' = []" using dbos_recv_rows [OF rcv] s(10) by simp_all
    then show ?thesis using sender rcv s assms(3)
      by (cases failed) (auto simp: db_step_defs db_lost_def set_sender_def)
  next
    case (receiver k failed now n)
    obtain x t' where rcv: "dbos_recv env n False 100 (db_tables s) = Some (x, 0, t')"
      using dbos_recv_works [of env n 100 "db_tables s"] s(10) by auto
    then have "rows_for 0 t' = []" "rows_for 100 t' = []" using dbos_recv_rows [OF rcv] s(9) by simp_all
    then show ?thesis using receiver rcv s assms(4)
      by (cases failed) (auto simp: db_step_defs db_lost_def set_receiver_def)
  next
    case (main now)
    then show ?thesis using s by (auto simp: db_step_defs db_lost_def rec_mark_def split: if_splits)
  qed (use s in \<open>auto simp: db_execute_def\<close>)
qed

lemma db_lost_reach:
  "\<exists>s. (db_step nu env db_defaults db_server_defaults True file_ok)\<^sup>*\<^sup>*
      (db_start db_defaults db_server_defaults t0 now empty_tables) s \<and> dp_responses (sd_port (db_senders s ! 0)) = 0 \<and> db_lost 1 s"
proof -
  let ?R = "db_step nu env db_defaults db_server_defaults True file_ok"
  let ?s0 = "db_start db_defaults db_server_defaults t0 now empty_tables"
  let ?q1 = "new_port\<lparr>dp_count := 1\<rparr>"
  let ?q2 = "dbos_send 100 0 0 2048 ?q1"
  let ?q4 = "?q2\<lparr>dp_flight := [], dp_responses := 1\<rparr>"
  let ?s1 = "set_sender 0 (new_sender\<lparr>sd_pc := DSend 0, sd_port := ?q1\<rparr>) ?s0"
  let ?s2 = "set_sender 0 (new_sender\<lparr>sd_pc := DSend 1, sd_port := ?q2\<rparr>) ?s1"
  let ?s3 = "set_sender 0 (new_sender\<lparr>sd_pc := DRun, sd_port := ?q2\<rparr>) ?s2"
  let ?s4 = "set_sender 0 (new_sender\<lparr>sd_pc := DRun, sd_port := ?q4\<rparr>) (?s3\<lparr>db_tables := empty_tables\<rparr>)"
  let ?s5 = "set_sender 0 (new_sender\<lparr>sd_pc := DRecv 0, sd_port := ?q4\<lparr>dp_responses := 0\<rparr>\<rparr>) ?s4"
  let ?s6 = "set_receiver 0 (new_receiver\<lparr>rv_pc := RRecv 0, rv_port := ?q1\<rparr>) ?s5"
  have s0: "db_senders ?s0 = [new_sender]" "db_receivers ?s0 = [new_receiver]" "\<not> exited ?s0" "\<not> db_server_exited ?s0"
    "db_tables ?s0 = empty_tables" "tickets ?s0 = [Idle]" "main_at ?s0 = Measuring"
    by (simp_all add: db_start_def recorder.extend_def rec_start_def db_defaults_def db_server_defaults_def)
  have keep [simp]: "exited (set_sender k th x) = exited x" "db_server_exited (set_sender k th x) = db_server_exited x"
    "main_at (set_sender k th x) = main_at x" "main_at (set_receiver k rv x) = main_at x" for k th rv x
    by (simp_all add: set_sender_def set_receiver_def)
  have opts: "do_numMessages db_defaults = 1" "do_msg_size db_defaults = 2048" "\<not> do_broadcast db_defaults"
    "ds_numMessages db_server_defaults = 1" "ds_msg_size db_server_defaults = 2048"
    by (simp_all add: db_defaults_def db_server_defaults_def)
  have "Message empty_tables = []" by (simp add: empty_tables_def)
  note defs = db_step_defs opts s0
  note go = db_step.sender [where k = 0 and now = 0 and n = 0 and failed = False]
  have "?R ?s0 ?s1" by (rule go) (simp_all add: defs new_sender_def)
  moreover have "?R ?s1 ?s2" by (rule go) (simp_all add: defs new_sender_def)
  moreover have "?R ?s2 ?s3" by (rule go) (simp_all add: defs new_sender_def)
  moreover have "?R ?s3 (set_sender 0 ((db_senders ?s3 ! 0)\<lparr>sd_port := ?q4\<rparr>) (?s3\<lparr>db_tables := empty_tables\<rparr>))"
    by (rule db_step.sender_request [where j = 0 and failed = True]) (simp_all add: s0 db_execute_def dbos_send_def new_port_def new_sender_def)
  then have "?R ?s3 ?s4" by (simp add: s0 new_sender_def)
  moreover have "?R ?s4 ?s5" by (rule go) (simp_all add: defs new_sender_def SendCallback_callback_def dbos_send_def new_port_def)
  moreover have "?R ?s5 ?s6"
    by (rule db_step.receiver [where k = 0 and now = 0 and n = 0 and failed = False]) (simp_all add: defs new_receiver_def)
  ultimately have "?R\<^sup>*\<^sup>* ?s0 ?s6" by (meson rtranclp.rtrancl_into_rtrancl rtranclp.rtrancl_refl)
  moreover have "db_lost 1 ?s6" "dp_responses (sd_port (db_senders ?s6 ! 0)) = 0"
    using \<open>Message empty_tables = []\<close> by (simp_all add: db_lost_def s0 dbos_send_def new_port_def rows_for_def set_sender_def set_receiver_def)
  ultimately show ?thesis by blast
qed

lemma db_lost_for_ever:
  assumes "(db_step nu env c sc False file_ok)\<^sup>*\<^sup>* s s'" "db_lost M s" "do_numMessages c = int M" "ds_numMessages sc = int M"
  shows "(\<exists>r. sd_pc (db_senders s' ! 0) = DRecv r) \<and> (\<exists>r. rv_pc (db_receivers s' ! 0) = RRecv r) \<and> (\<forall>R. main_at s' \<noteq> Finished R)"
proof -
  have "db_lost M s'" using assms(1,2) by (induction rule: rtranclp_induct) (use db_lost_step [OF _ _ assms(3,4)] in blast)+
  then show ?thesis by (auto simp: db_lost_def split: list.splits db_sender_pc.splits db_receiver_pc.splits)
qed

text \<open>
  C33. A lost message stops the benchmark for ever: with the defaults, if the database fails to execute the
  first \<open>SendMessage\<close>, then the callback only prints the error, and from then on, although nothing fails any more, the sender
  waits for a reply and the receiver for a message; the main thread never gets results.
\<close>

theorem db_lost_message:
  "\<exists>s. (db_step nu env db_defaults db_server_defaults True file_ok)\<^sup>*\<^sup>*
      (db_start db_defaults db_server_defaults t0 now empty_tables) s \<and> dp_responses (sd_port (db_senders s ! 0)) = 0 \<and>
    (\<forall>s'. (db_step nu env db_defaults db_server_defaults False file_ok)\<^sup>*\<^sup>* s s' \<longrightarrow>
       (\<exists>r. sd_pc (db_senders s' ! 0) = DRecv r) \<and> (\<exists>r. rv_pc (db_receivers s' ! 0) = RRecv r) \<and> (\<forall>R. main_at s' \<noteq> Finished R))"
proof -
  have "do_numMessages db_defaults = int 1" "ds_numMessages db_server_defaults = int 1"
    by (simp_all add: db_defaults_def db_server_defaults_def)
  then show ?thesis using db_lost_reach [of nu env file_ok t0 now] db_lost_for_ever [of nu env db_defaults db_server_defaults file_ok] by blast
qed

subsection \<open>Examples\<close>

theorem db_benchmark_rounds_witness:
  "let s = db_start (db_defaults\<lparr>do_numSenders := 2\<rparr>) (db_server_defaults\<lparr>ds_numReceivers := 2\<rparr>) 5 6 empty_tables in
     db_agree 1 2 (db_defaults\<lparr>do_numSenders := 2\<rparr>) (db_server_defaults\<lparr>ds_numReceivers := 2\<rparr>) \<and>
     rows_for 101 (db_tables s) = []"
proof -
  let ?c = "db_defaults\<lparr>do_numSenders := 2\<rparr>" and ?sc = "db_server_defaults\<lparr>ds_numReceivers := 2\<rparr>"
  have agree: "db_agree 1 2 ?c ?sc" by (simp add: db_agree_def db_defaults_def db_server_defaults_def)
  have "\<not> in_round (sd_pc (db_senders (db_start ?c ?sc 5 6 empty_tables) ! 1))"
    by (simp add: db_start_def recorder.extend_def new_sender_def nth_Cons')
  then show ?thesis
    using db_benchmark_rounds [OF rtranclp.rtrancl_refl agree, of empty_tables 1 5 6] agree
    by (simp add: empty_tables_def)
qed

theorem db_benchmark_no_deadlock_witness:
  "\<exists>s'. db_step undefined quiet_env db_defaults db_server_defaults False True
          (db_start db_defaults db_server_defaults 5 6 empty_tables) s' \<and>
        db_progress (db_start db_defaults db_server_defaults 5 6 empty_tables) s'"
  by (rule db_benchmark_no_deadlock [OF rtranclp.rtrancl_refl, of 1 1 _ _ _ 0])
    (simp_all add: db_agree_def db_defaults_def db_server_defaults_def db_start_def recorder.extend_def rec_start_def
      new_sender_def empty_tables_def)

theorem db_lost_message_witness:
  "\<exists>s r. (db_step undefined quiet_env db_defaults db_server_defaults True True)\<^sup>*\<^sup>*
      (db_start db_defaults db_server_defaults 5 6 empty_tables) s \<and> sd_pc (db_senders s ! 0) = DRecv r"
  using db_lost_message [of undefined quiet_env True 5 6] by blast

end
