(* ===== verification/TCP_Bench.thy ===== *)
theory TCP_Bench
  imports Bench_Sync Ping_Pong
begin

text \<open>
  \<open>TCPBenchClient.cc\<close> and \<open>TCPBenchServer.cc\<close>: ping-pong over TCP. A sender thread connects to the receiver thread that listens on
  its port; in each round it writes a batch of messages and reads as many bytes back. With \<open>-b\<close> a thread has a connection to
  each of several receivers and waits for their replies with \<open>epoll\<close>. Both processes are one step relation. A
  connection is the number of bytes in each direction that the kernel holds, at most \<open>cap\<close>; a read or a write moves
  any positive number of bytes that fits, and blocks when there is none.
\<close>

section \<open>Definitions\<close>

subsection \<open>Options\<close>

record tcp_options =
  to_numSenders :: int
  to_numReceivers :: int
  to_numMessages :: int
  to_basePort :: int
  to_msg_size :: int
  to_measureIntervalMsec :: int
  to_totalExecTimeMsec :: int
  to_broadcast :: bool
  to_serverAddr :: string
  to_outputFile :: string

definition tcp_defaults :: tcp_options where
  "tcp_defaults = \<lparr>to_numSenders = 1, to_numReceivers = 1, to_numMessages = 1, to_basePort = 8080, to_msg_size = 2048,
     to_measureIntervalMsec = 2000, to_totalExecTimeMsec = 10000, to_broadcast = False, to_serverAddr = ''127.0.0.1'',
     to_outputFile = ''message_results.csv''\<rparr>"

definition tcp_switch :: "char \<times> string \<Rightarrow> tcp_options \<Rightarrow> tcp_options option" where
  "tcp_switch x c =
     (case x of (opt, optarg) \<Rightarrow>
      if opt = CHR ''o'' then Some (c\<lparr>to_outputFile := optarg\<rparr>)
      else if opt = CHR ''s'' then Some (c\<lparr>to_serverAddr := optarg\<rparr>)
      else if opt = CHR ''p'' then Some (c\<lparr>to_basePort := atoi optarg\<rparr>)
      else if opt = CHR ''i'' then Some (c\<lparr>to_measureIntervalMsec := atoi optarg\<rparr>)
      else if opt = CHR ''t'' then Some (c\<lparr>to_totalExecTimeMsec := atoi optarg\<rparr>)
      else if opt = CHR ''N'' then Some (c\<lparr>to_numSenders := atoi optarg\<rparr>)
      else if opt = CHR ''M'' then Some (c\<lparr>to_numMessages := atoi optarg\<rparr>)
      else if opt = CHR ''m'' then Some (c\<lparr>to_msg_size := atoi optarg\<rparr>)
      else if opt = CHR ''b'' then Some (c\<lparr>to_broadcast := True\<rparr>)
      else if opt = CHR ''R'' then Some (c\<lparr>to_numReceivers := atoi optarg\<rparr>)
      else None)"

definition tcp_args :: "string list \<Rightarrow> tcp_options option" where
  "tcp_args argv = option_loop tcp_switch (getopt ''hbo:s:p:i:t:N:M:m:R:'' argv) tcp_defaults"

text \<open>The options of the server.\<close>

record tcp_server_options =
  tv_numReceivers :: int
  tv_numMessages :: int
  tv_basePort :: int
  tv_msg_size :: int

definition tcp_server_defaults :: tcp_server_options where
  "tcp_server_defaults = \<lparr>tv_numReceivers = 1, tv_numMessages = 1, tv_basePort = 8080, tv_msg_size = 2048\<rparr>"

definition tcp_server_switch :: "char \<times> string \<Rightarrow> tcp_server_options \<Rightarrow> tcp_server_options option" where
  "tcp_server_switch x c =
     (case x of (opt, optarg) \<Rightarrow>
      if opt = CHR ''m'' then Some (c\<lparr>tv_msg_size := atoi optarg\<rparr>)
      else if opt = CHR ''p'' then Some (c\<lparr>tv_basePort := atoi optarg\<rparr>)
      else if opt = CHR ''N'' then Some (c\<lparr>tv_numReceivers := atoi optarg\<rparr>)
      else if opt = CHR ''M'' then Some (c\<lparr>tv_numMessages := atoi optarg\<rparr>)
      else None)"

definition tcp_server_args :: "string list \<Rightarrow> tcp_server_options option" where
  "tcp_server_args argv = option_loop tcp_server_switch (getopt ''hm:p:N:M:'' argv) tcp_server_defaults"

subsection \<open>Threads\<close>

record tcp_socket =
  nk_port :: "16 word"
  nk_up :: nat
  nk_down :: nat

datatype tcp_pc =
    NConnect nat            \<comment> \<open>has so many connections\<close>
  | NBarrier
  | NTop
  | NWrite nat nat          \<comment> \<open>has written so many messages, and so many bytes of the next\<close>
  | NRead nat nat
  | NPoll                   \<comment> \<open>about to call \<open>epoll_wait\<close>\<close>
  | NEvents "nat list" nat  \<comment> \<open>reads from these sockets; has so many bytes of the first\<close>
  | NTake
  | NTaken "32 word"
  | NHold "32 word"
  | NCond
  | NEnd

text \<open>\<open>ns_rounds\<close> and \<open>nr_rounds\<close> count completed rounds; the programs have no such variables.\<close>

record tcp_sender =
  ns_pc :: tcp_pc
  ns_socks :: "tcp_socket list"
  ns_replied :: nat
  ns_startTime :: "64 word"
  ns_endTime :: "64 word"
  ns_rounds :: nat

datatype listener_pc = LBind | LAccept | LBarrier | LRead nat nat | LWrite nat nat

text \<open>\<open>nr_fd\<close>: the sender and its socket at the other side of \<open>recv_fd\<close>.\<close>

record tcp_receiver =
  nr_pc :: listener_pc
  nr_fd :: "(nat \<times> nat) option"
  nr_rounds :: nat

record tcp_bench = recorder +
  nb_senders :: "tcp_sender list"
  nb_receivers :: "tcp_receiver list"
  nb_mainFinished :: bool
  nb_endTime :: "64 word"
  nb_server_exited :: bool

definition set_client :: "nat \<Rightarrow> tcp_sender \<Rightarrow> tcp_bench \<Rightarrow> tcp_bench" where
  "set_client k th s = s\<lparr>nb_senders := (nb_senders s)[k := th]\<rparr>"

definition set_listener :: "nat \<Rightarrow> tcp_receiver \<Rightarrow> tcp_bench \<Rightarrow> tcp_bench" where
  "set_listener k th s = s\<lparr>nb_receivers := (nb_receivers s)[k := th]\<rparr>"

definition set_sock :: "nat \<Rightarrow> tcp_socket \<Rightarrow> tcp_sender \<Rightarrow> tcp_sender" where
  "set_sock x q th = th\<lparr>ns_socks := (ns_socks th)[x := q]\<rparr>"

text \<open>\<open>htons\<close> keeps 16 bits of a port.\<close>

definition port_of :: "int \<Rightarrow> nat \<Rightarrow> 16 word" where
  "port_of base k = of_int (base + int k)"

definition tcp_listening :: "tcp_server_options \<Rightarrow> tcp_bench \<Rightarrow> 16 word \<Rightarrow> bool" where
  "tcp_listening sc s p \<longleftrightarrow> \<not> nb_server_exited s \<and>
     list_ex (\<lambda>j. nr_pc (nb_receivers s ! j) \<noteq> LBind \<and> port_of (tv_basePort sc) j = p) [0..<length (nb_receivers s)]"

text \<open>
  One call of \<open>write\<close> by the client, of \<open>n\<close> bytes on socket \<open>x\<close>, with \<open>rest\<close> bytes left of the message; \<open>None\<close> when it
  blocks. Writing to a server that has gone ends the client, by the error or by the signal.
\<close>

definition tcp_write :: "nat \<Rightarrow> nat \<Rightarrow> bool \<Rightarrow> nat \<Rightarrow> int \<Rightarrow> nat \<Rightarrow> tcp_pc \<Rightarrow> tcp_bench \<Rightarrow> tcp_bench option" where
  "tcp_write cap k failed x rest n pc s =
     (let th = nb_senders s ! k; q = ns_socks th ! x in
      if failed \<or> nb_server_exited s then Some (s\<lparr>exited := True\<rparr>)
      else if 0 < n \<and> int n \<le> rest \<and> nk_up q + n \<le> cap
      then Some (set_client k ((set_sock x (q\<lparr>nk_up := nk_up q + n\<rparr>) th)\<lparr>ns_pc := pc\<rparr>) s)
      else None)"

text \<open>One call of \<open>read\<close> by the client; it returns 0 again and again when the server has gone.\<close>

definition tcp_read :: "nat \<Rightarrow> bool \<Rightarrow> nat \<Rightarrow> int \<Rightarrow> nat \<Rightarrow> tcp_pc \<Rightarrow> tcp_bench \<Rightarrow> tcp_bench option" where
  "tcp_read k failed x rest n pc s =
     (let th = nb_senders s ! k; q = ns_socks th ! x in
      if failed then Some (s\<lparr>exited := True\<rparr>)
      else if 0 < n \<and> int n \<le> rest \<and> n \<le> nk_down q
      then Some (set_client k ((set_sock x (q\<lparr>nk_down := nk_down q - n\<rparr>) th)\<lparr>ns_pc := pc\<rparr>) s)
      else if nb_server_exited s \<and> nk_down q = 0 then Some s
      else None)"

text \<open>Recording the latency and the condition of the loop, the same in both kinds of threads.\<close>

definition tcp_record :: "platform \<Rightarrow> nat \<Rightarrow> tcp_bench \<Rightarrow> tcp_bench option" where
  "tcp_record nu k s =
     (let th = nb_senders s ! k in
      case ns_pc th of
        NTake \<Rightarrow> Some (set_client k (th\<lparr>ns_pc := NTaken (arrayIndex s)\<rparr>) (rec_take k s))
      | NTaken ix \<Rightarrow>
          (if unat ix \<ge> kMaxEntries then Some (rec_check k ix s)
           else Some (set_client k (th\<lparr>ns_pc := NHold ix\<rparr>) (rec_check k ix s)))
      | NHold ix \<Rightarrow>
          Some (set_client k (th\<lparr>ns_pc := NCond\<rparr>)
                  (rec_write k ix (n_dbl nu (of_nat (unat (ns_endTime th - ns_startTime th)))) s))
      | NCond \<Rightarrow>
          (if nb_mainFinished s then Some (set_client k (th\<lparr>ns_pc := NEnd\<rparr>) (rec_end k s))
           else Some (set_client k (th\<lparr>ns_pc := NTop\<rparr>) s))
      | _ \<Rightarrow> None)"

fun connecting :: "tcp_pc \<Rightarrow> bool" where
  "connecting (NConnect i) = True"
| "connecting _ = False"

text \<open>One step of \<open>SenderThread\<close>: \<open>failed\<close> says that the system call of this step fails, \<open>n\<close> how many bytes it moves.\<close>

definition tcp_sender_step ::
    "platform \<Rightarrow> nat \<Rightarrow> tcp_options \<Rightarrow> tcp_server_options \<Rightarrow> nat \<Rightarrow> 64 word \<Rightarrow> nat \<Rightarrow> bool \<Rightarrow> tcp_bench \<Rightarrow> tcp_bench option" where
  "tcp_sender_step nu cap c sc k now n failed s =
     (let th = nb_senders s ! k; p = port_of (to_basePort c) k in
      case ns_pc th of
        NConnect i \<Rightarrow>
          (if failed \<or> \<not> tcp_listening sc s p then Some (s\<lparr>exited := True\<rparr>)
           else Some (set_client k (th\<lparr>ns_pc := NBarrier, ns_socks := [\<lparr>nk_port = p, nk_up = 0, nk_down = 0\<rparr>]\<rparr>) s))
      | NBarrier \<Rightarrow>
          (if \<exists>x \<in> set (nb_senders s). connecting (ns_pc x) then None else Some (set_client k (th\<lparr>ns_pc := NTop\<rparr>) s))
      | NTop \<Rightarrow> Some (set_client k (th\<lparr>ns_pc := NWrite 0 0, ns_startTime := now\<rparr>) s)
      | NWrite i b \<Rightarrow>
          (if int i < to_numMessages c
           then (if int b < to_msg_size c then tcp_write cap k failed 0 (to_msg_size c - int b) n (NWrite i (b + n)) s
                 else Some (set_client k (th\<lparr>ns_pc := NWrite (Suc i) 0\<rparr>) s))
           else Some (set_client k (th\<lparr>ns_pc := NRead 0 0\<rparr>) s))
      | NRead i b \<Rightarrow>
          (if int i < to_numMessages c
           then (if int b < to_msg_size c then tcp_read k failed 0 (to_msg_size c - int b) n (NRead i (b + n)) s
                 else Some (set_client k (th\<lparr>ns_pc := NRead (Suc i) 0\<rparr>) s))
           else Some (set_client k (th\<lparr>ns_pc := NTake, ns_endTime := now, ns_rounds := Suc (ns_rounds th)\<rparr>) s))
      | _ \<Rightarrow> tcp_record nu k s)"

text \<open>
  One step of \<open>BroadcasterThread\<close>, with \<open>setup_connections\<close> as its start. \<open>ready\<close> is what \<open>epoll_wait\<close> returns: sockets
  with data, none when the time is up.
\<close>

definition tcp_broadcast_step ::
    "platform \<Rightarrow> nat \<Rightarrow> tcp_options \<Rightarrow> tcp_server_options \<Rightarrow> nat \<Rightarrow> 64 word \<Rightarrow> nat \<Rightarrow> bool \<Rightarrow> nat list \<Rightarrow>
     tcp_bench \<Rightarrow> tcp_bench option" where
  "tcp_broadcast_step nu cap c sc k now n failed ready s =
     (let th = nb_senders s ! k in
      case ns_pc th of
        NConnect i \<Rightarrow>
          (if int i < to_numReceivers c
           then (let p = port_of (to_basePort c) (k + i) in
                 if failed \<or> \<not> tcp_listening sc s p then Some (s\<lparr>exited := True\<rparr>)
                 else Some (set_client k (th\<lparr>ns_pc := NConnect (Suc i),
                        ns_socks := ns_socks th @ [\<lparr>nk_port = p, nk_up = 0, nk_down = 0\<rparr>]\<rparr>) s))
           else Some (set_client k (th\<lparr>ns_pc := NTop\<rparr>) s))
      | NTop \<Rightarrow> Some (set_client k (th\<lparr>ns_pc := NWrite 0 0, ns_startTime := now\<rparr>) s)
      | NWrite i b \<Rightarrow>
          (if int i < to_numReceivers c
           then (if int b < to_msg_size c then tcp_write cap k failed i (to_msg_size c - int b) n (NWrite i (b + n)) s
                 else Some (set_client k (th\<lparr>ns_pc := NWrite (Suc i) 0\<rparr>) s))
           else Some (set_client k (th\<lparr>ns_pc := NPoll, ns_replied := 0\<rparr>) s))
      | NPoll \<Rightarrow>
          (if int (ns_replied th) < to_numReceivers c
           then (if distinct ready \<and> (\<forall>x \<in> set ready. x < length (ns_socks th) \<and> (0 < nk_down (ns_socks th ! x) \<or> nb_server_exited s))
                 then Some (set_client k (th\<lparr>ns_pc := NEvents ready 0\<rparr>) s)
                 else None)
           else Some (set_client k (th\<lparr>ns_pc := NTake, ns_endTime := now, ns_rounds := Suc (ns_rounds th)\<rparr>) s))
      | NEvents evs b \<Rightarrow>
          (case evs of
             [] \<Rightarrow> Some (set_client k (th\<lparr>ns_pc := NPoll\<rparr>) s)
           | x # xs \<Rightarrow>
               (if int b < to_msg_size c then tcp_read k failed x (to_msg_size c - int b) n (NEvents evs (b + n)) s
                else Some (set_client k (th\<lparr>ns_pc := NEvents xs 0, ns_replied := Suc (ns_replied th)\<rparr>) s)))
      | _ \<Rightarrow> tcp_record nu k s)"

text \<open>
  One step of \<open>ReceiverThread\<close> of the server: it listens, accepts one connection (\<open>from\<close>) and serves it for ever. A read
  from a client that has gone returns 0 again and again.
\<close>

definition tcp_receiver_step ::
    "nat \<Rightarrow> tcp_server_options \<Rightarrow> nat \<Rightarrow> nat \<Rightarrow> bool \<Rightarrow> nat \<times> nat \<Rightarrow> tcp_bench \<Rightarrow> tcp_bench option" where
  "tcp_receiver_step cap sc k n failed from_sock s =
     (let rv = nb_receivers s ! k; crash = Some (s\<lparr>nb_server_exited := True\<rparr>) in
      case nr_pc rv of
        LBind \<Rightarrow> (if failed then crash else Some (set_listener k (rv\<lparr>nr_pc := LAccept\<rparr>) s))
      | LAccept \<Rightarrow>
          (case from_sock of (a, x) \<Rightarrow>
             if failed then crash
             else if a < length (nb_senders s) \<and> x < length (ns_socks (nb_senders s ! a)) \<and>
                     nk_port (ns_socks (nb_senders s ! a) ! x) = port_of (tv_basePort sc) k
             then Some (set_listener k (rv\<lparr>nr_pc := LBarrier, nr_fd := Some (a, x)\<rparr>) s)
             else None)
      | LBarrier \<Rightarrow>
          (if \<exists>y \<in> set (nb_receivers s). nr_pc y \<in> {LBind, LAccept} then None
           else Some (set_listener k (rv\<lparr>nr_pc := LRead 0 0\<rparr>) s))
      | LRead i b \<Rightarrow>
          (if int i < tv_numMessages sc
           then (if int b < tv_msg_size sc
                 then (case nr_fd rv of
                         None \<Rightarrow> None
                       | Some (a, x) \<Rightarrow>
                           (let th = nb_senders s ! a; q = ns_socks th ! x in
                            if failed then crash
                            else if 0 < n \<and> int n \<le> tv_msg_size sc - int b \<and> n \<le> nk_up q
                            then Some (set_client a (set_sock x (q\<lparr>nk_up := nk_up q - n\<rparr>) th)
                                         (set_listener k (rv\<lparr>nr_pc := LRead i (b + n)\<rparr>) s))
                            else if exited s \<and> nk_up q = 0 then Some s
                            else None))
                 else Some (set_listener k (rv\<lparr>nr_pc := LRead (Suc i) 0\<rparr>) s))
           else Some (set_listener k (rv\<lparr>nr_pc := LWrite 0 0\<rparr>) s))
      | LWrite i b \<Rightarrow>
          (if int i < tv_numMessages sc
           then (if int b < tv_msg_size sc
                 then (case nr_fd rv of
                         None \<Rightarrow> None
                       | Some (a, x) \<Rightarrow>
                           (let th = nb_senders s ! a; q = ns_socks th ! x in
                            if failed \<or> exited s then crash
                            else if 0 < n \<and> int n \<le> tv_msg_size sc - int b \<and> nk_down q + n \<le> cap
                            then Some (set_client a (set_sock x (q\<lparr>nk_down := nk_down q + n\<rparr>) th)
                                         (set_listener k (rv\<lparr>nr_pc := LWrite i (b + n)\<rparr>) s))
                            else None))
                 else Some (set_listener k (rv\<lparr>nr_pc := LWrite (Suc i) 0\<rparr>) s))
           else Some (set_listener k (rv\<lparr>nr_pc := LRead 0 0, nr_rounds := Suc (nr_rounds rv)\<rparr>) s)))"

definition tcp_main_step :: "platform \<Rightarrow> bool \<Rightarrow> 64 word \<Rightarrow> tcp_bench \<Rightarrow> tcp_bench option" where
  "tcp_main_step nu file_ok now s =
     (case main_at s of
        Measuring \<Rightarrow>
          (let up = \<not> now < nb_endTime s
           in Some ((rec_mark now up s)\<lparr>nb_mainFinished := up\<rparr>))
      | Joining \<Rightarrow>
          (if \<forall>x \<in> set (tickets s). x = Gone then Some (rec_process (n_dbl nu) file_ok s) else None)
      | Finished _ \<Rightarrow> None)"

definition new_client :: tcp_sender where
  "new_client = \<lparr>ns_pc = NConnect 0, ns_socks = [], ns_replied = 0, ns_startTime = 0, ns_endTime = 0, ns_rounds = 0\<rparr>"

definition new_listener :: tcp_receiver where
  "new_listener = \<lparr>nr_pc = LBind, nr_fd = None, nr_rounds = 0\<rparr>"

definition tcp_start :: "tcp_options \<Rightarrow> tcp_server_options \<Rightarrow> 64 word \<Rightarrow> 64 word \<Rightarrow> tcp_bench" where
  "tcp_start c sc t0 now =
     recorder.extend (rec_start (nat (to_numSenders c)) t0)
       \<lparr>nb_senders = replicate (nat (to_numSenders c)) new_client,
        nb_receivers = replicate (nat (tv_numReceivers sc)) new_listener, nb_mainFinished = False,
        nb_endTime = now + of_int (narrow32 (to_totalExecTimeMsec c * 1000)), nb_server_exited = False\<rparr>"

text \<open>Both processes; system calls only fail where \<open>fails\<close> allows it.\<close>

inductive tcp_step :: "platform \<Rightarrow> nat \<Rightarrow> tcp_options \<Rightarrow> tcp_server_options \<Rightarrow> bool \<Rightarrow> bool \<Rightarrow> tcp_bench \<Rightarrow> tcp_bench \<Rightarrow> bool"
  for nu cap c sc fails file_ok where
  sender: "\<not> exited s \<Longrightarrow> \<not> to_broadcast c \<Longrightarrow> k < length (nb_senders s) \<Longrightarrow> (failed \<Longrightarrow> fails) \<Longrightarrow>
    tcp_sender_step nu cap c sc k now n failed s = Some s' \<Longrightarrow> tcp_step nu cap c sc fails file_ok s s'"
| broadcaster: "\<not> exited s \<Longrightarrow> to_broadcast c \<Longrightarrow> k < length (nb_senders s) \<Longrightarrow> (failed \<Longrightarrow> fails) \<Longrightarrow>
    tcp_broadcast_step nu cap c sc k now n failed ready s = Some s' \<Longrightarrow> tcp_step nu cap c sc fails file_ok s s'"
| receiver: "\<not> nb_server_exited s \<Longrightarrow> k < length (nb_receivers s) \<Longrightarrow> (failed \<Longrightarrow> fails) \<Longrightarrow>
    tcp_receiver_step cap sc k n failed from_sock s = Some s' \<Longrightarrow> tcp_step nu cap c sc fails file_ok s s'"
| main: "\<not> exited s \<Longrightarrow> tcp_main_step nu file_ok now s = Some s' \<Longrightarrow> tcp_step nu cap c sc fails file_ok s s'"

definition tcp_main :: "string list \<Rightarrow> (tcp_options \<Rightarrow> bool) \<Rightarrow> int" where
  "tcp_main argv run = (case tcp_args argv of None \<Rightarrow> 1 | Some c \<Rightarrow> (if run c then 0 else 1))"

subsection \<open>The protocol\<close>

fun ticket_tcp :: "tcp_pc \<Rightarrow> ticket" where
  "ticket_tcp (NTaken ix) = Taken ix"
| "ticket_tcp (NHold ix) = Holding ix"
| "ticket_tcp NEnd = Gone"
| "ticket_tcp _ = Idle"

definition tcp_tickets :: "tcp_bench \<Rightarrow> bool" where
  "tcp_tickets s \<longleftrightarrow> tickets s = map (\<lambda>th. ticket_tcp (ns_pc th)) (nb_senders s)"

text \<open>Bytes of the current round, with messages of \<open>m\<close> bytes and \<open>M\<close> bytes in a round.\<close>

fun written :: "nat \<Rightarrow> nat \<Rightarrow> tcp_pc \<Rightarrow> nat" where
  "written m M (NWrite i b) = m * i + b"
| "written m M (NRead i b) = M"
| "written m M _ = 0"

fun read_back :: "nat \<Rightarrow> tcp_pc \<Rightarrow> nat" where
  "read_back m (NRead i b) = m * i + b"
| "read_back m _ = 0"

fun received :: "nat \<Rightarrow> nat \<Rightarrow> listener_pc \<Rightarrow> nat" where
  "received m M (LRead i b) = m * i + b"
| "received m M (LWrite i b) = M"
| "received m M _ = 0"

fun returned :: "nat \<Rightarrow> listener_pc \<Rightarrow> nat" where
  "returned m (LWrite i b) = m * i + b"
| "returned m _ = 0"

text \<open>Where a thread can be: \<open>l\<close> messages of \<open>m\<close> bytes.\<close>

definition in_batch :: "nat \<Rightarrow> nat \<Rightarrow> nat \<Rightarrow> nat \<Rightarrow> bool" where
  "in_batch m l i b \<longleftrightarrow> b \<le> m \<and> (i < l \<or> i = l \<and> b = 0)"

fun client_at :: "nat \<Rightarrow> nat \<Rightarrow> tcp_pc \<Rightarrow> bool" where
  "client_at m l (NWrite i b) = in_batch m l i b"
| "client_at m l (NRead i b) = in_batch m l i b"
| "client_at m l NPoll = False"
| "client_at m l (NEvents xs b) = False"
| "client_at m l _ = True"

fun listener_at :: "nat \<Rightarrow> nat \<Rightarrow> listener_pc \<Rightarrow> bool" where
  "listener_at m l (LRead i b) = in_batch m l i b"
| "listener_at m l (LWrite i b) = in_batch m l i b"
| "listener_at m l _ = True"

definition link_view :: "nat \<Rightarrow> nat \<Rightarrow> nat \<Rightarrow> tcp_sender \<Rightarrow> tcp_receiver \<Rightarrow> ping_pong" where
  "link_view m m' M th rv =
     \<lparr>c_round = ns_rounds th, c_sent = written m M (ns_pc th), c_back = read_back m (ns_pc th),
      s_round = nr_rounds rv, s_got = received m' M (nr_pc rv), s_replied = returned m' (nr_pc rv)\<rparr>"

text \<open>Client and server are started with the same number of bytes for a round, the same ports and as many threads.\<close>

definition tcp_agree :: "nat \<Rightarrow> nat \<Rightarrow> tcp_options \<Rightarrow> tcp_server_options \<Rightarrow> bool" where
  "tcp_agree M N c sc \<longleftrightarrow> 0 < M \<and> \<not> to_broadcast c \<and> to_numSenders c = int N \<and> tv_numReceivers sc = int N \<and>
     0 \<le> to_numMessages c \<and> 0 \<le> to_msg_size c \<and> to_numMessages c * to_msg_size c = int M \<and>
     0 \<le> tv_numMessages sc \<and> 0 \<le> tv_msg_size sc \<and> tv_numMessages sc * tv_msg_size sc = int M \<and>
     to_basePort c = tv_basePort sc \<and> 0 \<le> to_basePort c \<and> to_basePort c + int N \<le> 65536"

definition bytes_up :: "tcp_sender \<Rightarrow> nat" where
  "bytes_up th = (case ns_socks th of [] \<Rightarrow> 0 | q # _ \<Rightarrow> nk_up q)"

definition bytes_down :: "tcp_sender \<Rightarrow> nat" where
  "bytes_down th = (case ns_socks th of [] \<Rightarrow> 0 | q # _ \<Rightarrow> nk_down q)"

text \<open>
  The state of connection \<open>k\<close>: its sockets exist on both sides or not yet, and the bytes on their way are those that
  were sent and not received.
\<close>

definition link_ok :: "tcp_options \<Rightarrow> tcp_server_options \<Rightarrow> nat \<Rightarrow> nat \<Rightarrow> tcp_sender \<Rightarrow> tcp_receiver \<Rightarrow> bool" where
  "link_ok c sc M k th rv \<longleftrightarrow>
     (let x = link_view (nat (to_msg_size c)) (nat (tv_msg_size sc)) M th rv in
      client_at (nat (to_msg_size c)) (nat (to_numMessages c)) (ns_pc th) \<and>
      listener_at (nat (tv_msg_size sc)) (nat (tv_numMessages sc)) (nr_pc rv) \<and>
      map nk_port (ns_socks th) = (if connecting (ns_pc th) then [] else [port_of (to_basePort c) k]) \<and>
      nr_fd rv = (if nr_pc rv = LBind \<or> nr_pc rv = LAccept then None else Some (k, 0)) \<and>
      (nr_fd rv \<noteq> None \<longrightarrow> \<not> connecting (ns_pc th)) \<and>
      all_got M x + bytes_up th = all_sent M x \<and> all_back M x + bytes_down th = all_replied M x)"

definition tcp_wf :: "tcp_options \<Rightarrow> tcp_server_options \<Rightarrow> nat \<Rightarrow> nat \<Rightarrow> tcp_bench \<Rightarrow> bool" where
  "tcp_wf c sc M N s \<longleftrightarrow> length (nb_senders s) = N \<and> length (nb_receivers s) = N \<and>
     (\<forall>k < N. link_ok c sc M k (nb_senders s ! k) (nb_receivers s ! k))"

definition tcp_view :: "tcp_options \<Rightarrow> tcp_server_options \<Rightarrow> nat \<Rightarrow> nat \<Rightarrow> tcp_bench \<Rightarrow> ping_pong" where
  "tcp_view c sc M k s =
     (if k < length (nb_senders s)
      then link_view (nat (to_msg_size c)) (nat (tv_msg_size sc)) M (nb_senders s ! k) (nb_receivers s ! k) else pp_start)"

text \<open>A step of connection \<open>k\<close>.\<close>

definition link_moves :: "tcp_options \<Rightarrow> tcp_server_options \<Rightarrow> nat \<Rightarrow> nat \<Rightarrow> tcp_bench \<Rightarrow> tcp_bench \<Rightarrow> bool" where
  "link_moves c sc M k s s' \<longleftrightarrow>
     (\<exists>th rv. nb_senders s' = (nb_senders s)[k := th] \<and> nb_receivers s' = (nb_receivers s)[k := rv] \<and> link_ok c sc M k th rv \<and>
        (let v = link_view (nat (to_msg_size c)) (nat (tv_msg_size sc)) M
         in v th rv = v (nb_senders s ! k) (nb_receivers s ! k) \<or> pp_step M (v (nb_senders s ! k) (nb_receivers s ! k)) (v th rv)))"

text \<open>A thread that is inside of a message.\<close>

definition m_less :: "tcp_options \<Rightarrow> nat \<Rightarrow> nat \<Rightarrow> bool" where
  "m_less c i b \<longleftrightarrow> int i < to_numMessages c \<and> int b < to_msg_size c"

definition l_less :: "tcp_server_options \<Rightarrow> nat \<Rightarrow> nat \<Rightarrow> bool" where
  "l_less sc i b \<longleftrightarrow> int i < tv_numMessages sc \<and> int b < tv_msg_size sc"

fun tcp_in_round :: "tcp_pc \<Rightarrow> bool" where
  "tcp_in_round (NWrite i b) = True"
| "tcp_in_round (NRead i b) = True"
| "tcp_in_round _ = False"

text \<open>No sender is behind the barrier while another has no connection; the server only ends after the client.\<close>

definition tcp_sync :: "tcp_bench \<Rightarrow> bool" where
  "tcp_sync s \<longleftrightarrow> (\<forall>p \<in> set (map ns_pc (nb_senders s)). connecting p \<or> p = NBarrier \<or>
       (\<forall>x \<in> set (map ns_pc (nb_senders s)). \<not> connecting x)) \<and>
     (nb_server_exited s \<longrightarrow> exited s)"

text \<open>A step that does more than to read nothing from a closed connection.\<close>

definition tcp_progress :: "tcp_bench \<Rightarrow> tcp_bench \<Rightarrow> bool" where
  "tcp_progress s s' \<longleftrightarrow> nb_senders s' \<noteq> nb_senders s \<or> nb_receivers s' \<noteq> nb_receivers s \<or> exited s'"

section \<open>Lemmas\<close>

lemma tcp_fields [simp]:
  "nb_senders (rec_take k s) = nb_senders s" "nb_senders (rec_check k ix s) = nb_senders s"
  "nb_senders (rec_write k ix x s) = nb_senders s" "nb_senders (rec_end k s) = nb_senders s"
  "nb_senders (rec_mark now up s) = nb_senders s" "nb_senders (rec_process dbl file_ok s) = nb_senders s"
  "nb_receivers (rec_take k s) = nb_receivers s" "nb_receivers (rec_check k ix s) = nb_receivers s"
  "nb_receivers (rec_write k ix x s) = nb_receivers s" "nb_receivers (rec_end k s) = nb_receivers s"
  "nb_receivers (rec_mark now up s) = nb_receivers s" "nb_receivers (rec_process dbl file_ok s) = nb_receivers s"
  "nb_senders (set_client k th s) = (nb_senders s)[k := th]" "nb_receivers (set_client k th s) = nb_receivers s"
  "nb_receivers (set_listener k rv s) = (nb_receivers s)[k := rv]" "nb_senders (set_listener k rv s) = nb_senders s"
  "tickets (set_client k th s) = tickets s" "tickets (set_listener k rv s) = tickets s"
  "recorder.truncate (set_client k th s) = recorder.truncate s" "recorder.truncate (set_listener k rv s) = recorder.truncate s"
  "recorder.truncate (s\<lparr>nb_mainFinished := up\<rparr>) = recorder.truncate s"
  "recorder.truncate (s\<lparr>nb_server_exited := up\<rparr>) = recorder.truncate s"
  "exited (set_client k th s) = exited s" "exited (set_listener k rv s) = exited s"
  "nb_server_exited (set_client k th s) = nb_server_exited s" "nb_server_exited (set_listener k rv s) = nb_server_exited s"
  by (simp_all add: rec_take_def rec_check_def rec_write_def rec_end_def rec_mark_def rec_process_def set_client_def set_listener_def
      recorder.truncate_def)

lemma set_sock_fields [simp]:
  "ns_pc (set_sock x q th) = ns_pc th" "ns_rounds (set_sock x q th) = ns_rounds th"
  "ns_socks (set_sock x q th) = (ns_socks th)[x := q]"
  by (simp_all add: set_sock_def)

lemmas tcp_client_defs = tcp_sender_step_def tcp_record_def tcp_write_def tcp_read_def Let_def

subsection \<open>Recording\<close>

lemma tcp_record_tickets:
  assumes "tcp_tickets s" "k < length (nb_senders s)" "tcp_record nu k s = Some s'"
  shows "tcp_tickets s'"
  using assms by (auto simp: tcp_tickets_def tcp_record_def Let_def map_update intro!: update_same_map split: tcp_pc.splits if_splits)

lemma tcp_sender_tickets:
  assumes "tcp_tickets s" "k < length (nb_senders s)" "tcp_sender_step nu cap c sc k now n failed s = Some s'"
  shows "tcp_tickets s'"
  using assms tcp_record_tickets [OF assms(1,2), of nu s']
  by (cases "ns_pc (nb_senders s ! k)")
    (auto simp: tcp_sender_step_def tcp_write_def tcp_read_def Let_def tcp_tickets_def map_update intro!: update_same_map
      split: if_splits)

lemma tcp_broadcast_tickets:
  assumes "tcp_tickets s" "k < length (nb_senders s)" "tcp_broadcast_step nu cap c sc k now n failed ready s = Some s'"
  shows "tcp_tickets s'"
  using assms tcp_record_tickets [OF assms(1,2), of nu s']
  by (cases "ns_pc (nb_senders s ! k)")
    (auto simp: tcp_broadcast_step_def tcp_write_def tcp_read_def Let_def tcp_tickets_def map_update intro!: update_same_map
      split: if_splits list.splits)

lemma map_ticket_sock: "k < length xs \<Longrightarrow> map (\<lambda>th. ticket_tcp (ns_pc th)) (xs[k := set_sock x q (xs ! k)]) = map (\<lambda>th. ticket_tcp (ns_pc th)) xs"
  by (metis list_update_beyond list_update_id map_update not_less set_sock_fields(1))

lemma tcp_receiver_recorder:
  assumes "tcp_receiver_step cap sc k n failed f s = Some s'"
  shows "recorder.truncate s' = recorder.truncate s"
    "map (\<lambda>th. ticket_tcp (ns_pc th)) (nb_senders s') = map (\<lambda>th. ticket_tcp (ns_pc th)) (nb_senders s)"
proof -
  have same: "map (\<lambda>th. ticket_tcp (ns_pc th)) (xs[a := set_sock x q (xs ! a)]) = map (\<lambda>th. ticket_tcp (ns_pc th)) xs" for a x q xs
    using map_ticket_sock [of a xs x q] by (cases "a < length xs") (simp_all add: not_less list_update_beyond)
  show "recorder.truncate s' = recorder.truncate s"
    "map (\<lambda>th. ticket_tcp (ns_pc th)) (nb_senders s') = map (\<lambda>th. ticket_tcp (ns_pc th)) (nb_senders s)"
    using assms same
    by (auto simp: tcp_receiver_step_def Let_def split: listener_pc.splits option.splits prod.splits if_splits)
qed

lemma tcp_step_tickets: "tcp_tickets s \<Longrightarrow> tcp_step nu cap c sc fails file_ok s s' \<Longrightarrow> tcp_tickets s'"
proof (erule tcp_step.cases, goal_cases)
  case (1 s1 k failed now n s2)
  then show ?case using tcp_sender_tickets by blast
next
  case (2 s1 k failed now n ready s2)
  then show ?case using tcp_broadcast_tickets by blast
next
  case (3 s1 k failed n f s2)
  then show ?case using tcp_receiver_recorder [of cap sc k n failed f s s'] truncate_fields(1) unfolding tcp_tickets_def by metis
next
  case (4 s1 now s2)
  then show ?case by (auto simp: tcp_tickets_def tcp_main_step_def Let_def split: main_pc.splits if_splits)
qed

lemma tcp_record_view:
  assumes "tcp_tickets s" "k < length (nb_senders s)" "tcp_record nu k s = Some s'"
  shows "recorder.truncate s' = recorder.truncate s \<or>
    rec_step (n_dbl nu) file_ok (recorder.truncate s) (recorder.truncate s')"
proof -
  have t: "k < length (tickets s)" "tickets s ! k = ticket_tcp (ns_pc (nb_senders s ! k))"
    using assms(1,2) by (simp_all add: tcp_tickets_def)
  show ?thesis
  proof (cases "ns_pc (nb_senders s ! k)")
    case NTake
    then show ?thesis using assms(3) t rec_step.grab [of k "recorder.truncate s"] by (auto simp: tcp_record_def Let_def)
  next
    case (NTaken ix)
    then show ?thesis using assms(3) t rec_step.test [of k "recorder.truncate s" ix]
      by (auto simp: tcp_record_def Let_def split: if_splits)
  next
    case (NHold ix)
    then show ?thesis using assms(3) t rec_step.fill [of k "recorder.truncate s" ix] by (auto simp: tcp_record_def Let_def)
  next
    case NCond
    then show ?thesis using assms(3) t rec_step.stop [of k "recorder.truncate s"]
      by (auto simp: tcp_record_def Let_def split: if_splits)
  qed (use assms(3) in \<open>auto simp: tcp_record_def\<close>)
qed

lemma tcp_client_view:
  assumes "tcp_tickets s" "k < length (nb_senders s)"
    and "recorder.truncate s' = recorder.truncate s \<or> s' = s\<lparr>exited := True\<rparr> \<or> tcp_record nu k s = Some s'"
  shows "recorder.truncate s' = recorder.truncate s \<or>
    rec_step (n_dbl nu) file_ok (recorder.truncate s) (recorder.truncate s')"
  using assms(3) tcp_record_view [OF assms(1,2)] rec_step.die [of _ _ "recorder.truncate s"] by auto

lemma tcp_sender_cases:
  assumes "tcp_sender_step nu cap c sc k now n failed s = Some s'"
  shows "recorder.truncate s' = recorder.truncate s \<or> s' = s\<lparr>exited := True\<rparr> \<or> tcp_record nu k s = Some s'"
  using assms
  by (cases "ns_pc (nb_senders s ! k)") (auto simp: tcp_sender_step_def tcp_write_def tcp_read_def Let_def split: if_splits)

lemma tcp_broadcast_cases:
  assumes "tcp_broadcast_step nu cap c sc k now n failed ready s = Some s'"
  shows "recorder.truncate s' = recorder.truncate s \<or> s' = s\<lparr>exited := True\<rparr> \<or> tcp_record nu k s = Some s'"
  using assms
  by (cases "ns_pc (nb_senders s ! k)")
    (auto simp: tcp_broadcast_step_def tcp_write_def tcp_read_def Let_def split: if_splits list.splits)

lemma tcp_main_view:
  assumes "tcp_main_step nu file_ok now s = Some s'"
  shows "rec_step (n_dbl nu) file_ok (recorder.truncate s) (recorder.truncate s')"
  using assms rec_step.mark [of "recorder.truncate s"] rec_step.results [of "recorder.truncate s"]
  by (auto simp: tcp_main_step_def Let_def split: main_pc.splits if_splits)

interpretation tcp_rec: recording_program "tcp_step nu cap c sc fails file_ok" tcp_tickets "recorder.truncate" "n_dbl nu" file_ok
  for nu cap c sc fails file_ok
proof
  fix s s'
  assume "tcp_tickets s" "tcp_step nu cap c sc fails file_ok s s'"
  then show "tcp_tickets s'" by (rule tcp_step_tickets)
next
  fix s s'
  assume wf: "tcp_tickets s" and "tcp_step nu cap c sc fails file_ok s s'"
  from this(2) show "recorder.truncate s' = recorder.truncate s \<or>
      rec_step (n_dbl nu) file_ok (recorder.truncate s) (recorder.truncate s')"
  proof (cases rule: tcp_step.cases)
    case (sender k failed now n)
    then show ?thesis using tcp_client_view [OF wf _ tcp_sender_cases] by blast
  next
    case (broadcaster k failed now n ready)
    then show ?thesis using tcp_client_view [OF wf _ tcp_broadcast_cases] by blast
  next
    case (receiver k failed n f)
    then show ?thesis using tcp_receiver_recorder(1) by blast
  next
    case (main now)
    then show ?thesis using tcp_main_view by blast
  qed
qed

lemma tcp_start_recorder:
  "tcp_tickets (tcp_start c sc t0 now)"
  "recorder.truncate (tcp_start c sc t0 now) = rec_start (nat (to_numSenders c)) t0"
  by (simp_all add: tcp_tickets_def tcp_start_def recorder.extend_def recorder.truncate_def rec_start_def new_client_def)

subsection \<open>A connection\<close>

lemma in_batch_less: "i < l \<Longrightarrow> b < m \<Longrightarrow> m * i + b < m * (l :: nat)"
  by (metis add_less_cancel_left less_le_trans mult_Suc_right mult_le_mono2 Suc_leI add.commute)

lemma in_batch_le: "i < l \<Longrightarrow> b \<le> m \<Longrightarrow> m * i + b \<le> m * (l :: nat)"
  by (metis add_le_cancel_left le_trans mult_Suc_right mult_le_mono2 Suc_leI add.commute)

lemma agree_nat:
  assumes "tcp_agree M N c sc"
  shows "nat (to_msg_size c) * nat (to_numMessages c) = M" "nat (tv_msg_size sc) * nat (tv_numMessages sc) = M"
    "int i < to_numMessages c \<longleftrightarrow> i < nat (to_numMessages c)" "int b < to_msg_size c \<longleftrightarrow> b < nat (to_msg_size c)"
    "int i < tv_numMessages sc \<longleftrightarrow> i < nat (tv_numMessages sc)" "int b < tv_msg_size sc \<longleftrightarrow> b < nat (tv_msg_size sc)"
    "int n \<le> to_msg_size c - int b \<longleftrightarrow> b + n \<le> nat (to_msg_size c)" "int n \<le> tv_msg_size sc - int b \<longleftrightarrow> b + n \<le> nat (tv_msg_size sc)"
    "0 < M" "\<not> to_broadcast c"
  using assms by (auto simp: tcp_agree_def nat_mult_distrib [symmetric] mult.commute)

text \<open>The sender of a connection moves.\<close>

lemma client_moves:
  assumes "link_ok c sc M k (nb_senders s ! k) (nb_receivers s ! k)"
    and "nb_senders s' = (nb_senders s)[k := th]" "nb_receivers s' = nb_receivers s" "link_ok c sc M k th (nb_receivers s ! k)"
    and "let v = \<lambda>th. link_view (nat (to_msg_size c)) (nat (tv_msg_size sc)) M th (nb_receivers s ! k)
         in v th = v (nb_senders s ! k) \<or> pp_step M (v (nb_senders s ! k)) (v th)"
  shows "link_moves c sc M k s s'"
  unfolding link_moves_def using assms(2-5) by (intro exI [of _ th] exI [of _ "nb_receivers s ! k"]) (simp add: Let_def)

lemma link_idle:
  assumes "link_ok c sc M k (nb_senders s ! k) (nb_receivers s ! k)" "nb_senders s' = nb_senders s" "nb_receivers s' = nb_receivers s"
  shows "link_moves c sc M k s s'"
  unfolding link_moves_def using assms by (intro exI [of _ "nb_senders s ! k"] exI [of _ "nb_receivers s ! k"]) (simp add: Let_def)

lemma tcp_sender_moves:
  assumes agree: "tcp_agree M N c sc" and ok: "link_ok c sc M k (nb_senders s ! k) (nb_receivers s ! k)"
    and step: "tcp_sender_step nu cap c sc k now n False s = Some s'"
  shows "link_moves c sc M k s s'"
proof -
  let ?th = "nb_senders s ! k" and ?rv = "nb_receivers s ! k"
  let ?m = "nat (to_msg_size c)" and ?l = "nat (to_numMessages c)" and ?m' = "nat (tv_msg_size sc)"
  let ?v = "\<lambda>th. link_view ?m ?m' M th ?rv"
  note ag = agree_nat [OF agree]
  note defs = tcp_sender_step_def Let_def ag link_ok_def link_view_def totals bytes_up_def bytes_down_def
  note move = client_moves [OF ok]
  have flow: "all_got M (?v ?th) + bytes_up ?th = all_sent M (?v ?th)" "all_back M (?v ?th) + bytes_down ?th = all_replied M (?v ?th)"
    using ok by (simp_all add: link_ok_def Let_def)
  show ?thesis
  proof (cases "ns_pc ?th")
    case (NConnect i)
    show ?thesis
    proof (cases "tcp_listening sc s (port_of (to_basePort c) k)")
      case True
      then show ?thesis using step ok NConnect by (auto simp: defs split: if_splits intro!: move)
    qed (use step NConnect in \<open>auto simp: defs intro!: link_idle [OF ok]\<close>)
  next
    case (NTaken ix)
    show ?thesis
    proof (cases "unat ix \<ge> kMaxEntries")
      case False
      then show ?thesis using step ok NTaken by (auto simp: defs tcp_record_def intro!: move)
    qed (use step NTaken in \<open>auto simp: defs tcp_record_def intro!: link_idle [OF ok]\<close>)
  next
    case NBarrier
    then show ?thesis using step ok by (auto simp: defs split: if_splits intro!: move)
  next
    case NTop
    then show ?thesis using step ok by (auto simp: defs in_batch_def intro!: move)
  next
    case (NWrite i b)
    have at: "b \<le> ?m" "i < ?l \<or> i = ?l \<and> b = 0" using ok NWrite by (auto simp: link_ok_def Let_def in_batch_def)
    obtain q where q: "ns_socks ?th = [q]" "nk_port q = port_of (to_basePort c) k"
      using ok NWrite by (auto simp: link_ok_def Let_def)
    show ?thesis
    proof (cases "i < ?l \<and> b < ?m \<and> \<not> nb_server_exited s")
      case True
      let ?th' = "(set_sock 0 (q\<lparr>nk_up := nk_up q + n\<rparr>) ?th)\<lparr>ns_pc := NWrite i (b + n)\<rparr>"
      have s': "s' = set_client k ?th' s" and n: "0 < n" "b + n \<le> ?m"
        using step NWrite True q by (auto simp: tcp_sender_step_def Let_def tcp_write_def ag split: if_splits)
      have "?m * i + (b + n) \<le> M" using in_batch_le [of i ?l "b + n" ?m] True n ag(1) by simp
      then have "pp_step M (?v ?th) ((?v ?th)\<lparr>c_sent := c_sent (?v ?th) + n\<rparr>)"
        using NWrite n by (intro pp_step.send) (simp_all add: link_view_def)
      moreover have "?v ?th' = (?v ?th)\<lparr>c_sent := c_sent (?v ?th) + n\<rparr>" using NWrite by (simp add: link_view_def)
      moreover have "link_ok c sc M k ?th' ?rv"
        using ok NWrite q True n by (auto simp: link_ok_def Let_def link_view_def totals bytes_up_def bytes_down_def in_batch_def)
      ultimately show ?thesis by (intro move [of s' ?th']) (simp_all add: s' Let_def)
    next
      case gone: False
      show ?thesis
      proof (cases "i < ?l \<and> b < ?m")
        case True
        then have "s' = s\<lparr>exited := True\<rparr>" using step NWrite gone by (simp add: tcp_sender_step_def Let_def tcp_write_def ag)
        then show ?thesis by (simp add: link_idle [OF ok])
      next
      case False
      define pc where "pc = (if i < ?l then NWrite (Suc i) 0 else NRead 0 0)"
      have s': "s' = set_client k (?th\<lparr>ns_pc := pc\<rparr>) s"
        using step NWrite False by (auto simp: tcp_sender_step_def Let_def ag pc_def split: if_splits)
      have "written ?m M pc = written ?m M (ns_pc ?th)" "read_back ?m pc = 0"
        using NWrite False at ag(1) by (auto simp: pc_def)
      moreover have "client_at ?m ?l pc" "\<not> connecting pc" using at by (auto simp: pc_def in_batch_def)
      ultimately show ?thesis using ok NWrite
        by (intro move [of s' "?th\<lparr>ns_pc := pc\<rparr>"]) (simp_all add: s' link_ok_def Let_def link_view_def totals bytes_up_def bytes_down_def)
      qed
    qed
  next
    case (NRead i b)
    have at: "b \<le> ?m" "i < ?l \<or> i = ?l \<and> b = 0" using ok NRead by (auto simp: link_ok_def Let_def in_batch_def)
    obtain q where q: "ns_socks ?th = [q]" "nk_port q = port_of (to_basePort c) k"
      using ok NRead by (auto simp: link_ok_def Let_def)
    show ?thesis
    proof (cases "i < ?l \<and> b < ?m \<and> 0 < n \<and> b + n \<le> ?m \<and> n \<le> nk_down q")
      case True
      let ?th' = "(set_sock 0 (q\<lparr>nk_down := nk_down q - n\<rparr>) ?th)\<lparr>ns_pc := NRead i (b + n)\<rparr>"
      have s': "s' = set_client k ?th' s" and n: "0 < n" "b + n \<le> ?m" "n \<le> nk_down q"
        using step NRead True q by (auto simp: tcp_sender_step_def Let_def tcp_read_def ag split: if_splits)
      have "?m * i + b < M" using in_batch_less [of i ?l b ?m] True ag(1) by simp
      then have "pp_step M (?v ?th) ((?v ?th)\<lparr>c_back := c_back (?v ?th) + n\<rparr>)"
        using NRead n q flow(2) by (intro pp_step.take) (simp_all add: link_view_def bytes_down_def)
      moreover have "?v ?th' = (?v ?th)\<lparr>c_back := c_back (?v ?th) + n\<rparr>" using NRead by (simp add: link_view_def)
      moreover have "link_ok c sc M k ?th' ?rv"
        using ok NRead q True n by (auto simp: link_ok_def Let_def link_view_def totals bytes_up_def bytes_down_def in_batch_def)
      ultimately show ?thesis by (intro move [of s' ?th']) (simp_all add: s' Let_def)
    next
      case other: False
      consider "i < ?l" "b < ?m" "s' = s" | "i < ?l" "b = ?m" | "\<not> i < ?l"
        using other at step NRead q by (auto simp: tcp_sender_step_def Let_def tcp_read_def ag split: if_splits)
      then show ?thesis
      proof cases
        case 1
        then show ?thesis by (simp add: link_idle [OF ok])
      next
        case 2
        then have "s' = set_client k (?th\<lparr>ns_pc := NRead (Suc i) 0\<rparr>) s" "b = ?m" and True: "i < ?l"
          using step NRead at by (auto simp: tcp_sender_step_def Let_def ag split: if_splits)
        then show ?thesis using ok NRead True
          by (intro move [of s' "?th\<lparr>ns_pc := NRead (Suc i) 0\<rparr>"])
            (auto simp: link_ok_def Let_def link_view_def totals bytes_up_def bytes_down_def in_batch_def)
      next
        case 3
        note end_ = 3
        let ?th' = "?th\<lparr>ns_pc := NTake, ns_endTime := now, ns_rounds := Suc (ns_rounds ?th)\<rparr>"
        have s': "s' = set_client k ?th' s" "i = ?l" "b = 0"
          using step NRead end_ at by (auto simp: tcp_sender_step_def Let_def ag split: if_splits)
        have "pp_step M (?v ?th) ((?v ?th)\<lparr>c_round := Suc (c_round (?v ?th)), c_sent := 0, c_back := 0\<rparr>)"
          using NRead s'(2) ag(1) by (intro pp_step.finish) (simp_all add: link_view_def)
        moreover have "?v ?th' = (?v ?th)\<lparr>c_round := Suc (c_round (?v ?th)), c_sent := 0, c_back := 0\<rparr>" by (simp add: link_view_def)
        moreover have "link_ok c sc M k ?th' ?rv"
          using ok NRead s'(2,3) ag(1) by (auto simp: link_ok_def Let_def link_view_def totals bytes_up_def bytes_down_def)
        ultimately show ?thesis by (intro move [of s' ?th']) (simp_all add: s'(1) Let_def)
      qed
    qed
  qed (use step ok in \<open>auto simp: defs tcp_record_def split: if_splits intro!: move\<close>)
qed

lemma port_inj:
  assumes "port_of base i = port_of base j" "0 \<le> base" "base + int N \<le> 65536" "i < N" "j < N"
  shows "i = j"
proof -
  have u: "uint (of_int x :: 16 word) = x" if "0 \<le> x" "x < 65536" for x
    using that by (simp add: unsigned_of_int take_bit_int_eq_self)
  have "0 \<le> base + int i" "base + int i < 65536" "0 \<le> base + int j" "base + int j < 65536" using assms(2-5) by simp_all
  then have "base + int i = base + int j" using u assms(1) unfolding port_of_def by metis
  then show ?thesis by simp
qed

text \<open>The receiver of a connection moves; \<open>th\<close> is its sender with the socket after the step.\<close>

lemma listener_moves:
  assumes "nb_senders s' = (nb_senders s)[k := th]" "nb_receivers s' = (nb_receivers s)[k := rv]" "link_ok c sc M k th rv"
    and "let v = link_view (nat (to_msg_size c)) (nat (tv_msg_size sc)) M
         in v th rv = v (nb_senders s ! k) (nb_receivers s ! k) \<or> pp_step M (v (nb_senders s ! k) (nb_receivers s ! k)) (v th rv)"
  shows "link_moves c sc M k s s'"
  unfolding link_moves_def using assms by blast

lemma tcp_receiver_moves:
  assumes agree: "tcp_agree M N c sc" and ok: "link_ok c sc M k (nb_senders s ! k) (nb_receivers s ! k)"
    and acc: "\<And>a x. nr_pc (nb_receivers s ! k) = LAccept \<Longrightarrow> f = (a, x) \<Longrightarrow> a < length (nb_senders s) \<Longrightarrow>
      x < length (ns_socks (nb_senders s ! a)) \<Longrightarrow> nk_port (ns_socks (nb_senders s ! a) ! x) = port_of (tv_basePort sc) k \<Longrightarrow>
      a = k \<and> x = 0"
    and step: "tcp_receiver_step cap sc k n False f s = Some s'"
  shows "link_moves c sc M k s s'"
proof -
  let ?th = "nb_senders s ! k" and ?rv = "nb_receivers s ! k"
  let ?m = "nat (to_msg_size c)" and ?m' = "nat (tv_msg_size sc)" and ?l' = "nat (tv_numMessages sc)"
  let ?v = "link_view ?m ?m' M"
  note ag = agree_nat [OF agree]
  have flow: "all_got M (?v ?th ?rv) + bytes_up ?th = all_sent M (?v ?th ?rv)"
    "all_back M (?v ?th ?rv) + bytes_down ?th = all_replied M (?v ?th ?rv)"
    using ok by (simp_all add: link_ok_def Let_def)
  have sock: "\<exists>q. ns_socks ?th = [q] \<and> nk_port q = port_of (to_basePort c) k" if "nr_fd ?rv = Some y" for y
    using ok that by (auto simp: link_ok_def Let_def)
  show ?thesis
  proof (cases "nr_pc ?rv")
    case LBind
    then have "s' = set_listener k (?rv\<lparr>nr_pc := LAccept\<rparr>) s" using step by (simp add: tcp_receiver_step_def Let_def)
    then show ?thesis using LBind ok
      by (intro listener_moves [of _ _ _ ?th "?rv\<lparr>nr_pc := LAccept\<rparr>"])
        (simp_all add: link_ok_def Let_def link_view_def totals)
  next
    case LAccept
    obtain a x where f: "f = (a, x)" by fastforce
    have s': "s' = set_listener k (?rv\<lparr>nr_pc := LBarrier, nr_fd := Some (a, x)\<rparr>) s" and ax: "a = k" "x = 0"
      "x < length (ns_socks (nb_senders s ! a))"
      using step LAccept f acc by (auto simp: tcp_receiver_step_def Let_def split: if_splits)
    then have "\<not> connecting (ns_pc ?th)" using ok by (auto simp: link_ok_def Let_def split: if_splits)
    then show ?thesis using LAccept ok ax
      by (intro listener_moves [of _ _ _ ?th "?rv\<lparr>nr_pc := LBarrier, nr_fd := Some (a, x)\<rparr>"])
        (simp_all add: s' link_ok_def Let_def link_view_def totals)
  next
    case LBarrier
    then have "s' = set_listener k (?rv\<lparr>nr_pc := LRead 0 0\<rparr>) s"
      using step by (simp add: tcp_receiver_step_def Let_def split: if_splits)
    then show ?thesis using LBarrier ok
      by (intro listener_moves [of _ _ _ ?th "?rv\<lparr>nr_pc := LRead 0 0\<rparr>"])
        (auto simp: link_ok_def Let_def link_view_def totals in_batch_def)
  next
    case (LRead i b)
    have at: "b \<le> ?m'" "i < ?l' \<or> i = ?l' \<and> b = 0" and fd: "nr_fd ?rv = Some (k, 0)"
      using ok LRead by (auto simp: link_ok_def Let_def in_batch_def)
    obtain q where q: "ns_socks ?th = [q]" "nk_port q = port_of (to_basePort c) k" using sock [OF fd] by blast
    show ?thesis
    proof (cases "i < ?l' \<and> b < ?m'")
      case True
      let ?th' = "set_sock 0 (q\<lparr>nk_up := nk_up q - n\<rparr>) ?th" and ?rv' = "?rv\<lparr>nr_pc := LRead i (b + n)\<rparr>"
      show ?thesis
      proof (cases "0 < n \<and> b + n \<le> ?m' \<and> n \<le> nk_up q")
        case n: True
        then have s': "s' = set_client k ?th' (set_listener k ?rv' s)"
          using step LRead True q fd by (auto simp: tcp_receiver_step_def Let_def ag split: if_splits)
        have "?m' * i + b < M" using in_batch_less [of i ?l' b ?m'] True ag(2) by simp
        then have "pp_step M (?v ?th ?rv) ((?v ?th ?rv)\<lparr>s_got := s_got (?v ?th ?rv) + n\<rparr>)"
          using LRead n q flow(1) by (intro pp_step.get) (simp_all add: link_view_def bytes_up_def)
        moreover have "?v ?th' ?rv' = (?v ?th ?rv)\<lparr>s_got := s_got (?v ?th ?rv) + n\<rparr>" using LRead by (simp add: link_view_def)
        moreover have "link_ok c sc M k ?th' ?rv'"
          using ok LRead q True n by (auto simp: link_ok_def Let_def link_view_def totals bytes_up_def bytes_down_def in_batch_def)
        ultimately show ?thesis by (intro listener_moves [of _ _ _ ?th' ?rv']) (simp_all add: s' Let_def)
      next
        case False
        then have "s' = s" using step LRead True q fd by (auto simp: tcp_receiver_step_def Let_def ag split: if_splits)
        then show ?thesis using link_idle [OF ok] by simp
      qed
    next
      case False
      define pc where "pc = (if i < ?l' then LRead (Suc i) 0 else LWrite 0 0)"
      have s': "s' = set_listener k (?rv\<lparr>nr_pc := pc\<rparr>) s"
        using step LRead False by (auto simp: tcp_receiver_step_def Let_def ag pc_def split: if_splits)
      have "received ?m' M pc = received ?m' M (nr_pc ?rv)" "returned ?m' pc = 0"
        using LRead False at ag(2) by (auto simp: pc_def)
      moreover have "listener_at ?m' ?l' pc" "pc \<noteq> LBind" "pc \<noteq> LAccept" using at by (auto simp: pc_def in_batch_def)
      ultimately show ?thesis using ok LRead
        by (intro listener_moves [of _ _ _ ?th "?rv\<lparr>nr_pc := pc\<rparr>"]) (simp_all add: s' link_ok_def Let_def link_view_def totals)
    qed
  next
    case (LWrite i b)
    have at: "b \<le> ?m'" "i < ?l' \<or> i = ?l' \<and> b = 0" and fd: "nr_fd ?rv = Some (k, 0)"
      using ok LWrite by (auto simp: link_ok_def Let_def in_batch_def)
    obtain q where q: "ns_socks ?th = [q]" "nk_port q = port_of (to_basePort c) k" using sock [OF fd] by blast
    show ?thesis
    proof (cases "i < ?l' \<and> b < ?m'")
      case True
      let ?th' = "set_sock 0 (q\<lparr>nk_down := nk_down q + n\<rparr>) ?th" and ?rv' = "?rv\<lparr>nr_pc := LWrite i (b + n)\<rparr>"
      show ?thesis
      proof (cases "exited s")
        case False
        then have s': "s' = set_client k ?th' (set_listener k ?rv' s)" and n: "0 < n" "b + n \<le> ?m'"
          using step LWrite True q fd by (auto simp: tcp_receiver_step_def Let_def ag split: if_splits)
        have "?m' * i + (b + n) \<le> M" using in_batch_le [of i ?l' "b + n" ?m'] True n ag(2) by simp
        then have "pp_step M (?v ?th ?rv) ((?v ?th ?rv)\<lparr>s_replied := s_replied (?v ?th ?rv) + n\<rparr>)"
          using LWrite n by (intro pp_step.reply) (simp_all add: link_view_def)
        moreover have "?v ?th' ?rv' = (?v ?th ?rv)\<lparr>s_replied := s_replied (?v ?th ?rv) + n\<rparr>" using LWrite by (simp add: link_view_def)
        moreover have "link_ok c sc M k ?th' ?rv'"
          using ok LWrite q True n by (auto simp: link_ok_def Let_def link_view_def totals bytes_up_def bytes_down_def in_batch_def)
        ultimately show ?thesis by (intro listener_moves [of _ _ _ ?th' ?rv']) (simp_all add: s' Let_def)
      next
        case gone: True
        then have "s' = s\<lparr>nb_server_exited := True\<rparr>" using step LWrite True q fd by (auto simp: tcp_receiver_step_def Let_def ag)
        then show ?thesis using link_idle [OF ok] by simp
      qed
    next
      case False
      show ?thesis
      proof (cases "i < ?l'")
        case True
        then have "s' = set_listener k (?rv\<lparr>nr_pc := LWrite (Suc i) 0\<rparr>) s" "b = ?m'"
          using step LWrite False at by (auto simp: tcp_receiver_step_def Let_def ag split: if_splits)
        then show ?thesis using ok LWrite True
          by (intro listener_moves [of _ _ _ ?th "?rv\<lparr>nr_pc := LWrite (Suc i) 0\<rparr>"])
            (auto simp: link_ok_def Let_def link_view_def totals in_batch_def)
      next
        case end_: False
        let ?rv' = "?rv\<lparr>nr_pc := LRead 0 0, nr_rounds := Suc (nr_rounds ?rv)\<rparr>"
        have s': "s' = set_listener k ?rv' s" "i = ?l'" "b = 0"
          using step LWrite end_ at by (auto simp: tcp_receiver_step_def Let_def ag split: if_splits)
        have "pp_step M (?v ?th ?rv) ((?v ?th ?rv)\<lparr>s_round := Suc (s_round (?v ?th ?rv)), s_got := 0, s_replied := 0\<rparr>)"
          using LWrite s'(2,3) ag(2) by (intro pp_step.again) (simp_all add: link_view_def)
        moreover have "?v ?th ?rv' = (?v ?th ?rv)\<lparr>s_round := Suc (s_round (?v ?th ?rv)), s_got := 0, s_replied := 0\<rparr>"
          by (simp add: link_view_def)
        moreover have "link_ok c sc M k ?th ?rv'"
          using ok LWrite s'(2,3) ag(2) by (auto simp: link_ok_def Let_def link_view_def totals in_batch_def)
        ultimately show ?thesis by (intro listener_moves [of _ _ _ ?th ?rv']) (simp_all add: s'(1) Let_def)
      qed
    qed
  qed
qed

subsection \<open>All connections\<close>

lemma link_moves_all:
  assumes "link_moves c sc M k s s'" "k < N" "tcp_wf c sc M N s"
  shows "tcp_wf c sc M N s'" "tcp_view c sc M i s' = tcp_view c sc M i s \<or> pp_step M (tcp_view c sc M i s) (tcp_view c sc M i s')"
proof -
  obtain th rv where mv: "nb_senders s' = (nb_senders s)[k := th]" "nb_receivers s' = (nb_receivers s)[k := rv]" "link_ok c sc M k th rv"
    "let v = link_view (nat (to_msg_size c)) (nat (tv_msg_size sc)) M
     in v th rv = v (nb_senders s ! k) (nb_receivers s ! k) \<or> pp_step M (v (nb_senders s ! k) (nb_receivers s ! k)) (v th rv)"
    using assms(1) unfolding link_moves_def by blast
  show "tcp_wf c sc M N s'" using mv(1-3) assms(2,3) by (auto simp: tcp_wf_def nth_list_update)
  show "tcp_view c sc M i s' = tcp_view c sc M i s \<or> pp_step M (tcp_view c sc M i s) (tcp_view c sc M i s')"
    using mv assms(2,3) by (cases "i = k") (auto simp: tcp_view_def tcp_wf_def Let_def)
qed

lemma tcp_step_moves:
  assumes agree: "tcp_agree M N c sc" and wf: "tcp_wf c sc M N s" and step: "tcp_step nu cap c sc False file_ok s s'"
  shows "(\<exists>k < N. link_moves c sc M k s s') \<or> nb_senders s' = nb_senders s \<and> nb_receivers s' = nb_receivers s"
proof -
  have len: "length (nb_senders s) = N" "length (nb_receivers s) = N"
    and ok: "\<And>k. k < N \<Longrightarrow> link_ok c sc M k (nb_senders s ! k) (nb_receivers s ! k)"
    using wf by (simp_all add: tcp_wf_def)
  from step show ?thesis
  proof (cases rule: tcp_step.cases)
    case (sender k failed now n)
    then show ?thesis using tcp_sender_moves [OF agree ok, of k nu cap now n s'] len by (cases failed) auto
  next
    case (broadcaster k failed now n ready)
    then show ?thesis using agree by (simp add: tcp_agree_def)
  next
    case (receiver k failed n f)
    have "a = k \<and> x = 0" if "a < length (nb_senders s)" "x < length (ns_socks (nb_senders s ! a))"
      "nk_port (ns_socks (nb_senders s ! a) ! x) = port_of (tv_basePort sc) k" for a x
    proof -
      have ports: "map nk_port (ns_socks (nb_senders s ! a)) = (if connecting (ns_pc (nb_senders s ! a)) then [] else [port_of (to_basePort c) a])"
        using ok [of a] that(1) len by (simp add: link_ok_def Let_def)
      have "length (ns_socks (nb_senders s ! a)) \<le> 1" using arg_cong [OF ports, of length] by (simp split: if_splits)
      then have x: "x = 0" using that(2) by simp
      then have "port_of (to_basePort c) a = port_of (tv_basePort sc) k"
        using that(2,3) ports by (cases "ns_socks (nb_senders s ! a)") (auto split: if_splits)
      then have "a = k" using port_inj [of "to_basePort c" a k N] agree that(1) receiver(2) len by (simp add: tcp_agree_def)
      then show ?thesis using x by simp
    qed
    then have "link_moves c sc M k s s'" if "\<not> failed"
      using tcp_receiver_moves [OF agree ok [of k], of f cap n s'] receiver that len by simp
    then show ?thesis using receiver len by auto
  next
    case (main now)
    then show ?thesis by (auto simp: tcp_main_step_def Let_def split: main_pc.splits if_splits)
  qed
qed

interpretation tcp_rounds: ping_pong_program "tcp_step nu cap c sc False file_ok" "\<lambda>s. tcp_agree M N c sc \<and> tcp_wf c sc M N s"
    "tcp_view c sc M" M
  for nu cap c sc file_ok M N
proof
  fix s
  show "tcp_agree M N c sc \<and> tcp_wf c sc M N s \<Longrightarrow> 0 < M" by (simp add: tcp_agree_def)
next
  fix s s' k
  assume "tcp_agree M N c sc \<and> tcp_wf c sc M N s" and step: "tcp_step nu cap c sc False file_ok s s'"
  then have agree: "tcp_agree M N c sc" and wf: "tcp_wf c sc M N s" by simp_all
  from tcp_step_moves [OF agree wf step]
  have "tcp_wf c sc M N s' \<and> (tcp_view c sc M k s' = tcp_view c sc M k s \<or> pp_step M (tcp_view c sc M k s) (tcp_view c sc M k s'))"
  proof (elim disjE exE conjE)
    fix l assume "l < N" "link_moves c sc M l s s'"
    then show ?thesis using link_moves_all [OF _ _ wf] by blast
  next
    assume "nb_senders s' = nb_senders s" "nb_receivers s' = nb_receivers s"
    then show ?thesis using wf by (simp add: tcp_wf_def tcp_view_def)
  qed
  then show "tcp_agree M N c sc \<and> tcp_wf c sc M N s'"
    "tcp_view c sc M k s' = tcp_view c sc M k s \<or> pp_step M (tcp_view c sc M k s) (tcp_view c sc M k s')"
    using agree by simp_all
qed

lemma tcp_start_ok:
  assumes "tcp_agree M N c sc"
  shows "tcp_wf c sc M N (tcp_start c sc t0 now)" "tcp_view c sc M k (tcp_start c sc t0 now) = pp_start"
  using assms
  by (auto simp: tcp_agree_def tcp_wf_def tcp_start_def recorder.extend_def tcp_view_def link_ok_def Let_def link_view_def totals
      new_client_def new_listener_def bytes_up_def bytes_down_def pp_start_def)

subsection \<open>The barrier\<close>

lemma tcp_sender_pcs:
  assumes "tcp_sender_step nu cap c sc k now n failed s = Some s'"
  shows "map ns_pc (nb_senders s') = map ns_pc (nb_senders s) \<or>
    (\<exists>p. map ns_pc (nb_senders s') = (map ns_pc (nb_senders s))[k := p] \<and> \<not> connecting p \<and>
      (p = NBarrier \<or> \<not> connecting (ns_pc (nb_senders s ! k)) \<and>
        (ns_pc (nb_senders s ! k) = NBarrier \<longrightarrow> (\<forall>x \<in> set (map ns_pc (nb_senders s)). \<not> connecting x))))"
    "nb_server_exited s' = nb_server_exited s" "exited s \<Longrightarrow> exited s'"
proof -
  note defs = tcp_sender_step_def tcp_record_def tcp_write_def tcp_read_def Let_def rec_take_def rec_check_def rec_write_def rec_end_def
  show "nb_server_exited s' = nb_server_exited s" "exited s \<Longrightarrow> exited s'"
    using assms by (cases "ns_pc (nb_senders s ! k)"; auto simp: defs split: if_splits)+
  show "map ns_pc (nb_senders s') = map ns_pc (nb_senders s) \<or>
    (\<exists>p. map ns_pc (nb_senders s') = (map ns_pc (nb_senders s))[k := p] \<and> \<not> connecting p \<and>
      (p = NBarrier \<or> \<not> connecting (ns_pc (nb_senders s ! k)) \<and>
        (ns_pc (nb_senders s ! k) = NBarrier \<longrightarrow> (\<forall>x \<in> set (map ns_pc (nb_senders s)). \<not> connecting x))))"
    using assms
    by (cases "ns_pc (nb_senders s ! k)")
      (auto simp: tcp_sender_step_def tcp_record_def tcp_write_def tcp_read_def Let_def map_update split: if_splits)
qed

lemma tcp_sender_sync:
  assumes "tcp_sync s" "k < length (nb_senders s)" "\<not> exited s" "tcp_sender_step nu cap c sc k now n failed s = Some s'"
  shows "tcp_sync s'"
proof -
  let ?ps = "map ns_pc (nb_senders s)" and ?ps' = "map ns_pc (nb_senders s')"
  note pcs = tcp_sender_pcs [OF assms(4)]
  have server: "\<not> nb_server_exited s'" using assms(1,3) pcs(2) by (simp add: tcp_sync_def)
  show ?thesis
  proof (cases "?ps' = ?ps")
    case True
    then show ?thesis using assms(1) server unfolding tcp_sync_def by metis
  next
    case False
    then obtain p where p: "?ps' = ?ps[k := p]" "\<not> connecting p"
      and q: "p = NBarrier \<or> \<not> connecting (ns_pc (nb_senders s ! k)) \<and>
        (ns_pc (nb_senders s ! k) = NBarrier \<longrightarrow> (\<forall>x \<in> set ?ps. \<not> connecting x))"
      using pcs(1) by blast
    have "p = NBarrier \<or> (\<forall>x \<in> set ?ps. \<not> connecting x)"
      using q assms(1,2) unfolding tcp_sync_def by (metis length_map nth_map nth_mem)
    moreover have "set ?ps' \<subseteq> insert p (set ?ps)" unfolding p(1) by (rule set_update_subset_insert)
    ultimately show ?thesis using assms(1) p(2) server unfolding tcp_sync_def by blast
  qed
qed

lemma tcp_receiver_sync:
  assumes "tcp_sync s" "tcp_receiver_step cap sc k n False f s = Some s'"
  shows "tcp_sync s'"
proof -
  have same: "map ns_pc (xs[a := set_sock x q (xs ! a)]) = map ns_pc xs" for a x q and xs :: "tcp_sender list"
    by (metis list_update_beyond list_update_id map_update not_less set_sock_fields(1))
  have "map ns_pc (nb_senders s') = map ns_pc (nb_senders s)" "nb_server_exited s' \<longrightarrow> nb_server_exited s \<or> exited s" "exited s' = exited s"
    using assms(2) same
    by (auto simp: tcp_receiver_step_def Let_def split: listener_pc.splits option.splits prod.splits if_splits)
  then show ?thesis using assms(1) unfolding tcp_sync_def by metis
qed

lemma tcp_step_sync:
  assumes "tcp_step nu cap c sc False file_ok s s'" "tcp_sync s" "\<not> to_broadcast c"
  shows "tcp_sync s'"
  using assms(1)
proof (cases rule: tcp_step.cases)
  case (sender k failed now n)
  then show ?thesis using tcp_sender_sync [OF assms(2)] by blast
next
  case (receiver k failed n f)
  then show ?thesis using tcp_receiver_sync [OF assms(2)] by (cases failed) auto
next
  case (main now)
  then show ?thesis using assms(2)
    by (auto simp: tcp_sync_def tcp_main_step_def rec_mark_def rec_process_def Let_def split: main_pc.splits if_splits)
qed (use assms(3) in simp)

lemma tcp_reach:
  assumes "(tcp_step nu cap c sc False file_ok)\<^sup>*\<^sup>* (tcp_start c sc t0 now) s" "tcp_agree M N c sc"
  shows "tcp_wf c sc M N s" "pp_inv M (tcp_view c sc M k s)" "tcp_sync s"
proof -
  have "tcp_agree M N c sc \<and> tcp_wf c sc M N s \<and> (\<forall>k. pp_inv M (tcp_view c sc M k s))"
    using tcp_rounds.reach_inv [OF assms(1), of M N] assms(2) tcp_start_ok by blast
  then show "tcp_wf c sc M N s" "pp_inv M (tcp_view c sc M k s)" by simp_all
  have start: "tcp_sync (tcp_start c sc t0 now)" by (auto simp: tcp_sync_def tcp_start_def recorder.extend_def new_client_def)
  have plain: "\<not> to_broadcast c" using assms(2) by (simp add: tcp_agree_def)
  from assms(1) have "tcp_sync s"
  proof (induction rule: rtranclp_induct)
    case (step s s')
    then show ?case using tcp_step_sync [OF step.hyps(2) step.IH plain] by blast
  qed (rule start)
  then show "tcp_sync s" .
qed

subsection \<open>Progress\<close>

lemma tcp_client_progress:
  assumes agree: "tcp_agree M N c sc" and ok: "link_ok c sc M k (nb_senders s ! k) (nb_receivers s ! k)"
    and s: "\<not> exited s" "\<not> nb_server_exited s" "k < length (nb_senders s)"
    and pc: "ns_pc (nb_senders s ! k) \<noteq> NEnd"
    and bar: "ns_pc (nb_senders s ! k) = NBarrier \<Longrightarrow> \<forall>x \<in> set (nb_senders s). \<not> connecting (ns_pc x)"
    and room: "\<And>i b. ns_pc (nb_senders s ! k) = NWrite i b \<Longrightarrow> m_less c i b \<Longrightarrow> bytes_up (nb_senders s ! k) < cap"
    and data: "\<And>i b. ns_pc (nb_senders s ! k) = NRead i b \<Longrightarrow> m_less c i b \<Longrightarrow> 0 < bytes_down (nb_senders s ! k)"
  shows "\<exists>s'. tcp_step nu cap c sc False file_ok s s' \<and> tcp_progress s s'"
proof -
  let ?th = "nb_senders s ! k"
  have pcs: "tcp_progress s s'" if "nb_senders s' = (nb_senders s)[k := th]" "ns_pc th \<noteq> ns_pc ?th" for s' th
    using that update_differs [OF s(3), of th] unfolding tcp_progress_def by metis
  have dead: "tcp_progress s (s\<lparr>exited := True\<rparr>)" by (simp add: tcp_progress_def)
  have "\<exists>s'. tcp_sender_step nu cap c sc k 0 1 False s = Some s' \<and> tcp_progress s s'"
  proof (cases "ns_pc ?th")
    case (NConnect i)
    then show ?thesis using dead
      by (cases "tcp_listening sc s (port_of (to_basePort c) k)") (auto simp: tcp_sender_step_def Let_def intro!: pcs)
  next
    case (NTaken ix)
    have "tcp_progress s (rec_check k ix s)" if "unat ix \<ge> kMaxEntries" using that by (simp add: tcp_progress_def rec_check_def)
    then show ?thesis using NTaken
      by (cases "unat ix \<ge> kMaxEntries") (auto simp: tcp_sender_step_def tcp_record_def Let_def intro!: pcs)
  next
    case (NWrite i b)
    obtain q where "ns_socks ?th = [q]" using ok NWrite by (auto simp: link_ok_def Let_def)
    then show ?thesis using NWrite room [OF NWrite] s(2)
      by (cases "m_less c i b")
        (auto simp: m_less_def tcp_sender_step_def tcp_write_def Let_def bytes_up_def intro!: pcs)
  next
    case (NRead i b)
    obtain q where "ns_socks ?th = [q]" using ok NRead by (auto simp: link_ok_def Let_def)
    then show ?thesis using NRead data [OF NRead]
      by (cases "m_less c i b")
        (auto simp: m_less_def tcp_sender_step_def tcp_read_def Let_def bytes_down_def intro!: pcs)
  next
    case (NEvents xs b)
    then show ?thesis using ok by (simp add: link_ok_def Let_def)
  next
    case NPoll
    then show ?thesis using ok by (simp add: link_ok_def Let_def)
  qed (use pc bar in \<open>auto simp: tcp_sender_step_def tcp_record_def Let_def intro!: pcs\<close>)
  then show ?thesis using tcp_step.sender [OF s(1) agree_nat(10) [OF agree] s(3), of False False] by blast
qed

lemma tcp_listener_progress:
  assumes agree: "tcp_agree M N c sc" and ok: "link_ok c sc M k (nb_senders s ! k) (nb_receivers s ! k)"
    and s: "\<not> exited s" "\<not> nb_server_exited s" "k < length (nb_receivers s)" "k < length (nb_senders s)"
    and acc: "nr_pc (nb_receivers s ! k) = LAccept \<Longrightarrow> \<not> connecting (ns_pc (nb_senders s ! k))"
    and bar: "nr_pc (nb_receivers s ! k) = LBarrier \<Longrightarrow> \<forall>y \<in> set (nb_receivers s). nr_pc y \<notin> {LBind, LAccept}"
    and data: "\<And>i b. nr_pc (nb_receivers s ! k) = LRead i b \<Longrightarrow> l_less sc i b \<Longrightarrow> 0 < bytes_up (nb_senders s ! k)"
    and room: "\<And>i b. nr_pc (nb_receivers s ! k) = LWrite i b \<Longrightarrow> l_less sc i b \<Longrightarrow> bytes_down (nb_senders s ! k) < cap"
  shows "\<exists>s'. tcp_step nu cap c sc False file_ok s s' \<and> tcp_progress s s'"
proof -
  let ?th = "nb_senders s ! k" and ?rv = "nb_receivers s ! k"
  have pcs: "tcp_progress s s'" if "nb_receivers s' = (nb_receivers s)[k := rv]" "nr_pc rv \<noteq> nr_pc ?rv" for s' rv
    using that update_differs [OF s(3), of rv] unfolding tcp_progress_def by metis
  have base: "to_basePort c = tv_basePort sc" using agree by (simp add: tcp_agree_def)
  have "\<exists>s'. tcp_receiver_step cap sc k 1 False (k, 0) s = Some s' \<and> tcp_progress s s'"
  proof (cases "nr_pc ?rv")
    case LAccept
    then have "map nk_port (ns_socks ?th) = [port_of (to_basePort c) k]" using ok acc by (simp add: link_ok_def Let_def)
    then obtain q where "ns_socks ?th = [q]" "nk_port q = port_of (tv_basePort sc) k" using base by auto
    then show ?thesis using LAccept s(4) by (auto simp: tcp_receiver_step_def Let_def intro!: pcs)
  next
    case (LRead i b)
    then have fd: "nr_fd ?rv = Some (k, 0)" using ok by (simp add: link_ok_def Let_def)
    then obtain q where "ns_socks ?th = [q]" using ok by (auto simp: link_ok_def Let_def)
    then show ?thesis using LRead fd data [OF LRead]
      by (cases "l_less sc i b") (auto simp: l_less_def tcp_receiver_step_def Let_def bytes_up_def intro!: pcs)
  next
    case (LWrite i b)
    then have fd: "nr_fd ?rv = Some (k, 0)" using ok by (simp add: link_ok_def Let_def)
    then obtain q where "ns_socks ?th = [q]" using ok by (auto simp: link_ok_def Let_def)
    then show ?thesis using LWrite fd room [OF LWrite] s(1)
      by (cases "l_less sc i b") (auto simp: l_less_def tcp_receiver_step_def Let_def bytes_down_def intro!: pcs)
  qed (use bar in \<open>auto simp: tcp_receiver_step_def Let_def intro!: pcs\<close>)
  then show ?thesis using tcp_step.receiver [OF s(2,3), of False False] by blast
qed

lemma link_progress:
  assumes agree: "tcp_agree M N c sc" and wf: "tcp_wf c sc M N s" and inv: "\<And>i. pp_inv M (tcp_view c sc M i s)" and sync: "tcp_sync s"
    and run: "\<not> exited s" and cap: "0 < cap" and k: "k < N" "ns_pc (nb_senders s ! k) \<noteq> NEnd"
    and bar: "ns_pc (nb_senders s ! k) = NBarrier \<Longrightarrow> \<forall>x \<in> set (nb_senders s). \<not> connecting (ns_pc x)"
  shows "\<exists>s'. tcp_step nu cap c sc False file_ok s s' \<and> tcp_progress s s'"
proof (rule ccontr)
  assume no: "\<not> ?thesis"
  let ?th = "nb_senders s ! k" and ?rv = "nb_receivers s ! k"
  let ?x = "link_view (nat (to_msg_size c)) (nat (tv_msg_size sc)) M ?th ?rv"
  have len: "length (nb_senders s) = N" "length (nb_receivers s) = N"
    and ok: "\<And>i. i < N \<Longrightarrow> link_ok c sc M i (nb_senders s ! i) (nb_receivers s ! i)"
    using wf by (simp_all add: tcp_wf_def)
  have up: "\<not> nb_server_exited s" using sync run by (simp add: tcp_sync_def)
  note ag = agree_nat [OF agree]
  have x: "pp_inv M ?x" "all_got M ?x + bytes_up ?th = all_sent M ?x" "all_back M ?x + bytes_down ?th = all_replied M ?x"
    using inv [of k] ok [OF k(1)] k(1) len by (simp_all add: tcp_view_def link_ok_def Let_def)
  have client: "(\<exists>i b. ns_pc ?th = NWrite i b \<and> m_less c i b \<and> cap \<le> bytes_up ?th) \<or>
      (\<exists>i b. ns_pc ?th = NRead i b \<and> m_less c i b \<and> bytes_down ?th = 0)" (is ?client)
  proof (rule ccontr)
    assume "\<not> ?client"
    then have "\<exists>s'. tcp_step nu cap c sc False file_ok s s' \<and> tcp_progress s s'"
      using k len bar by (intro tcp_client_progress [OF agree ok run up]) (auto simp: not_le)
    then show False using no by blast
  qed
  then have "\<not> connecting (ns_pc ?th)" "ns_pc ?th \<noteq> NBarrier" by auto
  moreover have "ns_pc ?th \<in> set (map ns_pc (nb_senders s))" using k(1) len by simp
  ultimately have conn: "\<not> connecting (ns_pc y)" if "y \<in> set (nb_senders s)" for y
    using sync that unfolding tcp_sync_def by (metis image_eqI list.set_map)
  have listener: "nr_pc (nb_receivers s ! j) = LBarrier \<and> (\<exists>y \<in> set (nb_receivers s). nr_pc y \<in> {LBind, LAccept}) \<or>
      (\<exists>i b. nr_pc (nb_receivers s ! j) = LRead i b \<and> l_less sc i b \<and> bytes_up (nb_senders s ! j) = 0) \<or>
      (\<exists>i b. nr_pc (nb_receivers s ! j) = LWrite i b \<and> l_less sc i b \<and> cap \<le> bytes_down (nb_senders s ! j))" (is "?listener j")
    if j: "j < N" for j
  proof (rule ccontr)
    assume "\<not> ?listener j"
    then have "\<exists>s'. tcp_step nu cap c sc False file_ok s s' \<and> tcp_progress s s'"
      using j len conn by (intro tcp_listener_progress [OF agree ok run up, of j]) (auto simp: not_le)
    then show False using no by blast
  qed
  have "nr_pc y \<notin> {LBind, LAccept}" if y: "y \<in> set (nb_receivers s)" for y
  proof -
    obtain j where j: "j < N" "y = nb_receivers s ! j" using y len by (auto simp: in_set_conv_nth)
    then show ?thesis using listener [OF j(1)] by auto
  qed
  then have two: "(\<exists>i b. nr_pc ?rv = LRead i b \<and> l_less sc i b \<and> bytes_up ?th = 0) \<or>
      (\<exists>i b. nr_pc ?rv = LWrite i b \<and> l_less sc i b \<and> cap \<le> bytes_down ?th)"
    using listener [OF k(1)] by blast
  have part: "nat (to_msg_size c) * i + b < M" if "m_less c i b" for i b
    using in_batch_less [of i "nat (to_numMessages c)" b "nat (to_msg_size c)"] that ag by (simp add: m_less_def)
  have part': "nat (tv_msg_size sc) * i + b < M" if "l_less sc i b" for i b
    using in_batch_less [of i "nat (tv_numMessages sc)" b "nat (tv_msg_size sc)"] that ag by (simp add: l_less_def)
  show False
  proof (cases "bytes_down ?th = 0")
    case True
    then obtain i b where r: "nr_pc ?rv = LRead i b" "l_less sc i b" "bytes_up ?th = 0" using two cap by auto
    then obtain i' b' where t: "ns_pc ?th = NRead i' b'" "m_less c i' b'" using client cap by auto
    have "pp_stuck M ?x" using x(2,3) True r t part [of i' b'] part' [of i b] by (simp add: pp_stuck_def link_view_def)
    then show False using pp_not_stuck x(1) by blast
  next
    case False
    then obtain i b where "ns_pc ?th = NWrite i b" "m_less c i b" using client by auto
    then have "c_sent ?x < M" using part by (simp add: link_view_def)
    then show False using pp_writing [OF x(1)] x(3) False by simp
  qed
qed

lemma tcp_no_deadlock:
  assumes "tcp_agree M N c sc" "tcp_wf c sc M N s" "\<And>i. pp_inv M (tcp_view c sc M i s)" "tcp_sync s"
    and "\<not> exited s" "0 < cap" "k < N" "ns_pc (nb_senders s ! k) \<noteq> NEnd"
  shows "\<exists>s'. tcp_step nu cap c sc False file_ok s s' \<and> tcp_progress s s'"
proof (cases "ns_pc (nb_senders s ! k) = NBarrier \<and> (\<exists>x \<in> set (nb_senders s). connecting (ns_pc x))")
  case True
  then obtain j where j: "j < N" "connecting (ns_pc (nb_senders s ! j))" using assms(2) by (auto simp: in_set_conv_nth tcp_wf_def)
  then have "ns_pc (nb_senders s ! j) \<noteq> NEnd" "ns_pc (nb_senders s ! j) \<noteq> NBarrier" by auto
  then show ?thesis using link_progress [OF assms(1-6) j(1)] by blast
next
  case False
  then show ?thesis using link_progress [OF assms(1-8)] by blast
qed

subsection \<open>The benchmark\<close>

subsection \<open>The benchmark\<close>

text \<open>
  C36. A latency of the TCP benchmark is that of one complete round, under every interleaving of the threads of both programs and
  every way in which the kernel cuts the transfers, for client and server that agree on the bytes of a round: while a sender is not
  inside of a round, no byte of its connection is on the way in either direction, and its receiver has returned
  exactly the bytes of all rounds so far. When the program has finished, the results account for every round counted.
\<close>

theorem tcp_benchmark_rounds:
  assumes "(tcp_step nu cap c sc False True)\<^sup>*\<^sup>* (tcp_start c sc t0 now) s" "tcp_agree M N c sc" "k < N"
  shows "(\<not> tcp_in_round (ns_pc (nb_senders s ! k)) \<longrightarrow>
       bytes_up (nb_senders s ! k) = 0 \<and> bytes_down (nb_senders s ! k) = 0 \<and>
       M * nr_rounds (nb_receivers s ! k) + returned (nat (tv_msg_size sc)) (nr_pc (nb_receivers s ! k)) =
         M * ns_rounds (nb_senders s ! k)) \<and>
    (\<forall>R. main_at s = Finished R \<longrightarrow> (\<exists>res. R = Inr (Some res) \<and> accounts (n_dbl nu) (recorder.truncate s) res))"
proof -
  let ?x = "link_view (nat (to_msg_size c)) (nat (tv_msg_size sc)) M (nb_senders s ! k) (nb_receivers s ! k)"
  note reach = tcp_reach [OF assms(1,2)]
  have ok: "link_ok c sc M k (nb_senders s ! k) (nb_receivers s ! k)" and x: "pp_inv M ?x"
    using reach(1) reach(2) [of k] assms(3) by (simp_all add: tcp_wf_def tcp_view_def)
  have sent: "c_sent ?x = 0" "all_sent M ?x = M * ns_rounds (nb_senders s ! k)" if "\<not> tcp_in_round (ns_pc (nb_senders s ! k))"
    using that by (cases "ns_pc (nb_senders s ! k)"; simp add: link_view_def totals)+
  have calm: "all_got M ?x = all_sent M ?x \<and> all_back M ?x = all_replied M ?x \<and> all_back M ?x = all_sent M ?x"
    if "\<not> tcp_in_round (ns_pc (nb_senders s ! k))" using pp_calm [OF x sent(1) [OF that]] .
  have n: "nat (to_numSenders c) \<le> 2 ^ 31" using assms(2) by (auto simp: tcp_agree_def)
  have "all_replied M ?x = M * nr_rounds (nb_receivers s ! k) + returned (nat (tv_msg_size sc)) (nr_pc (nb_receivers s ! k))"
    by (simp add: link_view_def totals)
  then show ?thesis
    using calm sent(2) ok tcp_rec.reach_accounts [OF assms(1) tcp_start_recorder n TrueI] unfolding link_ok_def Let_def by auto
qed

text \<open>
  C37. No deadlock over TCP, however small the buffers of the kernel are: as long as a sender has not ended and the client has not exited, some
  thread can move on or some bytes can move, although the client writes its whole batch before it reads anything, and the
  server reads the whole batch before it writes; the barriers of both programs are included.
\<close>

theorem tcp_benchmark_no_deadlock:
  assumes "(tcp_step nu cap c sc False file_ok)\<^sup>*\<^sup>* (tcp_start c sc t0 now) s" "tcp_agree M N c sc" "0 < cap"
    and "k < N" "ns_pc (nb_senders s ! k) \<noteq> NEnd" "\<not> exited s"
  shows "\<exists>s'. tcp_step nu cap c sc False file_ok s s' \<and> tcp_progress s s'"
  using tcp_no_deadlock [OF assms(2)] tcp_reach [OF assms(1,2)] assms(3-6) by blast

subsection \<open>Examples\<close>

lemma tcp_default_agree: "tcp_agree 2048 1 tcp_defaults (tcp_server_defaults\<lparr>tv_numMessages := 2, tv_msg_size := 1024\<rparr>)"
  by (simp add: tcp_agree_def tcp_defaults_def tcp_server_defaults_def)

theorem tcp_benchmark_rounds_witness:
  "bytes_up (nb_senders (tcp_start tcp_defaults (tcp_server_defaults\<lparr>tv_numMessages := 2, tv_msg_size := 1024\<rparr>) 5 6) ! 0) = 0"
  using tcp_benchmark_rounds [OF rtranclp.rtrancl_refl tcp_default_agree, of 0 5 6]
  by (simp add: tcp_start_def recorder.extend_def tcp_defaults_def new_client_def)

theorem tcp_benchmark_no_deadlock_witness:
  "\<exists>s'. tcp_step undefined 1 tcp_defaults (tcp_server_defaults\<lparr>tv_numMessages := 2, tv_msg_size := 1024\<rparr>) False True
          (tcp_start tcp_defaults (tcp_server_defaults\<lparr>tv_numMessages := 2, tv_msg_size := 1024\<rparr>) 5 6) s' \<and>
        tcp_progress (tcp_start tcp_defaults (tcp_server_defaults\<lparr>tv_numMessages := 2, tv_msg_size := 1024\<rparr>) 5 6) s'"
  by (rule tcp_benchmark_no_deadlock [OF rtranclp.rtrancl_refl tcp_default_agree, of _ 0])
    (simp_all add: tcp_start_def recorder.extend_def rec_start_def tcp_defaults_def new_client_def)

end
