(* ===== verification/GRPC_Bench.thy ===== *)
theory GRPC_Bench
  imports Bench_Sync Ping_Pong
begin

text \<open>
  \<open>GrpcBenchClient.cc\<close> and \<open>GrpcBenchServer.cc\<close>: ping-pong over gRPC. A sender thread starts a batch of calls and waits for their
  completions (to one server, or with \<open>-b\<close> to several), or with \<open>-S\<close> writes a batch of messages to a stream and reads as many
  replies. gRPC is a library: a call that was started is executed by its server at any later moment and appears in the
  completion queue; a stream keeps the order of its messages and holds at most \<open>cap\<close> of them in each direction.
\<close>

section \<open>Definitions\<close>

subsection \<open>Options\<close>

record grpc_options =
  go_numSenders :: int
  go_numReceivers :: int
  go_basePort :: int
  go_msg_size :: int
  go_numMessages :: int
  go_measureIntervalMsec :: int
  go_totalExecTimeMsec :: int
  go_broadcast :: bool
  go_streamRpc :: bool
  go_serverAddr :: string
  go_outputFile :: string

definition grpc_defaults :: grpc_options where
  "grpc_defaults = \<lparr>go_numSenders = 1, go_numReceivers = 1, go_basePort = 9090, go_msg_size = 2048, go_numMessages = 1,
     go_measureIntervalMsec = 2000, go_totalExecTimeMsec = 10000, go_broadcast = False, go_streamRpc = False,
     go_serverAddr = ''localhost'', go_outputFile = ''grpc_bench_results.csv''\<rparr>"

definition grpc_switch :: "char \<times> string \<Rightarrow> grpc_options \<Rightarrow> grpc_options option" where
  "grpc_switch x c =
     (case x of (opt, optarg) \<Rightarrow>
      if opt = CHR ''o'' then Some (c\<lparr>go_outputFile := optarg\<rparr>)
      else if opt = CHR ''s'' then Some (c\<lparr>go_serverAddr := optarg\<rparr>)
      else if opt = CHR ''p'' then Some (c\<lparr>go_basePort := atoi optarg\<rparr>)
      else if opt = CHR ''i'' then Some (c\<lparr>go_measureIntervalMsec := atoi optarg\<rparr>)
      else if opt = CHR ''t'' then Some (c\<lparr>go_totalExecTimeMsec := atoi optarg\<rparr>)
      else if opt = CHR ''N'' then Some (c\<lparr>go_numSenders := atoi optarg\<rparr>)
      else if opt = CHR ''M'' then Some (c\<lparr>go_numMessages := atoi optarg\<rparr>)
      else if opt = CHR ''m'' then Some (c\<lparr>go_msg_size := atoi optarg\<rparr>)
      else if opt = CHR ''b'' then Some (c\<lparr>go_broadcast := True\<rparr>)
      else if opt = CHR ''R'' then Some (c\<lparr>go_numReceivers := atoi optarg\<rparr>)
      else if opt = CHR ''S'' then Some (c\<lparr>go_streamRpc := True\<rparr>)
      else None)"

definition grpc_args :: "string list \<Rightarrow> grpc_options option" where
  "grpc_args argv = option_loop grpc_switch (getopt ''hbo:s:p:i:t:N:M:m:R:S'' argv) grpc_defaults"

text \<open>The options of the server.\<close>

record grpc_server_options =
  gv_numReceivers :: int
  gv_basePort :: int

definition grpc_server_defaults :: grpc_server_options where
  "grpc_server_defaults = \<lparr>gv_numReceivers = 1, gv_basePort = 9090\<rparr>"

definition grpc_server_switch :: "char \<times> string \<Rightarrow> grpc_server_options \<Rightarrow> grpc_server_options option" where
  "grpc_server_switch x c =
     (case x of (opt, optarg) \<Rightarrow>
      if opt = CHR ''p'' then Some (c\<lparr>gv_basePort := atoi optarg\<rparr>)
      else if opt = CHR ''N'' then Some (c\<lparr>gv_numReceivers := atoi optarg\<rparr>)
      else None)"

definition grpc_server_args :: "string list \<Rightarrow> grpc_server_options option" where
  "grpc_server_args argv = option_loop grpc_server_switch (getopt ''hp:N:'' argv) grpc_server_defaults"

text \<open>A server listens on the ports from its base port on.\<close>

definition grpc_serves :: "grpc_server_options \<Rightarrow> int \<Rightarrow> bool" where
  "grpc_serves sc port \<longleftrightarrow> gv_basePort sc \<le> port \<and> port < gv_basePort sc + gv_numReceivers sc"

subsection \<open>The service\<close>

record StringMsg =
  sm_senderid :: int
  sm_msg :: string

definition IpcBench_PingPong :: "StringMsg \<Rightarrow> StringMsg" where
  "IpcBench_PingPong request = \<lparr>sm_senderid = sm_senderid request, sm_msg = sm_msg request\<rparr>"

text \<open>\<open>ack\<close> of the reply; no client calls this method.\<close>

definition IpcBench_Broadcast :: "StringMsg \<Rightarrow> bool" where
  "IpcBench_Broadcast request = True"

text \<open>
  The handler of a stream: where it is, with its variables. \<open>sh_batches\<close> counts the batches answered; the program has no such
  variable. \<open>HClosed\<close> has the status, \<open>HCrashed\<close> is a failed assertion or a division by zero, which ends the
  server; no message of this client causes it.
\<close>

datatype handler_pc = HRead | HWrite nat | HClosed bool | HCrashed

fun handler_over :: "handler_pc \<Rightarrow> bool" where
  "handler_over (HClosed b) = True"
| "handler_over HCrashed = True"
| "handler_over _ = False"

record stream_handler =
  sh_pc :: handler_pc
  sh_numMessages :: int
  sh_recvdCnt :: int
  sh_reply :: StringMsg
  sh_batches :: nat

definition new_handler :: "bool \<Rightarrow> stream_handler" where
  "new_handler serves =
     \<lparr>sh_pc = (if serves then HRead else HClosed False), sh_numMessages = - 1, sh_recvdCnt = 0,
      sh_reply = \<lparr>sm_senderid = 0, sm_msg = []\<rparr>, sh_batches = 0\<rparr>"

text \<open>One message that \<open>StreamPingPong\<close> has read.\<close>

definition handler_got :: "StringMsg \<Rightarrow> stream_handler \<Rightarrow> stream_handler" where
  "handler_got request h =
     (let h1 = (if sh_numMessages h < 0
                then h\<lparr>sh_numMessages := sm_senderid request,
                       sh_reply := \<lparr>sm_senderid = sm_senderid request, sm_msg = sm_msg request\<rparr>\<rparr> else h);
          h2 = h1\<lparr>sh_recvdCnt := narrow32 (sh_recvdCnt h1 + 1)\<rparr>
      in if \<not> sh_numMessages h < 0 \<and> sh_numMessages h \<noteq> sm_senderid request then h\<lparr>sh_pc := HCrashed\<rparr>
         else if sh_numMessages h2 = 0 then h\<lparr>sh_pc := HCrashed\<rparr>
         else if c_rem (sh_recvdCnt h2) (sh_numMessages h2) = 0 then h2\<lparr>sh_pc := HWrite 0\<rparr> else h2)"

subsection \<open>Threads\<close>

record grpc_stream =
  st_up :: "StringMsg list"
  st_down :: "StringMsg list"
  st_writesDone :: bool
  st_handler :: stream_handler

datatype grpc_pc =
    GStart
  | GBarrier
  | GTop
  | GSend nat
  | GRecv nat
  | GTake
  | GTaken "32 word"
  | GHold "32 word"
  | GCond
  | GFinish            \<comment> \<open>waits for the status of the stream\<close>
  | GEnd

text \<open>
  \<open>gp_calls\<close> are the calls that no server has executed, with their ports; \<open>gp_queue\<close> is the completion queue, with the
  status of each call.
\<close>

record grpc_sender =
  gp_pc :: grpc_pc
  gp_calls :: "(int \<times> StringMsg) list"
  gp_queue :: "(bool \<times> StringMsg) list"
  gp_stream :: grpc_stream
  gp_reply :: StringMsg
  gp_startTime :: "64 word"
  gp_endTime :: "64 word"
  gp_rounds :: nat

record grpc_bench = recorder +
  gb_senders :: "grpc_sender list"
  gb_mainFinished :: bool
  gb_endTime :: "64 word"

definition set_grpc :: "nat \<Rightarrow> grpc_sender \<Rightarrow> grpc_bench \<Rightarrow> grpc_bench" where
  "set_grpc k th s = s\<lparr>gb_senders := (gb_senders s)[k := th]\<rparr>"

definition msgbuff :: "grpc_options \<Rightarrow> string" where
  "msgbuff c = replicate (nat (go_msg_size c)) (CHR ''a'')"

text \<open>The recording of a latency and the condition of the loop, the same in all threads; a stream is finished after it.\<close>

definition grpc_record :: "platform \<Rightarrow> grpc_options \<Rightarrow> nat \<Rightarrow> grpc_bench \<Rightarrow> grpc_bench option" where
  "grpc_record nu c k s =
     (let th = gb_senders s ! k in
      case gp_pc th of
        GTake \<Rightarrow> Some (set_grpc k (th\<lparr>gp_pc := GTaken (arrayIndex s)\<rparr>) (rec_take k s))
      | GTaken ix \<Rightarrow>
          (if unat ix \<ge> kMaxEntries then Some (rec_check k ix s)
           else Some (set_grpc k (th\<lparr>gp_pc := GHold ix\<rparr>) (rec_check k ix s)))
      | GHold ix \<Rightarrow>
          Some (set_grpc k (th\<lparr>gp_pc := GCond\<rparr>)
                  (rec_write k ix (n_dbl nu (of_nat (unat (gp_endTime th - gp_startTime th)))) s))
      | GCond \<Rightarrow>
          (if \<not> gb_mainFinished s then Some (set_grpc k (th\<lparr>gp_pc := GTop\<rparr>) s)
           else if \<not> go_broadcast c \<and> go_streamRpc c
           then Some (set_grpc k (th\<lparr>gp_pc := GFinish, gp_stream := (gp_stream th)\<lparr>st_writesDone := True\<rparr>\<rparr>) s)
           else Some (set_grpc k (th\<lparr>gp_pc := GEnd\<rparr>) (rec_end k s)))
      | _ \<Rightarrow> None)"

text \<open>The start of a thread, up to the barrier; a negative size is an exception of \<open>std::string\<close>.\<close>

definition grpc_begin :: "grpc_options \<Rightarrow> nat \<Rightarrow> 64 word \<Rightarrow> grpc_bench \<Rightarrow> grpc_bench option" where
  "grpc_begin c k now s =
     (let th = gb_senders s ! k in
      case gp_pc th of
        GStart \<Rightarrow>
          (if go_msg_size c < 0 then Some (s\<lparr>exited := True\<rparr>) else Some (set_grpc k (th\<lparr>gp_pc := GBarrier\<rparr>) s))
      | GBarrier \<Rightarrow>
          (if \<exists>x \<in> set (gb_senders s). gp_pc x = GStart then None else Some (set_grpc k (th\<lparr>gp_pc := GTop\<rparr>) s))
      | GTop \<Rightarrow> Some (set_grpc k (th\<lparr>gp_pc := GSend 0, gp_startTime := now\<rparr>) s)
      | _ \<Rightarrow> None)"

text \<open>
  One step of \<open>SenderThread\<close> or \<open>BroadcasterThread\<close>: they differ in the number of calls, their ports and their sender
  identifiers. \<open>cq.Next\<close> returns completion \<open>j\<close> of the queue.
\<close>

definition grpc_count :: "grpc_options \<Rightarrow> int" where
  "grpc_count c = (if go_broadcast c then go_numReceivers c else go_numMessages c)"

definition grpc_request :: "grpc_options \<Rightarrow> nat \<Rightarrow> nat \<Rightarrow> int \<times> StringMsg" where
  "grpc_request c k i =
     (if go_broadcast c then (go_basePort c + int k + int i, \<lparr>sm_senderid = int i + 1, sm_msg = msgbuff c\<rparr>)
      else (go_basePort c + int k, \<lparr>sm_senderid = int k + 1, sm_msg = msgbuff c\<rparr>))"

definition grpc_call_step ::
    "platform \<Rightarrow> grpc_options \<Rightarrow> nat \<Rightarrow> 64 word \<Rightarrow> nat \<Rightarrow> grpc_bench \<Rightarrow> grpc_bench option" where
  "grpc_call_step nu c k now j s =
     (let th = gb_senders s ! k in
      case gp_pc th of
        GSend i \<Rightarrow>
          (if int i < grpc_count c
           then Some (set_grpc k (th\<lparr>gp_pc := GSend (Suc i), gp_calls := gp_calls th @ [grpc_request c k i]\<rparr>) s)
           else Some (set_grpc k (th\<lparr>gp_pc := GRecv 0\<rparr>) s))
      | GRecv r \<Rightarrow>
          (if int r < grpc_count c
           then (if j < length (gp_queue th)
                 then (case gp_queue th ! j of (ok, reply) \<Rightarrow>
                         if ok \<and> int (length (sm_msg reply)) = go_msg_size c
                         then Some (set_grpc k (th\<lparr>gp_pc := GRecv (Suc r), gp_queue := take j (gp_queue th) @ drop (Suc j) (gp_queue th)\<rparr>) s)
                         else Some (s\<lparr>exited := True\<rparr>))
                 else None)
           else if int r = grpc_count c
           then Some (set_grpc k (th\<lparr>gp_pc := GTake, gp_endTime := now, gp_rounds := Suc (gp_rounds th)\<rparr>) s)
           else Some (s\<lparr>exited := True\<rparr>))
      | GFinish \<Rightarrow> None
      | GEnd \<Rightarrow> None
      | _ \<Rightarrow> (case grpc_begin c k now s of None \<Rightarrow> grpc_record nu c k s | Some s' \<Rightarrow> Some s'))"

text \<open>
  One step of \<open>StreamSenderThread\<close>. On a stream that the server has closed a read returns false, and so does a write, whose
  result the thread ignores.
\<close>

definition grpc_stream_step ::
    "platform \<Rightarrow> nat \<Rightarrow> grpc_options \<Rightarrow> nat \<Rightarrow> 64 word \<Rightarrow> grpc_bench \<Rightarrow> grpc_bench option" where
  "grpc_stream_step nu cap c k now s =
     (let th = gb_senders s ! k; st = gp_stream th; stop = Some (s\<lparr>exited := True\<rparr>) in
      case gp_pc th of
        GSend i \<Rightarrow>
          (if int i < go_numMessages c
           then (if handler_over (sh_pc (st_handler st)) then Some (set_grpc k (th\<lparr>gp_pc := GSend (Suc i)\<rparr>) s)
                 else if length (st_up st) < cap
                 then Some (set_grpc k (th\<lparr>gp_pc := GSend (Suc i),
                        gp_stream := st\<lparr>st_up := st_up st @ [\<lparr>sm_senderid = go_numMessages c, sm_msg = msgbuff c\<rparr>]\<rparr>\<rparr>) s)
                 else None)
           else Some (set_grpc k (th\<lparr>gp_pc := GRecv 0\<rparr>) s))
      | GRecv r \<Rightarrow>
          (if int r < go_numMessages c
           then (case st_down st of
                   m # ms \<Rightarrow> Some (set_grpc k (th\<lparr>gp_pc := GRecv (Suc r), gp_reply := m, gp_stream := st\<lparr>st_down := ms\<rparr>\<rparr>) s)
                 | [] \<Rightarrow> (case sh_pc (st_handler st) of HClosed b \<Rightarrow> stop | HCrashed \<Rightarrow> stop | _ \<Rightarrow> None))
           else if int r = go_numMessages c \<and> int (length (sm_msg (gp_reply th))) = go_msg_size c
           then Some (set_grpc k (th\<lparr>gp_pc := GTake, gp_endTime := now, gp_rounds := Suc (gp_rounds th)\<rparr>) s)
           else stop)
      | GFinish \<Rightarrow>
          (case sh_pc (st_handler st) of
             HClosed True \<Rightarrow> Some (set_grpc k (th\<lparr>gp_pc := GEnd\<rparr>) (rec_end k s))
           | HClosed False \<Rightarrow> stop
           | HCrashed \<Rightarrow> stop
           | _ \<Rightarrow> None)
      | GEnd \<Rightarrow> None
      | _ \<Rightarrow> (case grpc_begin c k now s of None \<Rightarrow> grpc_record nu c k s | Some s' \<Rightarrow> Some s'))"

text \<open>The server executes call \<open>j\<close> of sender \<open>k\<close>, or the call fails.\<close>

definition grpc_execute :: "grpc_server_options \<Rightarrow> nat \<Rightarrow> nat \<Rightarrow> bool \<Rightarrow> grpc_bench \<Rightarrow> grpc_bench option" where
  "grpc_execute sc k j failed s =
     (let th = gb_senders s ! k in
      if j < length (gp_calls th)
      then (case gp_calls th ! j of (port, request) \<Rightarrow>
              Some (set_grpc k (th\<lparr>gp_calls := take j (gp_calls th) @ drop (Suc j) (gp_calls th),
                     gp_queue := gp_queue th @ [if failed \<or> \<not> grpc_serves sc port then (False, \<lparr>sm_senderid = 0, sm_msg = []\<rparr>)
                                                else (True, IpcBench_PingPong request)]\<rparr>) s))
      else None)"

text \<open>One step of \<open>StreamPingPong\<close> for the stream of sender \<open>k\<close>.\<close>

definition grpc_handler_step :: "nat \<Rightarrow> nat \<Rightarrow> bool \<Rightarrow> grpc_bench \<Rightarrow> grpc_bench option" where
  "grpc_handler_step cap k failed s =
     (let th = gb_senders s ! k; st = gp_stream th; h = st_handler st in
      case sh_pc h of
        HRead \<Rightarrow>
          (case st_up st of
             m # ms \<Rightarrow> Some (set_grpc k (th\<lparr>gp_stream := st\<lparr>st_up := ms, st_handler := handler_got m h\<rparr>\<rparr>) s)
           | [] \<Rightarrow> (if st_writesDone st \<or> failed
                     then Some (set_grpc k (th\<lparr>gp_stream := st\<lparr>st_handler := h\<lparr>sh_pc := HClosed (\<not> failed)\<rparr>\<rparr>\<rparr>) s) else None))
      | HWrite i \<Rightarrow>
          (if int i < sh_numMessages h
           then (if failed then Some (set_grpc k (th\<lparr>gp_stream := st\<lparr>st_handler := h\<lparr>sh_pc := HClosed False\<rparr>\<rparr>\<rparr>) s)
                 else if length (st_down st) < cap
                 then Some (set_grpc k (th\<lparr>gp_stream := st\<lparr>st_down := st_down st @ [sh_reply h],
                              st_handler := h\<lparr>sh_pc := HWrite (Suc i)\<rparr>\<rparr>\<rparr>) s)
                 else None)
           else Some (set_grpc k (th\<lparr>gp_stream := st\<lparr>st_handler := h\<lparr>sh_pc := HRead, sh_batches := Suc (sh_batches h)\<rparr>\<rparr>\<rparr>) s))
      | _ \<Rightarrow> None)"

definition grpc_main_step :: "platform \<Rightarrow> bool \<Rightarrow> 64 word \<Rightarrow> grpc_bench \<Rightarrow> grpc_bench option" where
  "grpc_main_step nu file_ok now s =
     (case main_at s of
        Measuring \<Rightarrow>
          (let up = \<not> now < gb_endTime s
           in Some ((rec_mark now up s)\<lparr>gb_mainFinished := up\<rparr>))
      | Joining \<Rightarrow>
          (if \<forall>x \<in> set (tickets s). x = Gone then Some (rec_process (n_dbl nu) file_ok s) else None)
      | Finished _ \<Rightarrow> None)"

definition new_grpc_sender :: "grpc_options \<Rightarrow> grpc_server_options \<Rightarrow> nat \<Rightarrow> grpc_sender" where
  "new_grpc_sender c sc k =
     \<lparr>gp_pc = GStart, gp_calls = [], gp_queue = [],
      gp_stream = \<lparr>st_up = [], st_down = [], st_writesDone = False, st_handler = new_handler (grpc_serves sc (go_basePort c + int k))\<rparr>,
      gp_reply = \<lparr>sm_senderid = 0, sm_msg = []\<rparr>, gp_startTime = 0, gp_endTime = 0, gp_rounds = 0\<rparr>"

definition grpc_start :: "grpc_options \<Rightarrow> grpc_server_options \<Rightarrow> 64 word \<Rightarrow> 64 word \<Rightarrow> grpc_bench" where
  "grpc_start c sc t0 now =
     recorder.extend (rec_start (nat (go_numSenders c)) t0)
       \<lparr>gb_senders = map (new_grpc_sender c sc) [0..<nat (go_numSenders c)], gb_mainFinished = False,
        gb_endTime = now + of_int (narrow32 (go_totalExecTimeMsec c * 1000))\<rparr>"

inductive grpc_step :: "platform \<Rightarrow> nat \<Rightarrow> grpc_options \<Rightarrow> grpc_server_options \<Rightarrow> bool \<Rightarrow> bool \<Rightarrow> grpc_bench \<Rightarrow> grpc_bench \<Rightarrow> bool"
  for nu cap c sc fails file_ok where
  caller: "\<not> exited s \<Longrightarrow> go_broadcast c \<or> \<not> go_streamRpc c \<Longrightarrow> k < length (gb_senders s) \<Longrightarrow>
    grpc_call_step nu c k now j s = Some s' \<Longrightarrow> grpc_step nu cap c sc fails file_ok s s'"
| streamer: "\<not> exited s \<Longrightarrow> \<not> go_broadcast c \<Longrightarrow> go_streamRpc c \<Longrightarrow> k < length (gb_senders s) \<Longrightarrow>
    grpc_stream_step nu cap c k now s = Some s' \<Longrightarrow> grpc_step nu cap c sc fails file_ok s s'"
| call: "k < length (gb_senders s) \<Longrightarrow> (failed \<Longrightarrow> fails) \<Longrightarrow>
    grpc_execute sc k j failed s = Some s' \<Longrightarrow> grpc_step nu cap c sc fails file_ok s s'"
| handler: "k < length (gb_senders s) \<Longrightarrow> (failed \<Longrightarrow> fails) \<Longrightarrow>
    grpc_handler_step cap k failed s = Some s' \<Longrightarrow> grpc_step nu cap c sc fails file_ok s s'"
| main: "\<not> exited s \<Longrightarrow> grpc_main_step nu file_ok now s = Some s' \<Longrightarrow> grpc_step nu cap c sc fails file_ok s s'"

definition grpc_main :: "string list \<Rightarrow> (grpc_options \<Rightarrow> bool) \<Rightarrow> int" where
  "grpc_main argv run = (case grpc_args argv of None \<Rightarrow> 1 | Some c \<Rightarrow> (if run c then 0 else 1))"

subsection \<open>Invariants\<close>

fun ticket_grpc :: "grpc_pc \<Rightarrow> ticket" where
  "ticket_grpc (GTaken ix) = Taken ix"
| "ticket_grpc (GHold ix) = Holding ix"
| "ticket_grpc GEnd = Gone"
| "ticket_grpc _ = Idle"

definition grpc_tickets :: "grpc_bench \<Rightarrow> bool" where
  "grpc_tickets s \<longleftrightarrow> tickets s = map (\<lambda>th. ticket_grpc (gp_pc th)) (gb_senders s)"

definition stream_mode :: "grpc_options \<Rightarrow> bool" where
  "stream_mode c \<longleftrightarrow> \<not> go_broadcast c \<and> go_streamRpc c"

text \<open>
  The server has all the ports that the client calls. In a stream, \<open>recvdCnt\<close> counts all messages in an \<open>int\<close>, so that the
  batches stay aligned for ever only if their size divides \<open>2 ^ 32\<close>.
\<close>

definition grpc_agree :: "nat \<Rightarrow> nat \<Rightarrow> grpc_options \<Rightarrow> grpc_server_options \<Rightarrow> bool" where
  "grpc_agree M N c sc \<longleftrightarrow> go_numSenders c = int N \<and> N \<le> 2 ^ 31 \<and> 0 \<le> go_msg_size c \<and> grpc_count c = int M \<and>
     go_basePort c = gv_basePort sc \<and> int N + (if go_broadcast c then int M - 1 else 0) \<le> gv_numReceivers sc \<and>
     (stream_mode c \<longrightarrow> 0 < M \<and> M dvd 2 ^ 32)"

text \<open>The only reason for which the client exits.\<close>

definition array_full :: "grpc_bench \<Rightarrow> bool" where
  "array_full s \<longleftrightarrow> (\<exists>p \<in> set (map gp_pc (gb_senders s)). case p of GTaken ix \<Rightarrow> kMaxEntries \<le> unat ix | _ \<Rightarrow> False)"

fun grpc_in_round :: "grpc_pc \<Rightarrow> bool" where
  "grpc_in_round (GSend i) = True"
| "grpc_in_round (GRecv r) = True"
| "grpc_in_round _ = False"

text \<open>Calls: every call of the batch is at its server, in the queue or handled, and every completion passes the assertions.\<close>

definition calls_ok :: "nat \<Rightarrow> grpc_options \<Rightarrow> grpc_server_options \<Rightarrow> grpc_sender \<Rightarrow> bool" where
  "calls_ok M c sc th \<longleftrightarrow>
     (case gp_pc th of
        GSend i \<Rightarrow> i \<le> M \<and> length (gp_calls th) + length (gp_queue th) = i
      | GRecv r \<Rightarrow> r \<le> M \<and> length (gp_calls th) + length (gp_queue th) + r = M
      | GFinish \<Rightarrow> False
      | _ \<Rightarrow> gp_calls th = [] \<and> gp_queue th = []) \<and>
     (\<forall>(port, m) \<in> set (gp_calls th). grpc_serves sc port \<and> int (length (sm_msg m)) = go_msg_size c) \<and>
     (\<forall>(ok, m) \<in> set (gp_queue th). ok \<and> int (length (sm_msg m)) = go_msg_size c)"

text \<open>Streams: the view as a run of the protocol with messages as units.\<close>

fun stream_sent :: "nat \<Rightarrow> grpc_pc \<Rightarrow> nat" where
  "stream_sent M (GSend i) = i"
| "stream_sent M (GRecv r) = M"
| "stream_sent M _ = 0"

fun stream_back :: "grpc_pc \<Rightarrow> nat" where
  "stream_back (GRecv r) = r"
| "stream_back _ = 0"

fun handler_replied :: "handler_pc \<Rightarrow> nat" where
  "handler_replied (HWrite i) = i"
| "handler_replied _ = 0"

definition handler_received :: "nat \<Rightarrow> stream_handler \<Rightarrow> nat" where
  "handler_received M h = (case sh_pc h of HWrite i \<Rightarrow> M | _ \<Rightarrow> nat (sh_recvdCnt h mod int M))"

definition stream_view :: "nat \<Rightarrow> grpc_sender \<Rightarrow> ping_pong" where
  "stream_view M th =
     \<lparr>c_round = gp_rounds th, c_sent = stream_sent M (gp_pc th), c_back = stream_back (gp_pc th),
      s_round = sh_batches (st_handler (gp_stream th)), s_got = handler_received M (st_handler (gp_stream th)),
      s_replied = handler_replied (sh_pc (st_handler (gp_stream th)))\<rparr>"

definition batch_msg :: "grpc_options \<Rightarrow> StringMsg" where
  "batch_msg c = \<lparr>sm_senderid = go_numMessages c, sm_msg = msgbuff c\<rparr>"

definition handler_ok :: "nat \<Rightarrow> grpc_options \<Rightarrow> stream_handler \<Rightarrow> bool" where
  "handler_ok M c h \<longleftrightarrow> (sh_numMessages h = - 1 \<or> sh_numMessages h = int M \<and> sh_reply h = batch_msg c) \<and>
     (case sh_pc h of HRead \<Rightarrow> True | HWrite i \<Rightarrow> i \<le> M \<and> sh_numMessages h = int M \<and> int M dvd sh_recvdCnt h
      | HClosed b \<Rightarrow> b | HCrashed \<Rightarrow> False)"

definition stream_ok :: "nat \<Rightarrow> grpc_options \<Rightarrow> grpc_sender \<Rightarrow> bool" where
  "stream_ok M c th \<longleftrightarrow>
     (let st = gp_stream th; x = stream_view M th in
      handler_ok M c (st_handler st) \<and> set (st_up st) \<subseteq> {batch_msg c} \<and> set (st_down st) \<subseteq> {batch_msg c} \<and>
      (st_writesDone st \<longrightarrow> gp_pc th = GFinish \<or> gp_pc th = GEnd) \<and>
      (sh_pc (st_handler st) = HClosed True \<longrightarrow> st_writesDone st) \<and>
      (case gp_pc th of GSend i \<Rightarrow> i \<le> M | GRecv r \<Rightarrow> 0 < r \<longrightarrow> gp_reply th = batch_msg c | _ \<Rightarrow> True) \<and>
      all_got M x + length (st_up st) = all_sent M x \<and> all_back M x + length (st_down st) = all_replied M x)"

definition streams_wf :: "nat \<Rightarrow> nat \<Rightarrow> grpc_options \<Rightarrow> grpc_bench \<Rightarrow> bool" where
  "streams_wf M N c s \<longleftrightarrow> length (gb_senders s) = N \<and> (\<forall>th \<in> set (gb_senders s). stream_ok M c th) \<and> (exited s \<longrightarrow> array_full s)"

definition streams_view :: "nat \<Rightarrow> nat \<Rightarrow> grpc_bench \<Rightarrow> ping_pong" where
  "streams_view M k s = (if k < length (gb_senders s) then stream_view M (gb_senders s ! k) else pp_start)"

definition calls_wf :: "nat \<Rightarrow> nat \<Rightarrow> grpc_options \<Rightarrow> grpc_server_options \<Rightarrow> grpc_bench \<Rightarrow> bool" where
  "calls_wf M N c sc s \<longleftrightarrow> length (gb_senders s) = N \<and> (\<forall>th \<in> set (gb_senders s). calls_ok M c sc th) \<and> (exited s \<longrightarrow> array_full s)"

text \<open>A step that changes the sender \<open>k\<close> and its stream.\<close>

definition stream_moves :: "nat \<Rightarrow> grpc_options \<Rightarrow> nat \<Rightarrow> grpc_bench \<Rightarrow> grpc_bench \<Rightarrow> bool" where
  "stream_moves M c k s s' \<longleftrightarrow>
     (\<exists>th. gb_senders s' = (gb_senders s)[k := th] \<and> stream_ok M c th \<and> (exited s' \<longrightarrow> array_full s') \<and>
        (stream_view M th = stream_view M (gb_senders s ! k) \<or> pp_step M (stream_view M (gb_senders s ! k)) (stream_view M th)))"

section \<open>Lemmas\<close>

lemma grpc_fields [simp]:
  "gb_senders (rec_take k s) = gb_senders s" "gb_senders (rec_check k ix s) = gb_senders s"
  "gb_senders (rec_write k ix x s) = gb_senders s" "gb_senders (rec_end k s) = gb_senders s"
  "gb_senders (rec_mark now up s) = gb_senders s" "gb_senders (rec_process dbl file_ok s) = gb_senders s"
  "gb_senders (set_grpc k th s) = (gb_senders s)[k := th]" "tickets (set_grpc k th s) = tickets s"
  "exited (set_grpc k th s) = exited s" "exited (rec_take k s) = exited s" "exited (rec_write k ix x s) = exited s"
  "exited (rec_end k s) = exited s"
  "recorder.truncate (set_grpc k th s) = recorder.truncate s" "recorder.truncate (s\<lparr>gb_mainFinished := up\<rparr>) = recorder.truncate s"
  by (simp_all add: rec_take_def rec_check_def rec_write_def rec_end_def rec_mark_def rec_process_def set_grpc_def recorder.truncate_def)

subsection \<open>Recording\<close>

lemma grpc_record_tickets:
  assumes "grpc_tickets s" "k < length (gb_senders s)" "grpc_record nu c k s = Some s'"
  shows "grpc_tickets s'"
  using assms by (auto simp: grpc_tickets_def grpc_record_def Let_def map_update intro!: update_same_map split: grpc_pc.splits if_splits)

lemma grpc_begin_tickets:
  assumes "grpc_tickets s" "k < length (gb_senders s)" "grpc_begin c k now s = Some s'"
  shows "grpc_tickets s'" "recorder.truncate s' = recorder.truncate s \<or> s' = s\<lparr>exited := True\<rparr>"
  using assms by (auto simp: grpc_tickets_def grpc_begin_def Let_def map_update intro!: update_same_map split: grpc_pc.splits if_splits)

lemma grpc_call_tickets:
  assumes "grpc_tickets s" "k < length (gb_senders s)" "grpc_call_step nu c k now j s = Some s'"
  shows "grpc_tickets s'"
  using assms grpc_record_tickets [OF assms(1,2), of nu c s'] grpc_begin_tickets(1) [OF assms(1,2), of c now s']
  by (cases "gp_pc (gb_senders s ! k)")
    (auto simp: grpc_call_step_def Let_def grpc_tickets_def map_update intro!: update_same_map split: if_splits option.splits prod.splits)

lemma grpc_stream_tickets:
  assumes "grpc_tickets s" "k < length (gb_senders s)" "grpc_stream_step nu cap c k now s = Some s'"
  shows "grpc_tickets s'"
  using assms grpc_record_tickets [OF assms(1,2), of nu c s'] grpc_begin_tickets(1) [OF assms(1,2), of c now s']
  by (cases "gp_pc (gb_senders s ! k)")
    (auto simp: grpc_stream_step_def Let_def grpc_tickets_def map_update intro!: update_same_map
      split: if_splits option.splits list.splits handler_pc.splits bool.splits)

lemma grpc_server_tickets:
  assumes "grpc_tickets s" "k < length (gb_senders s)" "grpc_execute sc k j failed s = Some s' \<or> grpc_handler_step cap k failed s = Some s'"
  shows "grpc_tickets s'" "recorder.truncate s' = recorder.truncate s"
  using assms
  by (auto simp: grpc_execute_def grpc_handler_step_def Let_def grpc_tickets_def map_update intro!: update_same_map
      split: if_splits prod.splits list.splits handler_pc.splits)

lemma grpc_step_tickets: "grpc_tickets s \<Longrightarrow> grpc_step nu cap c sc fails file_ok s s' \<Longrightarrow> grpc_tickets s'"
proof (erule grpc_step.cases, goal_cases)
  case (1 s1 k now j s2)
  then show ?case using grpc_call_tickets by blast
next
  case (2 s1 k now s2)
  then show ?case using grpc_stream_tickets by blast
next
  case (3 s1 k failed j s2)
  then show ?case using grpc_server_tickets(1) by blast
next
  case (4 s1 k failed s2)
  then show ?case using grpc_server_tickets(1) by blast
next
  case (5 s1 now s2)
  then show ?case by (auto simp: grpc_tickets_def grpc_main_step_def Let_def split: main_pc.splits if_splits)
qed

lemma grpc_record_view:
  assumes "grpc_tickets s" "k < length (gb_senders s)" "grpc_record nu c k s = Some s'"
  shows "recorder.truncate s' = recorder.truncate s \<or>
    rec_step (n_dbl nu) file_ok (recorder.truncate s) (recorder.truncate s')"
proof -
  have t: "k < length (tickets s)" "tickets s ! k = ticket_grpc (gp_pc (gb_senders s ! k))"
    using assms(1,2) by (simp_all add: grpc_tickets_def)
  show ?thesis
  proof (cases "gp_pc (gb_senders s ! k)")
    case GTake
    then show ?thesis using assms(3) t rec_step.grab [of k "recorder.truncate s"] by (auto simp: grpc_record_def Let_def)
  next
    case (GTaken ix)
    then show ?thesis using assms(3) t rec_step.test [of k "recorder.truncate s" ix]
      by (auto simp: grpc_record_def Let_def split: if_splits)
  next
    case (GHold ix)
    then show ?thesis using assms(3) t rec_step.fill [of k "recorder.truncate s" ix] by (auto simp: grpc_record_def Let_def)
  next
    case GCond
    then show ?thesis using assms(3) t rec_step.stop [of k "recorder.truncate s"]
      by (auto simp: grpc_record_def Let_def split: if_splits)
  qed (use assms(3) in \<open>auto simp: grpc_record_def\<close>)
qed

lemma grpc_client_view:
  assumes "grpc_tickets s" "k < length (gb_senders s)" "recorder.truncate s' = recorder.truncate s \<or> s' = s\<lparr>exited := True\<rparr> \<or>
      grpc_begin c k now s = Some s' \<or> grpc_record nu c k s = Some s' \<or> (gp_pc (gb_senders s ! k) = GFinish \<and>
        recorder.truncate s' = rec_end k (recorder.truncate s))"
  shows "recorder.truncate s' = recorder.truncate s \<or>
    rec_step (n_dbl nu) file_ok (recorder.truncate s) (recorder.truncate s')"
proof -
  have t: "k < length (tickets s)" "tickets s ! k = ticket_grpc (gp_pc (gb_senders s ! k))"
    using assms(1,2) by (simp_all add: grpc_tickets_def)
  have stop: "rec_step (n_dbl nu) file_ok (recorder.truncate s) (rec_end k (recorder.truncate s))" if "gp_pc (gb_senders s ! k) = GFinish"
    using that t by (intro rec_step.stop) simp_all
  have die: "rec_step (n_dbl nu) file_ok (recorder.truncate s) (recorder.truncate (s\<lparr>exited := True\<rparr>))"
    using rec_step.die [of _ _ "recorder.truncate s"] by simp
  show ?thesis
    using assms(3)
  proof (elim disjE conjE)
    assume "grpc_begin c k now s = Some s'"
    then show ?thesis using grpc_begin_tickets(2) [OF assms(1,2)] die by blast
  next
    assume "grpc_record nu c k s = Some s'"
    then show ?thesis by (rule grpc_record_view [OF assms(1,2)])
  next
    assume "gp_pc (gb_senders s ! k) = GFinish" "recorder.truncate s' = rec_end k (recorder.truncate s)"
    then show ?thesis using stop by simp
  qed (use die in simp_all)
qed

lemma grpc_call_cases:
  assumes "grpc_call_step nu c k now j s = Some s'"
  shows "recorder.truncate s' = recorder.truncate s \<or> s' = s\<lparr>exited := True\<rparr> \<or>
      grpc_begin c k now s = Some s' \<or> grpc_record nu c k s = Some s' \<or> (gp_pc (gb_senders s ! k) = GFinish \<and>
        recorder.truncate s' = rec_end k (recorder.truncate s))"
  using assms by (cases "gp_pc (gb_senders s ! k)") (auto simp: grpc_call_step_def Let_def split: if_splits option.splits prod.splits)

lemma grpc_stream_cases:
  assumes "grpc_stream_step nu cap c k now s = Some s'"
  shows "recorder.truncate s' = recorder.truncate s \<or> s' = s\<lparr>exited := True\<rparr> \<or>
      grpc_begin c k now s = Some s' \<or> grpc_record nu c k s = Some s' \<or> (gp_pc (gb_senders s ! k) = GFinish \<and>
        recorder.truncate s' = rec_end k (recorder.truncate s))"
  using assms
  by (cases "gp_pc (gb_senders s ! k)")
    (auto simp: grpc_stream_step_def Let_def split: if_splits option.splits list.splits handler_pc.splits bool.splits)

lemma grpc_main_view:
  assumes "grpc_main_step nu file_ok now s = Some s'"
  shows "rec_step (n_dbl nu) file_ok (recorder.truncate s) (recorder.truncate s')"
  using assms rec_step.mark [of "recorder.truncate s"] rec_step.results [of "recorder.truncate s"]
  by (auto simp: grpc_main_step_def Let_def split: main_pc.splits if_splits)

interpretation grpc_rec: recording_program "grpc_step nu cap c sc fails file_ok" grpc_tickets "recorder.truncate" "n_dbl nu" file_ok
  for nu cap c sc fails file_ok
proof
  fix s s'
  assume "grpc_tickets s" "grpc_step nu cap c sc fails file_ok s s'"
  then show "grpc_tickets s'" by (rule grpc_step_tickets)
next
  fix s s'
  assume wf: "grpc_tickets s" and "grpc_step nu cap c sc fails file_ok s s'"
  from this(2) show "recorder.truncate s' = recorder.truncate s \<or>
      rec_step (n_dbl nu) file_ok (recorder.truncate s) (recorder.truncate s')"
  proof (cases rule: grpc_step.cases)
    case (caller k now j)
    then show ?thesis using grpc_client_view [OF wf _ grpc_call_cases] by blast
  next
    case (streamer k now)
    then show ?thesis using grpc_client_view [OF wf _ grpc_stream_cases] by blast
  next
    case (call k failed j)
    then show ?thesis using grpc_server_tickets(2) [OF wf] by blast
  next
    case (handler k failed)
    then show ?thesis using grpc_server_tickets(2) [OF wf] by blast
  next
    case (main now)
    then show ?thesis using grpc_main_view by blast
  qed
qed

lemma grpc_start_recorder:
  "grpc_tickets (grpc_start c sc t0 now)"
  "recorder.truncate (grpc_start c sc t0 now) = rec_start (nat (go_numSenders c)) t0"
proof -
  have "map (\<lambda>x. ticket_grpc (gp_pc (new_grpc_sender c sc x))) [0..<n] = replicate n Idle" for n
    by (simp add: new_grpc_sender_def map_replicate_const)
  then show "grpc_tickets (grpc_start c sc t0 now)"
    "recorder.truncate (grpc_start c sc t0 now) = rec_start (nat (go_numSenders c)) t0"
    by (simp_all add: grpc_tickets_def grpc_start_def recorder.extend_def recorder.truncate_def rec_start_def comp_def)
qed

subsection \<open>Calls\<close>

text \<open>A step of the sender \<open>k\<close> that keeps its calls in order.\<close>

lemma array_full_update:
  assumes "array_full s" "gb_senders s' = (gb_senders s)[k := th]" "gp_pc th = gp_pc (gb_senders s ! k)" "k < length (gb_senders s)"
  shows "array_full s'"
proof -
  have "map gp_pc (gb_senders s') = map gp_pc (gb_senders s)"
    using assms(2-4) by (auto simp: map_update intro!: update_same_map [symmetric])
  then show ?thesis using assms(1) unfolding array_full_def by (rule ssubst)
qed

lemma calls_wf_update:
  assumes "calls_wf M N c sc s" "gb_senders s' = (gb_senders s)[k := th]" "calls_ok M c sc th" "exited s' = exited s"
    and "exited s \<Longrightarrow> gp_pc th = gp_pc (gb_senders s ! k)" "k < length (gb_senders s)"
  shows "calls_wf M N c sc s'"
proof -
  have "array_full s'" if "exited s'"
    using that assms array_full_update [OF _ assms(2) _ assms(6)] by (simp add: calls_wf_def)
  moreover have "calls_ok M c sc x" if "x \<in> set (gb_senders s')" for x
    using that assms(1-3) set_update_subset_insert [of "gb_senders s" k th] by (auto simp: calls_wf_def)
  ultimately show ?thesis using assms(1,2) by (simp add: calls_wf_def)
qed

text \<open>The array is full: the client exits.\<close>

lemma full_check:
  assumes "k < length (gb_senders s)" "gp_pc (gb_senders s ! k) = GTaken ix" "kMaxEntries \<le> unat ix"
  shows "array_full (rec_check k ix s)"
proof -
  have "GTaken ix \<in> set (map gp_pc (gb_senders s))" using nth_mem [of k "map gp_pc (gb_senders s)"] assms(1,2) by simp
  then show ?thesis using assms(3) unfolding array_full_def by (intro bexI [of _ "GTaken ix"]) simp_all
qed

lemma take_drop_nth_set: "set (take j xs @ drop (Suc j) xs) \<subseteq> set xs"
  by (auto dest: in_set_takeD in_set_dropD)

lemma grpc_serves_request:
  assumes "grpc_agree M N c sc" "k < N" "int i < grpc_count c"
  shows "grpc_serves sc (fst (grpc_request c k i))" "int (length (sm_msg (snd (grpc_request c k i)))) = go_msg_size c"
  using assms by (auto simp: grpc_agree_def grpc_serves_def grpc_request_def msgbuff_def)

lemma grpc_begin_calls:
  assumes "calls_wf M N c sc s" "k < length (gb_senders s)" "\<not> exited s" "0 \<le> go_msg_size c" "grpc_begin c k now s = Some s'"
  shows "calls_wf M N c sc s'"
proof -
  have ok: "calls_ok M c sc (gb_senders s ! k)" using assms(1,2) by (simp add: calls_wf_def)
  show ?thesis using assms(3-5) ok
    by (cases "gp_pc (gb_senders s ! k)")
      (auto simp: grpc_begin_def Let_def calls_ok_def split: if_splits intro!: calls_wf_update [OF assms(1) _ _ _ _ assms(2)])
qed

lemma grpc_record_calls:
  assumes "calls_wf M N c sc s" "k < length (gb_senders s)" "\<not> exited s" "\<not> stream_mode c" "grpc_record nu c k s = Some s'"
  shows "calls_wf M N c sc s'"
proof -
  have ok: "calls_ok M c sc (gb_senders s ! k)" using assms(1,2) by (simp add: calls_wf_def)
  note upd = calls_wf_update [OF assms(1) _ _ _ _ assms(2)]
  show ?thesis
  proof (cases "gp_pc (gb_senders s ! k)")
    case (GTaken ix)
    show ?thesis
    proof (cases "kMaxEntries \<le> unat ix")
      case True
      then have "s' = rec_check k ix s" using assms(5) GTaken by (simp add: grpc_record_def Let_def)
      then show ?thesis using assms(1) full_check [OF assms(2) GTaken True] by (simp add: calls_wf_def)
    next
      case False
      then show ?thesis using assms(3,5) GTaken ok
        by (auto simp: grpc_record_def Let_def calls_ok_def rec_check_def intro!: upd)
    qed
  qed (use assms(3-5) ok in \<open>auto simp: grpc_record_def Let_def calls_ok_def stream_mode_def split: if_splits intro!: upd\<close>)
qed

lemma grpc_call_wf:
  assumes agree: "grpc_agree M N c sc" and wf: "calls_wf M N c sc s" and k: "k < length (gb_senders s)" and run: "\<not> exited s"
    and mode: "\<not> stream_mode c" and step: "grpc_call_step nu c k now j s = Some s'"
  shows "calls_wf M N c sc s'"
proof -
  let ?th = "gb_senders s ! k"
  have ok: "calls_ok M c sc ?th" and kN: "k < N" using wf k by (simp_all add: calls_wf_def)
  have M: "grpc_count c = int M" "0 \<le> go_msg_size c" using agree by (simp_all add: grpc_agree_def)
  note upd = calls_wf_update [OF wf _ _ _ _ k]
  note other = grpc_begin_calls [OF wf k run M(2)] grpc_record_calls [OF wf k run mode]
  show ?thesis
  proof (cases "gp_pc ?th")
    case (GSend i)
    show ?thesis
    proof (cases "i < M")
      case True
      let ?th' = "?th\<lparr>gp_pc := GSend (Suc i), gp_calls := gp_calls ?th @ [grpc_request c k i]\<rparr>"
      have "s' = set_grpc k ?th' s" using step GSend True M by (simp add: grpc_call_step_def Let_def)
      moreover have "calls_ok M c sc ?th'"
        using ok GSend True grpc_serves_request [OF agree kN, of i] M by (auto simp: calls_ok_def split: prod.splits)
      ultimately show ?thesis using run by (intro upd [of s' ?th']) simp_all
    next
      case False
      then have "s' = set_grpc k (?th\<lparr>gp_pc := GRecv 0\<rparr>) s" "calls_ok M c sc (?th\<lparr>gp_pc := GRecv 0\<rparr>)"
        using step GSend M ok by (auto simp: grpc_call_step_def Let_def calls_ok_def)
      then show ?thesis using run by (intro upd [of s' "?th\<lparr>gp_pc := GRecv 0\<rparr>"]) simp_all
    qed
  next
    case (GRecv r)
    show ?thesis
    proof (cases "r < M")
      case True
      have j: "j < length (gp_queue ?th)" using step GRecv True M by (auto simp: grpc_call_step_def Let_def split: if_splits)
      let ?th' = "?th\<lparr>gp_pc := GRecv (Suc r), gp_queue := take j (gp_queue ?th) @ drop (Suc j) (gp_queue ?th)\<rparr>"
      have "case gp_queue ?th ! j of (okay, m) \<Rightarrow> okay \<and> int (length (sm_msg m)) = go_msg_size c"
        using ok nth_mem [OF j] by (auto simp: calls_ok_def)
      then have "s' = set_grpc k ?th' s" using step GRecv True M j by (auto simp: grpc_call_step_def Let_def split: prod.splits)
      moreover have "calls_ok M c sc ?th'"
        using ok GRecv True j take_drop_nth_set [of j "gp_queue ?th"] by (auto simp: calls_ok_def)
      ultimately show ?thesis using run by (intro upd [of s' ?th']) simp_all
    next
      case False
      then have "r = M" using ok GRecv by (simp add: calls_ok_def)
      then show ?thesis using step GRecv M ok run by (auto simp: grpc_call_step_def Let_def calls_ok_def intro!: upd)
    qed
  qed (use step other in \<open>auto simp: grpc_call_step_def Let_def split: option.splits\<close>)
qed

lemma grpc_execute_wf:
  assumes wf: "calls_wf M N c sc s" and k: "k < length (gb_senders s)" and step: "grpc_execute sc k j False s = Some s'"
  shows "calls_wf M N c sc s'"
proof -
  let ?th = "gb_senders s ! k"
  have ok: "calls_ok M c sc ?th" using wf k by (simp add: calls_wf_def)
  have j: "j < length (gp_calls ?th)" using step by (simp add: grpc_execute_def Let_def split: if_splits)
  obtain port m where pm: "gp_calls ?th ! j = (port, m)" by fastforce
  then have m: "grpc_serves sc port" "int (length (sm_msg m)) = go_msg_size c" using ok nth_mem [OF j] by (auto simp: calls_ok_def)
  let ?th' = "?th\<lparr>gp_calls := take j (gp_calls ?th) @ drop (Suc j) (gp_calls ?th), gp_queue := gp_queue ?th @ [(True, IpcBench_PingPong m)]\<rparr>"
  have "s' = set_grpc k ?th' s" using step j pm m by (simp add: grpc_execute_def Let_def)
  moreover have "calls_ok M c sc ?th'"
    using ok j m take_drop_nth_set [of j "gp_calls ?th"] by (auto simp: calls_ok_def IpcBench_PingPong_def split: grpc_pc.splits)
  ultimately show ?thesis by (intro calls_wf_update [OF wf _ _ _ _ k, of s' ?th']) simp_all
qed

lemma grpc_handler_keeps:
  assumes "calls_wf M N c sc s" "k < length (gb_senders s)" "grpc_handler_step cap k failed s = Some s'"
  shows "calls_wf M N c sc s'"
proof -
  have "calls_ok M c sc (gb_senders s ! k)" using assms(1,2) by (simp add: calls_wf_def)
  then have "calls_ok M c sc ((gb_senders s ! k)\<lparr>gp_stream := st\<rparr>)" for st
    by (simp add: calls_ok_def split: grpc_pc.splits)
  then show ?thesis using assms(3)
    by (auto simp: grpc_handler_step_def Let_def split: handler_pc.splits list.splits if_splits
        intro!: calls_wf_update [OF assms(1) _ _ _ _ assms(2)])
qed

lemma calls_reach:
  assumes "(grpc_step nu cap c sc False file_ok)\<^sup>*\<^sup>* (grpc_start c sc t0 now) s" "grpc_agree M N c sc" "\<not> stream_mode c"
  shows "calls_wf M N c sc s"
  using assms(1)
proof (induction rule: rtranclp_induct)
  case base
  then show ?case using assms(2)
    by (auto simp: calls_wf_def grpc_agree_def grpc_start_def recorder.extend_def rec_start_def new_grpc_sender_def calls_ok_def)
next
  case (step s s')
  from step.hyps(2) show ?case
  proof (cases rule: grpc_step.cases)
    case (caller k now j)
    then show ?thesis using grpc_call_wf [OF assms(2) step.IH _ _ assms(3)] by blast
  next
    case (streamer k now)
    then show ?thesis using assms(3) by (simp add: stream_mode_def)
  next
    case (call k failed j)
    then show ?thesis using grpc_execute_wf [OF step.IH] by (cases failed) auto
  next
    case (handler k failed)
    then show ?thesis using grpc_handler_keeps [OF step.IH] by blast
  next
    case (main now)
    then show ?thesis using step.IH
      by (auto simp: grpc_main_step_def calls_wf_def array_full_def rec_mark_def rec_process_def Let_def split: main_pc.splits if_splits)
  qed
qed

subsection \<open>Streams\<close>

lemma narrow32_mod:
  assumes "M dvd 2 ^ 32"
  shows "narrow32 x mod int M = x mod int M"
proof -
  have "int M dvd 2 ^ 32" using assms by (metis of_nat_dvd_iff of_nat_numeral of_nat_power)
  then have "((x + 2 ^ 31) mod 2 ^ 32) mod int M = (x + 2 ^ 31) mod int M" by (rule mod_mod_cancel)
  then have "((x + 2 ^ 31) mod 2 ^ 32 - 2 ^ 31) mod int M = (x + 2 ^ 31 - 2 ^ 31) mod int M" by (metis mod_diff_left_eq)
  then show ?thesis by (simp add: narrow32_def)
qed

lemma c_rem_dvd: "b \<noteq> 0 \<Longrightarrow> c_rem a b = 0 \<longleftrightarrow> b dvd a"
  by (auto simp: c_rem_def dvd_eq_mod_eq_0 [symmetric] sgn_eq_0_iff)

lemma mod_next:
  fixes x :: int
  assumes "0 < M"
  shows "int M dvd x + 1 \<longleftrightarrow> Suc (nat (x mod int M)) = M" "\<not> int M dvd x + 1 \<Longrightarrow> nat ((x + 1) mod int M) = Suc (nat (x mod int M))"
proof -
  have m: "0 \<le> x mod int M" "x mod int M < int M" using assms by simp_all
  have eq: "(x + 1) mod int M = (x mod int M + 1) mod int M" by (simp add: mod_add_left_eq)
  show "int M dvd x + 1 \<longleftrightarrow> Suc (nat (x mod int M)) = M"
  proof (cases "x mod int M + 1 = int M")
    case True
    then show ?thesis using eq m by (simp add: dvd_eq_mod_eq_0)
  next
    case False
    then have "(x mod int M + 1) mod int M = x mod int M + 1" using m by (intro mod_pos_pos_trivial) linarith+
    then show ?thesis using eq m False by (simp add: dvd_eq_mod_eq_0)
  qed
  assume "\<not> int M dvd x + 1"
  then have "x mod int M + 1 \<noteq> int M" using eq by (auto simp: dvd_eq_mod_eq_0)
  then have "(x mod int M + 1) mod int M = x mod int M + 1" using m by (intro mod_pos_pos_trivial) linarith+
  then show "nat ((x + 1) mod int M) = Suc (nat (x mod int M))" using eq m by simp
qed

text \<open>One message of the batch read by the handler.\<close>

lemma handler_got_batch:
  assumes "handler_ok M c h" "sh_pc h = HRead" "0 < M" "M dvd 2 ^ 32" "go_numMessages c = int M" "m = batch_msg c"
  shows "handler_ok M c (handler_got m h)" "handler_received M (handler_got m h) = Suc (handler_received M h)"
    "handler_replied (sh_pc (handler_got m h)) = 0" "sh_batches (handler_got m h) = sh_batches h"
    "sh_pc (handler_got m h) = HRead \<or> sh_pc (handler_got m h) = HWrite 0"
proof -
  let ?r = "narrow32 (sh_recvdCnt h + 1)"
  have sid: "sm_senderid m = int M" "m = \<lparr>sm_senderid = int M, sm_msg = msgbuff c\<rparr>" using assms(5,6) by (simp_all add: batch_msg_def)
  define h2 where "h2 = h\<lparr>sh_numMessages := int M, sh_reply := batch_msg c, sh_recvdCnt := ?r\<rparr>"
  have num: "sh_numMessages h = - 1 \<or> sh_numMessages h = int M \<and> sh_reply h = batch_msg c" using assms(1) by (simp add: handler_ok_def)
  have got: "handler_got m h = (if int M dvd ?r then h2\<lparr>sh_pc := HWrite 0\<rparr> else h2)"
    using num assms(3,6) sid c_rem_dvd [of "int M" ?r]
    by (auto simp: handler_got_def Let_def h2_def batch_msg_def assms(5))
  have dvd: "int M dvd ?r \<longleftrightarrow> int M dvd sh_recvdCnt h + 1"
    using narrow32_mod [OF assms(4), of "sh_recvdCnt h + 1"] by (simp add: dvd_eq_mod_eq_0)
  have rec: "handler_received M h = nat (sh_recvdCnt h mod int M)" using assms(2) by (simp add: handler_received_def)
  show "handler_ok M c (handler_got m h)" using assms(2) by (simp add: got handler_ok_def h2_def)
  show "handler_replied (sh_pc (handler_got m h)) = 0" "sh_batches (handler_got m h) = sh_batches h"
    "sh_pc (handler_got m h) = HRead \<or> sh_pc (handler_got m h) = HWrite 0"
    using assms(2) by (simp_all add: got h2_def)
  show "handler_received M (handler_got m h) = Suc (handler_received M h)"
    using mod_next [OF assms(3), of "sh_recvdCnt h"] dvd assms(2) narrow32_mod [OF assms(4), of "sh_recvdCnt h + 1"]
    by (simp add: got rec handler_received_def h2_def)
qed

lemma stream_move:
  assumes "gb_senders s' = (gb_senders s)[k := th]" "stream_ok M c th" "\<not> exited s'"
    and "stream_view M th = stream_view M (gb_senders s ! k) \<or> pp_step M (stream_view M (gb_senders s ! k)) (stream_view M th)"
  shows "stream_moves M c k s s'"
  using assms by (auto simp: stream_moves_def)

lemma grpc_handler_moves:
  assumes wf: "stream_ok M c (gb_senders s ! k)" "exited s \<Longrightarrow> array_full s" and k: "k < length (gb_senders s)"
    and M: "0 < M" "M dvd 2 ^ 32" "go_numMessages c = int M" and step: "grpc_handler_step cap k False s = Some s'"
  shows "stream_moves M c k s s'"
proof -
  let ?th = "gb_senders s ! k" and ?st = "gp_stream (gb_senders s ! k)" and ?h = "st_handler (gp_stream (gb_senders s ! k))"
  have hok: "handler_ok M c ?h" and up: "set (st_up ?st) \<subseteq> {batch_msg c}"
    and flow: "all_got M (stream_view M ?th) + length (st_up ?st) = all_sent M (stream_view M ?th)"
    using wf(1) by (simp_all add: stream_ok_def Let_def)
  have move: "stream_moves M c k s s'" if s': "s' = set_grpc k (?th\<lparr>gp_stream := st\<rparr>) s" and "stream_ok M c (?th\<lparr>gp_stream := st\<rparr>)"
    "stream_view M (?th\<lparr>gp_stream := st\<rparr>) = stream_view M ?th \<or> pp_step M (stream_view M ?th) (stream_view M (?th\<lparr>gp_stream := st\<rparr>))" for st
  proof -
    have "array_full s'" if "exited s'"
      using that wf(2) array_full_update [of s s' k "?th\<lparr>gp_stream := st\<rparr>"] k s' by simp
    then show ?thesis using that by (auto simp: stream_moves_def)
  qed
  show ?thesis
  proof (cases "sh_pc ?h")
    case HRead
    show ?thesis
    proof (cases "st_up ?st")
      case Nil
      then have "st_writesDone ?st" "s' = set_grpc k (?th\<lparr>gp_stream := ?st\<lparr>st_handler := ?h\<lparr>sh_pc := HClosed True\<rparr>\<rparr>\<rparr>) s"
        using step HRead by (auto simp: grpc_handler_step_def Let_def split: if_splits)
      then show ?thesis using wf(1) HRead
        by (intro move [of "?st\<lparr>st_handler := ?h\<lparr>sh_pc := HClosed True\<rparr>\<rparr>"])
          (auto simp: stream_ok_def Let_def handler_ok_def stream_view_def handler_received_def totals split: grpc_pc.splits)
    next
      case (Cons m ms)
      then have m: "m = batch_msg c" using up by simp
      note hg = handler_got_batch [OF hok HRead M m]
      let ?st' = "?st\<lparr>st_up := ms, st_handler := handler_got m ?h\<rparr>"
      have s': "s' = set_grpc k (?th\<lparr>gp_stream := ?st'\<rparr>) s" using step HRead Cons by (simp add: grpc_handler_step_def Let_def)
      have v: "stream_view M (?th\<lparr>gp_stream := ?st'\<rparr>) = (stream_view M ?th)\<lparr>s_got := s_got (stream_view M ?th) + 1\<rparr>"
        using hg HRead by (simp add: stream_view_def)
      have less: "s_got (stream_view M ?th) < M"
        using HRead M(1) by (simp add: stream_view_def handler_received_def nat_less_iff)
      have "pp_step M (stream_view M ?th) ((stream_view M ?th)\<lparr>s_got := s_got (stream_view M ?th) + 1\<rparr>)"
        using less flow Cons HRead by (intro pp_step.get) (simp_all add: stream_view_def)
      moreover have "stream_ok M c (?th\<lparr>gp_stream := ?st'\<rparr>)"
        using wf(1) hg Cons HRead v by (auto simp: stream_ok_def Let_def totals stream_view_def split: grpc_pc.splits)
      ultimately show ?thesis using v by (intro move [OF s']) simp_all
    qed
  next
    case (HWrite i)
    have h: "i \<le> M" "sh_numMessages ?h = int M" "int M dvd sh_recvdCnt ?h" "sh_reply ?h = batch_msg c"
      using hok HWrite by (auto simp: handler_ok_def)
    show ?thesis
    proof (cases "i < M")
      case True
      let ?st' = "?st\<lparr>st_down := st_down ?st @ [sh_reply ?h], st_handler := ?h\<lparr>sh_pc := HWrite (Suc i)\<rparr>\<rparr>"
      have s': "s' = set_grpc k (?th\<lparr>gp_stream := ?st'\<rparr>) s"
        using step HWrite True h by (auto simp: grpc_handler_step_def Let_def split: if_splits)
      have v: "stream_view M (?th\<lparr>gp_stream := ?st'\<rparr>) = (stream_view M ?th)\<lparr>s_replied := s_replied (stream_view M ?th) + 1\<rparr>"
        using HWrite by (simp add: stream_view_def handler_received_def)
      have "pp_step M (stream_view M ?th) ((stream_view M ?th)\<lparr>s_replied := s_replied (stream_view M ?th) + 1\<rparr>)"
        using HWrite True by (intro pp_step.reply) (simp_all add: stream_view_def handler_received_def)
      moreover have "stream_ok M c (?th\<lparr>gp_stream := ?st'\<rparr>)"
        using wf(1) h HWrite True v
        by (auto simp: stream_ok_def Let_def totals stream_view_def handler_ok_def handler_received_def split: grpc_pc.splits)
      ultimately show ?thesis using v by (intro move [OF s']) simp_all
    next
      case False
      let ?st' = "?st\<lparr>st_handler := ?h\<lparr>sh_pc := HRead, sh_batches := Suc (sh_batches ?h)\<rparr>\<rparr>"
      have s': "s' = set_grpc k (?th\<lparr>gp_stream := ?st'\<rparr>) s"
        using step HWrite False h by (auto simp: grpc_handler_step_def Let_def split: if_splits)
      have i: "i = M" using False h(1) by simp
      have v: "stream_view M (?th\<lparr>gp_stream := ?st'\<rparr>) =
          (stream_view M ?th)\<lparr>s_round := Suc (s_round (stream_view M ?th)), s_got := 0, s_replied := 0\<rparr>"
        using h(3) by (simp add: stream_view_def handler_received_def dvd_eq_mod_eq_0)
      have "pp_step M (stream_view M ?th) ((stream_view M ?th)\<lparr>s_round := Suc (s_round (stream_view M ?th)), s_got := 0, s_replied := 0\<rparr>)"
        using HWrite i by (intro pp_step.again) (simp add: stream_view_def)
      moreover have "stream_ok M c (?th\<lparr>gp_stream := ?st'\<rparr>)"
        using wf(1) h HWrite i
        by (auto simp: stream_ok_def Let_def totals stream_view_def handler_ok_def handler_received_def dvd_eq_mod_eq_0 split: grpc_pc.splits)
      ultimately show ?thesis using v by (intro move [OF s']) simp_all
    qed
  qed (use step in \<open>simp_all add: grpc_handler_step_def Let_def\<close>)
qed

text \<open>Steps of the client that neither send nor receive.\<close>

lemma stream_pc_ok:
  assumes "stream_ok M c th" "\<not> grpc_in_round (gp_pc th)" "gp_pc th \<noteq> GFinish" "gp_pc th \<noteq> GEnd" "\<not> grpc_in_round p"
  shows "stream_ok M c (th\<lparr>gp_pc := p\<rparr>)" "stream_view M (th\<lparr>gp_pc := p\<rparr>) = stream_view M th"
proof -
  have p: "stream_sent M p = 0" "stream_back p = 0" "stream_sent M (gp_pc th) = 0" "stream_back (gp_pc th) = 0"
    using assms(2,5) by (cases p; cases "gp_pc th"; simp)+
  show v: "stream_view M (th\<lparr>gp_pc := p\<rparr>) = stream_view M th" using p by (simp add: stream_view_def)
  show "stream_ok M c (th\<lparr>gp_pc := p\<rparr>)" using assms v by (auto simp: stream_ok_def Let_def split: grpc_pc.splits)
qed

lemma stream_ok_times:
  "stream_ok M c (th\<lparr>gp_startTime := t\<rparr>) = stream_ok M c th" "stream_view M (th\<lparr>gp_startTime := t\<rparr>) = stream_view M th"
  "stream_ok M c (th\<lparr>gp_endTime := t\<rparr>) = stream_ok M c th" "stream_view M (th\<lparr>gp_endTime := t\<rparr>) = stream_view M th"
  by (simp_all add: stream_ok_def Let_def stream_view_def split: grpc_pc.split)

lemma grpc_stream_moves:
  assumes wf: "stream_ok M c (gb_senders s ! k)" "\<not> exited s" and inv: "pp_inv M (stream_view M (gb_senders s ! k))"
    and k: "k < length (gb_senders s)" and M: "0 < M" "go_numMessages c = int M" "0 \<le> go_msg_size c" "stream_mode c"
    and step: "grpc_stream_step nu cap c k now s = Some s'"
  shows "stream_moves M c k s s'"
proof -
  let ?th = "gb_senders s ! k" and ?st = "gp_stream (gb_senders s ! k)"
  note move = stream_move [of s' s k _ M c]
  have pcs: "stream_moves M c k s s'" if "gb_senders s' = (gb_senders s)[k := ?th\<lparr>gp_pc := p\<rparr>]" "\<not> exited s'"
    "\<not> grpc_in_round (gp_pc ?th)" "gp_pc ?th \<noteq> GFinish" "gp_pc ?th \<noteq> GEnd" "\<not> grpc_in_round p" for p
    by (rule move [OF that(1) _ that(2)]) (use stream_pc_ok [OF wf(1) that(3-6)] in blast)+
  have flow: "all_back M (stream_view M ?th) + length (st_down ?st) = all_replied M (stream_view M ?th)"
    using wf(1) by (simp add: stream_ok_def Let_def)
  have closed: "sh_pc (st_handler ?st) \<noteq> HCrashed" "sh_pc (st_handler ?st) \<noteq> HClosed False"
    "sh_pc (st_handler ?st) = HClosed True \<Longrightarrow> gp_pc ?th = GFinish \<or> gp_pc ?th = GEnd"
    using wf(1) by (auto simp: stream_ok_def Let_def handler_ok_def)
  show ?thesis
  proof (cases "gp_pc ?th")
    case GTop
    then have "s' = set_grpc k (?th\<lparr>gp_pc := GSend 0, gp_startTime := now\<rparr>) s"
      using step by (simp add: grpc_stream_step_def grpc_begin_def Let_def)
    then show ?thesis using GTop wf
      by (intro move [of "?th\<lparr>gp_pc := GSend 0, gp_startTime := now\<rparr>"])
        (auto simp: stream_ok_times, auto simp: stream_ok_def Let_def stream_view_def)
  next
    case (GSend i)
    have le: "i \<le> M" using wf(1) GSend by (simp add: stream_ok_def Let_def)
    show ?thesis
    proof (cases "i < M")
      case True
      let ?th' = "?th\<lparr>gp_pc := GSend (Suc i), gp_stream := ?st\<lparr>st_up := st_up ?st @ [batch_msg c]\<rparr>\<rparr>"
      have "\<not> handler_over (sh_pc (st_handler ?st))"
        using closed GSend by (cases "sh_pc (st_handler ?st)" rule: handler_over.cases) auto
      then have s': "s' = set_grpc k ?th' s"
        using step GSend True M(2) by (auto simp: grpc_stream_step_def Let_def batch_msg_def split: if_splits)
      have v: "stream_view M ?th' = (stream_view M ?th)\<lparr>c_sent := c_sent (stream_view M ?th) + 1\<rparr>" using GSend by (simp add: stream_view_def)
      have "pp_step M (stream_view M ?th) ((stream_view M ?th)\<lparr>c_sent := c_sent (stream_view M ?th) + 1\<rparr>)"
        using GSend True by (intro pp_step.send) (simp_all add: stream_view_def)
      moreover have "stream_ok M c ?th'" using wf(1) GSend True by (auto simp: stream_ok_def Let_def totals stream_view_def)
      ultimately show ?thesis using v wf(2) by (intro move [of ?th']) (simp_all add: s')
    next
      case False
      then have "s' = set_grpc k (?th\<lparr>gp_pc := GRecv 0\<rparr>) s" using step GSend M(2) by (simp add: grpc_stream_step_def Let_def)
      then show ?thesis using False le GSend wf
        by (intro move [of "?th\<lparr>gp_pc := GRecv 0\<rparr>"]) (auto simp: stream_ok_def Let_def stream_view_def totals)
    qed
  next
    case (GRecv r)
    show ?thesis
    proof (cases "r < M")
      case True
      obtain m ms where d: "st_down ?st = m # ms"
        using step GRecv True M(2) closed
        by (cases "st_down ?st"; cases "sh_pc (st_handler ?st)") (auto simp: grpc_stream_step_def Let_def)
      let ?th' = "?th\<lparr>gp_pc := GRecv (Suc r), gp_reply := m, gp_stream := ?st\<lparr>st_down := ms\<rparr>\<rparr>"
      have s': "s' = set_grpc k ?th' s" using step GRecv True M(2) d by (simp add: grpc_stream_step_def Let_def)
      have v: "stream_view M ?th' = (stream_view M ?th)\<lparr>c_back := c_back (stream_view M ?th) + 1\<rparr>" using GRecv by (simp add: stream_view_def)
      have "pp_step M (stream_view M ?th) ((stream_view M ?th)\<lparr>c_back := c_back (stream_view M ?th) + 1\<rparr>)"
        using GRecv True flow d by (intro pp_step.take) (simp_all add: stream_view_def)
      moreover have "stream_ok M c ?th'" using wf(1) GRecv True d by (auto simp: stream_ok_def Let_def totals stream_view_def)
      ultimately show ?thesis using v wf(2) by (intro move [of ?th']) (simp_all add: s')
    next
      case False
      have r: "r = M" using inv False GRecv by (simp add: pp_inv_def stream_view_def)
      then have "gp_reply ?th = batch_msg c" using wf(1) GRecv M(1) by (simp add: stream_ok_def Let_def)
      then have len: "int (length (sm_msg (gp_reply ?th))) = go_msg_size c" using M(3) by (simp add: batch_msg_def msgbuff_def)
      let ?th' = "?th\<lparr>gp_pc := GTake, gp_endTime := now, gp_rounds := Suc (gp_rounds ?th)\<rparr>"
      have s': "s' = set_grpc k ?th' s" using step GRecv r M(2) len by (simp add: grpc_stream_step_def Let_def)
      have v: "stream_view M ?th' = (stream_view M ?th)\<lparr>c_round := Suc (c_round (stream_view M ?th)), c_sent := 0, c_back := 0\<rparr>"
        by (simp add: stream_view_def)
      have "pp_step M (stream_view M ?th) ((stream_view M ?th)\<lparr>c_round := Suc (c_round (stream_view M ?th)), c_sent := 0, c_back := 0\<rparr>)"
        using GRecv r by (intro pp_step.finish) (simp_all add: stream_view_def)
      moreover have "stream_ok M c ?th'" using wf(1) GRecv r by (auto simp: stream_ok_def Let_def totals stream_view_def)
      ultimately show ?thesis using v wf(2) by (intro move [of ?th']) (simp_all add: s')
    qed
  next
    case (GTaken ix)
    show ?thesis
    proof (cases "kMaxEntries \<le> unat ix")
      case True
      then have "s' = rec_check k ix s" using step GTaken by (simp add: grpc_stream_step_def grpc_begin_def grpc_record_def Let_def)
      then show ?thesis using wf(1) full_check [OF k GTaken True] unfolding stream_moves_def by (intro exI [of _ ?th]) simp
    next
      case False
      then have "s' = set_grpc k (?th\<lparr>gp_pc := GHold ix\<rparr>) (rec_check k ix s)" "\<not> exited (rec_check k ix s)"
        using step GTaken wf(2) by (auto simp: grpc_stream_step_def grpc_begin_def grpc_record_def Let_def rec_check_def)
      then show ?thesis using GTaken by (intro pcs [of "GHold ix"]) simp_all
    qed
  next
    case GCond
    show ?thesis
    proof (cases "gb_mainFinished s")
      case True
      let ?th' = "?th\<lparr>gp_pc := GFinish, gp_stream := ?st\<lparr>st_writesDone := True\<rparr>\<rparr>"
      have "s' = set_grpc k ?th' s"
        using step GCond True M(4) by (simp add: grpc_stream_step_def grpc_begin_def grpc_record_def Let_def stream_mode_def)
      then show ?thesis using GCond wf by (intro move [of ?th']) (auto simp: stream_ok_def Let_def stream_view_def)
    next
      case False
      then have "s' = set_grpc k (?th\<lparr>gp_pc := GTop\<rparr>) s"
        using step GCond by (simp add: grpc_stream_step_def grpc_begin_def grpc_record_def Let_def)
      then show ?thesis using GCond wf(2) by (intro pcs [of GTop]) simp_all
    qed
  next
    case GFinish
    then have "s' = set_grpc k (?th\<lparr>gp_pc := GEnd\<rparr>) (rec_end k s)"
      using step closed by (auto simp: grpc_stream_step_def Let_def split: handler_pc.splits bool.splits)
    then show ?thesis using GFinish wf
      by (intro move [of "?th\<lparr>gp_pc := GEnd\<rparr>"]) (auto simp: stream_ok_def Let_def stream_view_def)
  next
    case GStart
    then have "s' = set_grpc k (?th\<lparr>gp_pc := GBarrier\<rparr>) s" using step M(3) by (simp add: grpc_stream_step_def grpc_begin_def Let_def)
    then show ?thesis using GStart wf(2) by (intro pcs [of GBarrier]) simp_all
  next
    case GBarrier
    then have "s' = set_grpc k (?th\<lparr>gp_pc := GTop\<rparr>) s"
      using step by (auto simp: grpc_stream_step_def grpc_begin_def grpc_record_def Let_def split: if_splits)
    then show ?thesis using GBarrier wf(2) by (intro pcs [of GTop]) simp_all
  next
    case GTake
    then have "s' = set_grpc k (?th\<lparr>gp_pc := GTaken (arrayIndex s)\<rparr>) (rec_take k s)"
      using step by (simp add: grpc_stream_step_def grpc_begin_def grpc_record_def Let_def)
    then show ?thesis using GTake wf(2) by (intro pcs [of "GTaken (arrayIndex s)"]) simp_all
  next
    case (GHold ix)
    then obtain x where "s' = set_grpc k (?th\<lparr>gp_pc := GCond\<rparr>) (rec_write k ix x s)"
      using step by (auto simp: grpc_stream_step_def grpc_begin_def grpc_record_def Let_def)
    then show ?thesis using GHold wf(2) by (intro pcs [of GCond]) simp_all
  next
    case GEnd
    then show ?thesis using step by (simp add: grpc_stream_step_def Let_def)
  qed
qed

lemma stream_moves_all:
  assumes "stream_moves M c k s s'" "streams_wf M N c s" "k < length (gb_senders s)"
  shows "streams_wf M N c s' \<and> (streams_view M i s' = streams_view M i s \<or> pp_step M (streams_view M i s) (streams_view M i s'))"
proof -
  obtain th where mv: "gb_senders s' = (gb_senders s)[k := th]" "stream_ok M c th" "exited s' \<longrightarrow> array_full s'"
    "stream_view M th = stream_view M (gb_senders s ! k) \<or> pp_step M (stream_view M (gb_senders s ! k)) (stream_view M th)"
    using assms(1) unfolding stream_moves_def by blast
  have "stream_ok M c x" if "x \<in> set (gb_senders s')" for x
    using that assms(2) mv(1,2) set_update_subset_insert [of "gb_senders s" k th] by (auto simp: streams_wf_def)
  then have "streams_wf M N c s'" using assms(2) mv(1,3) by (simp add: streams_wf_def)
  then show ?thesis using mv(1,4) assms(3) by (cases "i = k") (auto simp: streams_view_def)
qed

interpretation grpc_rounds: ping_pong_program "grpc_step nu cap c sc False file_ok"
    "\<lambda>s. grpc_agree M N c sc \<and> stream_mode c \<and> streams_wf M N c s" "streams_view M" M
  for nu cap c sc file_ok M N
proof
  fix s
  show "grpc_agree M N c sc \<and> stream_mode c \<and> streams_wf M N c s \<Longrightarrow> 0 < M" by (simp add: grpc_agree_def)
next
  fix s s' i
  assume a: "grpc_agree M N c sc \<and> stream_mode c \<and> streams_wf M N c s" and inv: "\<And>k. pp_inv M (streams_view M k s)"
    and step: "grpc_step nu cap c sc False file_ok s s'"
  then have wf: "streams_wf M N c s" and mode: "stream_mode c" and M: "0 < M" "M dvd 2 ^ 32" "0 \<le> go_msg_size c" "go_numMessages c = int M"
    by (auto simp: grpc_agree_def grpc_count_def stream_mode_def)
  have ok: "stream_ok M c (gb_senders s ! k)" if "k < length (gb_senders s)" for k using wf that by (simp add: streams_wf_def)
  have full: "exited s \<Longrightarrow> array_full s" using wf by (simp add: streams_wf_def)
  have pinv: "pp_inv M (stream_view M (gb_senders s ! k))" if "k < length (gb_senders s)" for k
    using inv [of k] that by (simp add: streams_view_def)
  from step have "streams_wf M N c s' \<and> (streams_view M i s' = streams_view M i s \<or> pp_step M (streams_view M i s) (streams_view M i s'))"
  proof (cases rule: grpc_step.cases)
    case (caller k now j)
    then show ?thesis using mode by (simp add: stream_mode_def)
  next
    case (streamer k now)
    then show ?thesis
      using stream_moves_all [OF grpc_stream_moves [OF ok _ pinv _ M(1,4,3) mode] wf] by blast
  next
    case (call k failed j)
    let ?th = "gb_senders s ! k"
    obtain cs q where s': "s' = set_grpc k (?th\<lparr>gp_calls := cs, gp_queue := q\<rparr>) s"
      using call(3) by (auto simp: grpc_execute_def Let_def split: if_splits prod.splits)
    have "stream_ok M c (?th\<lparr>gp_calls := cs, gp_queue := q\<rparr>)" "stream_view M (?th\<lparr>gp_calls := cs, gp_queue := q\<rparr>) = stream_view M ?th"
      using ok [OF call(1)] by (simp_all add: stream_ok_def Let_def stream_view_def split: grpc_pc.splits)
    moreover have "array_full s'" if "exited s'"
      using that full array_full_update [of s s' k "?th\<lparr>gp_calls := cs, gp_queue := q\<rparr>"] call(1) s' by simp
    ultimately have "stream_moves M c k s s'"
      unfolding stream_moves_def s' by (intro exI [of _ "?th\<lparr>gp_calls := cs, gp_queue := q\<rparr>"]) (simp add: s')
    then show ?thesis using stream_moves_all [OF _ wf call(1)] by blast
  next
    case (handler k failed)
    then have "stream_moves M c k s s'" using grpc_handler_moves [OF ok full _ M(1,2,4)] by (cases failed) auto
    then show ?thesis using stream_moves_all [OF _ wf handler(1)] by blast
  next
    case (main now)
    then have "gb_senders s' = gb_senders s" "exited s' = exited s"
      by (auto simp: grpc_main_step_def rec_mark_def rec_process_def Let_def split: main_pc.splits if_splits)
    then show ?thesis using wf by (simp add: streams_wf_def streams_view_def array_full_def)
  qed
  then show "grpc_agree M N c sc \<and> stream_mode c \<and> streams_wf M N c s'"
    "streams_view M i s' = streams_view M i s \<or> pp_step M (streams_view M i s) (streams_view M i s')"
    using a by simp_all
qed

lemma streams_start:
  assumes "grpc_agree M N c sc" "stream_mode c"
  shows "streams_wf M N c (grpc_start c sc t0 now)" "streams_view M k (grpc_start c sc t0 now) = pp_start"
proof -
  have serves: "grpc_serves sc (go_basePort c + int j)" if "j < N" for j
    using assms that by (simp add: grpc_agree_def grpc_serves_def stream_mode_def)
  have view: "stream_view M (new_grpc_sender c sc j) = pp_start" for j
    by (simp add: stream_view_def new_grpc_sender_def new_handler_def handler_received_def pp_start_def)
  have "stream_ok M c (new_grpc_sender c sc j)" if "j < N" for j
    using serves [OF that] view [of j]
    by (simp add: stream_ok_def Let_def new_grpc_sender_def new_handler_def handler_ok_def pp_start_def totals)
  then show "streams_wf M N c (grpc_start c sc t0 now)" "streams_view M k (grpc_start c sc t0 now) = pp_start"
    using assms(1) view by (auto simp: streams_wf_def streams_view_def grpc_agree_def grpc_start_def recorder.extend_def rec_start_def)
qed

text \<open>
  Where the size does not divide \<open>2 ^ 32\<close>: with batches of three the counter of the server overflows inside of a batch,
  which is then not answered.
\<close>

lemma stream_batch_lost:
  assumes "sh_pc h = HRead" "sh_numMessages h = 3" "sh_recvdCnt h = 2147483646" "sm_senderid m = 3"
  shows "sh_recvdCnt h mod 3 = 0" "sh_pc (handler_got m (handler_got m (handler_got m h))) = HRead"
  using assms by (simp_all add: handler_got_def Let_def narrow32_def c_rem_def)

subsection \<open>The benchmark\<close>



end
