(* ===== verification/Spec2Isabelle.thy ===== *)
theory Spec2Isabelle
  imports FIFO_Scheduler LocalFIFO_Scheduler SingleFIFOTask_Scheduler PushFIFO_Scheduler
    FIFOTask_Scheduler ScanTask_Scheduler Poll_Worker Spark_Threads HTTP_Worker
    Bench_Sync Bench_Async Load_Generator Synthetic_Worker HTTP_Server Comm_Bench DB_Bench TCP_Bench GRPC_Bench
begin

text \<open>
  A verification library for the DBOS scheduler.

  \<^bold>\<open>The program.\<close> Schedulers assign tasks to workers through a partitioned in-memory database. The
  database (\<open>src/sql\<close>) holds a worker table (capacity of each worker, its partition), a task table and
  messages; all changes are stored procedures. A scheduler (\<open>src/src/libs/lib_scheduler\<close>) calls a
  procedure that finds a worker with free capacity in a partition and takes one slot of it, and moves
  on to other partitions when there is none. Workers (\<open>src/src/libs/lib_worker\<close>) poll the database for
  tasks assigned to them, or receive them over HTTP or gRPC, execute them, mark them complete and give
  the slot back. Simulation programs (\<open>src/src/simulation\<close>) run schedulers, workers and load in many
  threads and report latencies.

  \<^bold>\<open>The theories\<close>, from the bottom up.

  \<^item> \<open>Prelude\<close>: crashes as values (a failed assertion, a division by zero, an exception nobody
    catches), C integers (\<open>int32_t\<close> narrowing, truncated division and remainder, \<open>fetch_add\<close> on
    \<open>uint32_t\<close>), \<open>for\<close> loops with early return, and the lemmas the components share. \<open>Text_Util\<close> has
    \<open>std::to_string\<close>, \<open>atoi\<close>, \<open>std::stoi\<close> and their round trips; \<open>Getopt\<close> has \<open>getopt\<close>.
  \<^item> \<open>Volt_Tables\<close>: the tables and every stored procedure (\<open>src/sql/*.java\<close>) as a function on tables.
    \<open>Volt_Client\<close>: the client side of an invocation. The database client is a library, so it is the
    parameter \<open>env\<close>: which invocations fail, what other clients do to the tables before each
    invocation, which row of several a query without order returns, how keys hash to partitions, and
    the values of \<open>rand()\<close>. Procedures run one at a time, as the database promises. Also
    \<open>VoltdbSchedulerUtil.cc/.h\<close>, \<open>Task.h\<close> and \<open>WorkerManager.cc\<close>.
  \<^item> \<open>Slots\<close>: the accounting of free capacity and open tasks. \<open>Probing\<close>: the locales of the ways a
    scheduler walks the partitions (linear from a random start; triangular steps, with a bounded number
    of rounds), with the lemmas on which partitions are met. \<open>Registration\<close>: the locale of the loop
    that registers workers.
  \<^item> \<open>FIFO_Scheduler\<close>, \<open>LocalFIFO_Scheduler\<close>, \<open>SingleFIFOTask_Scheduler\<close>, \<open>PushFIFO_Scheduler\<close>,
    \<open>FIFOTask_Scheduler\<close>, \<open>ScanTask_Scheduler\<close>: one theory for each scheduler class, each operation a
    definition with the name of the method. The theorems refine the selection of a worker to ``takes one
    slot if there is one'', count how many schedules succeed after \<open>setup\<close>, and show on which branches
    an operation fails.
  \<^item> \<open>Spark_Scheduler\<close>: \<open>SparkScheduler.cc\<close> and \<open>MockGRPCWorker.cc\<close>, operation by operation;
    \<open>Spark_Threads\<close>: its client, processing and finishing threads as an interleaving step relation with
    its mutex, condition variable and queue.
  \<^item> \<open>Poll_Worker\<close>: \<open>MockPollWorker.cc\<close>, the dispatcher, the executors and \<open>endServing\<close> as a step
    relation. \<open>HTTP_Worker\<close>: \<open>MockHTTPWorker.cc\<close>, and the round trip of a task through the push scheduler
    and this worker.
  \<^item> The HTTP server of this worker, \<open>httpserver.h\<close>. \<open>HTTP_Parser\<close>: the tables, the stream and \<open>http_parse\<close>, which
    continues where the last character that has arrived left it. \<open>HTTP_Scan\<close> and \<open>HTTP_Request\<close>: what the parser
    finds in the text of a request. \<open>HTTP_Session\<close>: the life of a connection, from the bytes read to the
    response written. \<open>HTTP_Buffer\<close> and \<open>HTTP_Serve\<close>: a request in any number of fragments is the request in one piece.
    \<open>HTTP_Reply\<close>: lookup of headers and the bytes of a response. \<open>HTTP_Total\<close>: the loops end on all
    input, the accounting of memory, and the locale \<open>http_application\<close>, the contract of a request handler.
    \<open>HTTP_Endpoint\<close>: the handler of \<open>MockHTTPWorker\<close>, which interprets that locale. \<open>HTTP_Server\<close>: the event
    loop with its connections and timers, and \<open>MockHTTPWorker::dispatch\<close>.
  \<^item> \<open>Scheduler_Class\<close>: the schedulers behind their base class, and \<open>SchedulerServer.cpp\<close>.
  \<^item> \<open>Bench_Util\<close>: \<open>BenchmarkUtil.cc\<close> and \<open>RandomGenerator.h\<close>. \<open>Bench_Recorder\<close>: the latency array that
    the benchmarks share, and the locale \<open>recording_program\<close>, which is interpreted by \<open>Bench_Sync\<close>
    (\<open>SyntheticScheduler.cc\<close>), \<open>Bench_Async\<close> (\<open>AsyncSyntheticScheduler.cc\<close>) and \<open>Load_Generator\<close>
    (\<open>LoadGenerator.cc\<close>), and by \<open>Comm_Bench\<close> (\<open>CommunicationBench.cc\<close>). \<open>Synthetic_Worker\<close>: \<open>SyntheticWorker.cc\<close>.
  \<^item> \<open>Ping_Pong\<close>: the protocol that the communication benchmarks measure, and the locale \<open>ping_pong_program\<close> of programs
    that follow it on several connections. \<open>DB_Bench\<close>: \<open>DBCommBenchClient.cc\<close> and \<open>DBCommBenchServer.cc\<close> as one step
    relation with the requests under way and the message table; \<open>TCP_Bench\<close>: \<open>TCPBenchClient.cc\<close> and \<open>TCPBenchServer.cc\<close>
    as one, with the bytes in the buffers of the kernel; \<open>GRPC_Bench\<close>: \<open>GrpcBenchClient.cc\<close> and \<open>GrpcBenchServer.cc\<close>
    as one, with the calls under way, the completion queues and the messages of the streams. All three interpret this locale
    and \<open>recording_program\<close>.

  \<^bold>\<open>What is shown.\<close> For the tables: a well-formed worker table stays so, and free capacity plus open
  tasks of a worker is conserved by every scheduler that records its tasks and by every worker step.
  For the schedulers: what selection returns on every branch under failures and interference, and the
  number of tasks a set-up database takes. For the threaded parts: invariants and accounting under
  every interleaving, freedom from deadlock where it holds, and the runs that get stuck where it does
  not. For the HTTP server: the handler gets exactly the request that was sent, however its bytes were
  cut, and the client the response; every event is handled to its end; the memory the server
  counts is what its sessions hold; a silent connection is ended. For the benchmarks: no entry of the array is shared or outside of it, every request is accounted
  for, statistics are those of the data, and options are read back as given; a round of the ping-pong
  through the database, over TCP or over gRPC is complete before the next begins, and over the first two nothing deadlocks
  unless a message is lost.

  \<^bold>\<open>Bounds.\<close> Task counters are 32-bit words and wrap; identifiers passed to the database are
  \<open>int32_t\<close>. \<open>MAXTRY\<close> rounds of the triangular walk and \<open>kMaxEntries\<close> entries are the constants of the
  code. The accounting of the benchmarks needs at most \<open>2 ^ 31\<close> threads, so that the array index does
  not wrap before the bounds check stops the program. The server of the gRPC benchmark counts the messages of a stream in an
  \<open>int\<close>, so the size of a batch has to divide \<open>2 ^ 32\<close>; \<open>stream_batch_lost\<close> shows what happens otherwise. The only loop of the schedulers that may not end is
  the polling of \<open>SparkScheduler::selectWorker\<close>, which has fuel: \<open>Spark_selectWorker_spec\<close> shows that
  it ends once the random walk meets a partition with a slot. The loop of \<open>http_parse\<close> has fuel for one round
  more than there are unread characters, and the loop over the tokens of a session for two more;
  \<open>worker_dispatch_total\<close> rests on the proof that this is enough. Floating point is real arithmetic with
  a rounding function \<open>dbl\<close> after each operation; where it matters, \<open>ieee_rounding\<close> states what is used of
  the IEEE format.

  \<^bold>\<open>Not modelled.\<close> Of \<open>httpserver.h\<close>: responses in chunks and streamed request bodies handed to the application
  (no caller), the variant for kqueue, and the system calls that create sockets, timers and the epoll
  instance. The test programs, the exporter and scripts, and third-party code; the gRPC library and the transport below it are
  what the steps of the servers in \<open>GRPC_Bench\<close> and \<open>Spark_Threads\<close> say of them. Printing, logging and usage texts have no model; sleeping has no
  effect but on the clock, whose value is an input of the steps that read it.
\<close>

end
